(* ===== verification/Prelude.thy ===== *)
theory Prelude
  imports Main "HOL-Library.Word" "HOL-Library.AList"
begin

text \<open>
  Shared material of the development: saturating machine arithmetic, the two selection
  functions of Rust's iterators, association lists with distinct keys for the hash maps of the
  program, and the interface of the eviction loops that every bounded container of the program
  runs.

  A \<open>HashMap\<close> is an association list with distinct keys. Its order stands for the iteration
  order of the map, which Rust leaves open; every lemma is about an arbitrary order.
\<close>

named_theorems orchion_inv \<open>preservation of the invariants of the components\<close>
named_theorems orchion_simps \<open>defining equations that the component proofs unfold\<close>

section \<open>Machine integers\<close>

type_synonym u64 = "64 word"
type_synonym i32 = "32 word"
type_synonym u32 = "32 word"
type_synonym u16 = "16 word"

definition usize_max :: nat where
  "usize_max = 18446744073709551615"

text \<open>\<open>usize\<close> and \<open>u64\<close> counters that the code only adds to with \<open>saturating_add\<close> are
  natural numbers that stop at the largest 64-bit value; \<open>saturating_sub\<close> is the truncated
  subtraction of \<open>nat\<close>.\<close>

definition sat_add :: "nat \<Rightarrow> nat \<Rightarrow> nat" where
  "sat_add a b = min (a + b) usize_max"

definition sat_mul :: "nat \<Rightarrow> nat \<Rightarrow> nat" where
  "sat_mul a b = min (a * b) usize_max"

lemma sat_add_le [simp]: "sat_add a b \<le> a + b"
  by (simp add: sat_add_def)

lemma sat_add_exact: "a + b \<le> usize_max \<Longrightarrow> sat_add a b = a + b"
  by (simp add: sat_add_def)

lemma sat_add_bound [simp]: "sat_add a b \<le> usize_max"
  by (simp add: sat_add_def)

lemma sat_add_less_max: "sat_add a b < usize_max \<Longrightarrow> sat_add a b = a + b"
  by (auto simp: sat_add_def min_def split: if_splits)

text \<open>\<open>div_ceil\<close> of Rust on unsigned integers.\<close>

definition div_ceil :: "nat \<Rightarrow> nat \<Rightarrow> nat" where
  "div_ceil a b = (a + (b - 1)) div b"

lemma div_ceil_pos: "0 < a \<Longrightarrow> 0 < b \<Longrightarrow> 0 < div_ceil a b"
  by (simp add: div_ceil_def div_greater_zero_iff)

lemma div_ceil_mult: "0 < b \<Longrightarrow> a \<le> div_ceil a b * b"
proof -
  assume b: "0 < b"
  have "(a + (b - 1)) mod b < b" using b by simp
  moreover have "a + (b - 1) = (a + (b - 1)) div b * b + (a + (b - 1)) mod b" by simp
  ultimately show ?thesis unfolding div_ceil_def by linarith
qed

lemma div_ceil_le: "0 < b \<Longrightarrow> a \<le> c * b \<Longrightarrow> div_ceil a b \<le> c"
proof -
  assume b: "0 < b" and "a \<le> c * b"
  then have "a + (b - 1) < (c + 1) * b" by (simp add: algebra_simps)
  then have "(a + (b - 1)) div b < c + 1" using b by (simp add: div_less_iff_less_mult)
  then show ?thesis by (simp add: div_ceil_def)
qed

lemma unat_add_one_no_wrap: "c \<noteq> - 1 \<Longrightarrow> unat (c + 1) = Suc (unat c)" for c :: "'a::len word"
  by (metis Suc_eq_plus1 add.commute add_eq_0_iff unatSuc)

section \<open>Selection by key\<close>

text \<open>\<open>Iterator::min_by_key\<close> returns the first of the least elements,
  \<open>Iterator::max_by_key\<close> the last of the greatest.\<close>

fun min_by_key :: "('a \<Rightarrow> 'k::linorder) \<Rightarrow> 'a list \<Rightarrow> 'a option" where
  "min_by_key f [] = None"
| "min_by_key f (x # xs) =
     (case min_by_key f xs of
        None \<Rightarrow> Some x
      | Some y \<Rightarrow> if f x \<le> f y then Some x else Some y)"

fun max_by_key :: "('a \<Rightarrow> 'k::linorder) \<Rightarrow> 'a list \<Rightarrow> 'a option" where
  "max_by_key f [] = None"
| "max_by_key f (x # xs) =
     (case max_by_key f xs of
        None \<Rightarrow> Some x
      | Some y \<Rightarrow> if f y < f x then Some x else Some y)"

lemma min_by_key_None [simp]: "min_by_key f xs = None \<longleftrightarrow> xs = []"
  by (cases xs) (auto split: option.splits)

lemma max_by_key_None [simp]: "max_by_key f xs = None \<longleftrightarrow> xs = []"
  by (cases xs) (auto split: option.splits)

lemma min_by_key_SomeD:
  "min_by_key f xs = Some x \<Longrightarrow> x \<in> set xs \<and> (\<forall>y \<in> set xs. f x \<le> f y)"
  by (induction xs arbitrary: x) (force split: option.splits if_splits)+

lemma max_by_key_SomeD:
  "max_by_key f xs = Some x \<Longrightarrow> x \<in> set xs \<and> (\<forall>y \<in> set xs. f y \<le> f x)"
  by (induction xs arbitrary: x) (force split: option.splits if_splits)+

lemma min_by_key_ex: "xs \<noteq> [] \<Longrightarrow> \<exists>x. min_by_key f xs = Some x"
  by (cases "min_by_key f xs") auto

lemma max_by_key_ex: "xs \<noteq> [] \<Longrightarrow> \<exists>x. max_by_key f xs = Some x"
  by (cases "max_by_key f xs") auto

text \<open>\<open>Vec::remove\<close> and \<open>Iterator::position\<close>.\<close>

definition remove_at :: "nat \<Rightarrow> 'a list \<Rightarrow> 'a list" where
  "remove_at i xs = take i xs @ drop (Suc i) xs"

fun position :: "('a \<Rightarrow> bool) \<Rightarrow> 'a list \<Rightarrow> nat option" where
  "position p [] = None"
| "position p (x # xs) = (if p x then Some 0 else map_option Suc (position p xs))"

lemma position_None: "position p xs = None \<longleftrightarrow> (\<forall>x \<in> set xs. \<not> p x)"
  by (induction xs) auto

lemma position_Some: "position p xs = Some i \<Longrightarrow> i < length xs \<and> p (xs ! i)"
  by (induction xs arbitrary: i) (auto split: if_splits)

lemma length_remove_at [simp]: "i < length xs \<Longrightarrow> length (remove_at i xs) = length xs - 1"
  by (simp add: remove_at_def)

lemma set_remove_at_subset: "set (remove_at i xs) \<subseteq> set xs"
  by (auto simp: remove_at_def dest: in_set_takeD in_set_dropD)

lemma remove_at_split: "i < length xs \<Longrightarrow> xs = take i xs @ xs ! i # drop (Suc i) xs"
  by (rule id_take_nth_drop)

lemma sum_list_remove_at:
  "i < length xs \<Longrightarrow> sum_list (map f (remove_at i xs)) + f (xs ! i) = sum_list (map (f :: 'a \<Rightarrow> nat) xs)"
proof -
  assume "i < length xs"
  then have "sum_list (map f xs) = sum_list (map f (take i xs @ xs ! i # drop (Suc i) xs))"
    using remove_at_split by metis
  then show ?thesis by (simp add: remove_at_def)
qed

lemma distinct_map_remove_at: "distinct (map f xs) \<Longrightarrow> distinct (map f (remove_at i xs))"
proof -
  assume d: "distinct (map f xs)"
  have "map f (remove_at i xs) = take i (map f xs) @ drop (Suc i) (map f xs)"
    by (simp add: remove_at_def take_map drop_map)
  then show ?thesis
    using d by (simp add: distinct_take distinct_drop set_take_disj_set_drop_if_distinct)
qed

lemma not_in_remove_at:
  "distinct (map f xs) \<Longrightarrow> i < length xs \<Longrightarrow> f (xs ! i) \<notin> f ` set (remove_at i xs)"
proof -
  assume d: "distinct (map f xs)" and i: "i < length xs"
  have "map f xs = map f (take i xs) @ f (xs ! i) # map f (drop (Suc i) xs)"
    by (subst remove_at_split [OF i]) simp
  with d have "f (xs ! i) \<notin> set (map f (take i xs) @ map f (drop (Suc i) xs))" by simp
  then show ?thesis by (auto simp: remove_at_def)
qed

lemma set_remove_at:
  "distinct (map f xs) \<Longrightarrow> i < length xs \<Longrightarrow> set (remove_at i xs) = set xs - {xs ! i}"
proof -
  assume d: "distinct (map f xs)" and i: "i < length xs"
  have "set xs = insert (xs ! i) (set (remove_at i xs))"
    by (subst remove_at_split [OF i]) (auto simp: remove_at_def)
  moreover have "xs ! i \<notin> set (remove_at i xs)"
    using not_in_remove_at [OF d i] by blast
  ultimately show ?thesis by auto
qed

lemma set_remove_at_key:
  "distinct (map f xs) \<Longrightarrow> i < length xs \<Longrightarrow>
   set (remove_at i xs) = {x \<in> set xs. f x \<noteq> f (xs ! i)}"
proof -
  assume d: "distinct (map f xs)" "i < length xs"
  note eq = set_remove_at [OF d]
  have "f (xs ! i) \<notin> f ` (set xs - {xs ! i})" using not_in_remove_at [OF d] unfolding eq .
  then show ?thesis unfolding eq
    by (intro set_eqI) (metis (mono_tags, lifting) DiffE DiffI image_eqI mem_Collect_eq singletonD singletonI)
qed

text \<open>Selection over \<open>iter().enumerate()\<close>, with and without a filter.\<close>

lemma enumerate_memI: "y \<in> set xs \<Longrightarrow> \<exists>j. (j, y) \<in> set (enumerate 0 xs)"
proof -
  assume "y \<in> set xs"
  moreover have "set xs = snd ` set (enumerate 0 xs)" by (metis list.set_map map_snd_enumerate)
  ultimately show ?thesis by force
qed

lemma min_by_key_enumerate:
  assumes "min_by_key (\<lambda>(_, e). f e) (enumerate 0 xs) = Some (i, x)"
  shows "i < length xs" "xs ! i = x" "\<And>y. y \<in> set xs \<Longrightarrow> f x \<le> f y"
proof -
  note m = min_by_key_SomeD [OF assms]
  then show "i < length xs" "xs ! i = x" by (auto simp: in_set_enumerate_eq)
  fix y assume "y \<in> set xs"
  then obtain j where "(j, y) \<in> set (enumerate 0 xs)" using enumerate_memI by fast
  with m show "f x \<le> f y" by fastforce
qed

lemma max_by_key_enumerate:
  assumes "max_by_key (\<lambda>(_, e). f e) (filter (\<lambda>(_, e). P e) (enumerate 0 xs)) = Some (i, x)"
  shows "i < length xs" "xs ! i = x" "P x" "\<And>y. y \<in> set xs \<Longrightarrow> P y \<Longrightarrow> f y \<le> f x"
proof -
  note m = max_by_key_SomeD [OF assms]
  then show "i < length xs" "xs ! i = x" "P x" by (auto simp: in_set_enumerate_eq)
  fix y assume "y \<in> set xs" and "P y"
  then obtain j where "(j, y) \<in> set (filter (\<lambda>(_, e). P e) (enumerate 0 xs))"
    using enumerate_memI by fastforce
  with m show "f y \<le> f x" by fastforce
qed

lemma filter_enumerate_empty:
  "filter (\<lambda>(_, e). P e) (enumerate 0 xs) = [] \<longleftrightarrow> (\<forall>x \<in> set xs. \<not> P x)"
proof
  assume none: "filter (\<lambda>(_, e). P e) (enumerate 0 xs) = []"
  show "\<forall>x \<in> set xs. \<not> P x"
  proof
    fix x assume "x \<in> set xs"
    then obtain j where "(j, x) \<in> set (enumerate 0 xs)" using enumerate_memI by fast
    with none show "\<not> P x" by (auto simp: filter_empty_conv)
  qed
qed (auto simp: filter_empty_conv in_set_enumerate_eq)

section \<open>Association lists\<close>

text \<open>A hash map's total of a measure of its values, and how one update or one removal changes it.\<close>

definition tally :: "('v \<Rightarrow> nat) \<Rightarrow> ('k \<times> 'v) list \<Rightarrow> nat" where
  "tally f xs = sum_list (map (\<lambda>e. f (snd e)) xs)"

lemma tally_Nil [simp]: "tally f [] = 0"
  by (simp add: tally_def)

lemma tally_Cons [simp]: "tally f (e # xs) = f (snd e) + tally f xs"
  by (simp add: tally_def)

lemma tally_update:
  "map_of xs k = Some v \<Longrightarrow> tally f (AList.update k v' xs) + f v = tally f xs + f v'"
  by (induction xs) (auto split: if_splits)

lemma tally_insert: "map_of xs k = None \<Longrightarrow> tally f (AList.update k v xs) = tally f xs + f v"
  by (induction xs) (auto split: if_splits)

lemma tally_delete:
  "map_of xs k = Some v \<Longrightarrow> distinct (map fst xs) \<Longrightarrow> tally f (AList.delete k xs) + f v = tally f xs"
proof (induction xs)
  case (Cons e xs)
  show ?case
  proof (cases "fst e = k")
    case True
    with Cons.prems have "AList.delete k xs = xs"
      by (auto simp: AList.delete_eq filter_id_conv image_iff)
    with True Cons.prems show ?thesis by (auto simp: AList.delete_eq)
  next
    case False
    with Cons show ?thesis by (auto simp: AList.delete_eq split: if_splits)
  qed
qed simp

lemma tally_mono: "(\<And>e. e \<in> set xs \<Longrightarrow> f (snd e) \<le> g (snd e)) \<Longrightarrow> tally f xs \<le> tally g xs"
  unfolding tally_def by (induction xs) (auto intro: add_mono)

lemma tally_cong: "(\<And>e. e \<in> set xs \<Longrightarrow> f (snd e) = g (snd e)) \<Longrightarrow> tally f xs = tally g xs"
  by (induction xs) auto

lemma tally_member: "map_of xs k = Some v \<Longrightarrow> f v \<le> tally f xs"
  by (induction xs) (auto split: if_splits intro: trans_le_add2)

lemma length_filter_tally: "length (filter (\<lambda>(_, v). P v) xs) = tally (\<lambda>v. if P v then 1 else 0) xs"
  by (induction xs) auto

lemma set_update_subset: "set (AList.update k v xs) \<subseteq> insert (k, v) (set xs)"
  by (induction xs) auto

lemma set_update_value:
  "distinct (map fst xs) \<Longrightarrow> e \<in> set (AList.update k v xs) \<Longrightarrow> e = (k, v) \<or> (e \<in> set xs \<and> fst e \<noteq> k)"
  by (induction xs) (force split: if_splits)+

lemma length_AList_update:
  "length (AList.update k v xs) = (if map_of xs k = None then Suc (length xs) else length xs)"
  by (induction xs) auto

lemma length_AList_delete:
  "map_of xs k = Some v \<Longrightarrow> distinct (map fst xs) \<Longrightarrow> Suc (length (AList.delete k xs)) = length xs"
  using tally_delete [of xs k v "\<lambda>_. 1"] by (simp add: tally_def sum_list_triv)

lemma tally_filter: "tally f (filter Q xs) \<le> tally f xs"
  by (induction xs) (auto intro: trans_le_add2)

lemma map_of_filter_value:
  "distinct (map fst xs) \<Longrightarrow>
   map_of (filter (\<lambda>(_, v). P v) xs) k = Option.bind (map_of xs k) (\<lambda>v. if P v then Some v else None)"
proof (induction xs)
  case (Cons e xs)
  have "map_of xs (fst e) = None" using Cons.prems by (auto simp: map_of_eq_None_iff)
  with Cons show ?case by (cases e) auto
qed simp

section \<open>Eviction loops\<close>

text \<open>
  Every bounded container of the program ends an operation with a loop of the same shape: while
  a limit is exceeded, evict one element. The interface: \<open>over\<close> is the guard of the loop,
  \<open>evict\<close> its body (\<open>None\<close> where the body would panic), \<open>loop\<close> the whole loop. Under an
  invariant the body never panics, keeps the invariant and makes the container smaller; then the
  loop returns, within its limits, and keeps whatever the body keeps.
\<close>

locale eviction_loop =
  fixes inv :: "'s \<Rightarrow> bool"
    and over :: "'s \<Rightarrow> bool"
    and evict :: "'s \<Rightarrow> 's option"
    and loop :: "'s \<Rightarrow> 's option"
    and msr :: "'s \<Rightarrow> nat"
  assumes loop_unfold: "inv s \<Longrightarrow> loop s = (if over s then Option.bind (evict s) loop else Some s)"
    and evict_ok: "inv s \<Longrightarrow> over s \<Longrightarrow> \<exists>s'. evict s = Some s' \<and> inv s' \<and> msr s' < msr s"
begin

lemma loop_idle: "inv s \<Longrightarrow> \<not> over s \<Longrightarrow> loop s = Some s"
  by (simp add: loop_unfold)

lemma loop_keeps:
  assumes "inv s" and "P s"
    and "\<And>t t'. inv t \<Longrightarrow> over t \<Longrightarrow> P t \<Longrightarrow> evict t = Some t' \<Longrightarrow> P t'"
  shows "\<exists>s'. loop s = Some s' \<and> inv s' \<and> \<not> over s' \<and> P s'"
  using assms(1,2)
proof (induction "msr s" arbitrary: s rule: less_induct)
  case less
  show ?case
  proof (cases "over s")
    case True
    with evict_ok less.prems obtain t where
      t: "evict s = Some t" "inv t" "msr t < msr s" by blast
    with assms(3) True less.prems have "P t" by blast
    with less.hyps t obtain s' where "loop t = Some s' \<and> inv s' \<and> \<not> over s' \<and> P s'" by blast
    with t True less.prems show ?thesis by (simp add: loop_unfold)
  next
    case False
    with less.prems show ?thesis by (simp add: loop_unfold)
  qed
qed

lemma loop_returns: "inv s \<Longrightarrow> \<exists>s'. loop s = Some s' \<and> inv s' \<and> \<not> over s'"
  using loop_keeps [where P = "\<lambda>_. True"] by simp

lemma loop_Some:
  assumes "inv s" and "loop s = Some s'"
  shows "inv s'" and "\<not> over s'"
  using loop_returns [OF assms(1)] assms(2) by auto

lemma loop_Some_keeps:
  assumes "inv s" and "loop s = Some s'" and "P s"
    and "\<And>t t'. inv t \<Longrightarrow> over t \<Longrightarrow> P t \<Longrightarrow> evict t = Some t' \<Longrightarrow> P t'"
  shows "P s'"
  using loop_keeps [where P = P, OF assms(1,3,4)] assms(2) by auto

end

text \<open>Loops whose body cannot panic: a total body is a special case.\<close>

locale total_eviction =
  fixes over :: "'s \<Rightarrow> bool"
    and evict :: "'s \<Rightarrow> 's"
    and loop :: "'s \<Rightarrow> 's"
    and msr :: "'s \<Rightarrow> nat"
  assumes total_unfold: "loop s = (if over s then loop (evict s) else s)"
    and evict_less: "over s \<Longrightarrow> msr (evict s) < msr s"

sublocale total_eviction \<subseteq> lifted: eviction_loop "\<lambda>_. True" over "\<lambda>s. Some (evict s)" "\<lambda>s. Some (loop s)" msr
  by unfold_locales (auto simp: total_unfold [of s for s] intro: evict_less)

context total_eviction
begin

lemma total_stops: "\<not> over (loop s)"
  using lifted.loop_returns [of s] by simp

lemma total_keeps:
  "P s \<Longrightarrow> (\<And>t. over t \<Longrightarrow> P t \<Longrightarrow> P (evict t)) \<Longrightarrow> P (loop s)"
  using lifted.loop_keeps [where P = P and s = s] by blast

lemma total_idle: "\<not> over s \<Longrightarrow> loop s = s"
  by (subst total_unfold) simp

end

end
