(* ===== verification/Prefix_Cache.thy ===== *)
theory Prefix_Cache
  imports Prelude
begin

text \<open>
  The prompt prefix cache of the llama.cpp worker (\<open>libs/orchion-llama-cpp/src/prefix_cache.rs\<close>):
  saved sequence states, keyed by a compatibility descriptor and a token list, under a limit on
  the number of entries and one on the bytes, evicted least recently used first. The clock is the
  64-bit wrapping counter of the source. An operation that would index an empty vector returns
  \<open>None\<close>; the invariant shows that this never happens.
\<close>

section \<open>Data\<close>

datatype template_engine = LlamaCpp | Jinja

datatype input_compatibility = RawPrompt | Template template_engine string bool

record compatibility =
  load_epoch :: u64
  input :: input_compatibility

record prompt_cache_config =
  cfg_enabled :: bool
  cfg_max_entries :: nat
  cfg_max_bytes :: nat
  cfg_min_prefix_tokens :: nat

definition default_prompt_cache_config :: prompt_cache_config where
  "default_prompt_cache_config =
     \<lparr>cfg_enabled = False, cfg_max_entries = 4, cfg_max_bytes = 268435456,
      cfg_min_prefix_tokens = 32\<rparr>"

record 's entry =
  e_compatibility :: compatibility
  e_tokens :: "i32 list"
  e_state :: 's
  e_bytes :: nat
  e_last_used :: u64

record 's prefix_cache =
  pc_config :: prompt_cache_config
  pc_entries :: "'s entry list"
  pc_bytes :: nat
  pc_clock :: u64
  pc_enabled :: bool

section \<open>Operations\<close>

definition new_cache :: "prompt_cache_config \<Rightarrow> 's prefix_cache" where
  "new_cache config =
     \<lparr>pc_config = config, pc_entries = [], pc_bytes = 0, pc_clock = 0,
      pc_enabled = cfg_enabled config\<rparr>"

text \<open>An entry can serve a request when its descriptor is equal and its tokens are a proper prefix.\<close>

definition serves :: "compatibility \<Rightarrow> i32 list \<Rightarrow> 's entry \<Rightarrow> bool" where
  "serves key toks e \<longleftrightarrow>
     e_compatibility e = key \<and> length (e_tokens e) < length toks
     \<and> take (length (e_tokens e)) toks = e_tokens e"

definition cache_lookup ::
  "compatibility \<Rightarrow> i32 list \<Rightarrow> 's prefix_cache \<Rightarrow> (nat \<times> 's) option \<times> 's prefix_cache" where
  "cache_lookup key toks c =
     (if \<not> pc_enabled c then (None, c)
      else case max_by_key (\<lambda>(_, e). length (e_tokens e))
                 (filter (\<lambda>(_, e). serves key toks e) (enumerate 0 (pc_entries c))) of
             None \<Rightarrow> (None, c)
           | Some (i, e) \<Rightarrow>
               let clock = pc_clock c + 1 in
               (Some (length (e_tokens e), e_state e),
                c\<lparr>pc_clock := clock,
                  pc_entries := (pc_entries c)[i := e\<lparr>e_last_used := clock\<rparr>]\<rparr>))"

definition over_limits :: "'s prefix_cache \<Rightarrow> bool" where
  "over_limits c \<longleftrightarrow> cfg_max_entries (pc_config c) < length (pc_entries c)
                    \<or> cfg_max_bytes (pc_config c) < pc_bytes c"

definition lru_index :: "'s entry list \<Rightarrow> nat" where
  "lru_index es = (case min_by_key (\<lambda>(_, e). e_last_used e) (enumerate 0 es) of
                     None \<Rightarrow> 0
                   | Some (i, _) \<Rightarrow> i)"

definition remove_entry :: "nat \<Rightarrow> 's prefix_cache \<Rightarrow> 's prefix_cache option" where
  "remove_entry i c =
     (if i < length (pc_entries c)
      then Some (c\<lparr>pc_bytes := pc_bytes c - e_bytes (pc_entries c ! i),
                   pc_entries := remove_at i (pc_entries c)\<rparr>)
      else None)"

definition evict_lru :: "'s prefix_cache \<Rightarrow> 's prefix_cache option" where
  "evict_lru c = remove_entry (lru_index (pc_entries c)) c"

lemma remove_entry_length:
  "remove_entry i c = Some c' \<Longrightarrow> Suc (length (pc_entries c')) = length (pc_entries c)"
  by (auto simp: remove_entry_def split: if_splits)

function evict_loop :: "'s prefix_cache \<Rightarrow> 's prefix_cache option" where
  "evict_loop c =
     (if over_limits c then (case evict_lru c of None \<Rightarrow> None | Some c' \<Rightarrow> evict_loop c')
      else Some c)"
  by pat_completeness auto
termination
  by (relation "measure (\<lambda>c. length (pc_entries c))")
     (auto simp: evict_lru_def dest: remove_entry_length)

declare evict_loop.simps [simp del]

definition cache_insert ::
  "compatibility \<Rightarrow> i32 list \<Rightarrow> 's \<Rightarrow> nat \<Rightarrow> 's prefix_cache \<Rightarrow> 's prefix_cache option" where
  "cache_insert key toks st state_bytes c =
     (if \<not> pc_enabled c \<or> length toks < cfg_min_prefix_tokens (pc_config c) then Some c
      else let token_bytes = sat_mul (length toks) 4;
               bytes = sat_add state_bytes token_bytes
           in if cfg_max_bytes (pc_config c) < bytes then Some c
              else (case (case position (\<lambda>e. e_compatibility e = key \<and> e_tokens e = toks)
                                         (pc_entries c) of
                            None \<Rightarrow> Some c
                          | Some i \<Rightarrow> remove_entry i c) of
                      None \<Rightarrow> None
                    | Some c1 \<Rightarrow>
                        let clock = pc_clock c1 + 1 in
                        evict_loop
                          (c1\<lparr>pc_clock := clock,
                              pc_bytes := sat_add (pc_bytes c1) bytes,
                              pc_entries := pc_entries c1 @
                                [\<lparr>e_compatibility = key, e_tokens = toks, e_state = st,
                                  e_bytes = bytes, e_last_used = clock\<rparr>]\<rparr>)))"

definition cache_disable :: "'s prefix_cache \<Rightarrow> 's prefix_cache" where
  "cache_disable c = c\<lparr>pc_entries := [], pc_bytes := 0, pc_enabled := False\<rparr>"

text \<open>The operations the worker performs on the cache, and a whole sequence of them.\<close>

datatype 's cache_op =
    Lookup compatibility "i32 list"
  | Insert compatibility "i32 list" 's nat
  | Disable

fun cache_step :: "'s cache_op \<Rightarrow> 's prefix_cache \<Rightarrow> 's prefix_cache option" where
  "cache_step (Lookup key toks) c = Some (snd (cache_lookup key toks c))"
| "cache_step (Insert key toks st n) c = cache_insert key toks st n c"
| "cache_step Disable c = Some (cache_disable c)"

fun cache_run :: "'s cache_op list \<Rightarrow> 's prefix_cache \<Rightarrow> 's prefix_cache option" where
  "cache_run [] c = Some c"
| "cache_run (x # xs) c = (case cache_step x c of None \<Rightarrow> None | Some c' \<Rightarrow> cache_run xs c')"


section \<open>The invariant\<close>

text \<open>The limits a validated runtime configuration guarantees for the cache.\<close>

definition cache_limits_ok :: "prompt_cache_config \<Rightarrow> bool" where
  "cache_limits_ok cfg \<longleftrightarrow> 0 < cfg_max_entries cfg \<and> cfg_max_bytes cfg \<le> 4294967296"

text \<open>The part of the invariant that also holds while an insertion is over the limits.\<close>

definition entry_key :: "'s entry \<Rightarrow> compatibility \<times> i32 list" where
  "entry_key e = (e_compatibility e, e_tokens e)"

definition entries_ok :: "'s prefix_cache \<Rightarrow> bool" where
  "entries_ok c \<longleftrightarrow>
     pc_bytes c = sum_list (map e_bytes (pc_entries c))
     \<and> distinct (map entry_key (pc_entries c))
     \<and> (\<forall>e \<in> set (pc_entries c). cfg_min_prefix_tokens (pc_config c) \<le> length (e_tokens e)
          \<and> 4 * length (e_tokens e) \<le> e_bytes e)
     \<and> (\<not> pc_enabled c \<longrightarrow> pc_entries c = [])"

definition prefix_cache_inv :: "'s prefix_cache \<Rightarrow> bool" where
  "prefix_cache_inv c \<longleftrightarrow> entries_ok c \<and> \<not> over_limits c"

lemma entries_ok_remove:
  assumes "entries_ok c" and "i < length (pc_entries c)"
  shows "entries_ok (c\<lparr>pc_bytes := pc_bytes c - e_bytes (pc_entries c ! i),
                        pc_entries := remove_at i (pc_entries c)\<rparr>)"
proof -
  have "sum_list (map e_bytes (pc_entries c)) - e_bytes (pc_entries c ! i)
        = sum_list (map e_bytes (remove_at i (pc_entries c)))"
    using sum_list_remove_at [OF assms(2), of e_bytes] by simp
  then show ?thesis
    using assms distinct_map_remove_at set_remove_at_subset
    by (fastforce simp: entries_ok_def)
qed

lemma over_limits_nonempty: "entries_ok c \<Longrightarrow> over_limits c \<Longrightarrow> pc_entries c \<noteq> []"
  by (auto simp: entries_ok_def over_limits_def)

lemma lru_index:
  assumes "es \<noteq> []"
  shows "lru_index es < length es" "\<And>e. e \<in> set es \<Longrightarrow> e_last_used (es ! lru_index es) \<le> e_last_used e"
proof -
  from assms obtain p where "min_by_key (\<lambda>(_, e). e_last_used e) (enumerate 0 es) = Some p"
    using min_by_key_ex [of "enumerate 0 es" "\<lambda>(_, e). e_last_used e"]
    by (auto simp: enumerate_eq_zip)
  then obtain i x where m: "min_by_key (\<lambda>(_, e). e_last_used e) (enumerate 0 es) = Some (i, x)"
    by (cases p) simp
  from min_by_key_enumerate [OF m] m
  show "lru_index es < length es" "\<And>e. e \<in> set es \<Longrightarrow> e_last_used (es ! lru_index es) \<le> e_last_used e"
    by (auto simp: lru_index_def)
qed

lemma evict_lru_ok:
  "entries_ok c \<Longrightarrow> over_limits c \<Longrightarrow>
   \<exists>c'. evict_lru c = Some c' \<and> entries_ok c' \<and> length (pc_entries c') < length (pc_entries c)"
  using entries_ok_remove [of c "lru_index (pc_entries c)"] lru_index(1) [of "pc_entries c"]
  by (auto simp: evict_lru_def remove_entry_def dest!: over_limits_nonempty)

lemma evict_lru_config: "pc_config t = d \<Longrightarrow> evict_lru t = Some t' \<Longrightarrow> pc_config t' = d"
  by (auto simp: evict_lru_def remove_entry_def split: if_splits)

lemma evict_lru_enabled: "pc_enabled t \<Longrightarrow> evict_lru t = Some t' \<Longrightarrow> pc_enabled t'"
  by (auto simp: evict_lru_def remove_entry_def split: if_splits)

interpretation lru: eviction_loop entries_ok over_limits evict_lru evict_loop
  "\<lambda>c. length (pc_entries c)"
  by unfold_locales
     (auto simp: evict_loop.simps [of s for s] evict_lru_ok split: option.splits)

lemma new_cache_inv [orchion_inv]: "prefix_cache_inv (new_cache cfg)"
  by (simp add: prefix_cache_inv_def entries_ok_def over_limits_def new_cache_def)

lemma disable_inv [orchion_inv]: "prefix_cache_inv (cache_disable c)"
  by (simp add: prefix_cache_inv_def entries_ok_def over_limits_def cache_disable_def)

lemma cache_disable_config: "pc_config (cache_disable c) = pc_config c"
  by (simp add: cache_disable_def)

lemma map_list_update_same: "i < length xs \<Longrightarrow> f y = f (xs ! i) \<Longrightarrow> map f (xs[i := y]) = map f xs"
  by (metis list_update_id map_update)

lemma touched_entries:
  assumes "i < length es"
  shows "map e_bytes (es[i := (es ! i)\<lparr>e_last_used := t\<rparr>]) = map e_bytes es"
    and "map entry_key (es[i := (es ! i)\<lparr>e_last_used := t\<rparr>]) = map entry_key es"
    and "map e_tokens (es[i := (es ! i)\<lparr>e_last_used := t\<rparr>]) = map e_tokens es"
    and "map e_state (es[i := (es ! i)\<lparr>e_last_used := t\<rparr>]) = map e_state es"
  using assms by (simp_all add: map_list_update_same entry_key_def)

lemma cache_lookup_cases:
  obtains (miss) "cache_lookup key toks c = (None, c)"
  | (hit) i e where "pc_enabled c" "i < length (pc_entries c)" "pc_entries c ! i = e"
      "serves key toks e" "\<forall>e' \<in> set (pc_entries c). serves key toks e' \<longrightarrow>
         length (e_tokens e') \<le> length (e_tokens e)"
      "cache_lookup key toks c = (Some (length (e_tokens e), e_state e),
         c\<lparr>pc_clock := pc_clock c + 1,
           pc_entries := (pc_entries c)[i := e\<lparr>e_last_used := pc_clock c + 1\<rparr>]\<rparr>)"
proof (cases "cache_lookup key toks c = (None, c)")
  case False
  then obtain i e where en: "pc_enabled c"
    and m: "max_by_key (\<lambda>(_, e). length (e_tokens e))
              (filter (\<lambda>(_, e). serves key toks e) (enumerate 0 (pc_entries c))) = Some (i, e)"
    by (cases "max_by_key (\<lambda>(_, e). length (e_tokens e))
              (filter (\<lambda>(_, e). serves key toks e) (enumerate 0 (pc_entries c)))")
       (auto simp: cache_lookup_def split: if_splits)
  from en m max_by_key_enumerate [OF m] show ?thesis
    by (intro hit [of i e]) (auto simp: cache_lookup_def Let_def)
qed (rule miss)

lemma lookup_inv [orchion_inv]:
  assumes "prefix_cache_inv c"
  shows "prefix_cache_inv (snd (cache_lookup key toks c))"
proof (cases rule: cache_lookup_cases [of key toks c])
  case miss
  with assms show ?thesis by simp
next
  case (hit i e)
  let ?es = "(pc_entries c)[i := e\<lparr>e_last_used := pc_clock c + 1\<rparr>]"
  have "\<forall>x \<in> set ?es. \<exists>y \<in> set (pc_entries c). e_tokens x = e_tokens y \<and> e_bytes x = e_bytes y"
    using hit set_update_subset_insert [of "pc_entries c" i] by fastforce
  with assms hit touched_entries [OF hit(2), of "pc_clock c + 1"] show ?thesis
    by (fastforce simp: prefix_cache_inv_def entries_ok_def over_limits_def)
qed

lemma cache_lookup_config: "pc_config (snd (cache_lookup key toks c)) = pc_config c"
  by (cases rule: cache_lookup_cases [of key toks c]) simp_all


section \<open>Insertion\<close>

text \<open>The cache an insertion hands to the eviction loop.\<close>

definition drop_same :: "compatibility \<Rightarrow> i32 list \<Rightarrow> 's prefix_cache \<Rightarrow> 's prefix_cache option" where
  "drop_same key toks c =
     (case position (\<lambda>e. e_compatibility e = key \<and> e_tokens e = toks) (pc_entries c) of
        None \<Rightarrow> Some c
      | Some i \<Rightarrow> remove_entry i c)"

definition pushed :: "compatibility \<Rightarrow> i32 list \<Rightarrow> 's \<Rightarrow> nat \<Rightarrow> 's prefix_cache \<Rightarrow> 's prefix_cache" where
  "pushed key toks st bytes c =
     c\<lparr>pc_clock := pc_clock c + 1, pc_bytes := sat_add (pc_bytes c) bytes,
       pc_entries := pc_entries c @
         [\<lparr>e_compatibility = key, e_tokens = toks, e_state = st, e_bytes = bytes,
           e_last_used = pc_clock c + 1\<rparr>]\<rparr>"

definition retains :: "i32 list \<Rightarrow> nat \<Rightarrow> 's prefix_cache \<Rightarrow> bool" where
  "retains toks n c \<longleftrightarrow> pc_enabled c \<and> cfg_min_prefix_tokens (pc_config c) \<le> length toks
     \<and> sat_add n (sat_mul (length toks) 4) \<le> cfg_max_bytes (pc_config c)"

lemma cache_insert_eq:
  "cache_insert key toks st n c =
     (if retains toks n c
      then Option.bind (drop_same key toks c)
             (\<lambda>c1. evict_loop (pushed key toks st (sat_add n (sat_mul (length toks) 4)) c1))
      else Some c)"
  by (auto simp: cache_insert_def retains_def drop_same_def pushed_def Let_def not_le
           split: option.splits)

lemma drop_same_ok:
  assumes "entries_ok c"
  obtains c1 where "drop_same key toks c = Some c1" "entries_ok c1"
    "set (pc_entries c1) = {e \<in> set (pc_entries c). entry_key e \<noteq> (key, toks)}"
    "pc_clock c1 = pc_clock c" "pc_config c1 = pc_config c" "pc_enabled c1 = pc_enabled c"
    "pc_bytes c1 \<le> pc_bytes c"
proof (cases "position (\<lambda>e. e_compatibility e = key \<and> e_tokens e = toks) (pc_entries c)")
  case None
  with that [of c] assms show ?thesis
    by (auto simp: drop_same_def position_None entry_key_def)
next
  case (Some i)
  note p = position_Some [OF Some]
  let ?c = "c\<lparr>pc_bytes := pc_bytes c - e_bytes (pc_entries c ! i),
              pc_entries := remove_at i (pc_entries c)\<rparr>"
  have d: "distinct (map entry_key (pc_entries c))" using assms by (simp add: entries_ok_def)
  have "set (pc_entries ?c) = {e \<in> set (pc_entries c). entry_key e \<noteq> (key, toks)}"
    using p set_remove_at_key [OF d] by (auto simp: entry_key_def)
  with that [of ?c] p entries_ok_remove [OF assms] Some show ?thesis
    by (simp add: drop_same_def remove_entry_def)
qed

lemma pushed_ok:
  assumes "entries_ok c" and "(key, toks) \<notin> entry_key ` set (pc_entries c)"
    and "cache_limits_ok (pc_config c)" and "pc_bytes c \<le> cfg_max_bytes (pc_config c)"
    and "retains toks n c"
  shows "entries_ok (pushed key toks st (sat_add n (sat_mul (length toks) 4)) c)"
proof -
  let ?b = "sat_add n (sat_mul (length toks) 4)"
  have b: "?b \<le> 4294967296" and pb: "pc_bytes c \<le> 4294967296"
    using assms by (auto simp: cache_limits_ok_def retains_def)
  then have "?b = n + length toks * 4"
    by (auto simp: sat_add_def sat_mul_def min_def usize_max_def split: if_splits)
  moreover have "sat_add (pc_bytes c) ?b = pc_bytes c + ?b"
    using b pb by (intro sat_add_exact) (simp add: usize_max_def)
  ultimately show ?thesis
    using assms by (auto simp: entries_ok_def pushed_def retains_def entry_key_def)
qed

lemma insert_ok [orchion_inv]:
  assumes inv: "prefix_cache_inv c" and lim: "cache_limits_ok (pc_config c)"
  shows "\<exists>c'. cache_insert key toks st n c = Some c' \<and> prefix_cache_inv c'
              \<and> pc_config c' = pc_config c"
proof (cases "retains toks n c")
  case True
  let ?b = "sat_add n (sat_mul (length toks) 4)"
  have ok: "entries_ok c" using inv by (simp add: prefix_cache_inv_def)
  obtain c1 where c1: "drop_same key toks c = Some c1" "entries_ok c1"
    "set (pc_entries c1) = {e \<in> set (pc_entries c). entry_key e \<noteq> (key, toks)}"
    "pc_config c1 = pc_config c" "pc_enabled c1 = pc_enabled c" "pc_bytes c1 \<le> pc_bytes c"
    by (rule drop_same_ok [OF ok])
  have "entries_ok (pushed key toks st ?b c1)"
    using c1 inv lim True
    by (intro pushed_ok) (auto simp: prefix_cache_inv_def over_limits_def retains_def)
  moreover have "pc_config (pushed key toks st ?b c1) = pc_config c"
    using c1 by (simp add: pushed_def)
  ultimately obtain c' where "evict_loop (pushed key toks st ?b c1) = Some c'"
    "entries_ok c'" "\<not> over_limits c'" "pc_config c' = pc_config c"
    using lru.loop_keeps [where P = "\<lambda>x. pc_config x = pc_config c"
        and s = "pushed key toks st ?b c1"] evict_lru_config
    by blast
  with c1 True show ?thesis by (auto simp: cache_insert_eq prefix_cache_inv_def)
next
  case False
  with inv show ?thesis by (simp add: cache_insert_eq)
qed

lemma cache_step_ok:
  assumes "prefix_cache_inv c" and "cache_limits_ok (pc_config c)"
  shows "\<exists>c'. cache_step x c = Some c' \<and> prefix_cache_inv c' \<and> pc_config c' = pc_config c"
  using assms
  by (cases x) (auto intro: lookup_inv disable_inv insert_ok
                     simp: cache_lookup_config cache_disable_config)

lemma cache_run_ok:
  "prefix_cache_inv c \<Longrightarrow> cache_limits_ok (pc_config c) \<Longrightarrow>
   \<exists>c'. cache_run xs c = Some c' \<and> prefix_cache_inv c' \<and> pc_config c' = pc_config c"
proof (induction xs arbitrary: c)
  case (Cons x xs)
  from cache_step_ok [OF Cons.prems, of x] obtain d where
    "cache_step x c = Some d" "prefix_cache_inv d" "pc_config d = pc_config c" by blast
  with Cons.IH [of d] Cons.prems show ?case by simp
qed simp

section \<open>Least recently used order\<close>

text \<open>As long as the 64-bit clock has not wrapped, the stamps are distinct and none lies in the
  future, so the eviction loop removes entries strictly by age.\<close>

definition stamps_ok :: "'s prefix_cache \<Rightarrow> bool" where
  "stamps_ok c \<longleftrightarrow> distinct (map e_last_used (pc_entries c))
                  \<and> (\<forall>e \<in> set (pc_entries c). e_last_used e \<le> pc_clock c)"

text \<open>What the loop keeps about a starting cache \<open>c0\<close>: the survivors are entries of \<open>c0\<close>, and
  each is newer than every entry of \<open>c0\<close> that is gone.\<close>

definition survivors :: "'s prefix_cache \<Rightarrow> 's prefix_cache \<Rightarrow> bool" where
  "survivors c0 c \<longleftrightarrow> set (pc_entries c) \<subseteq> set (pc_entries c0)
     \<and> distinct (map e_last_used (pc_entries c))
     \<and> (\<forall>old \<in> set (pc_entries c0) - set (pc_entries c). \<forall>e \<in> set (pc_entries c).
          e_last_used old < e_last_used e)"

lemma survivors_step:
  assumes ok: "entries_ok c" "over_limits c" and s: "survivors c0 c" and ev: "evict_lru c = Some c'"
  shows "survivors c0 c'"
proof -
  let ?es = "pc_entries c" and ?i = "lru_index (pc_entries c)"
  have ne: "?es \<noteq> []" using ok by (rule over_limits_nonempty)
  have d: "distinct (map e_last_used ?es)" using s by (simp add: survivors_def)
  have es': "pc_entries c' = remove_at ?i ?es"
    using ev by (auto simp: evict_lru_def remove_entry_def split: if_splits)
  have mem: "set (pc_entries c') = {x \<in> set ?es. e_last_used x \<noteq> e_last_used (?es ! ?i)}"
    using set_remove_at_key [OF d lru_index(1) [OF ne]] es' by simp
  have young: "e_last_used old < e_last_used e"
    if "old \<in> set ?es" "old \<notin> set (pc_entries c')" "e \<in> set (pc_entries c')" for old e
  proof -
    from that(1,2) mem have "e_last_used old = e_last_used (?es ! ?i)" by simp
    moreover from that(3) mem have "e \<in> set ?es" "e_last_used e \<noteq> e_last_used (?es ! ?i)" by simp_all
    ultimately show ?thesis using lru_index(2) [OF ne, of e] by simp
  qed
  show ?thesis
    unfolding survivors_def
  proof (intro conjI ballI)
    show "set (pc_entries c') \<subseteq> set (pc_entries c0)"
      using s mem unfolding survivors_def by (metis (no_types, lifting) mem_Collect_eq subset_iff)
    show "distinct (map e_last_used (pc_entries c'))"
      using es' distinct_map_remove_at [OF d] by simp
    fix old e
    assume "old \<in> set (pc_entries c0) - set (pc_entries c')" and e: "e \<in> set (pc_entries c')"
    then show "e_last_used old < e_last_used e"
    proof (cases "old \<in> set ?es")
      case True
      with \<open>old \<in> set (pc_entries c0) - set (pc_entries c')\<close> e young show ?thesis by blast
    next
      case False
      moreover from e mem have "e \<in> set ?es" by simp
      ultimately show ?thesis
        using s \<open>old \<in> set (pc_entries c0) - set (pc_entries c')\<close> unfolding survivors_def by blast
    qed
  qed
qed

lemma loop_survivors:
  assumes "entries_ok c" "stamps_ok c" "evict_loop c = Some c'"
  shows "survivors c c'"
proof (rule lru.loop_Some_keeps [OF assms(1,3)])
  show "survivors c c" using assms(2) by (simp add: survivors_def stamps_ok_def)
  show "survivors c t'" if "entries_ok t" "over_limits t" "survivors c t" "evict_lru t = Some t'" for t t'
    using that by (rule survivors_step)
qed

lemma newest_survives:
  assumes "survivors c0 c" and "pc_entries c \<noteq> []" and "e \<in> set (pc_entries c0)"
    and "\<forall>x \<in> set (pc_entries c0). e_last_used x \<le> e_last_used e"
  shows "e \<in> set (pc_entries c)"
proof (rule ccontr)
  assume gone: "e \<notin> set (pc_entries c)"
  from assms(2) obtain x where "x \<in> set (pc_entries c)" by (cases "pc_entries c") auto
  then have x: "x \<in> set (pc_entries c0)" "e_last_used e < e_last_used x"
    using assms(1,3) gone unfolding survivors_def by (auto dest: subsetD)
  with assms(4) have "e_last_used x \<le> e_last_used e" by blast
  with x(2) show False by simp
qed


text \<open>One successful insertion, taken apart: the entries that survive, and the new one among them.\<close>

lemma drop_same_stamps:
  assumes "entries_ok c" "stamps_ok c" "drop_same key toks c = Some c1"
  shows "stamps_ok c1"
  using assms distinct_map_remove_at [of e_last_used "pc_entries c"] set_remove_at_subset
  by (fastforce simp: drop_same_def stamps_ok_def remove_entry_def split: option.splits if_splits)

lemma pushed_stamps:
  assumes "stamps_ok c" and "pc_clock c \<noteq> - 1"
  shows "stamps_ok (pushed key toks st b c)"
    and "\<forall>e \<in> set (pc_entries c). e_last_used e < pc_clock c + 1"
proof -
  have less: "x < pc_clock c + 1" if "x \<le> pc_clock c" for x
    using that assms(2) by (simp add: word_less_nat_alt word_le_nat_alt unat_add_one_no_wrap)
  then show "\<forall>e \<in> set (pc_entries c). e_last_used e < pc_clock c + 1"
    using assms(1) by (simp add: stamps_ok_def)
  with assms(1) show "stamps_ok (pushed key toks st b c)"
    by (force simp: stamps_ok_def pushed_def dest: order_less_imp_le)
qed

lemma insert_decomposed:
  assumes inv: "prefix_cache_inv c" and lim: "cache_limits_ok (pc_config c)"
    and st: "stamps_ok c" "pc_clock c \<noteq> - 1"
    and ret: "retains toks n c" and ins: "cache_insert key toks s n c = Some c'"
  obtains new where
    "new \<in> set (pc_entries c')" "entry_key new = (key, toks)" "e_state new = s"
    "\<forall>e \<in> set (pc_entries c'). e = new \<or> e \<in> set (pc_entries c)"
    "\<forall>old \<in> set (pc_entries c) - set (pc_entries c'). \<forall>e \<in> set (pc_entries c').
       entry_key old = (key, toks) \<or> e_last_used old < e_last_used e"
    "prefix_cache_inv c'" "pc_enabled c'"
proof -
  let ?b = "sat_add n (sat_mul (length toks) 4)"
  have ok: "entries_ok c" using inv by (simp add: prefix_cache_inv_def)
  obtain c1 where c1: "drop_same key toks c = Some c1" "entries_ok c1"
    "set (pc_entries c1) = {e \<in> set (pc_entries c). entry_key e \<noteq> (key, toks)}"
    "pc_clock c1 = pc_clock c" "pc_config c1 = pc_config c" "pc_enabled c1 = pc_enabled c"
    "pc_bytes c1 \<le> pc_bytes c"
    by (rule drop_same_ok [OF ok])
  let ?p = "pushed key toks s ?b c1"
  let ?new = "\<lparr>e_compatibility = key, e_tokens = toks, e_state = s, e_bytes = ?b,
                e_last_used = pc_clock c + 1\<rparr>"
  have pent: "pc_entries ?p = pc_entries c1 @ [?new]" using c1 by (simp add: pushed_def)
  have pok: "entries_ok ?p"
    using c1 inv lim ret
    by (intro pushed_ok) (auto simp: prefix_cache_inv_def over_limits_def retains_def)
  have pst: "stamps_ok ?p" "\<forall>e \<in> set (pc_entries c1). e_last_used e < pc_clock c + 1"
    using pushed_stamps [of c1] drop_same_stamps [OF ok st(1) c1(1)] st(2) c1(4) by simp_all
  have loop: "evict_loop ?p = Some c'" using ins ret c1(1) by (simp add: cache_insert_eq)
  note sv = loop_survivors [OF pok pst(1) loop]
  have en: "pc_enabled ?p" "cfg_max_entries (pc_config ?p) \<noteq> 0" "?b \<le> cfg_max_bytes (pc_config ?p)"
    using c1 ret lim by (simp_all add: pushed_def retains_def cache_limits_ok_def)
  have new_in: "?new \<in> set (pc_entries c')"
  proof (rule lru.loop_Some_keeps
      [where P = "\<lambda>t. survivors ?p t \<and> ?new \<in> set (pc_entries t) \<and> pc_config t = pc_config ?p",
       OF pok loop, THEN conjunct2, THEN conjunct1])
    show "survivors ?p ?p \<and> ?new \<in> set (pc_entries ?p) \<and> pc_config ?p = pc_config ?p"
      using pst(1) pent by (simp add: survivors_def stamps_ok_def)
  next
    fix t t'
    assume t: "entries_ok t" "over_limits t" "evict_lru t = Some t'"
      and P: "survivors ?p t \<and> ?new \<in> set (pc_entries t) \<and> pc_config t = pc_config ?p"
    have s': "survivors ?p t'" using survivors_step [OF t(1,2) _ t(3)] P by blast
    have "pc_entries t' \<noteq> []"
    proof
      assume "pc_entries t' = []"
      then have "length (pc_entries t) = 1" using remove_entry_length [of _ t t'] t(3)
        by (auto simp: evict_lru_def)
      then have "pc_entries t = [?new]" using P by (auto simp: length_Suc_conv)
      then have "pc_bytes t = ?b" using t(1) by (simp add: entries_ok_def)
      with \<open>pc_entries t = [?new]\<close> t(2) P en show False by (auto simp: over_limits_def)
    qed
    then have "?new \<in> set (pc_entries t')"
      using pst pent by (intro newest_survives [OF s']) (auto dest: order_less_imp_le)
    with s' P evict_lru_config [OF _ t(3)]
    show "survivors ?p t' \<and> ?new \<in> set (pc_entries t') \<and> pc_config t' = pc_config ?p" by blast
  qed
  have keep_en: "pc_enabled c'"
    using lru.loop_Some_keeps [where P = pc_enabled, OF pok loop en(1)] evict_lru_enabled by blast
  show ?thesis
  proof (rule that [of ?new])
    show "\<forall>e \<in> set (pc_entries c'). e = ?new \<or> e \<in> set (pc_entries c)"
      using sv pent c1(3) unfolding survivors_def by auto
    show "\<forall>old \<in> set (pc_entries c) - set (pc_entries c'). \<forall>e \<in> set (pc_entries c').
       entry_key old = (key, toks) \<or> e_last_used old < e_last_used e"
    proof (intro ballI disjCI)
      fix old e
      assume "old \<in> set (pc_entries c) - set (pc_entries c')" and e: "e \<in> set (pc_entries c')"
        and "\<not> e_last_used old < e_last_used e"
      then have "old \<notin> set (pc_entries ?p)" using sv unfolding survivors_def by blast
      with \<open>old \<in> _\<close> pent c1(3) show "entry_key old = (key, toks)" by auto
    qed
    show "prefix_cache_inv c'" using lru.loop_Some [OF pok loop] by (simp add: prefix_cache_inv_def)
  qed (use new_in keep_en in \<open>simp_all add: entry_key_def\<close>)
qed


section \<open>Properties\<close>

definition sample_limits :: prompt_cache_config where
  "sample_limits = \<lparr>cfg_enabled = True, cfg_max_entries = 2, cfg_max_bytes = 32,
                    cfg_min_prefix_tokens = 1\<rparr>"

definition raw_key :: "u64 \<Rightarrow> compatibility" where
  "raw_key n = \<lparr>load_epoch = n, input = RawPrompt\<rparr>"

lemmas cache_eval = sample_limits_def raw_key_def new_cache_def cache_lookup_def serves_def
  cache_insert_def retains_def over_limits_def evict_lru_def remove_entry_def remove_at_def
  lru_index_def evict_loop.simps sat_add_def sat_mul_def usize_max_def cache_limits_ok_def
  prefix_cache_inv_def entries_ok_def stamps_ok_def entry_key_def cache_disable_def

text \<open>C1. From a fresh cache, no sequence of lookups, insertions and disablings ever panics, and
  the cache always stays within its entry limit and its byte limit, counts its bytes exactly, and
  holds at most one entry per compatibility descriptor and token list, none of them shorter than
  the minimum prefix.\<close>

theorem cache_run_within_limits:
  assumes "cache_limits_ok cfg"
  shows "\<exists>c :: 'a prefix_cache. cache_run ops (new_cache cfg) = Some c
           \<and> length (pc_entries c) \<le> cfg_max_entries cfg
           \<and> pc_bytes c \<le> cfg_max_bytes cfg
           \<and> pc_bytes c = sum_list (map e_bytes (pc_entries c))
           \<and> distinct (map (\<lambda>e. (e_compatibility e, e_tokens e)) (pc_entries c))
           \<and> (\<forall>e \<in> set (pc_entries c). cfg_min_prefix_tokens cfg \<le> length (e_tokens e))"
proof -
  have cfg: "pc_config (new_cache cfg :: 'a prefix_cache) = cfg" by (simp add: new_cache_def)
  have "cache_limits_ok (pc_config (new_cache cfg :: 'a prefix_cache))" using assms cfg by metis
  from cache_run_ok [OF new_cache_inv this] cfg obtain c where
    "cache_run ops (new_cache cfg) = Some c" "prefix_cache_inv c" "pc_config c = cfg" by metis
  moreover have "entry_key = (\<lambda>e :: 'a entry. (e_compatibility e, e_tokens e))"
    by (simp add: fun_eq_iff entry_key_def)
  ultimately show ?thesis by (auto simp: prefix_cache_inv_def entries_ok_def over_limits_def not_less)
qed

theorem cache_run_within_limits_witness:
  "cache_limits_ok sample_limits \<and>
   (\<exists>c :: nat prefix_cache.
      cache_run [Insert (raw_key 1) [1] 1 4, Insert (raw_key 1) [2] 2 4,
                 Lookup (raw_key 1) [1, 9], Insert (raw_key 1) [3] 3 4, Disable]
        (new_cache sample_limits) = Some c \<and> length (pc_entries c) \<le> 2)"
proof -
  have h: "cache_limits_ok sample_limits" by (simp add: cache_limits_ok_def sample_limits_def)
  show ?thesis
    using h cache_run_within_limits [OF h, of "[Insert (raw_key 1) [1] (1 :: nat) 4,
      Insert (raw_key 1) [2] 2 4, Lookup (raw_key 1) [1, 9], Insert (raw_key 1) [3] 3 4, Disable]"]
    by (auto simp only: sample_limits_def prompt_cache_config.simps)
qed



text \<open>C3. What was inserted is found: after an insertion that passes the size checks, a request
  that extends the inserted tokens by one more token hits exactly that entry and gets its state
  back, whatever was stored or had to be evicted before.\<close>

theorem insert_then_lookup:
  assumes "prefix_cache_inv c" and "cache_limits_ok (pc_config c)"
    and "stamps_ok c" and "pc_clock c \<noteq> - 1"
    and "retains toks n c" and "cache_insert key toks st n c = Some c'"
  shows "fst (cache_lookup key (toks @ [t]) c') = Some (length toks, st)"
proof -
  obtain new where new: "new \<in> set (pc_entries c')" "entry_key new = (key, toks)" "e_state new = st"
    "prefix_cache_inv c'" "pc_enabled c'"
    by (rule insert_decomposed [OF assms]) blast
  then have sv: "serves key (toks @ [t]) new" by (simp add: serves_def entry_key_def)
  show ?thesis
  proof (cases rule: cache_lookup_cases [of key "toks @ [t]" c'])
    case miss
    then have "\<not> serves key (toks @ [t]) new" using new
      by (auto simp: cache_lookup_def filter_enumerate_empty Let_def
               split: if_splits option.splits prod.splits)
    with sv show ?thesis by contradiction
  next
    case (hit i e)
    from hit(5) new(1) sv have "length toks \<le> length (e_tokens e)"
      using new(2) by (auto simp: entry_key_def)
    with hit(4) have "entry_key e = entry_key new" using new(2) by (auto simp: serves_def entry_key_def)
    moreover have "inj_on entry_key (set (pc_entries c'))"
      using new(4) by (simp add: prefix_cache_inv_def entries_ok_def distinct_map)
    moreover have "e \<in> set (pc_entries c')" using hit(2,3) by auto
    ultimately have "e = new" using new(1) by (meson inj_onD)
    with hit(6) new show ?thesis by (auto simp: entry_key_def)
  qed
qed

theorem insert_then_lookup_witness:
  "fst (cache_lookup (raw_key 1) [7, 8, 9]
     (the (cache_insert (raw_key 1) [7, 8] (5::nat) 4 (new_cache sample_limits)))) = Some (2, 5)"
proof -
  let ?c = "new_cache sample_limits :: nat prefix_cache"
  have ins: "cache_insert (raw_key 1) [7, 8] 5 4 ?c = Some (the (cache_insert (raw_key 1) [7, 8] 5 4 ?c))"
    by (simp add: cache_eval)
  have "fst (cache_lookup (raw_key 1) ([7, 8] @ [9]) (the (cache_insert (raw_key 1) [7, 8] 5 4 ?c)))
          = Some (length [7 :: i32, 8], 5)"
    by (rule insert_then_lookup [OF new_cache_inv _ _ _ _ ins]) (simp_all add: cache_eval)
  then show ?thesis by simp
qed

text \<open>Eviction is least recently used: an insertion keeps the new entry, invents no other, and
  every old entry it evicts to get back within the limits was used before every entry that
  stays (the clock not having wrapped).\<close>

theorem insert_evicts_least_recent:
  assumes "prefix_cache_inv c" and "cache_limits_ok (pc_config c)"
    and "stamps_ok c" and "pc_clock c \<noteq> - 1"
    and "retains toks n c" and "cache_insert key toks st n c = Some c'"
  shows "\<exists>new \<in> set (pc_entries c'). e_compatibility new = key \<and> e_tokens new = toks
           \<and> set (pc_entries c') \<subseteq> insert new (set (pc_entries c))
           \<and> (\<forall>old \<in> set (pc_entries c) - set (pc_entries c').
                (e_compatibility old = key \<and> e_tokens old = toks)
                \<or> (\<forall>e \<in> set (pc_entries c'). e_last_used old < e_last_used e))"
proof -
  obtain new where new: "new \<in> set (pc_entries c')" "entry_key new = (key, toks)"
    "\<forall>e \<in> set (pc_entries c'). e = new \<or> e \<in> set (pc_entries c)"
    "\<forall>old \<in> set (pc_entries c) - set (pc_entries c'). \<forall>e \<in> set (pc_entries c').
       entry_key old = (key, toks) \<or> e_last_used old < e_last_used e"
    by (rule insert_decomposed [OF assms]) blast
  show ?thesis
  proof (rule bexI [OF _ new(1)], intro conjI)
    show "e_compatibility new = key" "e_tokens new = toks" using new(2) by (simp_all add: entry_key_def)
    show "set (pc_entries c') \<subseteq> insert new (set (pc_entries c))" using new(3) by blast
    show "\<forall>old \<in> set (pc_entries c) - set (pc_entries c').
                (e_compatibility old = key \<and> e_tokens old = toks)
                \<or> (\<forall>e \<in> set (pc_entries c'). e_last_used old < e_last_used e)"
      using new(4) by (auto simp: entry_key_def)
  qed
qed

theorem insert_evicts_least_recent_witness:
  "\<exists>c' :: nat prefix_cache.
     cache_insert (raw_key 1) [3] 3 4
       ((new_cache sample_limits)
         \<lparr>pc_entries := [\<lparr>e_compatibility = raw_key 1, e_tokens = [1], e_state = 1, e_bytes = 8, e_last_used = 3\<rparr>,
                         \<lparr>e_compatibility = raw_key 1, e_tokens = [2], e_state = 2, e_bytes = 8, e_last_used = 2\<rparr>],
          pc_bytes := 16, pc_clock := 3\<rparr>) = Some c'
     \<and> (\<exists>new \<in> set (pc_entries c'). e_tokens new = [3])"
proof -
  let ?c = "(new_cache sample_limits)
         \<lparr>pc_entries := [\<lparr>e_compatibility = raw_key 1, e_tokens = [1], e_state = 1, e_bytes = 8, e_last_used = 3\<rparr>,
                         \<lparr>e_compatibility = raw_key 1, e_tokens = [2], e_state = 2, e_bytes = 8, e_last_used = 2\<rparr>],
          pc_bytes := 16, pc_clock := 3\<rparr> :: nat prefix_cache"
  have inv: "prefix_cache_inv ?c" and lim: "cache_limits_ok (pc_config ?c)" and st: "stamps_ok ?c"
    and ck: "pc_clock ?c \<noteq> - 1" and ret: "retains [3] 4 ?c" by (simp_all add: cache_eval)
  obtain c' where c': "cache_insert (raw_key 1) [3] 3 4 ?c = Some c'"
    using insert_ok [OF inv lim] by blast
  from insert_evicts_least_recent [OF inv lim st ck ret c'] c' show ?thesis by blast
qed

end
