(* ===== verification/Stop_Filter.thy ===== *)
theory Stop_Filter
  imports Prelude
begin

text \<open>
  The stop-sequence filter of a generation slot (\<open>StopFilter\<close> in
  \<open>libs/orchion-llama-cpp/src/slot.rs\<close>). Generated text arrives piece by piece; the filter
  holds back exactly the suffix that may still become a stop sequence.

  A Rust \<open>String\<close> is its list of UTF-8 bytes. Slicing at an index that is not a character
  boundary panics in Rust and is \<open>None\<close> here; a byte index is a boundary when the byte there is
  not a UTF-8 continuation byte. Log probabilities are only moved, so their type is a parameter.
\<close>

unbundle bit_operations_syntax

section \<open>Strings as UTF-8 bytes\<close>

type_synonym utf8 = "8 word list"

definition is_continuation :: "8 word \<Rightarrow> bool" where
  "is_continuation b \<longleftrightarrow> b AND 0xC0 = 0x80"

definition char_boundary :: "utf8 \<Rightarrow> nat \<Rightarrow> bool" where
  "char_boundary s i \<longleftrightarrow> i = 0 \<or> i = length s \<or> (i < length s \<and> \<not> is_continuation (s ! i))"

text \<open>What UTF-8 validity gives at the left end of a string.\<close>

definition starts_char :: "utf8 \<Rightarrow> bool" where
  "starts_char s \<longleftrightarrow> (case s of [] \<Rightarrow> True | b # _ \<Rightarrow> \<not> is_continuation b)"

definition split_at :: "nat \<Rightarrow> utf8 \<Rightarrow> (utf8 \<times> utf8) option" where
  "split_at i s = (if char_boundary s i then Some (take i s, drop i s) else None)"

fun str_find :: "utf8 \<Rightarrow> utf8 \<Rightarrow> nat option" where
  "str_find [] needle = (if needle = [] then Some 0 else None)"
| "str_find (b # bs) needle =
     (if take (length needle) (b # bs) = needle then Some 0
      else map_option Suc (str_find bs needle))"

definition ends_with :: "utf8 \<Rightarrow> utf8 \<Rightarrow> bool" where
  "ends_with s p \<longleftrightarrow> length p \<le> length s \<and> drop (length s - length p) s = p"

section \<open>The filter\<close>

record 'f token_alternative =
  token_id :: i32
  ta_bytes :: utf8
  ta_logprob :: 'f

record 'f token_logprobs =
  chosen :: "'f token_alternative"
  top :: "'f token_alternative list"

type_synonym 'f token_piece = "utf8 \<times> 'f token_logprobs"

record 'f stop_filter =
  sf_stops :: "utf8 list"
  sf_pending :: utf8
  sf_pending_tokens :: "'f token_piece list"

definition new_filter :: "utf8 list \<Rightarrow> 'f stop_filter" where
  "new_filter stops = \<lparr>sf_stops = stops, sf_pending = [], sf_pending_tokens = []\<rparr>"

text \<open>The least index at which any stop sequence occurs.\<close>

definition first_stop :: "utf8 list \<Rightarrow> utf8 \<Rightarrow> nat option" where
  "first_stop stops s = min_by_key id (List.map_filter (str_find s) stops)"

definition stop_prefixes :: "utf8 \<Rightarrow> utf8 list" where
  "stop_prefixes stop =
     map (\<lambda>i. take i stop) (filter (char_boundary stop) [0..<length stop]) @ [stop]"

definition longest_stop_prefix_suffix :: "utf8 \<Rightarrow> utf8 list \<Rightarrow> nat" where
  "longest_stop_prefix_suffix s stops =
     (case max_by_key id (map length
            (filter (\<lambda>p. p \<noteq> [] \<and> ends_with s p) (concat (map stop_prefixes stops)))) of
        None \<Rightarrow> 0
      | Some n \<Rightarrow> n)"

definition take_prefix :: "nat \<Rightarrow> 'f stop_filter \<Rightarrow> (utf8 option \<times> 'f stop_filter) option" where
  "take_prefix len f =
     (if len = 0 then Some (None, f)
      else case split_at len (sf_pending f) of
             None \<Rightarrow> None
           | Some (out, suffix) \<Rightarrow> Some (Some out, f\<lparr>sf_pending := suffix\<rparr>))"

definition push_piece ::
  "utf8 \<Rightarrow> 'f stop_filter \<Rightarrow> ((bool \<times> utf8 option) \<times> 'f stop_filter) option" where
  "push_piece piece f0 =
     (let f = f0\<lparr>sf_pending := sf_pending f0 @ piece\<rparr> in
      case first_stop (sf_stops f) (sf_pending f) of
        Some index \<Rightarrow>
          (case take_prefix index f of
             None \<Rightarrow> None
           | Some (out, f') \<Rightarrow> Some ((True, out), f'\<lparr>sf_pending := []\<rparr>))
      | None \<Rightarrow>
          (let retained = longest_stop_prefix_suffix (sf_pending f) (sf_stops f);
               emit_len = length (sf_pending f) - retained in
           case take_prefix emit_len f of
             None \<Rightarrow> None
           | Some (out, f') \<Rightarrow> Some ((False, out), f')))"

definition take_flush :: "'f stop_filter \<Rightarrow> (utf8 option \<times> 'f stop_filter) option" where
  "take_flush f = take_prefix (length (sf_pending f)) f"

text \<open>The loop of \<open>take_token_prefix\<close> over the queued tokens: whole tokens while they fit, then
  perhaps the visible part of one more. The result is the number of bytes consumed, the output
  and the tokens left in the queue.\<close>

definition set_chosen_bytes :: "utf8 \<Rightarrow> 'f token_logprobs \<Rightarrow> 'f token_logprobs" where
  "set_chosen_bytes bs lp = lp\<lparr>chosen := (chosen lp)\<lparr>ta_bytes := bs\<rparr>\<rparr>"

fun token_prefix_loop ::
  "nat \<Rightarrow> bool \<Rightarrow> nat \<Rightarrow> 'f token_piece list \<Rightarrow>
   (nat \<times> 'f token_piece list \<times> 'f token_piece list) option" where
  "token_prefix_loop limit partial consumed [] = Some (consumed, [], [])"
| "token_prefix_loop limit partial consumed ((piece, lp) # rest) =
     (if piece = [] then token_prefix_loop limit partial consumed rest
      else if consumed + length piece \<le> limit then
        (case token_prefix_loop limit partial (consumed + length piece) rest of
           None \<Rightarrow> None
         | Some (n, out, left) \<Rightarrow> Some (n, (piece, set_chosen_bytes piece lp) # out, left))
      else if partial \<and> consumed < limit then
        (case split_at (limit - consumed) piece of
           None \<Rightarrow> None
         | Some (visible, _) \<Rightarrow> Some (limit, [(visible, set_chosen_bytes visible lp)], rest))
      else Some (consumed, [], (piece, lp) # rest))"

definition take_token_prefix ::
  "nat \<Rightarrow> bool \<Rightarrow> 'f stop_filter \<Rightarrow> ('f token_piece list \<times> 'f stop_filter) option" where
  "take_token_prefix limit include_partial f =
     (case token_prefix_loop limit include_partial 0 (sf_pending_tokens f) of
        None \<Rightarrow> None
      | Some (consumed, out, left) \<Rightarrow>
          (let f' = f\<lparr>sf_pending_tokens := left\<rparr> in
           if 0 < consumed then
             (case split_at consumed (sf_pending f) of
                None \<Rightarrow> None
              | Some (_, suffix) \<Rightarrow> Some (out, f'\<lparr>sf_pending := suffix\<rparr>))
           else Some (out, f')))"

definition push_token ::
  "utf8 \<Rightarrow> 'f token_logprobs \<Rightarrow> 'f stop_filter \<Rightarrow>
   ((bool \<times> 'f token_piece list) \<times> 'f stop_filter) option" where
  "push_token piece lp f0 =
     (let f = f0\<lparr>sf_pending := sf_pending f0 @ piece,
                 sf_pending_tokens := sf_pending_tokens f0 @ [(piece, lp)]\<rparr> in
      case first_stop (sf_stops f) (sf_pending f) of
        Some index \<Rightarrow>
          (case take_token_prefix index True f of
             None \<Rightarrow> None
           | Some (out, f') \<Rightarrow>
               Some ((True, out), f'\<lparr>sf_pending := [], sf_pending_tokens := []\<rparr>))
      | None \<Rightarrow>
          (let retained = longest_stop_prefix_suffix (sf_pending f) (sf_stops f);
               emit_len = length (sf_pending f) - retained in
           case take_token_prefix emit_len False f of
             None \<Rightarrow> None
           | Some (out, f') \<Rightarrow> Some ((False, out), f')))"

definition take_token_flush :: "'f stop_filter \<Rightarrow> ('f token_piece list \<times> 'f stop_filter) option" where
  "take_token_flush f = take_token_prefix (length (sf_pending f)) True f"

text \<open>A whole stream of pieces: the worker stops pushing when the filter reports a stop.\<close>

definition opt_text :: "utf8 option \<Rightarrow> utf8" where
  "opt_text out = (case out of None \<Rightarrow> [] | Some s \<Rightarrow> s)"

fun push_pieces :: "utf8 list \<Rightarrow> 'f stop_filter \<Rightarrow> ((bool \<times> utf8) \<times> 'f stop_filter) option" where
  "push_pieces [] f = Some ((False, []), f)"
| "push_pieces (p # ps) f =
     (case push_piece p f of
        None \<Rightarrow> None
      | Some ((True, out), f') \<Rightarrow> Some ((True, opt_text out), f')
      | Some ((False, out), f') \<Rightarrow>
          (case push_pieces ps f' of
             None \<Rightarrow> None
           | Some ((stopped, rest), g) \<Rightarrow> Some ((stopped, opt_text out @ rest), g)))"

text \<open>The reference: rescan the whole text after every piece, and cut it at the least index of a
  stop sequence as soon as one occurs.\<close>

fun cut_stream :: "utf8 list \<Rightarrow> utf8 \<Rightarrow> utf8 list \<Rightarrow> bool \<times> utf8" where
  "cut_stream stops acc [] = (False, acc)"
| "cut_stream stops acc (p # ps) =
     (case first_stop stops (acc @ p) of
        Some i \<Rightarrow> (True, take i (acc @ p))
      | None \<Rightarrow> cut_stream stops (acc @ p) ps)"


section \<open>Searching\<close>

definition occurs_at :: "utf8 \<Rightarrow> utf8 \<Rightarrow> nat \<Rightarrow> bool" where
  "occurs_at n h i \<longleftrightarrow> i + length n \<le> length h \<and> take (length n) (drop i h) = n"

lemma occurs_at_Cons_0: "occurs_at n (b # bs) 0 \<longleftrightarrow> take (length n) (b # bs) = n"
  unfolding occurs_at_def by (metis add_0 drop0 length_take min.cobounded1)

lemma occurs_at_Cons_Suc [simp]: "occurs_at n (b # bs) (Suc i) \<longleftrightarrow> occurs_at n bs i"
  by (simp add: occurs_at_def)

lemma str_find_SomeD:
  assumes "n \<noteq> []" and "str_find h n = Some i"
  shows "occurs_at n h i" and "j < i \<Longrightarrow> \<not> occurs_at n h j"
  using assms(2)
proof (induction h arbitrary: i j)
  case (Cons b bs)
  { case 1 with Cons.IH(1) assms(1) show ?case
      by (cases i) (auto simp: occurs_at_Cons_0 split: if_splits) }
  { case 2 with Cons.IH(2) assms(1) show ?case
      by (cases i; cases j) (auto simp: occurs_at_Cons_0 split: if_splits) }
qed (use assms(1) in auto)

lemma str_find_None: "n \<noteq> [] \<Longrightarrow> str_find h n = None \<Longrightarrow> \<not> occurs_at n h i"
proof (induction h arbitrary: i)
  case (Cons b bs)
  then show ?case by (cases i) (auto simp: occurs_at_Cons_0 split: if_splits)
qed (auto simp: occurs_at_def)

definition stops_ok :: "utf8 list \<Rightarrow> bool" where
  "stops_ok stops \<longleftrightarrow> (\<forall>s \<in> set stops. s \<noteq> [] \<and> starts_char s)"

lemma set_map_filter_find:
  "set (List.map_filter g xs) = {y. \<exists>x \<in> set xs. g x = Some y}"
  by (induction xs) (auto simp: List.map_filter_simps split: option.splits)

lemma first_stop_SomeD:
  assumes "stops_ok stops" and "first_stop stops h = Some i"
  shows "\<exists>n \<in> set stops. occurs_at n h i"
    and "n \<in> set stops \<Longrightarrow> j < i \<Longrightarrow> \<not> occurs_at n h j"
proof -
  note m = min_by_key_SomeD [OF assms(2) [unfolded first_stop_def]]
  then obtain n0 where n0: "n0 \<in> set stops" "str_find h n0 = Some i"
    by (auto simp: set_map_filter_find)
  with assms(1) show "\<exists>n \<in> set stops. occurs_at n h i"
    using str_find_SomeD(1) [of n0 h i] by (auto simp: stops_ok_def)
  assume n: "n \<in> set stops" and j: "j < i"
  show "\<not> occurs_at n h j"
  proof (cases "str_find h n")
    case None
    with n assms(1) show ?thesis by (auto simp: stops_ok_def dest: str_find_None)
  next
    case (Some k)
    with m n have "i \<le> k" by (auto simp: set_map_filter_find)
    with j n assms(1) Some show ?thesis
      using str_find_SomeD(2) [of n h k j] by (auto simp: stops_ok_def)
  qed
qed

lemma first_stop_NoneD:
  assumes "stops_ok stops" and "first_stop stops h = None" and "n \<in> set stops"
  shows "\<not> occurs_at n h i"
proof -
  have "List.map_filter (str_find h) stops = []" using assms(2) by (simp add: first_stop_def)
  then have "set (List.map_filter (str_find h) stops) = {}" by simp
  then have "str_find h n = None" using assms(3)
    by (cases "str_find h n") (auto simp: set_map_filter_find)
  with assms(1,3) show ?thesis by (auto simp: stops_ok_def dest: str_find_None)
qed

lemma first_stop_eqI:
  assumes "stops_ok stops" and "\<exists>n \<in> set stops. occurs_at n h i"
    and "\<And>n j. n \<in> set stops \<Longrightarrow> j < i \<Longrightarrow> \<not> occurs_at n h j"
  shows "first_stop stops h = Some i"
proof (cases "first_stop stops h")
  case None
  with assms(1,2) first_stop_NoneD show ?thesis by blast
next
  case (Some k)
  note k = first_stop_SomeD [OF assms(1) Some]
  have "\<not> k < i" using k(1) assms(3) by blast
  moreover have "\<not> i < k" using k(2) assms(2) by blast
  ultimately show ?thesis using Some by simp
qed

lemma first_stop_eq_None:
  assumes "stops_ok stops" and "\<And>n j. n \<in> set stops \<Longrightarrow> \<not> occurs_at n h j"
  shows "first_stop stops h = None"
  using first_stop_SomeD(1) [OF assms(1)] assms(2) by (cases "first_stop stops h") blast+

section \<open>The held-back suffix\<close>

text \<open>Every non-empty prefix of a stop sequence, cut at a character boundary, that the text ends
  with, is no longer than \<open>n\<close>.\<close>

definition covers :: "utf8 list \<Rightarrow> utf8 \<Rightarrow> nat \<Rightarrow> bool" where
  "covers stops h n \<longleftrightarrow> (\<forall>s \<in> set stops. \<forall>k. 0 < k \<longrightarrow> k \<le> length s \<longrightarrow> char_boundary s k \<longrightarrow>
     ends_with h (take k s) \<longrightarrow> k \<le> n)"

lemma stop_prefixes_iff:
  "p \<in> set (stop_prefixes s) \<longleftrightarrow> (\<exists>k \<le> length s. char_boundary s k \<and> p = take k s)"
proof
  assume "\<exists>k \<le> length s. char_boundary s k \<and> p = take k s"
  then obtain k where "k \<le> length s" "char_boundary s k" "p = take k s" by blast
  then show "p \<in> set (stop_prefixes s)"
    by (cases "k = length s") (auto simp: stop_prefixes_def)
next
  have whole: "char_boundary s (length s)" by (simp add: char_boundary_def)
  assume "p \<in> set (stop_prefixes s)"
  then consider "p = s" | k where "k < length s" "char_boundary s k" "p = take k s"
    by (auto simp: stop_prefixes_def)
  then show "\<exists>k \<le> length s. char_boundary s k \<and> p = take k s"
  proof cases
    case 1
    with whole show ?thesis by (intro exI [of _ "length s"]) simp
  next
    case 2
    then show ?thesis by (intro exI [of _ k]) simp
  qed
qed

lemma stops_ok_nth:
  assumes "stops_ok stops" and "s \<in> set stops"
  shows "s \<noteq> []" "\<not> is_continuation (s ! 0)"
proof -
  have "s \<noteq> [] \<and> starts_char s" using assms by (simp add: stops_ok_def)
  then show "s \<noteq> []" "\<not> is_continuation (s ! 0)" by (cases s; simp add: starts_char_def)+
qed

lemma longest_covers: "covers stops h (longest_stop_prefix_suffix h stops)"
  unfolding covers_def
proof (intro ballI allI impI)
  fix s k assume s: "s \<in> set stops" and k: "0 < k" "k \<le> length s" "char_boundary s k"
    and e: "ends_with h (take k s)"
  let ?ps = "filter (\<lambda>p. p \<noteq> [] \<and> ends_with h p) (concat (map stop_prefixes stops))"
  have "take k s \<in> set (stop_prefixes s)" using k by (auto simp: stop_prefixes_iff)
  moreover have "take k s \<noteq> []" using k by (cases s) auto
  ultimately have "take k s \<in> set ?ps" using s e by auto
  then have "length (take k s) \<in> length ` set ?ps" by (rule imageI)
  then have "k \<in> set (map length ?ps)" using k(2) by (simp only: set_map length_take min_absorb2)
  then have "map length ?ps \<noteq> []" by (metis empty_iff empty_set)
  then obtain m where m: "max_by_key id (map length ?ps) = Some m"
    using max_by_key_ex [of "map length ?ps" id] by blast
  from max_by_key_SomeD [OF m] \<open>k \<in> set (map length ?ps)\<close> have "id k \<le> id m" by blast
  with m show "k \<le> longest_stop_prefix_suffix h stops" by (simp add: longest_stop_prefix_suffix_def)
qed

lemma longest_is_prefix:
  assumes "0 < longest_stop_prefix_suffix h stops"
  obtains s k where "s \<in> set stops" "0 < k" "k \<le> length s" "char_boundary s k"
    "ends_with h (take k s)" "longest_stop_prefix_suffix h stops = k"
proof -
  let ?ps = "filter (\<lambda>p. p \<noteq> [] \<and> ends_with h p) (concat (map stop_prefixes stops))"
  from assms obtain m where m: "max_by_key id (map length ?ps) = Some m"
    by (cases "max_by_key id (map length ?ps)") (auto simp: longest_stop_prefix_suffix_def)
  from max_by_key_SomeD [OF m] obtain p where
    "p \<in> set ?ps" "m = length p" by auto
  moreover from m have "longest_stop_prefix_suffix h stops = m"
    by (simp add: longest_stop_prefix_suffix_def)
  ultimately show ?thesis using that assms by (auto simp: stop_prefixes_iff min_def)
qed

lemma longest_le: "longest_stop_prefix_suffix h stops \<le> length h"
proof (cases "0 < longest_stop_prefix_suffix h stops")
  case True
  then show ?thesis by (rule longest_is_prefix) (auto simp: ends_with_def)
qed simp

lemma longest_boundary:
  assumes "stops_ok stops"
  shows "char_boundary h (length h - longest_stop_prefix_suffix h stops)"
proof (cases "0 < longest_stop_prefix_suffix h stops")
  case True
  then obtain s k where sk: "s \<in> set stops" "0 < k" "k \<le> length s" "ends_with h (take k s)"
    "longest_stop_prefix_suffix h stops = k" by (rule longest_is_prefix)
  let ?i = "length h - k"
  have le: "k \<le> length h" and d: "drop ?i h = take k s" using sk by (simp_all add: ends_with_def)
  have "h ! ?i = drop ?i h ! 0" using le sk(2) by simp
  also have "\<dots> = s ! 0" using d sk(2) by simp
  finally have "\<not> is_continuation (h ! ?i)" using stops_ok_nth(2) [OF assms sk(1)] by simp
  moreover from sk(2) le have "?i < length h" by linarith
  ultimately show ?thesis using sk(5) by (simp add: char_boundary_def)
qed (simp add: char_boundary_def)

lemma occurs_boundary:
  assumes "stops_ok stops" and "n \<in> set stops" and "occurs_at n h i"
  shows "char_boundary h i" "i < length h"
proof -
  have n: "n \<noteq> []" "\<not> is_continuation (n ! 0)" using stops_ok_nth [OF assms(1,2)] by simp_all
  with assms(3) show i: "i < length h" by (cases n) (simp_all add: occurs_at_def)
  have "n ! 0 = take (length n) (drop i h) ! 0" using assms(3) by (simp add: occurs_at_def)
  also have "\<dots> = h ! i" using n(1) i by simp
  finally show "char_boundary h i" using n(2) i by (simp add: char_boundary_def)
qed


lemma occurs_at_nth: "occurs_at n h i \<Longrightarrow> k < length n \<Longrightarrow> h ! (i + k) = n ! k"
proof -
  assume o: "occurs_at n h i" and k: "k < length n"
  then have "n = take (length n) (drop i h)" by (simp add: occurs_at_def)
  then have "n ! k = take (length n) (drop i h) ! k" by (rule arg_cong)
  also have "\<dots> = drop i h ! k" using k by (rule nth_take)
  also have "\<dots> = h ! (i + k)" using o unfolding occurs_at_def by (intro nth_drop) simp
  finally show ?thesis by simp
qed

lemma ends_with_nth:
  "ends_with h p \<Longrightarrow> j < length p \<Longrightarrow> h ! (length h - length p + j) = p ! j"
  by (metis ends_with_def diff_le_self nth_drop)

text \<open>A stop sequence that occurs after one more piece starts inside the held-back suffix: the
  emitted text is never part of it.\<close>

lemma stop_starts_in_pending:
  assumes ok: "stops_ok stops" and cov: "covers stops (e @ q) (length q)"
    and none: "\<And>n j. n \<in> set stops \<Longrightarrow> \<not> occurs_at n (e @ q) j"
    and p: "starts_char p" and n: "n \<in> set stops" and o: "occurs_at n (e @ q @ p) i"
  shows "length e \<le> i"
proof (rule ccontr)
  assume "\<not> length e \<le> i"
  then have i: "i < length e" by simp
  let ?h = "e @ q" and ?k = "length (e @ q) - i"
  have long: "length ?h < i + length n"
  proof (rule ccontr)
    assume short: "\<not> length ?h < i + length n"
    have "take (length n) (drop i (?h @ p)) = take (length n) (drop i ?h)" using short by simp
    with o short have "occurs_at n ?h i" by (simp add: occurs_at_def)
    with none n show False by blast
  qed
  have k: "0 < ?k" "?k < length n" using i long by simp_all
  have "drop i ?h = take ?k n"
  proof -
    have "n = take (length n) (drop i (?h @ p))" using o by (simp add: occurs_at_def)
    then have "take ?k n = take ?k (drop i (?h @ p))" using k(2) by (metis less_imp_le min.absorb1 take_take)
    then show ?thesis using i by simp
  qed
  then have "ends_with ?h (take ?k n)" using k i by (simp add: ends_with_def)
  moreover have "char_boundary n ?k"
  proof -
    have "p \<noteq> []" using o long by (auto simp: occurs_at_def)
    moreover have "(?h @ p) ! (i + ?k) = n ! ?k" using occurs_at_nth [of n "?h @ p" i ?k] o k by simp
    moreover have "i + ?k = length ?h" using i by simp
    ultimately have "n ! ?k = p ! 0" by (metis append_Nil2 nth_append_length_plus add.right_neutral)
    with p \<open>p \<noteq> []\<close> have "\<not> is_continuation (n ! ?k)" by (cases p) (simp_all add: starts_char_def)
    with k show ?thesis by (simp add: char_boundary_def)
  qed
  ultimately have "?k \<le> length q" using cov n k unfolding covers_def by (meson less_imp_le)
  with i show False by simp
qed

lemma covers_step:
  assumes cov: "covers stops (e @ q) (length q)" and p: "starts_char p"
  shows "covers stops (e @ q @ p) (longest_stop_prefix_suffix (q @ p) stops)"
  unfolding covers_def
proof (intro ballI allI impI)
  fix s k assume s: "s \<in> set stops" and k: "0 < k" "k \<le> length s" "char_boundary s k"
    and e: "ends_with (e @ q @ p) (take k s)"
  have le: "k \<le> length (q @ p)"
  proof (rule ccontr)
    assume far: "\<not> k \<le> length (q @ p)"
    let ?k = "k - length p"
    have d: "drop (length (e @ q @ p) - k) (e @ q @ p) = take k s" and kl: "k \<le> length (e @ q @ p)"
      using e k by (simp_all add: ends_with_def)
    have "take ?k (take k s) = take ?k (drop (length (e @ q @ p) - k) (e @ q @ p))" using d by simp
    also have "\<dots> = drop (length (e @ q) - ?k) (e @ q)" using far kl by (simp add: take_drop add.assoc)
    finally have "ends_with (e @ q) (take ?k s)" using far kl k by (simp add: ends_with_def)
    moreover have "char_boundary s ?k"
    proof (cases p)
      case (Cons b bs)
      have "s ! ?k = take k s ! ?k" using far Cons k by simp
      also have "\<dots> = (e @ q @ p) ! (length (e @ q @ p) - k + ?k)"
        using ends_with_nth [OF e, of ?k] far Cons k by simp
      also have "length (e @ q @ p) - k + ?k = length (e @ q)" using far kl by simp
      also have "(e @ q @ p) ! length (e @ q) = b" using Cons by (simp add: nth_append)
      finally have "\<not> is_continuation (s ! ?k)" using p Cons by (simp add: starts_char_def)
      moreover have "?k < length s" using k(1,2) Cons by auto
      ultimately show ?thesis by (simp add: char_boundary_def)
    qed (use k in simp)
    moreover have "0 < ?k" "?k \<le> length s" using far k by simp_all
    ultimately have "?k \<le> length q" using cov s unfolding covers_def by blast
    with far show False by simp
  qed
  then have "ends_with (q @ p) (take k s)" using e k by (auto simp: ends_with_def)
  with longest_covers s k show "k \<le> longest_stop_prefix_suffix (q @ p) stops"
    unfolding covers_def by blast
qed


section \<open>One piece\<close>

text \<open>\<open>e\<close> is the text emitted so far; together with the held-back text it holds no stop, and no
  stop prefix that the text ends with reaches back into it.\<close>

definition filter_inv :: "utf8 \<Rightarrow> 'f stop_filter \<Rightarrow> bool" where
  "filter_inv e f \<longleftrightarrow> stops_ok (sf_stops f)
     \<and> covers (sf_stops f) (e @ sf_pending f) (length (sf_pending f))
     \<and> (\<forall>n \<in> set (sf_stops f). \<forall>i. \<not> occurs_at n (e @ sf_pending f) i)"

lemma new_filter_inv: "stops_ok stops \<Longrightarrow> filter_inv [] (new_filter stops)"
  by (auto simp: filter_inv_def new_filter_def covers_def ends_with_def occurs_at_def stops_ok_def)

lemma occurs_at_append: "occurs_at n (e @ h) (length e + i) \<longleftrightarrow> occurs_at n h i"
  by (auto simp: occurs_at_def)

lemma first_stop_shift:
  assumes inv: "filter_inv e f" and p: "starts_char p"
  shows "first_stop (sf_stops f) (e @ sf_pending f @ p)
         = map_option ((+) (length e)) (first_stop (sf_stops f) (sf_pending f @ p))"
proof -
  have ok: "stops_ok (sf_stops f)" using inv by (simp add: filter_inv_def)
  have late: "length e \<le> i" if "n \<in> set (sf_stops f)" "occurs_at n (e @ sf_pending f @ p) i" for n i
    using inv p that by (intro stop_starts_in_pending [OF ok, of e "sf_pending f" p n i])
      (auto simp: filter_inv_def)
  show ?thesis
  proof (cases "first_stop (sf_stops f) (sf_pending f @ p)")
    case None
    have "\<not> occurs_at n (e @ sf_pending f @ p) i" if n: "n \<in> set (sf_stops f)" for n i
    proof
      assume o: "occurs_at n (e @ sf_pending f @ p) i"
      with late [OF n] have "occurs_at n (sf_pending f @ p) (i - length e)"
        using occurs_at_append [of n e "sf_pending f @ p" "i - length e"] by simp
      with first_stop_NoneD [OF ok None n] show False by blast
    qed
    with None first_stop_eq_None [OF ok] show ?thesis by simp
  next
    case (Some i)
    note D = first_stop_SomeD [OF ok Some]
    have "first_stop (sf_stops f) (e @ sf_pending f @ p) = Some (length e + i)"
    proof (rule first_stop_eqI [OF ok])
      show "\<exists>n \<in> set (sf_stops f). occurs_at n (e @ sf_pending f @ p) (length e + i)"
        using D(1) by (simp add: occurs_at_append)
      fix n j assume n: "n \<in> set (sf_stops f)" and j: "j < length e + i"
      show "\<not> occurs_at n (e @ sf_pending f @ p) j"
      proof
        assume o: "occurs_at n (e @ sf_pending f @ p) j"
        note l = late [OF n o]
        with o have "occurs_at n (sf_pending f @ p) (j - length e)"
          using occurs_at_append [of n e "sf_pending f @ p" "j - length e"] by simp
        moreover from l j have "j - length e < i" by simp
        ultimately show False using D(2) [OF n] by blast
      qed
    qed
    with Some show ?thesis by simp
  qed
qed

lemma take_prefix_boundary:
  "char_boundary (sf_pending f) len \<Longrightarrow>
   \<exists>out. take_prefix len f = Some (out, f\<lparr>sf_pending := drop len (sf_pending f)\<rparr>)
         \<and> opt_text out = take len (sf_pending f)"
  by (auto simp: take_prefix_def split_at_def opt_text_def)

lemma push_piece_stop:
  assumes inv: "filter_inv e f" and p: "starts_char p"
    and found: "first_stop (sf_stops f) (e @ sf_pending f @ p) = Some i"
  shows "\<exists>out. push_piece p f = Some ((True, out), f\<lparr>sf_pending := []\<rparr>)
               \<and> e @ opt_text out = take i (e @ sf_pending f @ p)"
proof -
  from first_stop_shift [OF inv p] found obtain j where
    j: "first_stop (sf_stops f) (sf_pending f @ p) = Some j" "i = length e + j"
    by (cases "first_stop (sf_stops f) (sf_pending f @ p)") auto
  have ok: "stops_ok (sf_stops f)" using inv by (simp add: filter_inv_def)
  have "char_boundary (sf_pending f @ p) j"
    using first_stop_SomeD(1) [OF ok j(1)] occurs_boundary(1) [OF ok] by blast
  with take_prefix_boundary [of "f\<lparr>sf_pending := sf_pending f @ p\<rparr>" j] obtain out where
    "take_prefix j (f\<lparr>sf_pending := sf_pending f @ p\<rparr>)
       = Some (out, f\<lparr>sf_pending := drop j (sf_pending f @ p)\<rparr>)"
    "opt_text out = take j (sf_pending f @ p)" by auto
  with j show ?thesis by (auto simp: push_piece_def)
qed

lemma push_piece_pass:
  assumes inv: "filter_inv e f" and p: "starts_char p"
    and none: "first_stop (sf_stops f) (e @ sf_pending f @ p) = None"
  shows "\<exists>out f'. push_piece p f = Some ((False, out), f') \<and> sf_stops f' = sf_stops f
           \<and> e @ opt_text out @ sf_pending f' = e @ sf_pending f @ p
           \<and> length (sf_pending f') = longest_stop_prefix_suffix (sf_pending f @ p) (sf_stops f)
           \<and> filter_inv (e @ opt_text out) f'"
proof -
  let ?q = "sf_pending f @ p" and ?stops = "sf_stops f"
  let ?emit = "length ?q - longest_stop_prefix_suffix ?q ?stops"
  have ok: "stops_ok ?stops" and cov: "covers ?stops (e @ sf_pending f) (length (sf_pending f))"
    using inv by (simp_all add: filter_inv_def)
  from first_stop_shift [OF inv p] none have none': "first_stop ?stops ?q = None" by simp
  from take_prefix_boundary [of "f\<lparr>sf_pending := ?q\<rparr>" ?emit] longest_boundary [OF ok, of ?q]
  obtain out where out: "take_prefix ?emit (f\<lparr>sf_pending := ?q\<rparr>)
       = Some (out, f\<lparr>sf_pending := drop ?emit ?q\<rparr>)" "opt_text out = take ?emit ?q" by auto
  let ?f = "f\<lparr>sf_pending := drop ?emit ?q\<rparr>"
  have len: "length (sf_pending ?f) = longest_stop_prefix_suffix ?q ?stops"
    using longest_le [of ?q ?stops] by simp
  have "opt_text out @ drop ?emit ?q = ?q" unfolding out(2) by (rule append_take_drop_id)
  then have whole: "e @ opt_text out @ sf_pending ?f = e @ ?q" by simp
  have st: "sf_stops ?f = ?stops" by simp
  have "filter_inv (e @ opt_text out) ?f"
    unfolding filter_inv_def
  proof (intro conjI)
    show "stops_ok (sf_stops ?f)" using ok by simp
    show "covers (sf_stops ?f) ((e @ opt_text out) @ sf_pending ?f) (length (sf_pending ?f))"
      using covers_step [OF cov p] by (simp only: st len append_assoc whole)
    show "\<forall>n \<in> set (sf_stops ?f). \<forall>i. \<not> occurs_at n ((e @ opt_text out) @ sf_pending ?f) i"
      using first_stop_NoneD [OF ok none] by (simp only: st append_assoc whole) blast
  qed
  moreover have "push_piece p f = Some ((False, out), ?f)"
    using none' out(1) by (simp add: push_piece_def Let_def)
  ultimately show ?thesis using len whole by auto
qed

lemma push_pieces_cut:
  assumes "filter_inv e f" and "\<forall>p \<in> set ps. starts_char p"
  shows "\<exists>stopped out f'. push_pieces ps f = Some ((stopped, out), f')
           \<and> (stopped, e @ out @ sf_pending f') = cut_stream (sf_stops f) (e @ sf_pending f) ps"
  using assms
proof (induction ps arbitrary: e f)
  case (Cons p ps)
  have p: "starts_char p" using Cons.prems by simp
  show ?case
  proof (cases "first_stop (sf_stops f) (e @ sf_pending f @ p)")
    case None
    from push_piece_pass [OF Cons.prems(1) p None] obtain out f' where
      f': "push_piece p f = Some ((False, out), f')" "sf_stops f' = sf_stops f"
      "e @ opt_text out @ sf_pending f' = e @ sf_pending f @ p"
      "filter_inv (e @ opt_text out) f'" by blast
    with Cons.IH [OF f'(4)] Cons.prems(2) obtain stopped rest g where
      "push_pieces ps f' = Some ((stopped, rest), g)"
      "(stopped, (e @ opt_text out) @ rest @ sf_pending g)
         = cut_stream (sf_stops f') ((e @ opt_text out) @ sf_pending f') ps" by auto
    with f' None show ?thesis by auto
  next
    case (Some i)
    from push_piece_stop [OF Cons.prems(1) p Some] Some show ?thesis by auto
  qed
next
  case Nil
  show ?case by (intro exI [of _ False]) simp
qed


section \<open>Token mode\<close>

text \<open>With log probabilities the filter queues whole tokens. The queue spells the held-back text.\<close>

definition pieces :: "'f token_piece list \<Rightarrow> utf8" where
  "pieces ts = concat (map fst ts)"

definition token_inv :: "'f stop_filter \<Rightarrow> bool" where
  "token_inv f \<longleftrightarrow> sf_pending f = pieces (sf_pending_tokens f)
     \<and> (\<forall>t \<in> set (sf_pending_tokens f). starts_char (fst t))"

lemma pieces_simps [simp]: "pieces [] = []" "pieces ((p, l) # ts) = p @ pieces ts"
  by (simp_all add: pieces_def)

lemma pieces_append [simp]: "pieces (xs @ ys) = pieces xs @ pieces ys"
  by (simp add: pieces_def)

lemma chars_boundary:
  "\<forall>t \<in> set ts. starts_char (fst t) \<Longrightarrow> char_boundary (pieces us @ pieces ts) (length (pieces us))"
proof (induction ts)
  case (Cons t ts)
  obtain p l where t: "t = (p, l)" by (cases t)
  show ?case
  proof (cases p)
    case Nil
    with Cons t show ?thesis by simp
  next
    case (Cons b bs)
    with Cons.prems t show ?thesis by (simp add: char_boundary_def starts_char_def nth_append)
  qed
qed (simp add: char_boundary_def)

lemma char_boundary_take_append:
  "char_boundary (us @ p @ vs) (length us + k) \<Longrightarrow> k < length p \<Longrightarrow> char_boundary p k"
  by (auto simp: char_boundary_def nth_append split: if_splits)

text \<open>The loop on whole tokens and the loop that may cut one: what comes out is a prefix of what
  was queued, no longer than the limit, and what stays is the rest of it.\<close>

lemma token_loop_whole:
  "token_prefix_loop limit False consumed ts = Some (n, out, left) \<Longrightarrow> consumed \<le> limit \<Longrightarrow>
   pieces ts = pieces out @ pieces left \<and> n = consumed + length (pieces out) \<and> n \<le> limit
   \<and> set left \<subseteq> set ts"
  by (induction limit "False" consumed ts arbitrary: n out left rule: token_prefix_loop.induct)
     (auto split: if_splits option.splits)

lemma token_loop_whole_total:
  "\<exists>n out left. token_prefix_loop limit False consumed ts = Some (n, out, left)"
  by (induction limit "False" consumed ts rule: token_prefix_loop.induct)
     (fastforce split: option.splits)+

lemma token_loop_partial:
  "char_boundary (us @ pieces ts) limit \<Longrightarrow> consumed = length us \<Longrightarrow> consumed \<le> limit \<Longrightarrow>
   limit \<le> length (us @ pieces ts) \<Longrightarrow>
   \<exists>out left. token_prefix_loop limit True consumed ts = Some (limit, out, left)
     \<and> us @ pieces out = take limit (us @ pieces ts)"
proof (induction limit "True" consumed ts arbitrary: us rule: token_prefix_loop.induct)
  case (2 limit consumed piece lp rest)
  show ?case
  proof (cases "piece = []")
    case True
    with 2 show ?thesis by simp
  next
    case False
    show ?thesis
    proof (cases "consumed + length piece \<le> limit")
      case True
      from "2.hyps"(2) [OF False True, of "us @ piece"] "2.prems" True
      obtain out left where "token_prefix_loop limit True (consumed + length piece) rest
          = Some (limit, out, left)" "(us @ piece) @ pieces out = take limit ((us @ piece) @ pieces rest)"
        by auto
      with False True show ?thesis by auto
    next
      case over: False
      show ?thesis
      proof (cases "consumed < limit")
        case True
        with "2.prems" over have "char_boundary piece (limit - consumed)"
          by (intro char_boundary_take_append [of us piece "pieces rest"]) auto
        with over False True "2.prems" show ?thesis by (auto simp: split_at_def)
      next
        case False
        with over \<open>piece \<noteq> []\<close> "2.prems" show ?thesis by auto
      qed
    qed
  qed
qed auto


definition spelled :: "'f token_piece list \<Rightarrow> bool" where
  "spelled ts \<longleftrightarrow> (\<forall>(p, l) \<in> set ts. ta_bytes (chosen l) = p)"

lemma token_loop_spelled:
  "token_prefix_loop limit b consumed ts = Some (n, out, left) \<Longrightarrow> spelled out"
  by (induction limit b consumed ts arbitrary: n out left rule: token_prefix_loop.induct)
     (auto simp: spelled_def set_chosen_bytes_def split_at_def split: if_splits option.splits)

lemma push_token_stop:
  assumes inv: "token_inv f" and ok: "stops_ok (sf_stops f)" and p: "starts_char p"
    and found: "first_stop (sf_stops f) (sf_pending f @ p) = Some i"
  shows "\<exists>out. push_token p lp f = Some ((True, out), f\<lparr>sf_pending := [], sf_pending_tokens := []\<rparr>)
           \<and> pieces out = take i (sf_pending f @ p) \<and> spelled out"
proof -
  let ?ts = "sf_pending_tokens f @ [(p, lp)]" and ?h = "sf_pending f @ p"
  have h: "pieces ?ts = ?h" using inv by (simp add: token_inv_def)
  obtain n where n: "n \<in> set (sf_stops f)" "occurs_at n ?h i"
    using first_stop_SomeD(1) [OF ok found] by blast
  note b = occurs_boundary [OF ok n]
  obtain out left where l: "token_prefix_loop i True 0 ?ts = Some (i, out, left)"
    "pieces out = take i ?h"
    using token_loop_partial [of "[]" ?ts i 0] b h by auto
  have "\<exists>g. take_token_prefix i True (f\<lparr>sf_pending := ?h, sf_pending_tokens := ?ts\<rparr>)
          = Some (out, g) \<and> sf_stops g = sf_stops f"
    using l b(1) by (simp add: take_token_prefix_def Let_def split_at_def)
  with found l token_loop_spelled [OF l(1)] show ?thesis
    by (auto simp: push_token_def Let_def)
qed

lemma push_token_pass:
  assumes inv: "token_inv f" and ok: "stops_ok (sf_stops f)" and p: "starts_char p"
    and none: "first_stop (sf_stops f) (sf_pending f @ p) = None"
  shows "\<exists>out f'. push_token p lp f = Some ((False, out), f') \<and> token_inv f'
           \<and> sf_stops f' = sf_stops f \<and> pieces out @ sf_pending f' = sf_pending f @ p
           \<and> longest_stop_prefix_suffix (sf_pending f @ p) (sf_stops f) \<le> length (sf_pending f')
           \<and> spelled out"
proof -
  let ?ts = "sf_pending_tokens f @ [(p, lp)]" and ?h = "sf_pending f @ p"
  let ?lim = "length ?h - longest_stop_prefix_suffix ?h (sf_stops f)"
  have h: "pieces ?ts = ?h" using inv by (simp add: token_inv_def)
  obtain n out left where l: "token_prefix_loop ?lim False 0 ?ts = Some (n, out, left)"
    using token_loop_whole_total by blast
  note w = token_loop_whole [OF l]
  have chars: "\<forall>t \<in> set left. starts_char (fst t)" using w inv p by (auto simp: token_inv_def)
  have split: "?h = pieces out @ pieces left" "n = length (pieces out)" "n \<le> ?lim" using w h by auto
  have "char_boundary ?h n" using chars_boundary [OF chars, of out] split by simp
  moreover have "drop n ?h = pieces left" using split by simp
  ultimately have "take_token_prefix ?lim False (f\<lparr>sf_pending := ?h, sf_pending_tokens := ?ts\<rparr>)
      = Some (out, f\<lparr>sf_pending := pieces left, sf_pending_tokens := left\<rparr>)"
    using l split(1,2) by (auto simp: take_token_prefix_def Let_def split_at_def)
  moreover have "longest_stop_prefix_suffix ?h (sf_stops f) \<le> length (pieces left)"
    using split longest_le [of ?h "sf_stops f"] by (metis add_le_cancel_left diff_diff_cancel diff_le_mono2 le_diff_conv length_append add.commute diff_add_inverse)
  ultimately show ?thesis
    using none split(1) chars token_loop_spelled [OF l]
    by (auto simp: push_token_def Let_def token_inv_def)
qed

lemma take_token_flush_ok:
  assumes "token_inv f"
  shows "\<exists>out f'. take_token_flush f = Some (out, f') \<and> pieces out = sf_pending f
           \<and> sf_pending f' = [] \<and> spelled out"
proof -
  let ?n = "length (sf_pending f)"
  have b: "char_boundary (sf_pending f) ?n" by (simp add: char_boundary_def)
  obtain out left where l: "token_prefix_loop ?n True 0 (sf_pending_tokens f) = Some (?n, out, left)"
    "pieces out = take ?n (sf_pending f)"
    using token_loop_partial [of "[]" "sf_pending_tokens f" ?n 0] b assms by (auto simp: token_inv_def)
  with b token_loop_spelled [OF l(1)] show ?thesis
    by (auto simp: take_token_flush_def take_token_prefix_def split_at_def Let_def)
qed

section \<open>Properties\<close>

definition ascii :: "string \<Rightarrow> utf8" where
  "ascii s = map (\<lambda>c. word_of_nat (of_char c)) s"

text \<open>C4. The filter, which keeps only the held-back suffix, behaves exactly as a reference that
  rescans the whole text after every piece: it never panics, it reports a stop for the same
  piece, the text it has emitted is then the reference's text cut at the earliest stop sequence,
  and while no stop has occurred the emitted text followed by the held-back text is the whole
  text.\<close>

theorem stop_filter_refines_rescan:
  assumes "\<forall>s \<in> set stops. s \<noteq> [] \<and> starts_char s" and "\<forall>p \<in> set ps. starts_char p"
  shows "\<exists>stopped out f. push_pieces ps (new_filter stops) = Some ((stopped, out), f)
           \<and> (stopped, out @ sf_pending f) = cut_stream stops [] ps"
proof -
  have "filter_inv [] (new_filter stops)" using assms(1) by (intro new_filter_inv) (simp add: stops_ok_def)
  from push_pieces_cut [OF this assms(2)] show ?thesis by (auto simp: new_filter_def)
qed

theorem stop_filter_refines_rescan_witness:
  "\<exists>stopped out f. push_pieces [ascii ''ab'', ascii ''cd''] (new_filter [ascii ''bc''])
       = Some ((stopped, out), f)
     \<and> (stopped, out @ sf_pending f) = (True, ascii ''a'')"
proof -
  have h: "\<forall>s \<in> set [ascii ''bc'']. s \<noteq> [] \<and> starts_char s"
    "\<forall>p \<in> set [ascii ''ab'', ascii ''cd'']. starts_char p"
    by (simp_all add: ascii_def starts_char_def is_continuation_def)
  have "cut_stream [ascii ''bc''] [] [ascii ''ab'', ascii ''cd''] = (True, ascii ''a'')"
    by (simp add: ascii_def first_stop_def List.map_filter_simps)
  with stop_filter_refines_rescan [OF h] show ?thesis by metis
qed

text \<open>In token mode (log probabilities requested) the filter keeps the same account in whole
  tokens: it never panics; on a stop the emitted tokens spell the held-back text up to the first
  stop sequence and nothing stays queued; otherwise emitted and queued tokens together spell the
  text, at least the longest suffix that may become a stop is held back, and every emitted
  token's bytes are the text shown for it.\<close>

theorem push_token_accounts:
  assumes "sf_pending f = pieces (sf_pending_tokens f)"
    and "\<forall>t \<in> set (sf_pending_tokens f). starts_char (fst t)"
    and "\<forall>s \<in> set (sf_stops f). s \<noteq> [] \<and> starts_char s" and "starts_char p"
  shows "\<exists>stopped out f'. push_token p lp f = Some ((stopped, out), f')
           \<and> (\<forall>(text, l) \<in> set out. ta_bytes (chosen l) = text)
           \<and> sf_pending f' = pieces (sf_pending_tokens f')
           \<and> (case first_stop (sf_stops f) (sf_pending f @ p) of
                Some i \<Rightarrow> stopped \<and> pieces out = take i (sf_pending f @ p) \<and> sf_pending_tokens f' = []
              | None \<Rightarrow> \<not> stopped \<and> pieces out @ pieces (sf_pending_tokens f') = sf_pending f @ p
                  \<and> longest_stop_prefix_suffix (sf_pending f @ p) (sf_stops f) \<le> length (sf_pending f'))"
proof -
  have inv: "token_inv f" and ok: "stops_ok (sf_stops f)"
    using assms(1,2,3) by (simp_all add: token_inv_def stops_ok_def)
  show ?thesis
  proof (cases "first_stop (sf_stops f) (sf_pending f @ p)")
    case None
    from push_token_pass [OF inv ok assms(4) None] None show ?thesis
      by (fastforce simp: token_inv_def spelled_def)
  next
    case (Some i)
    from push_token_stop [OF inv ok assms(4) Some] Some show ?thesis
      by (fastforce simp: spelled_def)
  qed
qed

theorem push_token_accounts_witness:
  "\<exists>stopped out f'.
     push_token (ascii ''bc'') \<lparr>chosen = \<lparr>token_id = 7, ta_bytes = [], ta_logprob = ()\<rparr>, top = []\<rparr>
       (new_filter [ascii ''cd'']) = Some ((stopped, out), f') \<and> \<not> stopped"
proof -
  have h: "sf_pending (new_filter [ascii ''cd''] :: unit stop_filter)
           = pieces (sf_pending_tokens (new_filter [ascii ''cd'']))"
    "\<forall>t \<in> set (sf_pending_tokens (new_filter [ascii ''cd''] :: unit stop_filter)). starts_char (fst t)"
    "\<forall>s \<in> set (sf_stops (new_filter [ascii ''cd''] :: unit stop_filter)). s \<noteq> [] \<and> starts_char s"
    "starts_char (ascii ''bc'')"
    by (simp_all add: new_filter_def ascii_def starts_char_def is_continuation_def)
  have "first_stop [ascii ''cd''] (ascii ''bc'') = None"
    by (simp add: ascii_def first_stop_def List.map_filter_simps)
  with push_token_accounts [OF h, of "\<lparr>chosen = \<lparr>token_id = 7, ta_bytes = [], ta_logprob = ()\<rparr>, top = []\<rparr>"]
  show ?thesis by (fastforce simp: new_filter_def)
qed

end
