(* ===== verification/Slots.thy ===== *)
theory Slots
  imports Stop_Filter Prefix_Cache
begin

text \<open>
  The slots of the llama.cpp generation worker (\<open>libs/orchion-llama-cpp/src/slot.rs\<close> and the
  types of \<open>contract.rs\<close>): what a slot holds in each of its four states, the bounded event
  channel to the client, flushing pending output into it, and the step from an active to a
  draining slot.

  The sampler and the text decoder (native code) are the type parameter \<open>'m\<close>, the semantic parser
  is \<open>'p\<close>, log probabilities are \<open>'f\<close>. Of a request, the fields the scheduler reads are kept.
  Durations are natural numbers (nanoseconds); the floating-point rates of \<open>Timings\<close> are functions
  of the counts and durations kept here and are not modelled.
\<close>

section \<open>Events and errors\<close>

datatype llama_error =
    Backend string
  | WorkerStart string
  | WorkerUnavailable
  | InvalidConfig string
  | InvalidRequest string string
  | Unsupported string string
  | ContextLimit nat nat nat
  | Cancelled
  | WorkerPanic string
  | Generation string
  | EmbeddingError string

datatype finish_reason = Stop | Length | CancelledReason | ToolCalls

datatype semantic_delta =
    Text utf8
  | Reasoning utf8
  | ToolCall nat "utf8 option" "utf8 option" utf8

record timings =
  t_cache_n :: nat
  t_prompt_n :: nat
  t_prompt_wall :: nat
  t_predicted_n :: nat
  t_predicted_wall :: nat

record usage =
  u_prompt_tokens :: nat
  u_completion_tokens :: nat
  u_reasoning_tokens :: nat
  u_timings :: timings

datatype 'f event =
    Content utf8
  | Token utf8 "'f token_logprobs"
  | Semantic semantic_delta
  | Finished finish_reason usage
  | Failed string

section \<open>Channels\<close>

text \<open>The sending half of a bounded \<open>mpsc\<close> channel: its capacity, what is queued, and whether
  the receiver has closed it.\<close>

record 'f channel =
  ch_capacity :: nat
  ch_queue :: "'f event list"
  ch_closed :: bool

datatype 'f send_result = SendOk "'f channel" | SendFull | SendClosed

definition try_send :: "'f event \<Rightarrow> 'f channel \<Rightarrow> 'f send_result" where
  "try_send e ch =
     (if ch_closed ch then SendClosed
      else if ch_capacity ch \<le> length (ch_queue ch) then SendFull
      else SendOk (ch\<lparr>ch_queue := ch_queue ch @ [e]\<rparr>))"

text \<open>The channels of one request. A one-shot sender is present until it has been used. The client
  number names the request whose receivers are at the other end.\<close>

record 'f lifecycle =
  lc_client :: nat
  lc_operation :: "u64 option"
  lc_cancelled :: bool
  lc_events :: "'f channel option"
  lc_readiness :: bool
  lc_acknowledged :: bool
  lc_terminal :: bool

section \<open>Slots\<close>

record request =
  req_max_tokens :: nat
  req_top_logprobs :: "nat option"
  req_has_images :: bool
  req_raw_prompt :: bool

datatype reservation_decision = Commit request | Abort

datatype decision_poll = PollCommit request | PollAbort | PollClosed | PollEmpty

record 'f reserved_slot =
  r_lifecycle :: "'f lifecycle"
  r_decision :: "decision_poll option"
  r_committed :: "request option"

record ('f, 'm, 'p) active_slot =
  a_lifecycle :: "'f lifecycle"
  a_request :: request
  a_tokens :: "i32 list"
  a_prefill_cursor :: nat
  a_cache_n :: nat
  a_cache_capture_at :: "nat option"
  a_cache_compatibility :: compatibility
  a_pending_decode :: "i32 option"
  a_sampler :: 'm
  a_semantic_parser :: "'p option"
  a_preserved_tokens :: "i32 list"
  a_stop_filter :: "'f stop_filter"
  a_pending_semantic :: "semantic_delta list"
  a_pending_tokens :: "'f token_piece list"
  a_pending_content :: "utf8 option"
  a_completion_tokens :: nat
  a_reasoning_tokens :: nat
  a_reasoning_active :: bool
  a_prompt_tokens :: nat
  a_next_position :: nat
  a_prompt_wall :: nat
  a_predicted_wall :: nat

type_synonym 'f outcome = "llama_error + 'f event"

record 'f draining_slot =
  d_lifecycle :: "'f lifecycle"
  d_pending_tokens :: "'f token_piece list"
  d_pending_content :: "utf8 option"
  d_pending_semantic :: "semantic_delta list"
  d_outcome :: "'f outcome"

datatype ('f, 'm, 'p) slot_state =
    Vacant
  | Reserved "'f reserved_slot"
  | Active "('f, 'm, 'p) active_slot"
  | Draining "'f draining_slot"

definition is_vacant :: "('f, 'm, 'p) slot_state \<Rightarrow> bool" where
  "is_vacant s \<longleftrightarrow> (case s of Vacant \<Rightarrow> True | _ \<Rightarrow> False)"

definition is_occupied :: "('f, 'm, 'p) slot_state \<Rightarrow> bool" where
  "is_occupied s \<longleftrightarrow> \<not> is_vacant s"

definition slot_usage :: "('f, 'm, 'p) active_slot \<Rightarrow> usage" where
  "slot_usage a =
     \<lparr>u_prompt_tokens = a_prompt_tokens a, u_completion_tokens = a_completion_tokens a,
      u_reasoning_tokens = a_reasoning_tokens a,
      u_timings = \<lparr>t_cache_n = a_cache_n a, t_prompt_n = a_prompt_tokens a - a_cache_n a,
                   t_prompt_wall = a_prompt_wall a, t_predicted_n = a_completion_tokens a,
                   t_predicted_wall = a_predicted_wall a\<rparr>\<rparr>"

definition finish_event :: "('f, 'm, 'p) active_slot \<Rightarrow> finish_reason \<Rightarrow> 'f event" where
  "finish_event a reason = Finished reason (slot_usage a)"

text \<open>From active to draining. Flushing the stop filter moves what it holds back into the pending
  output: whole tokens in token mode, else the text behind any pending content.\<close>

definition drained :: "('f, 'm, 'p) active_slot \<Rightarrow> 'f outcome \<Rightarrow> 'f draining_slot" where
  "drained a outcome =
     \<lparr>d_lifecycle = a_lifecycle a, d_pending_tokens = a_pending_tokens a,
      d_pending_content = a_pending_content a, d_pending_semantic = a_pending_semantic a,
      d_outcome = outcome\<rparr>"

definition into_draining ::
  "('f, 'm, 'p) active_slot \<Rightarrow> 'f outcome \<Rightarrow> bool \<Rightarrow> 'f draining_slot option" where
  "into_draining a outcome flush_filter =
     (if \<not> flush_filter then Some (drained a outcome)
      else case take_token_flush (a_stop_filter a) of
             None \<Rightarrow> None
           | Some (tokens, f) \<Rightarrow>
               if tokens = [] then
                 (case take_flush f of
                    None \<Rightarrow> None
                  | Some (None, f') \<Rightarrow> Some (drained (a\<lparr>a_stop_filter := f'\<rparr>) outcome)
                  | Some (Some suffix, f') \<Rightarrow>
                      Some (drained (a\<lparr>a_stop_filter := f',
                        a_pending_content := Some (opt_text (a_pending_content a) @ suffix)\<rparr>) outcome))
               else Some (drained (a\<lparr>a_stop_filter := f,
                        a_pending_tokens := a_pending_tokens a @ tokens\<rparr>) outcome))"

section \<open>Flushing pending output\<close>

text \<open>\<open>try_flush_content\<close> of an active slot: at most one semantic delta per call, else one token and
  then the content. The error is that the receiver is gone; the item it was about
  to send is dropped.\<close>

definition set_channel :: "'f channel \<Rightarrow> 'f lifecycle \<Rightarrow> 'f lifecycle" where
  "set_channel ch lc = lc\<lparr>lc_events := Some ch\<rparr>"

definition flush_content_part ::
  "('f, 'm, 'p) active_slot \<Rightarrow> llama_error option \<times> ('f, 'm, 'p) active_slot" where
  "flush_content_part a =
     (case a_pending_content a of
        None \<Rightarrow> (None, a)
      | Some content \<Rightarrow>
          (let taken = a\<lparr>a_pending_content := None\<rparr> in
           case lc_events (a_lifecycle a) of
             None \<Rightarrow> (Some Cancelled, taken)
           | Some ch \<Rightarrow>
               (case try_send (Content content) ch of
                  SendOk ch' \<Rightarrow> (None, taken\<lparr>a_lifecycle := set_channel ch' (a_lifecycle a)\<rparr>)
                | SendFull \<Rightarrow> (None, a)
                | SendClosed \<Rightarrow> (Some Cancelled, taken))))"

definition flush_token_part ::
  "('f, 'm, 'p) active_slot \<Rightarrow> llama_error option \<times> ('f, 'm, 'p) active_slot" where
  "flush_token_part a =
     (case a_pending_tokens a of
        [] \<Rightarrow> flush_content_part a
      | (text, lp) # tokens \<Rightarrow>
          (let taken = a\<lparr>a_pending_tokens := tokens\<rparr> in
           case lc_events (a_lifecycle a) of
             None \<Rightarrow> (Some Cancelled, taken)
           | Some ch \<Rightarrow>
               (case try_send (Token text lp) ch of
                  SendOk ch' \<Rightarrow>
                    flush_content_part (taken\<lparr>a_lifecycle := set_channel ch' (a_lifecycle a)\<rparr>)
                | SendFull \<Rightarrow> (None, a)
                | SendClosed \<Rightarrow> (Some Cancelled, taken))))"

definition try_flush_content ::
  "('f, 'm, 'p) active_slot \<Rightarrow> llama_error option \<times> ('f, 'm, 'p) active_slot" where
  "try_flush_content a =
     (case a_pending_semantic a of
        [] \<Rightarrow> flush_token_part a
      | delta # deltas \<Rightarrow>
          (let taken = a\<lparr>a_pending_semantic := deltas\<rparr> in
           case lc_events (a_lifecycle a) of
             None \<Rightarrow> (Some Cancelled, taken)
           | Some ch \<Rightarrow>
               (case try_send (Semantic delta) ch of
                  SendOk ch' \<Rightarrow> (None, taken\<lparr>a_lifecycle := set_channel ch' (a_lifecycle a)\<rparr>)
                | SendFull \<Rightarrow> (None, a)
                | SendClosed \<Rightarrow> (Some Cancelled, taken))))"

text \<open>\<open>try_flush_draining\<close>: the flag says that the slot may be finalised.\<close>

definition drain_content_part :: "'f draining_slot \<Rightarrow> bool \<times> 'f draining_slot" where
  "drain_content_part d =
     (case d_pending_content d of
        None \<Rightarrow> (True, d)
      | Some content \<Rightarrow>
          (case lc_events (d_lifecycle d) of
             None \<Rightarrow> (True, d\<lparr>d_pending_content := None\<rparr>)
           | Some ch \<Rightarrow>
               (case try_send (Content content) ch of
                  SendOk ch' \<Rightarrow> (True, d\<lparr>d_pending_content := None,
                                          d_lifecycle := set_channel ch' (d_lifecycle d)\<rparr>)
                | SendClosed \<Rightarrow> (True, d\<lparr>d_pending_content := None\<rparr>)
                | SendFull \<Rightarrow> (False, d))))"

definition drain_token_part :: "'f draining_slot \<Rightarrow> bool \<times> 'f draining_slot" where
  "drain_token_part d =
     (case d_pending_tokens d of
        [] \<Rightarrow> drain_content_part d
      | (text, lp) # tokens \<Rightarrow>
          (case lc_events (d_lifecycle d) of
             None \<Rightarrow> (True, d\<lparr>d_pending_tokens := tokens\<rparr>)
           | Some ch \<Rightarrow>
               (case try_send (Token text lp) ch of
                  SendOk ch' \<Rightarrow>
                    drain_content_part (d\<lparr>d_pending_tokens := tokens,
                                          d_lifecycle := set_channel ch' (d_lifecycle d)\<rparr>)
                | SendClosed \<Rightarrow> (True, d\<lparr>d_pending_tokens := tokens\<rparr>)
                | SendFull \<Rightarrow> (False, d))))"

definition try_flush_draining :: "'f draining_slot \<Rightarrow> bool \<times> 'f draining_slot" where
  "try_flush_draining d =
     (case d_pending_semantic d of
        [] \<Rightarrow> drain_token_part d
      | delta # deltas \<Rightarrow>
          (case lc_events (d_lifecycle d) of
             None \<Rightarrow> (True, d\<lparr>d_pending_semantic := deltas\<rparr>)
           | Some ch \<Rightarrow>
               (case try_send (Semantic delta) ch of
                  SendOk ch' \<Rightarrow>
                    (let d' = d\<lparr>d_pending_semantic := deltas,
                                d_lifecycle := set_channel ch' (d_lifecycle d)\<rparr>
                     in if deltas \<noteq> [] then (False, d') else drain_token_part d')
                | SendClosed \<Rightarrow> (True, d\<lparr>d_pending_semantic := deltas\<rparr>)
                | SendFull \<Rightarrow> (False, d))))"


section \<open>What flushing delivers\<close>

text \<open>The events still to be delivered for a slot: what the channel holds, then what is pending, in
  the order the flush sends it.\<close>

definition queued :: "'f lifecycle \<Rightarrow> 'f event list" where
  "queued lc = (case lc_events lc of None \<Rightarrow> [] | Some ch \<Rightarrow> ch_queue ch)"

definition pending_events ::
  "semantic_delta list \<Rightarrow> 'f token_piece list \<Rightarrow> utf8 option \<Rightarrow> 'f event list" where
  "pending_events deltas tokens content =
     map Semantic deltas @ map (\<lambda>(text, lp). Token text lp) tokens
     @ (case content of None \<Rightarrow> [] | Some c \<Rightarrow> [Content c])"

definition active_output :: "('f, 'm, 'p) active_slot \<Rightarrow> 'f event list" where
  "active_output a = queued (a_lifecycle a) @
     pending_events (a_pending_semantic a) (a_pending_tokens a) (a_pending_content a)"

definition draining_output :: "'f draining_slot \<Rightarrow> 'f event list" where
  "draining_output d = queued (d_lifecycle d) @
     pending_events (d_pending_semantic d) (d_pending_tokens d) (d_pending_content d)"

lemmas flush_defs = queued_def pending_events_def try_send_def set_channel_def

text \<open>An active slot has at most one kind of pending output: semantic deltas, tokens or content.\<close>

definition one_kind :: "('f, 'm, 'p) active_slot \<Rightarrow> bool" where
  "one_kind a \<longleftrightarrow>
     (a_pending_semantic a = [] \<or> (a_pending_tokens a = [] \<and> a_pending_content a = None))
     \<and> (a_pending_tokens a = [] \<or> a_pending_content a = None)"

lemma flush_content_part_keeps:
  "flush_content_part a = (None, a') \<Longrightarrow> a_pending_semantic a = [] \<Longrightarrow> a_pending_tokens a = [] \<Longrightarrow>
   active_output a' = active_output a \<and> lc_cancelled (a_lifecycle a') = lc_cancelled (a_lifecycle a)"
  by (auto simp: flush_content_part_def active_output_def flush_defs Let_def
           split: option.splits send_result.splits if_splits)

lemma flush_token_part_keeps:
  assumes "flush_token_part a = (None, a')" and "a_pending_semantic a = []"
    and "a_pending_tokens a = [] \<or> a_pending_content a = None"
  shows "active_output a' = active_output a"
proof (cases "a_pending_tokens a")
  case Nil
  with assms flush_content_part_keeps [of a a'] show ?thesis by (simp add: flush_token_part_def)
next
  case (Cons t ts)
  with assms show ?thesis
    by (cases t) (auto simp: flush_token_part_def flush_content_part_def active_output_def flush_defs
                    split: option.splits if_splits)
qed

lemma try_flush_content_keeps:
  assumes "one_kind a" and "try_flush_content a = (None, a')"
  shows "active_output a' = active_output a"
proof (cases "a_pending_semantic a")
  case Nil
  with assms flush_token_part_keeps show ?thesis by (auto simp: try_flush_content_def one_kind_def)
next
  case (Cons delta deltas)
  with assms show ?thesis
    by (auto simp: try_flush_content_def active_output_def flush_defs Let_def
             split: option.splits if_splits)
qed

text \<open>A draining slot that reports itself flushed over an open channel. \<open>delivered d d'\<close>: nothing is
  pending any more and everything that was has been sent, in order.\<close>

definition delivered :: "'f draining_slot \<Rightarrow> 'f draining_slot \<Rightarrow> bool" where
  "delivered d d' \<longleftrightarrow> draining_output d' = draining_output d \<and> d_pending_semantic d' = []
     \<and> d_pending_tokens d' = [] \<and> d_pending_content d' = None"

lemma drain_content_delivers:
  assumes "drain_content_part d = (True, d')" and "lc_events (d_lifecycle d) = Some ch"
    and "\<not> ch_closed ch" and "d_pending_semantic d = []" and "d_pending_tokens d = []"
  shows "delivered d d'"
proof (cases "d_pending_content d")
  case None
  with assms show ?thesis by (simp add: drain_content_part_def delivered_def)
next
  case (Some c)
  with assms show ?thesis
    by (auto simp: drain_content_part_def delivered_def draining_output_def flush_defs
             split: if_splits)
qed

lemma drain_token_delivers:
  assumes "drain_token_part d = (True, d')" and "lc_events (d_lifecycle d) = Some ch"
    and "\<not> ch_closed ch" and "d_pending_semantic d = []" and "length (d_pending_tokens d) \<le> 1"
  shows "delivered d d'"
proof (cases "d_pending_tokens d")
  case Nil
  with assms drain_content_delivers show ?thesis by (simp add: drain_token_part_def)
next
  case (Cons t ts)
  obtain str lp where t: "t = (str, lp)" by (cases t)
  with Cons assms(5) have tok: "d_pending_tokens d = [(str, lp)]" by simp
  let ?ch = "ch\<lparr>ch_queue := ch_queue ch @ [Token str lp]\<rparr>"
  let ?d = "d\<lparr>d_pending_tokens := [], d_lifecycle := set_channel ?ch (d_lifecycle d)\<rparr>"
  from tok assms(1-3) have part: "drain_content_part ?d = (True, d')"
    by (auto simp: drain_token_part_def try_send_def split: if_splits)
  have "delivered ?d d'"
    using drain_content_delivers [OF part, of ?ch] assms(3,4) by (simp add: set_channel_def)
  moreover have "draining_output ?d = draining_output d"
    using tok assms(2,4) by (simp add: draining_output_def flush_defs)
  ultimately show ?thesis by (simp add: delivered_def)
qed

lemma try_flush_draining_delivers:
  assumes "try_flush_draining d = (True, d')" and "lc_events (d_lifecycle d) = Some ch"
    and "\<not> ch_closed ch" and "length (d_pending_tokens d) \<le> 1"
  shows "delivered d d'"
proof (cases "d_pending_semantic d")
  case Nil
  with assms drain_token_delivers show ?thesis by (simp add: try_flush_draining_def)
next
  case (Cons delta deltas)
  let ?ch = "ch\<lparr>ch_queue := ch_queue ch @ [Semantic delta]\<rparr>"
  let ?d = "d\<lparr>d_pending_semantic := [], d_lifecycle := set_channel ?ch (d_lifecycle d)\<rparr>"
  from Cons assms(1-3) have part: "drain_token_part ?d = (True, d')" and last: "deltas = []"
    by (auto simp: try_flush_draining_def try_send_def Let_def split: if_splits)
  have "delivered ?d d'"
    using drain_token_delivers [OF part, of ?ch] assms(3,4) by (simp add: set_channel_def)
  moreover have "draining_output ?d = draining_output d"
    using Cons last assms(2) by (simp add: draining_output_def flush_defs)
  ultimately show ?thesis by (simp add: delivered_def)
qed

section \<open>Properties\<close>

definition open_channel :: "nat \<Rightarrow> 'f channel" where
  "open_channel n = \<lparr>ch_capacity = n, ch_queue = [], ch_closed = False\<rparr>"

definition fresh_lifecycle :: "nat \<Rightarrow> nat \<Rightarrow> 'f lifecycle" where
  "fresh_lifecycle client n =
     \<lparr>lc_client = client, lc_operation = None, lc_cancelled = False,
      lc_events = Some (open_channel n), lc_readiness = True, lc_acknowledged = True,
      lc_terminal = True\<rparr>"

text \<open>A draining slot that reports itself flushed has delivered everything: over an open event
  channel, with at most one token pending, the client receives all pending semantic deltas, the
  token and the content, in that order, and nothing is left behind.\<close>

theorem draining_delivers_all:
  assumes "try_flush_draining d = (True, d')" and "lc_events (d_lifecycle d) = Some ch"
    and "\<not> ch_closed ch" and "length (d_pending_tokens d) \<le> 1"
  shows "queued (d_lifecycle d') = ch_queue ch
           @ pending_events (d_pending_semantic d) (d_pending_tokens d) (d_pending_content d)
         \<and> d_pending_semantic d' = [] \<and> d_pending_tokens d' = [] \<and> d_pending_content d' = None"
  using try_flush_draining_delivers [OF assms] assms(2)
  by (auto simp: delivered_def draining_output_def pending_events_def queued_def)

theorem draining_delivers_all_witness:
  "queued (d_lifecycle (snd (try_flush_draining
     \<lparr>d_lifecycle = fresh_lifecycle 0 4, d_pending_tokens = [], d_pending_content = Some (ascii ''x''),
      d_pending_semantic = [Text (ascii ''y'')], d_outcome = Inl Cancelled :: unit outcome\<rparr>)))
   = [Semantic (Text (ascii ''y'')), Content (ascii ''x'')]"
proof -
  let ?d = "\<lparr>d_lifecycle = fresh_lifecycle 0 4, d_pending_tokens = [], d_pending_content = Some (ascii ''x''),
      d_pending_semantic = [Text (ascii ''y'')], d_outcome = Inl Cancelled :: unit outcome\<rparr>"
  have "try_flush_draining ?d = (True, snd (try_flush_draining ?d))"
    by (simp add: try_flush_draining_def drain_token_part_def drain_content_part_def flush_defs
                  fresh_lifecycle_def open_channel_def)
  from draining_delivers_all [OF this, of "open_channel 4"] show ?thesis
    by (simp add: fresh_lifecycle_def open_channel_def pending_events_def)
qed


definition sample_logprobs :: "unit token_logprobs" where
  "sample_logprobs = \<lparr>chosen = \<lparr>token_id = 0, ta_bytes = [], ta_logprob = ()\<rparr>, top = []\<rparr>"


text \<open>Flushing an active slot loses nothing, reorders nothing and duplicates nothing: unless the
  receiver is gone, what the channel holds followed by what is pending is the same sequence of
  events before and after the call.\<close>

theorem active_flush_keeps_output:
  assumes "a_pending_semantic a = [] \<or> (a_pending_tokens a = [] \<and> a_pending_content a = None)"
    and "a_pending_tokens a = [] \<or> a_pending_content a = None"
    and "try_flush_content a = (None, a')"
  shows "queued (a_lifecycle a') @
           pending_events (a_pending_semantic a') (a_pending_tokens a') (a_pending_content a')
         = queued (a_lifecycle a) @
           pending_events (a_pending_semantic a) (a_pending_tokens a) (a_pending_content a)"
proof -
  have "one_kind a" using assms(1,2) by (simp add: one_kind_def)
  from try_flush_content_keeps [OF this assms(3)] show ?thesis by (simp add: active_output_def)
qed

definition sample_active :: "(unit, unit, unit) active_slot" where
  "sample_active =
     \<lparr>a_lifecycle = fresh_lifecycle 0 1, a_request = \<lparr>req_max_tokens = 4, req_top_logprobs = None,
        req_has_images = False, req_raw_prompt = True\<rparr>,
      a_tokens = [1, 2, 3], a_prefill_cursor = 0, a_cache_n = 0, a_cache_capture_at = None,
      a_cache_compatibility = raw_key 0, a_pending_decode = None, a_sampler = (),
      a_semantic_parser = None, a_preserved_tokens = [], a_stop_filter = new_filter [],
      a_pending_semantic = [], a_pending_tokens = [], a_pending_content = None,
      a_completion_tokens = 0, a_reasoning_tokens = 0, a_reasoning_active = False,
      a_prompt_tokens = 3, a_next_position = 3, a_prompt_wall = 0, a_predicted_wall = 0\<rparr>"

theorem active_flush_keeps_output_witness:
  "queued (a_lifecycle (snd (try_flush_content
     (sample_active\<lparr>a_pending_semantic := [Text (ascii ''a''), Text (ascii ''b'')]\<rparr>))))
   = [Semantic (Text (ascii ''a''))]"
proof -
  let ?a = "sample_active\<lparr>a_pending_semantic := [Text (ascii ''a''), Text (ascii ''b'')]\<rparr>"
  have eq: "try_flush_content ?a = (None, snd (try_flush_content ?a))"
    "a_pending_semantic (snd (try_flush_content ?a)) = [Text (ascii ''b'')]"
    "a_pending_tokens (snd (try_flush_content ?a)) = []"
    "a_pending_content (snd (try_flush_content ?a)) = None"
    by (simp_all add: try_flush_content_def flush_defs sample_active_def fresh_lifecycle_def
          open_channel_def)
  have "a_pending_semantic ?a = [] \<or> (a_pending_tokens ?a = [] \<and> a_pending_content ?a = None)"
    "a_pending_tokens ?a = [] \<or> a_pending_content ?a = None"
    by (simp_all add: sample_active_def)
  from active_flush_keeps_output [OF this eq(1)] eq show ?thesis
    by (simp add: pending_events_def sample_active_def queued_def fresh_lifecycle_def open_channel_def)
qed

end
