(* ===== verification/Batch_Planner.thy ===== *)
theory Batch_Planner
  imports Slots "HOL-Library.Code_Target_Nat"
begin

text \<open>
  The batch planner of the generation worker (\<open>plan_batch\<close> and \<open>plan_sources\<close> in
  \<open>libs/orchion-llama-cpp/src/slot.rs\<close>): which tokens of which slots go into the next shared
  decode call. Every slot with a token to decode comes first, in slot order; what capacity is left
  is shared by the slots with prompt tokens to prefill, in chunks, starting at a rotating cursor.

  The trait \<open>BatchSource\<close> is the three functions \<open>dec\<close>, \<open>rem\<close> and \<open>pre\<close> that the planner takes;
  its contract is the locale \<open>batch_source\<close>, interpreted on the slots at the end.
\<close>

section \<open>Batch entries\<close>

datatype batch_entry_kind = Decode | Prefill

record batch_entry =
  be_slot :: nat
  be_token :: i32
  be_position :: nat
  be_logits :: bool
  be_kind :: batch_entry_kind

record batch_plan =
  bp_entries :: "batch_entry list"
  bp_next_prefill_slot :: nat

text \<open>\<open>i32::try_from\<close> of a position.\<close>

definition i32_max :: nat where
  "i32_max = 2147483647"

definition as_i32 :: "nat \<Rightarrow> nat option" where
  "as_i32 n = (if n \<le> i32_max then Some n else None)"

definition output_blocked :: "('f, 'm, 'p) active_slot \<Rightarrow> bool" where
  "output_blocked a \<longleftrightarrow>
     a_pending_content a \<noteq> None \<or> a_pending_tokens a \<noteq> [] \<or> a_pending_semantic a \<noteq> []"

definition active_decoding_entry :: "('f, 'm, 'p) active_slot \<Rightarrow> nat \<Rightarrow> batch_entry option" where
  "active_decoding_entry a slot =
     (if output_blocked a then None
      else case a_pending_decode a of
             None \<Rightarrow> None
           | Some token \<Rightarrow>
               map_option (\<lambda>pos. \<lparr>be_slot = slot, be_token = token, be_position = pos,
                                  be_logits = True, be_kind = Decode\<rparr>)
                 (as_i32 (a_next_position a)))"

definition prefill_target :: "('f, 'm, 'p) active_slot \<Rightarrow> nat" where
  "prefill_target a = (case a_cache_capture_at a of None \<Rightarrow> length (a_tokens a) | Some n \<Rightarrow> n)"

definition active_remaining_prefill :: "('f, 'm, 'p) active_slot \<Rightarrow> nat" where
  "active_remaining_prefill a =
     (if output_blocked a \<or> a_pending_decode a \<noteq> None then 0
      else prefill_target a - a_prefill_cursor a)"

definition active_prefill_entry ::
  "('f, 'm, 'p) active_slot \<Rightarrow> nat \<Rightarrow> nat \<Rightarrow> batch_entry option" where
  "active_prefill_entry a slot offset =
     (let index = a_prefill_cursor a + offset in
      if length (a_tokens a) \<le> index then None
      else map_option (\<lambda>pos. \<lparr>be_slot = slot, be_token = a_tokens a ! index, be_position = pos,
               be_logits = (index + 1 = length (a_tokens a) \<and> 0 < req_max_tokens (a_request a)),
               be_kind = Prefill\<rparr>)
             (as_i32 index))"

fun decoding_entry :: "('f, 'm, 'p) slot_state \<Rightarrow> nat \<Rightarrow> batch_entry option" where
  "decoding_entry (Active a) slot = active_decoding_entry a slot"
| "decoding_entry _ slot = None"

fun remaining_prefill :: "('f, 'm, 'p) slot_state \<Rightarrow> nat" where
  "remaining_prefill (Active a) = active_remaining_prefill a"
| "remaining_prefill _ = 0"

fun prefill_entry :: "('f, 'm, 'p) slot_state \<Rightarrow> nat \<Rightarrow> nat \<Rightarrow> batch_entry option" where
  "prefill_entry (Active a) slot offset = active_prefill_entry a slot offset"
| "prefill_entry _ slot offset = None"

section \<open>The planner\<close>

text \<open>The first loop: decoding entries in slot order, with the early return when the batch is full.
  The flag reports that return.\<close>

fun plan_decodes ::
  "('s \<Rightarrow> nat \<Rightarrow> batch_entry option) \<Rightarrow> nat \<Rightarrow> nat \<Rightarrow> 's list \<Rightarrow> batch_entry list \<Rightarrow>
   bool \<times> batch_entry list" where
  "plan_decodes dec capacity i [] entries = (False, entries)"
| "plan_decodes dec capacity i (s # ss) entries =
     (case dec s i of
        None \<Rightarrow> plan_decodes dec capacity (Suc i) ss entries
      | Some e \<Rightarrow>
          (let entries' = entries @ [e] in
           if length entries' = capacity then (True, entries')
           else plan_decodes dec capacity (Suc i) ss entries'))"

text \<open>One pass of the second loop over the eligible slots: each contributes at most \<open>chunk\<close> tokens;
  the pass breaks off when the batch is full.\<close>

record prefill_state =
  ps_entries :: "batch_entry list"
  ps_consumed :: "nat list"
  ps_progressed :: bool

definition prefill_take ::
  "('s \<Rightarrow> nat) \<Rightarrow> 's list \<Rightarrow> nat \<Rightarrow> nat \<Rightarrow> nat \<Rightarrow> prefill_state \<Rightarrow> nat" where
  "prefill_take rem slots capacity chunk i st =
     min (min (rem (slots ! i) - ps_consumed st ! i) chunk) (capacity - length (ps_entries st))"

definition prefill_slot ::
  "('s \<Rightarrow> nat) \<Rightarrow> ('s \<Rightarrow> nat \<Rightarrow> nat \<Rightarrow> batch_entry option) \<Rightarrow> 's list \<Rightarrow> nat \<Rightarrow> nat \<Rightarrow> nat \<Rightarrow>
   prefill_state \<Rightarrow> prefill_state" where
  "prefill_slot rem pre slots capacity chunk i st =
     (let take = prefill_take rem slots capacity chunk i st in
      \<lparr>ps_entries = ps_entries st @
         List.map_filter (\<lambda>offset. pre (slots ! i) i (ps_consumed st ! i + offset)) [0..<take],
       ps_consumed = (ps_consumed st)[i := ps_consumed st ! i + take],
       ps_progressed = (ps_progressed st \<or> 0 < take)\<rparr>)"

fun prefill_pass ::
  "('s \<Rightarrow> nat) \<Rightarrow> ('s \<Rightarrow> nat \<Rightarrow> nat \<Rightarrow> batch_entry option) \<Rightarrow> 's list \<Rightarrow> nat \<Rightarrow> nat \<Rightarrow> nat list \<Rightarrow>
   prefill_state \<Rightarrow> prefill_state" where
  "prefill_pass rem pre slots capacity chunk [] st = st"
| "prefill_pass rem pre slots capacity chunk (i # is) st =
     (let st' = prefill_slot rem pre slots capacity chunk i st in
      if length (ps_entries st') = capacity then st'
      else prefill_pass rem pre slots capacity chunk is st')"

definition left_over :: "('s \<Rightarrow> nat) \<Rightarrow> 's list \<Rightarrow> nat list \<Rightarrow> nat" where
  "left_over rem slots consumed = (\<Sum>i < length slots. rem (slots ! i) - consumed ! i)"

text \<open>The while loop. The slots' unplanned prompt tokens decrease in every pass that makes progress,
  so at most that many passes run: the fuel is this number, and the loop stops before it is used
  up.\<close>

fun prefill_loop ::
  "nat \<Rightarrow> ('s \<Rightarrow> nat) \<Rightarrow> ('s \<Rightarrow> nat \<Rightarrow> nat \<Rightarrow> batch_entry option) \<Rightarrow> 's list \<Rightarrow> nat \<Rightarrow> nat \<Rightarrow>
   nat list \<Rightarrow> prefill_state \<Rightarrow> prefill_state option" where
  "prefill_loop 0 rem pre slots capacity chunk elig st = None"
| "prefill_loop (Suc fuel) rem pre slots capacity chunk elig st =
     (if length (ps_entries st) < capacity then
        (let st' = prefill_pass rem pre slots capacity chunk elig (st\<lparr>ps_progressed := False\<rparr>) in
         if \<not> ps_progressed st' then Some st'
         else prefill_loop fuel rem pre slots capacity chunk elig st')
      else Some st)"

definition eligible_slots :: "('s \<Rightarrow> nat) \<Rightarrow> 's list \<Rightarrow> nat \<Rightarrow> nat list" where
  "eligible_slots rem slots start =
     filter (\<lambda>i. 0 < rem (slots ! i)) (map (\<lambda>offset. (start + offset) mod length slots) [0..<length slots])"

text \<open>\<open>None\<close> is the panic of \<open>capacity - entries.len()\<close> when a batch of capacity zero has taken a
  decoding entry, or an exhausted fuel, which does not happen.\<close>

definition plan_sources ::
  "('s \<Rightarrow> nat \<Rightarrow> batch_entry option) \<Rightarrow> ('s \<Rightarrow> nat) \<Rightarrow> ('s \<Rightarrow> nat \<Rightarrow> nat \<Rightarrow> batch_entry option) \<Rightarrow>
   's list \<Rightarrow> nat \<Rightarrow> nat \<Rightarrow> batch_plan option" where
  "plan_sources dec rem pre slots capacity prefill_cursor =
     (case plan_decodes dec capacity 0 slots [] of
        (True, entries) \<Rightarrow>
          Some \<lparr>bp_entries = entries, bp_next_prefill_slot = prefill_cursor\<rparr>
      | (False, entries) \<Rightarrow>
          if slots \<noteq> [] \<and> capacity < length entries then None
          else if slots = [] \<or> length entries = capacity then
            Some \<lparr>bp_entries = entries, bp_next_prefill_slot = prefill_cursor\<rparr>
          else
            (let start = prefill_cursor mod length slots;
                 eligible = eligible_slots rem slots start;
                 remaining_capacity = capacity - length entries;
                 chunk_size = div_ceil remaining_capacity (max (length eligible) 1);
                 st = \<lparr>ps_entries = entries, ps_consumed = replicate (length slots) 0,
                       ps_progressed = False\<rparr>
             in case prefill_loop (Suc (left_over rem slots (ps_consumed st))) rem pre slots capacity
                        chunk_size eligible st of
                  None \<Rightarrow> None
                | Some st' \<Rightarrow>
                    Some \<lparr>bp_entries = ps_entries st',
                          bp_next_prefill_slot =
                            (case eligible of [] \<Rightarrow> start | i # _ \<Rightarrow> (i + 1) mod length slots)\<rparr>))"

definition plan_batch :: "('f, 'm, 'p) slot_state list \<Rightarrow> nat \<Rightarrow> nat \<Rightarrow> batch_plan option" where
  "plan_batch slots capacity prefill_cursor =
     plan_sources decoding_entry remaining_prefill prefill_entry slots capacity prefill_cursor"

definition logits_targets :: "batch_plan \<Rightarrow> llama_error + (nat \<times> nat) list" where
  "logits_targets plan =
     (let targets = filter (\<lambda>(_, e). be_logits e) (enumerate 0 (bp_entries plan)) in
      if \<forall>(i, _) \<in> set targets. as_i32 i \<noteq> None
      then Inr (map (\<lambda>(i, e). (i, be_slot e)) targets)
      else Inl (Generation ''logits index conversion failed''))"


section \<open>The contract of a batch source\<close>

definition of_kind :: "batch_entry_kind \<Rightarrow> nat \<Rightarrow> batch_entry list \<Rightarrow> batch_entry list" where
  "of_kind k i es = filter (\<lambda>e. be_kind e = k \<and> be_slot e = i) es"

lemma of_kind_append [simp]: "of_kind k i (xs @ ys) = of_kind k i xs @ of_kind k i ys"
  by (simp add: of_kind_def)

lemma of_kind_Nil [simp]: "of_kind k i [] = []"
  by (simp add: of_kind_def)

locale batch_source =
  fixes dec :: "'s \<Rightarrow> nat \<Rightarrow> batch_entry option"
    and rem :: "'s \<Rightarrow> nat"
    and pre :: "'s \<Rightarrow> nat \<Rightarrow> nat \<Rightarrow> batch_entry option"
    and ok :: "'s \<Rightarrow> bool"
  assumes dec_entry: "dec s i = Some e \<Longrightarrow> be_slot e = i \<and> be_kind e = Decode"
    and pre_entry: "ok s \<Longrightarrow> k < rem s \<Longrightarrow>
      \<exists>e. pre s i k = Some e \<and> be_slot e = i \<and> be_kind e = Prefill"
begin

text \<open>What the decoding loop produces: the decoding entries in slot order, cut at the capacity.\<close>

abbreviation decodes_from :: "'s list \<Rightarrow> nat \<Rightarrow> batch_entry list" where
  "decodes_from slots i \<equiv> List.map_filter (\<lambda>j. dec (slots ! j) j) [i..<length slots]"

lemma plan_decodes_eq:
  "length entries < capacity \<Longrightarrow> ss = drop i slots \<Longrightarrow> i \<le> length slots \<Longrightarrow>
   plan_decodes dec capacity i ss entries =
     (capacity \<le> length (entries @ decodes_from slots i), take capacity (entries @ decodes_from slots i))"
proof (induction ss arbitrary: i entries)
  case Nil
  then show ?case by (simp add: List.map_filter_simps)
next
  case (Cons s ss)
  then have i: "i < length slots" by (metis drop_eq_Nil le_neq_implies_less list.distinct(1))
  with Cons.prems(2) have s: "s = slots ! i" "ss = drop (Suc i) slots"
    by (metis Cons_nth_drop_Suc list.inject)+
  have up: "[i..<length slots] = i # [Suc i..<length slots]" using i by (simp add: upt_conv_Cons)
  show ?case
  proof (cases "dec s i")
    case None
    with Cons.IH [of entries "Suc i"] Cons.prems(1) i s up show ?thesis
      by (simp add: List.map_filter_simps)
  next
    case (Some e)
    show ?thesis
    proof (cases "Suc (length entries) = capacity")
      case True
      then have "take capacity (entries @ e # decodes_from slots (Suc i)) = entries @ [e]"
        by (simp add: take_Cons')
      with True Some s up show ?thesis by (simp add: List.map_filter_simps)
    next
      case False
      with Cons.IH [of "entries @ [e]" "Suc i"] Cons.prems(1) i s up Some show ?thesis
        by (simp add: List.map_filter_simps)
    qed
  qed
qed

lemma decodes_kind: "e \<in> set (decodes_from slots i) \<Longrightarrow> be_kind e = Decode \<and> be_slot e < length slots"
  by (auto simp: set_map_filter_find) (use dec_entry in fastforce)+

text \<open>Each slot has at most one decoding entry.\<close>

lemma of_kind_decodes:
  "of_kind Decode j (decodes_from slots i) =
     (if i \<le> j \<and> j < length slots then (case dec (slots ! j) j of None \<Rightarrow> [] | Some e \<Rightarrow> [e]) else [])"
proof (induction "length slots - i" arbitrary: i)
  case 0
  then have "decodes_from slots i = []" and "\<not> (i \<le> j \<and> j < length slots)"
    by (auto simp: List.map_filter_def)
  then show ?case by (simp only: of_kind_Nil if_False)
next
  case (Suc d)
  then have i: "i < length slots" by simp
  then have up: "[i..<length slots] = i # [Suc i..<length slots]" by (simp add: upt_conv_Cons)
  from Suc have IH: "of_kind Decode j (decodes_from slots (Suc i)) =
     (if Suc i \<le> j \<and> j < length slots then (case dec (slots ! j) j of None \<Rightarrow> [] | Some e \<Rightarrow> [e]) else [])"
    by simp
  show ?case
  proof (cases "dec (slots ! i) i")
    case None
    with IH up i show ?thesis by (auto simp: List.map_filter_simps le_Suc_eq Suc_le_eq order_le_less)
  next
    case (Some e)
    note de = dec_entry [OF Some]
    have "of_kind Decode j (e # xs) = (if j = i then e # of_kind Decode j xs else of_kind Decode j xs)" for xs
      using de by (auto simp: of_kind_def)
    with IH up i Some show ?thesis
      by (auto simp: List.map_filter_simps Suc_le_eq order_le_less)
  qed
qed

text \<open>The invariant of the prefill loop: behind the decoding entries \<open>base\<close>, every slot has
  contributed exactly its first \<open>consumed\<close> prompt tokens, in order.\<close>

definition planned :: "'s list \<Rightarrow> batch_entry list \<Rightarrow> nat \<Rightarrow> prefill_state \<Rightarrow> bool" where
  "planned slots base capacity st \<longleftrightarrow> (\<forall>s \<in> set slots. ok s) \<and> length (ps_consumed st) = length slots
     \<and> length (ps_entries st) \<le> capacity
     \<and> (\<exists>extra. ps_entries st = base @ extra
          \<and> (\<forall>e \<in> set extra. be_kind e = Prefill \<and> be_slot e < length slots)
          \<and> (\<forall>i < length slots. ps_consumed st ! i \<le> rem (slots ! i)
               \<and> of_kind Prefill i extra = map (\<lambda>k. the (pre (slots ! i) i k)) [0..<ps_consumed st ! i]))"

lemma taken_entries:
  assumes "ok (slots ! i)" and "c + t \<le> rem (slots ! i)"
  shows "List.map_filter (\<lambda>k. pre (slots ! i) i (c + k)) [0..<t]
         = map (\<lambda>k. the (pre (slots ! i) i k)) [c..<c + t]"
  using assms(2)
proof (induction t)
  case (Suc n)
  then obtain e where "pre (slots ! i) i (c + n) = Some e"
    using pre_entry [OF assms(1), of "c + n"] by auto
  with Suc show ?case by (simp add: List.map_filter_def)
qed (simp add: List.map_filter_simps)

lemma entry_of:
  assumes "ok (slots ! i)" and "k < rem (slots ! i)"
  shows "be_slot (the (pre (slots ! i) i k)) = i" "be_kind (the (pre (slots ! i) i k)) = Prefill"
  using pre_entry [OF assms, of i] by auto

lemma prefill_slot_planned:
  assumes st: "planned slots base capacity st" and i: "i < length slots"
  shows "planned slots base capacity (prefill_slot rem pre slots capacity chunk i st)"
    and "length (ps_entries (prefill_slot rem pre slots capacity chunk i st))
         = length (ps_entries st) + prefill_take rem slots capacity chunk i st"
proof -
  let ?c = "ps_consumed st ! i" and ?t = "prefill_take rem slots capacity chunk i st"
  let ?new = "map (\<lambda>k. the (pre (slots ! i) i k)) [?c..<?c + ?t]"
  obtain extra where ex: "ps_entries st = base @ extra"
    "\<forall>e \<in> set extra. be_kind e = Prefill \<and> be_slot e < length slots"
    "\<forall>j < length slots. ps_consumed st ! j \<le> rem (slots ! j)
       \<and> of_kind Prefill j extra = map (\<lambda>k. the (pre (slots ! j) j k)) [0..<ps_consumed st ! j]"
    and len: "length (ps_consumed st) = length slots" "length (ps_entries st) \<le> capacity"
    and oks: "\<forall>s \<in> set slots. ok s"
    using st unfolding planned_def by blast
  have ok: "ok (slots ! i)" using oks i by simp
  have c: "?c \<le> rem (slots ! i)" using ex(3) i by blast
  then have t: "?c + ?t \<le> rem (slots ! i)" "?t \<le> capacity - length (ps_entries st)"
    by (auto simp: prefill_take_def)
  have new: "ps_entries (prefill_slot rem pre slots capacity chunk i st) = base @ extra @ ?new"
    using taken_entries [OF ok t(1)] ex(1) by (simp add: prefill_slot_def Let_def)
  then show "length (ps_entries (prefill_slot rem pre slots capacity chunk i st))
         = length (ps_entries st) + ?t" using ex(1) by simp
  have kind: "\<forall>e \<in> set ?new. be_kind e = Prefill \<and> be_slot e = i"
    using entry_of [OF ok] t(1) by auto
  have per: "of_kind Prefill j ?new = (if j = i then ?new else [])" for j
    using kind by (auto simp: of_kind_def filter_id_conv filter_empty_conv)
  have upd: "ps_consumed (prefill_slot rem pre slots capacity chunk i st)
      = (ps_consumed st)[i := ?c + ?t]" by (simp add: prefill_slot_def Let_def)
  have slots': "\<forall>j < length slots. (ps_consumed st)[i := ?c + ?t] ! j \<le> rem (slots ! j)
       \<and> of_kind Prefill j (extra @ ?new)
         = map (\<lambda>k. the (pre (slots ! j) j k)) [0..<(ps_consumed st)[i := ?c + ?t] ! j]"
  proof (intro allI impI)
    fix j assume j: "j < length slots"
    show "(ps_consumed st)[i := ?c + ?t] ! j \<le> rem (slots ! j)
       \<and> of_kind Prefill j (extra @ ?new)
         = map (\<lambda>k. the (pre (slots ! j) j k)) [0..<(ps_consumed st)[i := ?c + ?t] ! j]"
    proof (cases "j = i")
      case True
      have up: "[0..<?c + ?t] = [0..<?c] @ [?c..<?c + ?t]" by (rule upt_add_eq_append) simp
      have at: "(ps_consumed st)[i := ?c + ?t] ! i = ?c + ?t" using i len(1) by simp
      have new_i: "of_kind Prefill i ?new = ?new" using per [of i] by (simp only: if_True simp_thms)
      have old: "of_kind Prefill i extra = map (\<lambda>k. the (pre (slots ! i) i k)) [0..<?c]"
        using ex(3) i by blast
      show ?thesis unfolding True at of_kind_append new_i old up map_append using t(1) by blast
    next
      case False
      then have at: "(ps_consumed st)[i := ?c + ?t] ! j = ps_consumed st ! j" by simp
      from False have none: "of_kind Prefill j ?new = []" by (simp only: per if_False)
      show ?thesis unfolding at of_kind_append none append_Nil2 using ex(3) j by blast
    qed
  qed
  have kind': "\<forall>e \<in> set ?new. be_kind e = Prefill \<and> be_slot e < length slots"
  proof
    fix e assume "e \<in> set ?new"
    with kind have "be_kind e = Prefill" "be_slot e = i" by blast+
    with i show "be_kind e = Prefill \<and> be_slot e < length slots" by simp
  qed
  show "planned slots base capacity (prefill_slot rem pre slots capacity chunk i st)"
    unfolding planned_def upd new
  proof (intro conjI exI [of _ "extra @ ?new"])
    show "\<forall>s \<in> set slots. ok s" by (rule oks)
    show "length ((ps_consumed st)[i := ?c + ?t]) = length slots" using len(1) by simp
    show "length (base @ extra @ ?new) \<le> capacity" using ex(1) len(2) t(2) by simp
    show "\<forall>e \<in> set (extra @ ?new). be_kind e = Prefill \<and> be_slot e < length slots"
      unfolding set_append ball_Un using ex(2) kind' by blast
  qed (rule refl, rule slots')
qed

text \<open>A whole pass, and the loop.\<close>

lemma prefill_pass_planned:
  "planned slots base capacity st \<Longrightarrow> \<forall>i \<in> set is. i < length slots \<Longrightarrow>
   planned slots base capacity (prefill_pass rem pre slots capacity chunk is st)
   \<and> length (ps_entries st) \<le> length (ps_entries (prefill_pass rem pre slots capacity chunk is st))"
proof (induction "is" arbitrary: st)
  case (Cons i "is")
  let ?st = "prefill_slot rem pre slots capacity chunk i st"
  have i: "i < length slots" using Cons.prems(2) by simp
  from prefill_slot_planned [OF Cons.prems(1) i] Cons.IH [of ?st] Cons.prems(2)
  show ?case by (fastforce simp: Let_def)
qed simp

lemma prefill_pass_progress:
  assumes "planned slots base capacity st" and "\<forall>i \<in> set is. i < length slots"
  shows "ps_progressed (prefill_pass rem pre slots capacity chunk is st) \<longleftrightarrow>
         ps_progressed st
         \<or> length (ps_entries st) < length (ps_entries (prefill_pass rem pre slots capacity chunk is st))"
  using assms
proof (induction "is" arbitrary: st)
  case (Cons i "is")
  let ?st = "prefill_slot rem pre slots capacity chunk i st"
  have i: "i < length slots" using Cons.prems(2) by simp
  note one = prefill_slot_planned [OF Cons.prems(1) i, of chunk]
  have flag: "ps_progressed ?st \<longleftrightarrow> ps_progressed st \<or> length (ps_entries st) < length (ps_entries ?st)"
    using one(2) by (simp add: prefill_slot_def Let_def)
  have grow: "length (ps_entries ?st)
      \<le> length (ps_entries (prefill_pass rem pre slots capacity chunk is ?st))"
    using prefill_pass_planned [OF one(1)] Cons.prems(2) by simp
  from Cons.IH [OF one(1)] Cons.prems(2) flag grow one(2) show ?case by (auto simp: Let_def)
qed simp

lemma planned_total:
  assumes "planned slots base capacity st"
  shows "length (ps_entries st) + left_over rem slots (ps_consumed st)
         = length base + left_over rem slots (replicate (length slots) 0)"
proof -
  obtain extra where ex: "ps_entries st = base @ extra"
    "\<forall>e \<in> set extra. be_kind e = Prefill \<and> be_slot e < length slots"
    "\<forall>i < length slots. ps_consumed st ! i \<le> rem (slots ! i)
       \<and> of_kind Prefill i extra = map (\<lambda>k. the (pre (slots ! i) i k)) [0..<ps_consumed st ! i]"
    using assms unfolding planned_def by blast
  have "length extra = (\<Sum>i < length slots. length (of_kind Prefill i extra))"
    using ex(2)
  proof (induction extra)
    case (Cons e es)
    then have e: "be_kind e = Prefill" "be_slot e < length slots" by simp_all
    have "(\<Sum>i < length slots. length (of_kind Prefill i (e # es)))
          = (\<Sum>i < length slots. (if i = be_slot e then 1 else 0) + length (of_kind Prefill i es))"
      using e(1) by (intro sum.cong) (auto simp: of_kind_def)
    also have "\<dots> = Suc (\<Sum>i < length slots. length (of_kind Prefill i es))"
      using e(2) by (simp add: sum.distrib)
    finally show ?case using Cons by simp
  qed simp
  also have "\<dots> = (\<Sum>i < length slots. ps_consumed st ! i)" using ex(3) by simp
  finally have "length extra + left_over rem slots (ps_consumed st)
      = (\<Sum>i < length slots. ps_consumed st ! i + (rem (slots ! i) - ps_consumed st ! i))"
    by (simp add: left_over_def sum.distrib)
  also have "\<dots> = (\<Sum>i < length slots. rem (slots ! i) - replicate (length slots) 0 ! i)"
    using ex(3) by (intro sum.cong) auto
  finally show ?thesis using ex(1) by (simp add: left_over_def)
qed

lemma pass_idle:
  assumes "planned slots base capacity st" and "\<forall>i \<in> set is. i < length slots"
    and "length (ps_entries (prefill_pass rem pre slots capacity chunk is st)) = length (ps_entries st)"
    and "length (ps_entries st) < capacity" and "0 < chunk" and "i \<in> set is"
  shows "ps_consumed (prefill_pass rem pre slots capacity chunk is st) ! i = rem (slots ! i)"
    and "ps_consumed (prefill_pass rem pre slots capacity chunk is st) = ps_consumed st"
proof -
  have "ps_consumed (prefill_pass rem pre slots capacity chunk is st) = ps_consumed st
        \<and> (\<forall>i \<in> set is. ps_consumed st ! i = rem (slots ! i))"
    using assms(1-4)
  proof (induction "is" arbitrary: st)
    case (Cons j js)
    let ?st = "prefill_slot rem pre slots capacity chunk j st"
    have j: "j < length slots" using Cons.prems(2) by simp
    note one = prefill_slot_planned [OF Cons.prems(1) j, of chunk]
    have grow: "length (ps_entries ?st)
      \<le> length (ps_entries (prefill_pass rem pre slots capacity chunk js ?st))"
      using prefill_pass_planned [OF one(1)] Cons.prems(2) by simp
    have none: "prefill_take rem slots capacity chunk j st = 0"
      using Cons.prems(3) one(2) grow by (auto simp: Let_def split: if_splits)
    then have same: "ps_consumed ?st = ps_consumed st" "length (ps_entries ?st) = length (ps_entries st)"
      using one(2) by (simp_all add: prefill_slot_def Let_def)
    have "rem (slots ! j) - ps_consumed st ! j = 0"
      using none assms(5) Cons.prems(4) by (auto simp: prefill_take_def min_def split: if_splits)
    then have "ps_consumed st ! j = rem (slots ! j)"
      using Cons.prems(1) j by (auto simp: planned_def)
    with same Cons.IH [OF one(1)] Cons.prems show ?case by (auto simp: Let_def split: if_splits)
  qed simp
  with assms(6) show "ps_consumed (prefill_pass rem pre slots capacity chunk is st) ! i = rem (slots ! i)"
    and "ps_consumed (prefill_pass rem pre slots capacity chunk is st) = ps_consumed st" by simp_all
qed

lemma prefill_loop_returns:
  "planned slots base capacity st \<Longrightarrow> \<forall>i \<in> set elig. i < length slots \<Longrightarrow> 0 < chunk \<Longrightarrow>
   left_over rem slots (ps_consumed st) < fuel \<Longrightarrow>
   \<exists>st'. prefill_loop fuel rem pre slots capacity chunk elig st = Some st' \<and> planned slots base capacity st'
     \<and> length (ps_entries st) \<le> length (ps_entries st')
     \<and> (length (ps_entries st') = capacity \<or> (\<forall>i \<in> set elig. ps_consumed st' ! i = rem (slots ! i)))"
proof (induction fuel arbitrary: st)
  case (Suc fuel)
  show ?case
  proof (cases "length (ps_entries st) < capacity")
    case False
    with Suc.prems(1) show ?thesis by (auto simp: planned_def)
  next
    case True
    let ?s = "st\<lparr>ps_progressed := False\<rparr>"
    let ?p = "prefill_pass rem pre slots capacity chunk elig ?s"
    have s: "planned slots base capacity ?s" using Suc.prems(1) by (simp add: planned_def)
    from prefill_pass_planned [OF s Suc.prems(2)] have p: "planned slots base capacity ?p"
      "length (ps_entries st) \<le> length (ps_entries ?p)" by simp_all
    have prog: "ps_progressed ?p \<longleftrightarrow> length (ps_entries st) < length (ps_entries ?p)"
      using prefill_pass_progress [OF s Suc.prems(2)] by simp
    show ?thesis
    proof (cases "ps_progressed ?p")
      case False
      with prog p have "length (ps_entries ?p) = length (ps_entries ?s)" by simp
      with pass_idle(1) [OF s Suc.prems(2) this] True Suc.prems(3)
      have "\<forall>i \<in> set elig. ps_consumed ?p ! i = rem (slots ! i)" by simp
      with False True p show ?thesis by (simp add: Let_def)
    next
      case prg: True
      with prog planned_total [OF p(1)] planned_total [OF Suc.prems(1)] Suc.prems(4)
      have "left_over rem slots (ps_consumed ?p) < fuel" by linarith
      from Suc.IH [OF p(1) Suc.prems(2,3) this] True prg p(2) show ?thesis
        by (auto simp: Let_def intro: order_trans)
    qed
  qed
qed simp

text \<open>The loop only appends, and the first eligible slot is served in the first pass.\<close>

lemma pass_extends: "\<exists>ys. ps_entries (prefill_pass rem pre slots capacity chunk is st) = ps_entries st @ ys"
proof (induction "is" arbitrary: st)
  case (Cons i "is")
  show ?case using Cons [of "prefill_slot rem pre slots capacity chunk i st"]
    by (auto simp: Let_def prefill_slot_def)
qed simp

lemma loop_extends:
  "prefill_loop fuel rem pre slots capacity chunk elig st = Some st' \<Longrightarrow>
   \<exists>ys. ps_entries st' = ps_entries st @ ys"
proof (induction fuel arbitrary: st)
  case (Suc fuel)
  let ?p = "prefill_pass rem pre slots capacity chunk elig (st\<lparr>ps_progressed := False\<rparr>)"
  obtain ys where "ps_entries ?p = ps_entries st @ ys"
    using pass_extends [of slots capacity chunk elig "st\<lparr>ps_progressed := False\<rparr>"] by auto
  with Suc.IH [of ?p] Suc.prems show ?case by (fastforce simp: Let_def split: if_splits)
qed simp

lemma first_served:
  assumes st: "planned slots base capacity st" and i: "i < length slots" "ps_consumed st ! i = 0"
    and pos: "0 < rem (slots ! i)" "0 < chunk" "length (ps_entries st) < capacity"
    and loop: "prefill_loop (Suc fuel) rem pre slots capacity chunk (i # elig) st = Some st'"
  shows "\<exists>e \<in> set (ps_entries st'). be_kind e = Prefill \<and> be_slot e = i"
proof -
  let ?s = "st\<lparr>ps_progressed := False\<rparr>"
  let ?s1 = "prefill_slot rem pre slots capacity chunk i ?s"
  have ok: "ok (slots ! i)" using st i(1) by (simp add: planned_def)
  let ?e = "the (pre (slots ! i) i 0)" and ?t = "prefill_take rem slots capacity chunk i ?s"
  have t: "0 < ?t" "?t \<le> rem (slots ! i)" using i pos by (simp_all add: prefill_take_def)
  have "ps_entries ?s1 = ps_entries st @ map (\<lambda>k. the (pre (slots ! i) i k)) [0..<?t]"
    using taken_entries [OF ok, of 0 ?t] t(2) i(2) by (simp add: prefill_slot_def Let_def)
  then have e: "?e \<in> set (ps_entries ?s1)" using t(1) by (auto simp: image_iff intro!: bexI [of _ 0])
  let ?p = "prefill_pass rem pre slots capacity chunk (i # elig) ?s"
  have "\<exists>ys. ps_entries ?p = ps_entries ?s1 @ ys"
  proof (cases "length (ps_entries ?s1) = capacity")
    case True
    then show ?thesis by (simp add: Let_def)
  next
    case False
    then have "?p = prefill_pass rem pre slots capacity chunk elig ?s1" by (simp add: Let_def)
    with pass_extends [of slots capacity chunk elig ?s1] show ?thesis by (simp only:)
  qed
  then obtain ys where "ps_entries ?p = ps_entries ?s1 @ ys" by blast
  with e have ep: "?e \<in> set (ps_entries ?p)" by simp
  have "\<exists>zs. ps_entries st' = ps_entries ?p @ zs"
  proof (cases "ps_progressed ?p")
    case True
    with loop pos(3) have "prefill_loop fuel rem pre slots capacity chunk (i # elig) ?p = Some st'"
      by (simp only: prefill_loop.simps if_True Let_def simp_thms if_False)
    then show ?thesis by (rule loop_extends)
  next
    case False
    with loop pos(3) have "st' = ?p"
      by (simp only: prefill_loop.simps if_True Let_def simp_thms option.inject)
    then show ?thesis by simp
  qed
  with ep have "?e \<in> set (ps_entries st')" by auto
  with entry_of [OF ok pos(1)] show ?thesis by blast
qed

section \<open>The whole plan\<close>

definition plan_correct :: "'s list \<Rightarrow> nat \<Rightarrow> batch_plan \<Rightarrow> bool" where
  "plan_correct slots capacity plan \<longleftrightarrow>
     length (bp_entries plan) \<le> capacity
     \<and> (\<exists>extra. bp_entries plan = take capacity (decodes_from slots 0) @ extra
          \<and> (\<forall>e \<in> set extra. be_kind e = Prefill \<and> be_slot e < length slots))
     \<and> (\<forall>i < length slots. \<exists>n \<le> rem (slots ! i).
          of_kind Prefill i (bp_entries plan) = map (\<lambda>k. the (pre (slots ! i) i k)) [0..<n])
     \<and> (length (bp_entries plan) < capacity \<longrightarrow>
          (\<forall>i < length slots. length (of_kind Prefill i (bp_entries plan)) = rem (slots ! i)))"

lemma no_prefill_in_decodes: "of_kind Prefill i (take n (decodes_from slots 0)) = []"
proof -
  have "\<forall>e \<in> set (take n (decodes_from slots 0)). be_kind e = Decode"
    using decodes_kind by (meson in_set_takeD)
  then show ?thesis by (auto simp: of_kind_def filter_empty_conv)
qed

lemma eligible_iff:
  assumes "slots \<noteq> []"
  shows "i \<in> set (eligible_slots rem slots start) \<longleftrightarrow> i < length slots \<and> 0 < rem (slots ! i)"
proof
  assume "i \<in> set (eligible_slots rem slots start)"
  with assms show "i < length slots \<and> 0 < rem (slots ! i)" by (auto simp: eligible_slots_def)
next
  assume i: "i < length slots \<and> 0 < rem (slots ! i)"
  let ?n = "length slots"
  have "i = (start + (i + ?n - start mod ?n) mod ?n) mod ?n"
  proof -
    have "start mod ?n < ?n" using assms by simp
    then have "(start + (i + ?n - start mod ?n)) mod ?n = (start mod ?n + (i + ?n - start mod ?n)) mod ?n"
      by (metis mod_add_left_eq)
    also have "\<dots> = i" using i \<open>start mod ?n < ?n\<close> by simp
    finally show ?thesis by (simp add: mod_add_right_eq)
  qed
  moreover have "(i + ?n - start mod ?n) mod ?n < ?n" using assms by simp
  ultimately show "i \<in> set (eligible_slots rem slots start)"
    using i by (force simp: eligible_slots_def)
qed

lemma plan_sources_correct:
  assumes cap: "0 < capacity" and oks: "\<forall>s \<in> set slots. ok s"
  shows "\<exists>plan. plan_sources dec rem pre slots capacity cursor = Some plan \<and> plan_correct slots capacity plan
     \<and> (length (decodes_from slots 0) < capacity \<longrightarrow> slots \<noteq> [] \<longrightarrow>
          (case eligible_slots rem slots (cursor mod length slots) of
             [] \<Rightarrow> bp_next_prefill_slot plan = cursor mod length slots
           | i # _ \<Rightarrow> of_kind Prefill i (bp_entries plan) \<noteq> []
               \<and> bp_next_prefill_slot plan = (i + 1) mod length slots))"
proof -
  let ?D = "decodes_from slots 0"
  have pd: "plan_decodes dec capacity 0 slots [] = (capacity \<le> length ?D, take capacity ?D)"
    using plan_decodes_eq [of "[]" capacity slots 0] cap by simp
  show ?thesis
  proof (cases "capacity \<le> length ?D \<or> slots = []")
    case True
    have "length (take capacity ?D) = capacity \<or> slots = []" using True by auto
    with True pd have plan: "plan_sources dec rem pre slots capacity cursor
        = Some \<lparr>bp_entries = take capacity ?D, bp_next_prefill_slot = cursor\<rparr>"
      by (auto simp: plan_sources_def)
    have "plan_correct slots capacity \<lparr>bp_entries = take capacity ?D, bp_next_prefill_slot = cursor\<rparr>"
      using True no_prefill_in_decodes by (auto simp: plan_correct_def List.map_filter_simps)
    with plan True show ?thesis by auto
  next
    case False
    then have ne: "slots \<noteq> []" and D: "take capacity ?D = ?D" "length ?D < capacity" by auto
    let ?start = "cursor mod length slots" and ?zero = "replicate (length slots) (0 :: nat)"
    let ?el = "eligible_slots rem slots ?start"
    let ?chunk = "div_ceil (capacity - length ?D) (max (length ?el) 1)"
    let ?st = "\<lparr>ps_entries = ?D, ps_consumed = ?zero, ps_progressed = False\<rparr>"
    have st: "planned slots ?D capacity ?st" using D oks by (auto simp: planned_def)
    have el: "\<forall>i \<in> set ?el. i < length slots" using eligible_iff [OF ne] by blast
    have chunk: "0 < ?chunk" using D by (intro div_ceil_pos) auto
    obtain st' where st': "prefill_loop (Suc (left_over rem slots ?zero)) rem pre slots capacity ?chunk ?el ?st
        = Some st'" "planned slots ?D capacity st'"
      "length (ps_entries st') = capacity \<or> (\<forall>i \<in> set ?el. ps_consumed st' ! i = rem (slots ! i))"
      using prefill_loop_returns [OF st el chunk, of "Suc (left_over rem slots ?zero)"] by auto
    let ?plan = "\<lparr>bp_entries = ps_entries st',
      bp_next_prefill_slot = (case ?el of [] \<Rightarrow> ?start | i # _ \<Rightarrow> (i + 1) mod length slots)\<rparr>"
    have plan: "plan_sources dec rem pre slots capacity cursor = Some ?plan"
      using pd D ne st'(1) by (simp add: plan_sources_def Let_def del: prefill_loop.simps)
    obtain extra where ex: "ps_entries st' = ?D @ extra"
      "\<forall>e \<in> set extra. be_kind e = Prefill \<and> be_slot e < length slots"
      "\<forall>i < length slots. ps_consumed st' ! i \<le> rem (slots ! i)
         \<and> of_kind Prefill i extra = map (\<lambda>k. the (pre (slots ! i) i k)) [0..<ps_consumed st' ! i]"
      and len: "length (ps_entries st') \<le> capacity"
      using st'(2) unfolding planned_def by blast
    have pf: "of_kind Prefill i (ps_entries st') = of_kind Prefill i extra" for i
      using no_prefill_in_decodes [of i capacity slots] unfolding D(1) ex(1) of_kind_append by simp
    have "plan_correct slots capacity ?plan"
      unfolding plan_correct_def
    proof (intro conjI)
      show "length (bp_entries ?plan) \<le> capacity" using len by simp
      show "\<exists>extra. bp_entries ?plan = take capacity ?D @ extra
          \<and> (\<forall>e \<in> set extra. be_kind e = Prefill \<and> be_slot e < length slots)"
        using ex(1,2) D(1) by auto
      show "\<forall>i < length slots. \<exists>n \<le> rem (slots ! i).
          of_kind Prefill i (bp_entries ?plan) = map (\<lambda>k. the (pre (slots ! i) i k)) [0..<n]"
        using ex(3) pf by auto
      show "length (bp_entries ?plan) < capacity \<longrightarrow>
          (\<forall>i < length slots. length (of_kind Prefill i (bp_entries ?plan)) = rem (slots ! i))"
      proof (intro impI allI)
        fix i assume room: "length (bp_entries ?plan) < capacity" and i: "i < length slots"
        have "length (of_kind Prefill i (bp_entries ?plan)) = ps_consumed st' ! i"
          using pf ex(3) i by simp
        moreover have "ps_consumed st' ! i = rem (slots ! i)"
        proof (cases "0 < rem (slots ! i)")
          case True
          with room st'(3) i eligible_iff [OF ne] show ?thesis by auto
        next
          case False
          with ex(3) i show ?thesis by (metis gr0I le_zero_eq)
        qed
        ultimately show "length (of_kind Prefill i (bp_entries ?plan)) = rem (slots ! i)" by simp
      qed
    qed
    moreover have "case ?el of [] \<Rightarrow> True | i # _ \<Rightarrow> of_kind Prefill i (bp_entries ?plan) \<noteq> []"
    proof (cases ?el)
      case (Cons i el)
      then have "i \<in> set ?el" by simp
      then have i: "i < length slots" "0 < rem (slots ! i)" using eligible_iff [OF ne] by blast+
      have "\<exists>e \<in> set (ps_entries st'). be_kind e = Prefill \<and> be_slot e = i"
        by (rule first_served [where elig = el, OF st i(1) _ i(2) chunk])
           (use i(1) D(2) st'(1) Cons in \<open>simp_all del: prefill_loop.simps\<close>)
      with Cons show ?thesis by (auto simp: of_kind_def filter_empty_conv)
    qed simp
    ultimately show ?thesis using plan by (auto split: list.splits)
  qed
qed

end


section \<open>The slots as a batch source\<close>

text \<open>What admission establishes of a slot: every prompt position fits an \<open>i32\<close>, and a capture target
  lies inside the prompt.\<close>

fun slot_prefillable :: "('f, 'm, 'p) slot_state \<Rightarrow> bool" where
  "slot_prefillable (Active a) \<longleftrightarrow>
     length (a_tokens a) \<le> i32_max \<and> prefill_target a \<le> length (a_tokens a)"
| "slot_prefillable _ \<longleftrightarrow> True"

lemma decoding_entry_slot: "decoding_entry s i = Some e \<Longrightarrow> be_slot e = i \<and> be_kind e = Decode"
  by (cases "(s, i)" rule: decoding_entry.cases)
     (auto simp: active_decoding_entry_def split: if_splits option.splits)

lemma active_prefill_entry_at:
  assumes "slot_prefillable (Active a)" and "k < active_remaining_prefill a"
  shows "active_prefill_entry a i k = Some
     \<lparr>be_slot = i, be_token = a_tokens a ! (a_prefill_cursor a + k), be_position = a_prefill_cursor a + k,
      be_logits = (a_prefill_cursor a + k + 1 = length (a_tokens a) \<and> 0 < req_max_tokens (a_request a)),
      be_kind = Prefill\<rparr>"
  using assms
  by (auto simp: active_prefill_entry_def active_remaining_prefill_def Let_def as_i32_def split: if_splits)

interpretation planner: batch_source decoding_entry remaining_prefill prefill_entry slot_prefillable
proof unfold_locales
  fix s :: "('f, 'm, 'p) slot_state" and i k
  assume "slot_prefillable s" "k < remaining_prefill s"
  then show "\<exists>e. prefill_entry s i k = Some e \<and> be_slot e = i \<and> be_kind e = Prefill"
    by (cases s) (auto simp: active_prefill_entry_at simp del: slot_prefillable.simps)
qed (rule decoding_entry_slot)

text \<open>Every entry of any plan comes from an active slot.\<close>

definition sourced ::
  "('s \<Rightarrow> nat \<Rightarrow> batch_entry option) \<Rightarrow> ('s \<Rightarrow> nat \<Rightarrow> nat \<Rightarrow> batch_entry option) \<Rightarrow> 's list \<Rightarrow>
   batch_entry \<Rightarrow> bool" where
  "sourced dec pre slots e \<longleftrightarrow>
     (\<exists>j < length slots. dec (slots ! j) j = Some e \<or> (\<exists>k. pre (slots ! j) j k = Some e))"

lemma plan_decodes_sourced:
  "plan_decodes dec capacity i ss entries = (b, entries') \<Longrightarrow> ss = drop i slots \<Longrightarrow> i \<le> length slots \<Longrightarrow>
   \<forall>e \<in> set entries. sourced dec pre slots e \<Longrightarrow> \<forall>e \<in> set entries'. sourced dec pre slots e"
proof (induction ss arbitrary: i entries)
  case (Cons s ss)
  then have i: "i < length slots" by (metis drop_eq_Nil le_neq_implies_less list.distinct(1))
  with Cons.prems(2) have s: "s = slots ! i" "ss = drop (Suc i) slots"
    by (metis Cons_nth_drop_Suc list.inject)+
  show ?case
  proof (cases "dec s i")
    case None
    with Cons.IH [of "Suc i" entries] Cons.prems i s(2) show ?thesis by simp
  next
    case (Some e)
    have "sourced dec pre slots e" using Some s(1) i by (auto simp: sourced_def)
    then have es: "\<forall>x \<in> set (entries @ [e]). sourced dec pre slots x" using Cons.prems(4) by simp
    with Some Cons.IH [of "Suc i" "entries @ [e]"] Cons.prems i s(2) show ?thesis
      by (auto simp: Let_def split: if_splits)
  qed
qed simp

lemma prefill_pass_sourced:
  "\<forall>e \<in> set (ps_entries st). sourced dec pre slots e \<Longrightarrow> \<forall>i \<in> set is. i < length slots \<Longrightarrow>
   \<forall>e \<in> set (ps_entries (prefill_pass rem pre slots capacity chunk is st)). sourced dec pre slots e"
proof (induction "is" arbitrary: st)
  case (Cons i "is")
  let ?st = "prefill_slot rem pre slots capacity chunk i st"
  have "\<forall>e \<in> set (ps_entries ?st). sourced dec pre slots e"
    using Cons.prems by (auto simp: prefill_slot_def Let_def set_map_filter_find sourced_def)
  with Cons show ?case by (simp add: Let_def)
qed simp

lemma prefill_loop_sourced:
  "prefill_loop fuel rem pre slots capacity chunk is st = Some st' \<Longrightarrow>
   \<forall>e \<in> set (ps_entries st). sourced dec pre slots e \<Longrightarrow> \<forall>i \<in> set is. i < length slots \<Longrightarrow>
   \<forall>e \<in> set (ps_entries st'). sourced dec pre slots e"
proof (induction fuel arbitrary: st)
  case (Suc fuel)
  let ?p = "prefill_pass rem pre slots capacity chunk is (st\<lparr>ps_progressed := False\<rparr>)"
  have p: "\<forall>e \<in> set (ps_entries ?p). sourced dec pre slots e"
    by (rule prefill_pass_sourced) (use Suc.prems in simp_all)
  show ?case
  proof (cases "length (ps_entries st) < capacity \<and> ps_progressed ?p")
    case True
    with Suc.prems(1) have "prefill_loop fuel rem pre slots capacity chunk is ?p = Some st'"
      by (simp add: Let_def)
    from Suc.IH [OF this p Suc.prems(3)] show ?thesis .
  next
    case False
    with Suc.prems(1) have "st' = ?p \<or> st' = st" by (auto simp: Let_def split: if_splits)
    with p Suc.prems(2) show ?thesis by blast
  qed
qed simp

lemma plan_sources_sourced:
  assumes "plan_sources dec rem pre slots capacity cursor = Some plan" and "e \<in> set (bp_entries plan)"
  shows "sourced dec pre slots e"
proof -
  obtain b entries where d: "plan_decodes dec capacity 0 slots [] = (b, entries)" by fastforce
  have es: "\<forall>e \<in> set entries. sourced dec pre slots e"
    using plan_decodes_sourced [OF d] by simp
  show ?thesis
  proof (cases "b \<or> slots = [] \<or> capacity \<le> length entries")
    case True
    with assms d es show ?thesis by (auto simp: plan_sources_def split: if_splits bool.splits)
  next
    case False
    then obtain st fuel chunk st' where
      loop: "prefill_loop fuel rem pre slots capacity chunk
         (eligible_slots rem slots (cursor mod length slots)) st = Some st'"
      "ps_entries st = entries" "bp_entries plan = ps_entries st'"
      using assms(1) d
      by (auto simp: plan_sources_def Let_def simp del: prefill_loop.simps split: option.splits if_splits)
    have "\<forall>i \<in> set (eligible_slots rem slots (cursor mod length slots)). i < length slots"
      using False by (auto simp: eligible_slots_def)
    from prefill_loop_sourced [OF loop(1) _ this, of dec] loop(2,3) es assms(2) show ?thesis by simp
  qed
qed

lemma plan_batch_active:
  assumes "plan_batch slots capacity cursor = Some plan" and "e \<in> set (bp_entries plan)"
  shows "be_slot e < length slots \<and> (\<exists>a. slots ! be_slot e = Active a)"
proof -
  obtain j where j: "j < length slots"
    "decoding_entry (slots ! j) j = Some e \<or> (\<exists>k. prefill_entry (slots ! j) j k = Some e)"
    using plan_sources_sourced [OF assms(1) [unfolded plan_batch_def] assms(2)] by (auto simp: sourced_def)
  then show ?thesis
    by (cases "slots ! j")
       (auto simp: active_decoding_entry_def active_prefill_entry_def Let_def split: if_splits option.splits)
qed

text \<open>The prompt tokens a plan takes from an active slot, as the slot's own data.\<close>

lemma planned_prefill_tokens:
  assumes ok: "slot_prefillable (Active a)" and n: "n \<le> active_remaining_prefill a"
    and es: "es = map (\<lambda>k. the (active_prefill_entry a i k)) [0..<n]"
  shows "map be_token es = take n (drop (a_prefill_cursor a) (a_tokens a))"
    and "map be_position es = [a_prefill_cursor a..<a_prefill_cursor a + n]"
proof -
  have len: "a_prefill_cursor a + n \<le> length (a_tokens a) \<or> n = 0"
    using ok n by (auto simp: active_remaining_prefill_def split: if_splits)
  have at: "\<forall>k < n. the (active_prefill_entry a i k) =
     \<lparr>be_slot = i, be_token = a_tokens a ! (a_prefill_cursor a + k), be_position = a_prefill_cursor a + k,
      be_logits = (a_prefill_cursor a + k + 1 = length (a_tokens a) \<and> 0 < req_max_tokens (a_request a)),
      be_kind = Prefill\<rparr>"
    using active_prefill_entry_at [OF ok] n by simp
  show "map be_token es = take n (drop (a_prefill_cursor a) (a_tokens a))"
    using len at by (auto simp: es intro!: nth_equalityI)
  show "map be_position es = [a_prefill_cursor a..<a_prefill_cursor a + n]"
    using at by (auto simp: es intro!: nth_equalityI)
qed

definition prefill_of :: "nat \<Rightarrow> batch_plan \<Rightarrow> batch_entry list" where
  "prefill_of i plan = of_kind Prefill i (bp_entries plan)"

definition decodes_of :: "('f, 'm, 'p) slot_state list \<Rightarrow> batch_entry list" where
  "decodes_of slots = List.map_filter (\<lambda>j. decoding_entry (slots ! j) j) [0..<length slots]"

text \<open>C6. With a positive batch capacity and admitted slots the planner returns, never exceeds the
  capacity, puts the pending tokens of the decoding slots first and in slot order, follows them by
  prompt tokens only, takes from every slot the next consecutive tokens of its prompt at consecutive
  positions starting at its cursor, and leaves room unused only when nothing remains to prefill.\<close>

theorem plan_batch_correct:
  assumes "0 < capacity" and "\<forall>s \<in> set slots. slot_prefillable s"
  shows "\<exists>plan. plan_batch slots capacity cursor = Some plan
    \<and> length (bp_entries plan) \<le> capacity
    \<and> (\<exists>extra. bp_entries plan = take capacity (decodes_of slots) @ extra
         \<and> (\<forall>e \<in> set extra. be_kind e = Prefill \<and> be_slot e < length slots))
    \<and> (\<forall>i a. i < length slots \<longrightarrow> slots ! i = Active a \<longrightarrow>
         (let n = length (prefill_of i plan) in
          n \<le> active_remaining_prefill a
          \<and> map be_token (prefill_of i plan) = take n (drop (a_prefill_cursor a) (a_tokens a))
          \<and> map be_position (prefill_of i plan) = [a_prefill_cursor a..<a_prefill_cursor a + n]
          \<and> (length (bp_entries plan) < capacity \<longrightarrow> n = active_remaining_prefill a)))"
proof -
  obtain plan where plan: "plan_batch slots capacity cursor = Some plan"
    and pc: "planner.plan_correct slots capacity plan"
    using planner.plan_sources_correct [OF assms, of cursor] unfolding plan_batch_def by blast
  have "let n = length (prefill_of i plan) in
          n \<le> active_remaining_prefill a
          \<and> map be_token (prefill_of i plan) = take n (drop (a_prefill_cursor a) (a_tokens a))
          \<and> map be_position (prefill_of i plan) = [a_prefill_cursor a..<a_prefill_cursor a + n]
          \<and> (length (bp_entries plan) < capacity \<longrightarrow> n = active_remaining_prefill a)"
    if i: "i < length slots" "slots ! i = Active a" for i a
  proof -
    have ok: "slot_prefillable (Active a)" using assms(2) i by (metis nth_mem)
    have all: "\<forall>i < length slots. \<exists>n \<le> remaining_prefill (slots ! i).
        prefill_of i plan = map (\<lambda>k. the (prefill_entry (slots ! i) i k)) [0..<n]"
      and full: "length (bp_entries plan) < capacity \<Longrightarrow>
        \<forall>i < length slots. length (prefill_of i plan) = remaining_prefill (slots ! i)"
      using pc unfolding planner.plan_correct_def prefill_of_def by simp_all
    obtain n where n: "n \<le> active_remaining_prefill a"
      "prefill_of i plan = map (\<lambda>k. the (active_prefill_entry a i k)) [0..<n]"
      using all [rule_format, OF i(1)] unfolding i(2) remaining_prefill.simps prefill_entry.simps by blast
    have len: "length (prefill_of i plan) = n" unfolding n(2) by simp
    have room: "length (bp_entries plan) < capacity \<Longrightarrow> n = active_remaining_prefill a"
      using full [rule_format, OF _ i(1)] len unfolding i(2) by simp
    show ?thesis unfolding Let_def len
      using planned_prefill_tokens [OF ok n(1) n(2)] n(1) room by blast
  qed
  moreover have "length (bp_entries plan) \<le> capacity"
    "\<exists>extra. bp_entries plan = take capacity (decodes_of slots) @ extra
         \<and> (\<forall>e \<in> set extra. be_kind e = Prefill \<and> be_slot e < length slots)"
    using pc unfolding planner.plan_correct_def decodes_of_def by simp_all
  ultimately show ?thesis using plan by (intro exI [of _ plan] conjI allI impI)
qed

text \<open>The rotation. The distance of a slot is how far behind the cursor's slot it comes.\<close>

definition cursor_distance :: "nat \<Rightarrow> nat \<Rightarrow> nat \<Rightarrow> nat" where
  "cursor_distance n cursor j = (j + n - cursor mod n) mod n"

lemma cursor_distance_less: "0 < n \<Longrightarrow> cursor_distance n cursor j < n"
  by (simp add: cursor_distance_def)

lemma cursor_distance_at: "j < n \<Longrightarrow> (cursor + cursor_distance n cursor j) mod n = j"
proof -
  assume j: "j < n"
  then have "cursor mod n < n" by simp
  have "(cursor + cursor_distance n cursor j) mod n = (cursor mod n + (j + n - cursor mod n)) mod n"
    unfolding cursor_distance_def mod_add_right_eq mod_add_left_eq ..
  also have "cursor mod n + (j + n - cursor mod n) = j + n" using \<open>cursor mod n < n\<close> by linarith
  finally show ?thesis using j by simp
qed

lemma cursor_distance_step:
  assumes "d < n" and "i = (cursor + d) mod n" and "j < n" and "d < cursor_distance n cursor j"
  shows "cursor_distance n ((i + 1) mod n) j < cursor_distance n cursor j"
proof -
  let ?D = "cursor_distance n cursor j"
  have D: "?D < n" using assms(1) cursor_distance_less by simp
  have "((i + 1) mod n + (?D - d - 1)) mod n = (i + (?D - d)) mod n"
  proof -
    have "i + 1 + (?D - d - 1) = i + (?D - d)" using assms(4) by linarith
    then show ?thesis unfolding mod_add_left_eq by (simp only:)
  qed
  also have "\<dots> = ((cursor + d) mod n + (?D - d)) mod n" unfolding assms(2) ..
  also have "\<dots> = (cursor + ?D) mod n" using assms(4) unfolding mod_add_left_eq by simp
  finally have "((i + 1) mod n + (?D - d - 1)) mod n = (cursor + ?D) mod n" .
  then have eq: "((i + 1) mod n + (?D - d - 1)) mod n = j" using cursor_distance_at [OF assms(3)] by simp
  have "cursor_distance n ((i + 1) mod n) j = ?D - d - 1"
  proof -
    let ?c = "(i + 1) mod n" and ?x = "?D - d - 1"
    have c: "?c < n" using assms(1) by simp
    have x: "?x < n" using D by simp
    have "cursor_distance n ?c j = (j + n - ?c) mod n" using c by (simp add: cursor_distance_def)
    also have "\<dots> = ?x"
    proof (cases "?c + ?x < n")
      case True
      with eq have "j = ?c + ?x" by (simp only: mod_less)
      then have "j + n - ?c = ?x + n" by linarith
      then show ?thesis by (simp only: mod_add_self2 mod_less [OF x])
    next
      case False
      with c x have "?c + ?x - n < n" "n \<le> ?c + ?x" by linarith+
      then have "(?c + ?x) mod n = ?c + ?x - n" by (simp only: le_mod_geq mod_less)
      with eq have "j = ?c + ?x - n" by (simp only:)
      with False c x have "j + n - ?c = ?x" by linarith
      then show ?thesis by (simp only: mod_less [OF x])
    qed
    finally show ?thesis .
  qed
  with assms(4) show ?thesis by linarith
qed

lemma filter_map_upt_head:
  assumes "filter P (map f [0..<n]) = x # xs" and "k < n" and "P (f k)"
  shows "\<exists>m \<le> k. x = f m"
proof -
  have up: "[0..<n] = [0..<Suc k] @ [Suc k..<n]"
    using assms(2) by (metis Suc_leI le_add_diff_inverse upt_add_eq_append zero_le)
  have ne: "filter P (map f [0..<Suc k]) \<noteq> []" using assms(3) by (auto simp: filter_empty_conv)
  have "filter P (map f [0..<Suc k]) @ filter P (map f [Suc k..<n]) = x # xs"
    using assms(1) unfolding up map_append filter_append .
  with ne have "x = hd (filter P (map f [0..<Suc k]))" by (metis hd_append2 list.sel(1))
  with ne have "x \<in> set (filter P (map f [0..<Suc k]))" by (metis hd_in_set)
  then have "x \<in> f ` {0..<Suc k}" unfolding set_filter set_map set_upt by blast
  then show ?thesis by (auto simp: less_Suc_eq_le)
qed

lemma round_moves_towards:
  assumes cap: "0 < capacity" and ok: "\<forall>s \<in> set slots. slot_prefillable s"
    and room: "length (decodes_of slots) < capacity"
    and j: "j < length slots" "0 < remaining_prefill (slots ! j)"
  shows "\<exists>plan. plan_batch slots capacity cursor = Some plan
    \<and> (prefill_of j plan \<noteq> []
       \<or> cursor_distance (length slots) (bp_next_prefill_slot plan) j
           < cursor_distance (length slots) cursor j)"
proof -
  let ?n = "length slots" and ?el = "eligible_slots remaining_prefill slots (cursor mod length slots)"
  have ne: "slots \<noteq> []" using j(1) by auto
  obtain plan where plan: "plan_batch slots capacity cursor = Some plan"
    and nxt: "case ?el of [] \<Rightarrow> bp_next_prefill_slot plan = cursor mod ?n
       | i # _ \<Rightarrow> of_kind Prefill i (bp_entries plan) \<noteq> [] \<and> bp_next_prefill_slot plan = (i + 1) mod ?n"
    using planner.plan_sources_correct [OF cap ok, of cursor] room ne
    unfolding plan_batch_def decodes_of_def by blast
  have "j \<in> set ?el" using planner.eligible_iff [OF ne] j by blast
  then obtain i el where el: "?el = i # el" by (cases ?el) auto
  with nxt have served: "prefill_of i plan \<noteq> []" and next_slot: "bp_next_prefill_slot plan = (i + 1) mod ?n"
    by (simp_all add: prefill_of_def)
  let ?f = "\<lambda>offset. (cursor mod ?n + offset) mod ?n" and ?d = "cursor_distance ?n cursor j"
  have fj: "?f ?d = j" using cursor_distance_at [OF j(1), of cursor] by (simp add: mod_add_left_eq)
  have d: "?d < ?n" using ne by (simp add: cursor_distance_less)
  obtain m where m: "m \<le> ?d" "i = ?f m"
    using filter_map_upt_head [OF el [unfolded eligible_slots_def] d] fj j(2) by (metis (no_types, lifting))
  show ?thesis
  proof (cases "m = ?d")
    case True
    with m fj served plan show ?thesis by auto
  next
    case False
    with m(1) d have lt: "m < ?d" "m < ?n" by simp_all
    have "i = (cursor + m) mod ?n" using m(2) by (simp add: mod_add_left_eq)
    from cursor_distance_step [OF lt(2) this j(1) lt(1)] plan next_slot show ?thesis by auto
  qed
qed

text \<open>Successive plans, each starting at the cursor the previous one left.\<close>

fun plan_rounds ::
  "nat \<Rightarrow> nat \<Rightarrow> ('f, 'm, 'p) slot_state list list \<Rightarrow> batch_plan list" where
  "plan_rounds capacity cursor [] = []"
| "plan_rounds capacity cursor (slots # rounds) =
     (case plan_batch slots capacity cursor of
        None \<Rightarrow> []
      | Some plan \<Rightarrow> plan # plan_rounds capacity (bp_next_prefill_slot plan) rounds)"

text \<open>While decoding does not fill the batch, a slot with prompt tokens left is served within as many
  consecutive plans as there are slots.\<close>

lemma rounds_serve:
  assumes "0 < capacity"
    and "\<forall>slots \<in> set rounds. length slots = n \<and> (\<forall>s \<in> set slots. slot_prefillable s)
           \<and> length (decodes_of slots) < capacity \<and> 0 < remaining_prefill (slots ! j)"
    and "j < n" and "n \<le> length rounds"
  shows "\<exists>plan \<in> set (plan_rounds capacity cursor rounds). prefill_of j plan \<noteq> []"
proof -
  have "cursor_distance n cursor j < length rounds" using assms(3,4) cursor_distance_less [of n cursor j] by simp
  then show ?thesis using assms(2)
  proof (induction rounds arbitrary: cursor)
    case (Cons slots rounds)
    then have slots: "length slots = n" "\<forall>s \<in> set slots. slot_prefillable s"
      "length (decodes_of slots) < capacity" "0 < remaining_prefill (slots ! j)" by simp_all
    obtain plan where plan: "plan_batch slots capacity cursor = Some plan"
      "prefill_of j plan \<noteq> [] \<or> cursor_distance n (bp_next_prefill_slot plan) j < cursor_distance n cursor j"
      using round_moves_towards [OF assms(1) slots(2,3) _ slots(4)] slots(1) assms(3) by blast
    show ?case
    proof (cases "prefill_of j plan = []")
      case True
      with plan Cons.prems(1) have "cursor_distance n (bp_next_prefill_slot plan) j < length rounds" by auto
      from Cons.IH [OF this] Cons.prems(2) plan(1) show ?thesis by auto
    qed (use plan(1) in auto)
  qed simp
qed

text \<open>Two slots still prefilling and one that decodes, in a batch of four.\<close>

definition sample_slots :: "(unit, unit, unit) slot_state list" where
  "sample_slots =
     [Active (sample_active\<lparr>a_tokens := [1, 2, 3, 4, 5]\<rparr>),
      Active (sample_active\<lparr>a_pending_decode := Some 9, a_next_position := 7\<rparr>),
      Active sample_active]"

lemma sample_slots_ok: "\<forall>s \<in> set sample_slots. slot_prefillable s"
  by (simp add: sample_slots_def sample_active_def prefill_target_def i32_max_def)

lemma sample_plan: "map_option (\<lambda>p. map (\<lambda>e. (be_slot e, be_token e, be_position e, be_logits e)) (bp_entries p))
    (plan_batch sample_slots 6 2)
  = Some [(1, 9, 7, True), (2, 1, 0, False), (2, 2, 1, False), (2, 3, 2, True), (0, 1, 0, False), (0, 2, 1, False)]"
  by code_simp

theorem plan_batch_correct_witness:
  "\<exists>plan. plan_batch sample_slots 6 2 = Some plan \<and> length (bp_entries plan) \<le> 6
     \<and> map be_token (prefill_of 2 plan) = [1, 2, 3] \<and> map be_position (prefill_of 0 plan) = [0, 1]"
proof -
  obtain plan where plan: "plan_batch sample_slots 6 2 = Some plan" "length (bp_entries plan) \<le> 6"
    using plan_batch_correct [of 6 sample_slots 2] sample_slots_ok by auto
  have "map_option (\<lambda>p. map be_token (prefill_of 2 p) = [1, 2, 3] \<and> map be_position (prefill_of 0 p) = [0, 1])
      (plan_batch sample_slots 6 2) = Some True" by code_simp
  with plan show ?thesis by auto
qed

end
