(* ===== verification/Runtime_Config.thy ===== *)
theory Runtime_Config
  imports Batch_Planner
begin

text \<open>
  The runtime configuration of a llama.cpp deployment (\<open>contract.rs\<close>) and its validation
  (\<open>validate_config\<close>, \<open>validate_vision_config\<close>, \<open>validate_images\<close>, \<open>validate_choice_count\<close> and the
  context check of \<open>prepare_generation\<close> in \<open>scheduler.rs\<close>), with what a validated configuration
  gives the other components: a prefix cache that cannot panic and a batch in which no decoding
  slot is ever left out.

  \<open>u32\<close> and \<open>u64\<close> fields are words; \<open>usize\<close> fields are natural numbers up to \<open>usize_max\<close>. A checked
  operation is \<open>None\<close> exactly when the exact result does not fit. Whether the \<open>mmproj\<close> path is a file
  is an argument.
\<close>

section \<open>The configuration\<close>


datatype embedding_pooling = Last

datatype runtime_mode = Generation_Mode | Embeddings embedding_pooling nat

record vision_limits =
  vl_max_images :: nat
  vl_max_bytes_per_image :: nat
  vl_max_total_bytes :: nat
  vl_max_side :: u32
  vl_max_pixels_per_image :: u64
  vl_max_total_pixels :: u64

definition default_vision_limits :: vision_limits where
  "default_vision_limits =
     \<lparr>vl_max_images = 4, vl_max_bytes_per_image = 10 * 1024 * 1024,
      vl_max_total_bytes = 20 * 1024 * 1024, vl_max_side = 8192,
      vl_max_pixels_per_image = 16777216, vl_max_total_pixels = 33554432\<rparr>"

record vision_config =
  vc_mmproj :: string
  vc_limits :: vision_limits

record runtime_config =
  rc_context_size :: "u32 option"
  rc_batch_size :: u32
  rc_micro_batch_size :: u32
  rc_threads :: i32
  rc_gpu_layers :: u32
  rc_parallel_sequences :: u32
  rc_request_queue_capacity :: nat
  rc_event_queue_capacity :: nat
  rc_chat_template :: "string option"
  rc_template_engine :: template_engine
  rc_enable_thinking :: bool
  rc_prompt_cache :: prompt_cache_config
  rc_mode :: runtime_mode
  rc_vision :: "vision_config option"

fun is_embeddings :: "runtime_mode \<Rightarrow> bool" where
  "is_embeddings (Embeddings _ _) \<longleftrightarrow> True"
| "is_embeddings Generation_Mode \<longleftrightarrow> False"

definition max_event_capacity :: nat where
  "max_event_capacity = 4096"

text \<open>\<open>u32::checked_mul\<close>, and \<open>checked_mul\<close> and \<open>checked_add\<close> on 64 bits.\<close>

definition checked_mul_u32 :: "u32 \<Rightarrow> u32 \<Rightarrow> u32 option" where
  "checked_mul_u32 a b = (if unat a * unat b < 2 ^ 32 then Some (a * b) else None)"

definition checked_mul_u64 :: "u64 \<Rightarrow> u64 \<Rightarrow> u64 option" where
  "checked_mul_u64 a b = (if unat a * unat b < 2 ^ 64 then Some (a * b) else None)"

definition checked_add_u64 :: "u64 \<Rightarrow> u64 \<Rightarrow> u64 option" where
  "checked_add_u64 a b = (if unat a + unat b < 2 ^ 64 then Some (a + b) else None)"

definition checked_add_usize :: "nat \<Rightarrow> nat \<Rightarrow> nat option" where
  "checked_add_usize a b = (if a + b \<le> usize_max then Some (a + b) else None)"

section \<open>Validation\<close>

text \<open>\<open>None\<close> is \<open>Ok(())\<close>.\<close>

definition validate_event_capacity :: "nat \<Rightarrow> llama_error option" where
  "validate_event_capacity n =
     (if \<not> (1 \<le> n \<and> n \<le> max_event_capacity)
      then Some (InvalidConfig ''event capacity must be in 1..=4096'') else None)"

definition validate_vision_config :: "(string \<Rightarrow> bool) \<Rightarrow> vision_config \<Rightarrow> llama_error option" where
  "validate_vision_config is_file config =
     (if \<not> is_file (vc_mmproj config)
      then Some (InvalidConfig (''mmproj `'' @ vc_mmproj config @ ''` is not a file''))
      else let limits = vc_limits config in
      if vl_max_images limits = 0 \<or> vl_max_images limits > 32
         \<or> vl_max_bytes_per_image limits = 0 \<or> vl_max_bytes_per_image limits > 64 * 1024 * 1024
         \<or> vl_max_total_bytes limits < vl_max_bytes_per_image limits
         \<or> vl_max_total_bytes limits > 128 * 1024 * 1024
         \<or> vl_max_side limits = 0 \<or> vl_max_side limits > 16384
         \<or> vl_max_pixels_per_image limits = 0 \<or> vl_max_pixels_per_image limits > 67108864
         \<or> vl_max_total_pixels limits < vl_max_pixels_per_image limits
         \<or> vl_max_total_pixels limits > 134217728
      then Some (InvalidConfig ''vision limits are invalid or exceed safety bounds'')
      else None)"

text \<open>The checks in the order of the code; the first that fails is the error.\<close>

fun first_error :: "(bool \<times> llama_error) list \<Rightarrow> llama_error option" where
  "first_error [] = None"
| "first_error ((failed, e) # cs) = (if failed then Some e else first_error cs)"

definition or_else :: "llama_error option \<Rightarrow> llama_error option \<Rightarrow> llama_error option" where
  "or_else e e' = (case e of None \<Rightarrow> e' | Some x \<Rightarrow> Some x)"

definition exceeds_batch_limit :: "u32 \<Rightarrow> bool" where
  "exceeds_batch_limit n \<longleftrightarrow> unat n > i32_max"

definition validate_config :: "(string \<Rightarrow> bool) \<Rightarrow> runtime_config \<Rightarrow> llama_error option" where
  "validate_config is_file c =
    or_else (first_error
      [(rc_parallel_sequences c = 0, InvalidConfig ''parallel_sequences must be nonzero''),
       (rc_batch_size c = 0 \<or> rc_micro_batch_size c = 0, InvalidConfig ''batch sizes must be nonzero''),
       (exceeds_batch_limit (rc_batch_size c) \<or> exceeds_batch_limit (rc_micro_batch_size c),
        InvalidConfig ''batch sizes must fit the native signed batch limit''),
       (rc_request_queue_capacity c = 0, InvalidConfig ''request_queue_capacity must be nonzero'')])
   (or_else (validate_event_capacity (rc_event_queue_capacity c))
   (or_else (first_error
      [(\<not> (1 \<le> cfg_max_entries (rc_prompt_cache c) \<and> cfg_max_entries (rc_prompt_cache c) \<le> 64),
        InvalidConfig ''prompt_cache.max_entries must be in 1..=64''),
       (cfg_max_bytes (rc_prompt_cache c) = 0
          \<or> cfg_max_bytes (rc_prompt_cache c) > 4 * 1024 * 1024 * 1024,
        InvalidConfig ''prompt_cache.max_bytes must be nonzero and at most 4 GiB''),
       (cfg_min_prefix_tokens (rc_prompt_cache c) = 0,
        InvalidConfig ''prompt_cache.min_prefix_tokens must be nonzero''),
       (is_embeddings (rc_mode c) \<and> rc_prompt_cache c \<noteq> default_prompt_cache_config,
        InvalidConfig ''embedding mode does not support prompt_cache''),
       (is_embeddings (rc_mode c) \<and> rc_vision c \<noteq> None,
        InvalidConfig ''embedding mode does not support vision'')])
   (or_else (case rc_vision c of None \<Rightarrow> None | Some v \<Rightarrow> validate_vision_config is_file v)
   (or_else (first_error
      [(rc_mode c = Generation_Mode \<and> rc_batch_size c < rc_parallel_sequences c,
        InvalidConfig ''generation batch_size must be at least parallel_sequences''),
       (is_embeddings (rc_mode c) \<and> rc_parallel_sequences c \<noteq> 1,
        InvalidConfig ''embedding mode requires parallel_sequences == 1''),
       ((case rc_context_size c of
           None \<Rightarrow> False
         | Some per_slot \<Rightarrow>
             (case checked_mul_u32 per_slot (rc_parallel_sequences c) of
                None \<Rightarrow> True | Some product \<Rightarrow> product = 0)),
        InvalidConfig ''context_size * parallel_sequences exceeds the native context limit'')])
    (case rc_mode c of
       Generation_Mode \<Rightarrow> None
     | Embeddings pooling max_input_tokens \<Rightarrow> first_error
         [(max_input_tokens = 0, InvalidConfig ''max_input_tokens must be nonzero''),
          (rc_batch_size c \<noteq> rc_micro_batch_size c,
           InvalidConfig ''embedding mode requires batch_size == micro_batch_size''),
          (unat (rc_batch_size c) < max_input_tokens,
           InvalidConfig ''embedding batch_size must cover max_input_tokens'')])))))"

definition validate_choice_count :: "nat \<Rightarrow> nat \<Rightarrow> llama_error option" where
  "validate_choice_count choices parallel_sequences =
     (if choices = 0 \<or> choices > parallel_sequences
      then Some (InvalidConfig ''choices out of range for this deployment'') else None)"

lemma first_error_None [simp]: "first_error cs = None \<longleftrightarrow> (\<forall>(failed, e) \<in> set cs. \<not> failed)"
  by (induction cs rule: first_error.induct) auto

declare first_error.simps [simp del]

lemma or_else_None [simp]: "or_else a b = None \<longleftrightarrow> a = None \<and> b = None"
  by (cases a) (auto simp: or_else_def)

section \<open>Images\<close>

record image_input =
  im_bytes :: "8 word list"
  im_width :: u32
  im_height :: u32

fun check_images ::
  "vision_limits \<Rightarrow> image_input list \<Rightarrow> nat \<Rightarrow> u64 \<Rightarrow> llama_error + (nat \<times> u64)" where
  "check_images limits [] total_bytes total_pixels = Inr (total_bytes, total_pixels)"
| "check_images limits (img # images) total_bytes total_pixels =
     (case checked_mul_u64 (ucast (im_width img)) (ucast (im_height img)) of
        None \<Rightarrow> Inl (InvalidConfig ''image dimensions overflow'')
      | Some pixels \<Rightarrow>
          if length (im_bytes img) > vl_max_bytes_per_image limits
             \<or> im_width img = 0 \<or> im_height img = 0
             \<or> im_width img > vl_max_side limits \<or> im_height img > vl_max_side limits
             \<or> pixels > vl_max_pixels_per_image limits
          then Inl (InvalidConfig ''image exceeds configured byte or dimension limits'')
          else (case checked_add_usize total_bytes (length (im_bytes img)) of
             None \<Rightarrow> Inl (InvalidConfig ''aggregate image bytes overflow'')
           | Some total_bytes' \<Rightarrow>
               (case checked_add_u64 total_pixels pixels of
                  None \<Rightarrow> Inl (InvalidConfig ''aggregate image pixels overflow'')
                | Some total_pixels' \<Rightarrow> check_images limits images total_bytes' total_pixels')))"

definition validate_images :: "image_input list \<Rightarrow> vision_limits \<Rightarrow> llama_error option" where
  "validate_images images limits =
     (if length images > vl_max_images limits
      then Some (InvalidConfig ''image count exceeds configured maximum'')
      else case check_images limits images 0 0 of
             Inl e \<Rightarrow> Some e
           | Inr (total_bytes, total_pixels) \<Rightarrow>
               if total_bytes > vl_max_total_bytes limits \<or> total_pixels > vl_max_total_pixels limits
               then Some (InvalidConfig ''images exceed configured aggregate limits'')
               else None)"

section \<open>The context limit\<close>

text \<open>The last check of \<open>prepare_generation\<close>.\<close>

definition check_context :: "nat \<Rightarrow> nat \<Rightarrow> nat \<Rightarrow> nat \<Rightarrow> llama_error option" where
  "check_context prompt_tokens prompt_positions max_tokens context_size =
     (if context_size \<le> prompt_positions \<or> max_tokens > context_size - prompt_positions
      then Some (ContextLimit prompt_tokens max_tokens context_size) else None)"

text \<open>Of the model only its training context is read.\<close>

definition effective_context_size :: "u32 \<Rightarrow> runtime_config \<Rightarrow> nat" where
  "effective_context_size n_ctx_train c =
     (case rc_context_size c of None \<Rightarrow> unat n_ctx_train | Some n \<Rightarrow> unat n)"

text \<open>The checks of \<open>worker_main\<close> before it creates the context: the total context size, an error, or
  the panic on a model that reports an empty training context.\<close>

definition worker_context :: "u32 \<Rightarrow> runtime_config \<Rightarrow> (string + u32) option" where
  "worker_context n_ctx_train c =
     (if rc_context_size c = None \<and> n_ctx_train = 0 then None
      else let per_slot = (case rc_context_size c of None \<Rightarrow> n_ctx_train | Some n \<Rightarrow> n) in
      if cfg_enabled (rc_prompt_cache c) \<and> cfg_min_prefix_tokens (rc_prompt_cache c) \<ge> unat per_slot
      then Some (Inl ''prompt_cache.min_prefix_tokens must be below the per-slot context size'')
      else (case checked_mul_u32 per_slot (rc_parallel_sequences c) of
              None \<Rightarrow> Some (Inl ''context_size * parallel_sequences exceeds the native context limit'')
            | Some product \<Rightarrow>
                if product = 0
                then Some (Inl ''context_size * parallel_sequences exceeds the native context limit'')
                else Some (Inr product)))"

section \<open>What validation guarantees\<close>

lemma validated:
  assumes "validate_config is_file c = None"
  shows "rc_parallel_sequences c \<noteq> 0" "rc_batch_size c \<noteq> 0" "unat (rc_batch_size c) \<le> i32_max"
    "cache_limits_ok (rc_prompt_cache c)"
    "rc_mode c = Generation_Mode \<Longrightarrow> rc_parallel_sequences c \<le> rc_batch_size c"
  using assms
  by (auto simp: validate_config_def cache_limits_ok_def exceeds_batch_limit_def)

text \<open>In generation mode the decoding slots never fill the batch beyond its capacity, and not even
  that while some slot still has prompt tokens.\<close>

lemma decodes_at_most_slots: "length (decodes_of slots) \<le> length slots"
proof -
  have "length (List.map_filter f xs) \<le> length xs" for f :: "nat \<Rightarrow> batch_entry option" and xs
    by (simp add: List.map_filter_def)
  from this [of _ "[0..<length slots]"] show ?thesis by (simp add: decodes_of_def)
qed

lemma no_decode_while_prefilling:
  "0 < remaining_prefill s \<Longrightarrow> decoding_entry s i = None"
  by (cases s) (auto simp: active_remaining_prefill_def active_decoding_entry_def split: if_splits)

lemma decodes_less_while_prefilling:
  assumes "j < length slots" and "0 < remaining_prefill (slots ! j)"
  shows "length (decodes_of slots) < length slots"
proof -
  have "List.map_filter f xs = map (the \<circ> f) (filter (\<lambda>x. f x \<noteq> None) xs)"
    for f :: "nat \<Rightarrow> batch_entry option" and xs by (simp add: List.map_filter_def)
  then have "length (decodes_of slots)
      = length (filter (\<lambda>i. decoding_entry (slots ! i) i \<noteq> None) [0..<length slots])"
    by (simp add: decodes_of_def)
  also have "\<dots> < length [0..<length slots]"
    by (rule length_filter_less [where x = j])
       (use assms no_decode_while_prefilling [OF assms(2), of j] in auto)
  finally show ?thesis by simp
qed

lemma validated_capacity:
  assumes "validate_config is_file c = None" and "rc_mode c = Generation_Mode"
  shows "0 < unat (rc_batch_size c)" "unat (rc_parallel_sequences c) \<le> unat (rc_batch_size c)"
  using validated(2) [OF assms(1)] validated(5) [OF assms]
  by (auto simp: word_le_nat_alt unat_gt_0)

text \<open>C7. Under a validated generation configuration, with one slot per parallel sequence, every slot
  with a token to decode gets it into every batch: the capacity never cuts decoding short.\<close>

theorem validated_batch_decodes_all:
  assumes "validate_config is_file c = None" and "rc_mode c = Generation_Mode"
    and "length slots = unat (rc_parallel_sequences c)" and "\<forall>s \<in> set slots. slot_prefillable s"
  shows "\<exists>plan. plan_batch slots (unat (rc_batch_size c)) cursor = Some plan
     \<and> (\<forall>i < length slots. \<forall>e. decoding_entry (slots ! i) i = Some e \<longrightarrow> e \<in> set (bp_entries plan))"
proof -
  note cap = validated_capacity [OF assms(1,2)]
  obtain plan where plan: "plan_batch slots (unat (rc_batch_size c)) cursor = Some plan"
    and pc: "planner.plan_correct slots (unat (rc_batch_size c)) plan"
    using planner.plan_sources_correct [OF cap(1) assms(4), of cursor] unfolding plan_batch_def by blast
  obtain extra where ex: "bp_entries plan = take (unat (rc_batch_size c)) (decodes_of slots) @ extra"
    using pc unfolding planner.plan_correct_def decodes_of_def by blast
  have "take (unat (rc_batch_size c)) (decodes_of slots) = decodes_of slots"
    using decodes_at_most_slots [of slots] cap(2) assms(3) by simp
  with ex plan show ?thesis by (force simp: decodes_of_def set_map_filter_find)
qed

text \<open>C8. Prefilling is fair under a validated generation configuration: a slot that has prompt tokens
  left is served within as many consecutive plans as there are parallel sequences, whatever the
  other slots do in between and wherever the rotation starts.\<close>

theorem validated_prefill_is_fair:
  assumes "validate_config is_file c = None" and "rc_mode c = Generation_Mode"
    and "\<forall>slots \<in> set rounds. length slots = unat (rc_parallel_sequences c)
           \<and> (\<forall>s \<in> set slots. slot_prefillable s) \<and> 0 < remaining_prefill (slots ! j)"
    and "j < unat (rc_parallel_sequences c)" and "unat (rc_parallel_sequences c) \<le> length rounds"
  shows "\<exists>plan \<in> set (plan_rounds (unat (rc_batch_size c)) cursor rounds). prefill_of j plan \<noteq> []"
proof (rule rounds_serve)
  note cap = validated_capacity [OF assms(1,2)]
  show "0 < unat (rc_batch_size c)" by (rule cap)
  show "\<forall>slots \<in> set rounds. length slots = unat (rc_parallel_sequences c)
      \<and> (\<forall>s \<in> set slots. slot_prefillable s)
      \<and> length (decodes_of slots) < unat (rc_batch_size c) \<and> 0 < remaining_prefill (slots ! j)"
  proof
    fix slots assume "slots \<in> set rounds"
    with assms(3) have s: "length slots = unat (rc_parallel_sequences c)"
      "\<forall>s \<in> set slots. slot_prefillable s" "0 < remaining_prefill (slots ! j)" by blast+
    have "length (decodes_of slots) < unat (rc_batch_size c)"
      using decodes_less_while_prefilling [of j slots] s assms(4) cap(2) by simp
    with s show "length slots = unat (rc_parallel_sequences c) \<and> (\<forall>s \<in> set slots. slot_prefillable s)
      \<and> length (decodes_of slots) < unat (rc_batch_size c) \<and> 0 < remaining_prefill (slots ! j)" by blast
  qed
qed (rule assms(4), rule assms(5))

section \<open>Images within the limits\<close>

definition image_ok :: "vision_limits \<Rightarrow> image_input \<Rightarrow> bool" where
  "image_ok limits im \<longleftrightarrow> length (im_bytes im) \<le> vl_max_bytes_per_image limits
     \<and> 0 < im_width im \<and> 0 < im_height im
     \<and> im_width im \<le> vl_max_side limits \<and> im_height im \<le> vl_max_side limits
     \<and> unat (im_width im) * unat (im_height im) \<le> unat (vl_max_pixels_per_image limits)"

definition image_bytes :: "image_input list \<Rightarrow> nat" where
  "image_bytes images = (\<Sum>im \<leftarrow> images. length (im_bytes im))"

definition image_pixels :: "image_input list \<Rightarrow> nat" where
  "image_pixels images = (\<Sum>im \<leftarrow> images. unat (im_width im) * unat (im_height im))"

text \<open>The product of two 32-bit sides always fits 64 bits.\<close>

lemma pixels_fit:
  fixes w h :: u32
  shows "checked_mul_u64 (ucast w) (ucast h) = Some (ucast w * ucast h)"
    and "unat (ucast w * ucast h :: u64) = unat w * unat h"
proof -
  have small: "unat w < 2 ^ 32" "unat h < 2 ^ 32"
    using unsigned_less [of w] unsigned_less [of h] by simp_all
  then have "unat w * unat h < 2 ^ 32 * 2 ^ 32" by (rule mult_strict_mono) simp_all
  then have fit: "unat w * unat h < 2 ^ 64" by simp
  have u: "unat (ucast w :: u64) = unat w" "unat (ucast h :: u64) = unat h"
    using small by (simp_all add: unsigned_ucast_eq take_bit_nat_eq_self)
  show "checked_mul_u64 (ucast w) (ucast h) = Some (ucast w * ucast h)"
    using fit u by (simp add: checked_mul_u64_def)
  show "unat (ucast w * ucast h :: u64) = unat w * unat h"
    using fit u by (simp add: unat_mult_lem [THEN iffD1])
qed

lemma check_images_Inr:
  "check_images limits images tb tp = Inr (tb', tp') \<longleftrightarrow>
     (\<forall>im \<in> set images. image_ok limits im)
     \<and> (images \<noteq> [] \<longrightarrow> tb + image_bytes images \<le> usize_max)
     \<and> (images \<noteq> [] \<longrightarrow> unat tp + image_pixels images < 2 ^ 64)
     \<and> tb' = tb + image_bytes images \<and> unat tp' = unat tp + image_pixels images"
proof (induction images arbitrary: tb tp)
  case Nil
  then show ?case by (auto simp: image_bytes_def image_pixels_def word_unat_eq_iff)
next
  case (Cons im images)
  let ?p = "ucast (im_width im) * ucast (im_height im) :: u64"
  have p: "unat ?p = unat (im_width im) * unat (im_height im)" by (rule pixels_fit)
  have ok: "image_ok limits im \<longleftrightarrow> \<not> (length (im_bytes im) > vl_max_bytes_per_image limits
        \<or> im_width im = 0 \<or> im_height im = 0
        \<or> im_width im > vl_max_side limits \<or> im_height im > vl_max_side limits
        \<or> ?p > vl_max_pixels_per_image limits)"
    unfolding image_ok_def word_less_nat_alt [of _ ?p] p by (auto simp: not_less word_neq_0_conv)
  have add: "checked_add_u64 tp ?p = Some q \<longleftrightarrow> unat tp + unat ?p < 2 ^ 64 \<and> q = tp + ?p" for q
    by (auto simp: checked_add_u64_def)
  have sum: "unat tp + unat ?p < 2 ^ 64 \<Longrightarrow> unat (tp + ?p) = unat tp + unat ?p"
    by (simp add: unat_add_lem [THEN iffD1])
  show ?case
  proof (cases "image_ok limits im \<and> tb + length (im_bytes im) \<le> usize_max \<and> unat tp + unat ?p < 2 ^ 64")
    case True
    then have step: "check_images limits (im # images) tb tp
        = check_images limits images (tb + length (im_bytes im)) (tp + ?p)"
      using ok add [of "tp + ?p"] by (simp add: pixels_fit(1) checked_add_usize_def)
    have q: "unat (tp + ?p) = unat tp + unat (im_width im) * unat (im_height im)"
      using True sum p by simp
    show ?thesis unfolding step Cons.IH q using True p
      by (cases "images = []") (auto simp: image_bytes_def image_pixels_def)
  next
    case False
    then have "\<nexists>r. check_images limits (im # images) tb tp = Inr r"
      using ok add by (auto simp: pixels_fit(1) checked_add_usize_def checked_add_u64_def)
    moreover have "\<not> (image_ok limits im \<and> tb + image_bytes (im # images) \<le> usize_max
        \<and> unat tp + image_pixels (im # images) < 2 ^ 64)"
      using False p by (auto simp: image_bytes_def image_pixels_def)
    ultimately show ?thesis by auto
  qed
qed

text \<open>Image validation accepts exactly the image lists within the limits, computed without
  overflow: the count, every image's bytes, sides and pixels, the total bytes and the total pixels.\<close>

theorem validate_images_exact:
  assumes "vl_max_total_bytes limits \<le> usize_max"
  shows "validate_images images limits = None \<longleftrightarrow>
     length images \<le> vl_max_images limits \<and> (\<forall>im \<in> set images. image_ok limits im)
     \<and> image_bytes images \<le> vl_max_total_bytes limits
     \<and> image_pixels images \<le> unat (vl_max_total_pixels limits)"
proof (cases "check_images limits images 0 0")
  case (Inl e)
  then have none: "\<nexists>r. check_images limits images 0 0 = Inr r" by simp
  have "\<not> ((\<forall>im \<in> set images. image_ok limits im) \<and> image_bytes images \<le> usize_max
      \<and> image_pixels images < 2 ^ 64)"
  proof
    assume ok: "(\<forall>im \<in> set images. image_ok limits im) \<and> image_bytes images \<le> usize_max
      \<and> image_pixels images < 2 ^ 64"
    have "unat (word_of_nat (image_pixels images) :: u64) = image_pixels images"
      using ok by (simp add: unat_of_nat)
    then have "check_images limits images 0 0 = Inr (image_bytes images, word_of_nat (image_pixels images))"
      unfolding check_images_Inr using ok by simp
    with none show False by blast
  qed
  moreover have "unat (vl_max_total_pixels limits) < 2 ^ 64"
    using unsigned_less [of "vl_max_total_pixels limits"] by simp
  ultimately show ?thesis using Inl assms by (auto simp: validate_images_def)
next
  case (Inr r)
  obtain tb tp where r: "r = (tb, tp)" by fastforce
  from Inr [unfolded r check_images_Inr]
  have ok: "\<forall>im \<in> set images. image_ok limits im" "tb = image_bytes images"
    "unat tp = image_pixels images" by simp_all
  then show ?thesis using Inr r by (auto simp: validate_images_def word_less_nat_alt not_less)
qed

text \<open>A validated configuration whose worker starts gives every slot its own window: the native
  context is the per-slot context times the number of parallel sequences, without wrap-around, a
  request that passes the context check fits its window whole, and a prefix cache created for the
  worker never panics and stays within its limits, whatever is done with it.\<close>

theorem validated_worker_windows:
  assumes "validate_config is_file c = None" and "worker_context n_ctx_train c = Some (Inr native)"
  shows "unat native = effective_context_size n_ctx_train c * unat (rc_parallel_sequences c)
     \<and> 0 < effective_context_size n_ctx_train c
     \<and> (cfg_enabled (rc_prompt_cache c) \<longrightarrow>
          cfg_min_prefix_tokens (rc_prompt_cache c) < effective_context_size n_ctx_train c)
     \<and> (check_context tokens positions max_tokens (effective_context_size n_ctx_train c) = None \<longrightarrow>
          positions + max_tokens \<le> effective_context_size n_ctx_train c)
     \<and> (\<exists>cache :: 'a prefix_cache. cache_run ops (new_cache (rc_prompt_cache c)) = Some cache
          \<and> length (pc_entries cache) \<le> 64)"
proof -
  let ?per = "case rc_context_size c of None \<Rightarrow> n_ctx_train | Some n \<Rightarrow> n"
  have per: "unat ?per = effective_context_size n_ctx_train c"
    by (simp add: effective_context_size_def split: option.splits)
  have *: "checked_mul_u32 ?per (rc_parallel_sequences c) = Some native" "native \<noteq> 0"
    "cfg_enabled (rc_prompt_cache c) \<Longrightarrow> cfg_min_prefix_tokens (rc_prompt_cache c) < unat ?per"
    using assms(2) by (auto simp: worker_context_def Let_def split: if_splits option.splits)
  have fits: "unat ?per * unat (rc_parallel_sequences c) < 2 ^ 32" "native = ?per * rc_parallel_sequences c"
    using *(1) by (auto simp: checked_mul_u32_def split: if_splits)
  then have native: "unat native = unat ?per * unat (rc_parallel_sequences c)"
    by (simp add: unat_mult_lem [THEN iffD1])
  have pos: "0 < unat ?per" using *(2) native by (metis gr0I mult_zero_left unat_eq_zero)
  have cfg: "pc_config (new_cache (rc_prompt_cache c) :: 'a prefix_cache) = rc_prompt_cache c"
    by (simp add: new_cache_def)
  have "cfg_max_entries (rc_prompt_cache c) \<le> 64"
    using assms(1) by (simp add: validate_config_def)
  moreover obtain cache where run: "cache_run ops (new_cache (rc_prompt_cache c)) = Some cache"
    "prefix_cache_inv (cache :: 'a prefix_cache)" "pc_config cache = rc_prompt_cache c"
    using cache_run_ok [OF new_cache_inv, of "rc_prompt_cache c" ops] validated(4) [OF assms(1)] cfg by metis
  ultimately have "length (pc_entries cache) \<le> 64"
    by (auto simp: prefix_cache_inv_def over_limits_def)
  with run(1) native pos *(3) per show ?thesis by (auto simp: check_context_def split: if_splits)
qed

section \<open>Witnesses\<close>

definition sample_runtime :: runtime_config where
  "sample_runtime =
     \<lparr>rc_context_size = Some 4096, rc_batch_size = 6, rc_micro_batch_size = 6, rc_threads = 0,
      rc_gpu_layers = 0, rc_parallel_sequences = 3, rc_request_queue_capacity = 8,
      rc_event_queue_capacity = 16, rc_chat_template = None, rc_template_engine = LlamaCpp,
      rc_enable_thinking = False, rc_prompt_cache = default_prompt_cache_config,
      rc_mode = Generation_Mode, rc_vision = None\<rparr>"

lemma sample_runtime_valid: "validate_config (\<lambda>_. True) sample_runtime = None"
  by (simp add: validate_config_def sample_runtime_def validate_event_capacity_def checked_mul_u32_def
        exceeds_batch_limit_def i32_max_def max_event_capacity_def default_prompt_cache_config_def)

lemma sample_slots_count: "length sample_slots = unat (rc_parallel_sequences sample_runtime)"
  by (simp add: sample_slots_def sample_runtime_def)

theorem validated_batch_decodes_all_witness:
  "\<exists>plan. plan_batch sample_slots 6 2 = Some plan
     \<and> \<lparr>be_slot = 1, be_token = 9, be_position = 7, be_logits = True, be_kind = Decode\<rparr> \<in> set (bp_entries plan)"
proof -
  have mode: "rc_mode sample_runtime = Generation_Mode" "unat (rc_batch_size sample_runtime) = 6"
    by (simp_all add: sample_runtime_def)
  have "1 < length sample_slots" by (simp add: sample_slots_def)
  moreover have "decoding_entry (sample_slots ! 1) 1
      = Some \<lparr>be_slot = 1, be_token = 9, be_position = 7, be_logits = True, be_kind = Decode\<rparr>"
    by code_simp
  ultimately show ?thesis
    using validated_batch_decodes_all [OF sample_runtime_valid mode(1) sample_slots_count sample_slots_ok, of 2]
    unfolding mode(2) by blast
qed

theorem validated_prefill_is_fair_witness:
  "\<exists>plan \<in> set (plan_rounds 6 1 (replicate 3 sample_slots)). prefill_of 0 plan \<noteq> []"
proof -
  have mode: "rc_mode sample_runtime = Generation_Mode" "unat (rc_batch_size sample_runtime) = 6"
    "unat (rc_parallel_sequences sample_runtime) = 3"
    by (simp_all add: sample_runtime_def)
  have rem: "remaining_prefill (sample_slots ! 0) = 5" by code_simp
  have "\<forall>slots \<in> set (replicate 3 sample_slots). length slots = unat (rc_parallel_sequences sample_runtime)
      \<and> (\<forall>s \<in> set slots. slot_prefillable s) \<and> 0 < remaining_prefill (slots ! 0)"
    using sample_slots_count sample_slots_ok rem by simp
  from validated_prefill_is_fair [OF sample_runtime_valid mode(1) this, of 1] show ?thesis
    unfolding mode(2,3) by simp
qed

definition sample_image :: image_input where
  "sample_image = \<lparr>im_bytes = [1, 2, 3], im_width = 640, im_height = 480\<rparr>"

theorem validate_images_exact_witness:
  "validate_images [sample_image, sample_image] default_vision_limits = None
   \<and> validate_images [sample_image\<lparr>im_width := 9000\<rparr>] default_vision_limits \<noteq> None"
proof -
  have "vl_max_total_bytes default_vision_limits \<le> usize_max"
    by (simp add: default_vision_limits_def usize_max_def)
  then show ?thesis unfolding validate_images_exact [OF \<open>vl_max_total_bytes _ \<le> _\<close>]
    by (simp add: default_vision_limits_def sample_image_def image_ok_def image_bytes_def
          image_pixels_def word_less_nat_alt word_le_nat_alt)
qed

theorem validated_worker_windows_witness:
  "worker_context 4096 sample_runtime = Some (Inr 12288) \<and> unat (12288 :: u32) = 4096 * 3"
proof -
  have start: "worker_context 4096 sample_runtime = Some (Inr 12288)"
    by (simp add: worker_context_def sample_runtime_def checked_mul_u32_def
          default_prompt_cache_config_def)
  have "effective_context_size 4096 sample_runtime = 4096" "unat (rc_parallel_sequences sample_runtime) = 3"
    by (simp_all add: effective_context_size_def sample_runtime_def)
  with validated_worker_windows [OF sample_runtime_valid start, where 'a = unit] start show ?thesis by simp
qed

end
