(* ===== verification/Scheduler.thy ===== *)
theory Scheduler
  imports Runtime_Config "HOL-Library.Multiset"
begin

text \<open>
  The operations of the generation worker on its slots
  (\<open>libs/orchion-llama-cpp/src/scheduler.rs\<close>): cancellation, flushing, reservation and its
  decision, activation of a committed request, applying a decoded batch, accepting a sampled token,
  capturing prompt prefixes, and the ways a slot ends.

  Everything the worker sends over a one-shot channel, and every write to or clearing of a native
  sequence, is an entry of a log; a one-shot sender that is dropped unused is logged as
  \<open>SenderDropped\<close>. Native code (tokenizer, sampler, semantic parser, multimodal projector, KV state)
  is the record \<open>native\<close> of functions; a stateful native call is a function of the state it keeps
  in the slot. A native call returns: panics inside native code are not modelled, panics of the
  modelled code are.
\<close>

section \<open>Replies, native code, requests\<close>

text \<open>The one-shot senders a client hands over with its command.\<close>

datatype sender =
  ReservedSender | ReadinessSender | TerminalSender | AcknowledgedSender | CountSender | ControlSender

datatype reasoning_control_result = Success | NotFound | NotReasoning | Disabled

datatype 'f reply =
    ReservedReply nat "llama_error option"
  | Readiness nat "llama_error option"
  | Terminal nat "'f outcome"
  | Acknowledged nat "llama_error option"
  | Counted nat "llama_error + nat"
  | Controlled nat "llama_error + reasoning_control_result"
  | SenderDropped sender nat
  | SequenceWritten nat
  | SequenceCleared nat

record 'p prepared =
  pr_tokens :: "i32 list"
  pr_media :: "(nat \<times> nat) option"
  pr_semantic_parser :: "'p option"
  pr_parse_semantic :: bool
  pr_preserved_tokens :: "i32 list"
  pr_stops :: "utf8 list"
  pr_reasoning_active :: bool

record ('f, 'm, 'p, 's) native =
  nt_prepare :: "request \<Rightarrow> llama_error + 'p prepared"
  nt_create_sampler :: "request \<Rightarrow> 'p prepared \<Rightarrow> llama_error + 'm"
  nt_is_eog :: "i32 \<Rightarrow> bool"
  nt_decode_piece :: "'m \<Rightarrow> i32 \<Rightarrow> bool \<Rightarrow> utf8 \<times> 'm"
  nt_sample :: "'m \<Rightarrow> nat \<Rightarrow> nat option \<Rightarrow> llama_error + (i32 \<times> 'f token_logprobs option \<times> 'm)"
  nt_sample_media :: "'m \<Rightarrow> nat option \<Rightarrow> llama_error + (i32 \<times> 'f token_logprobs option \<times> 'm)"
  nt_parser_push :: "'p \<Rightarrow> utf8 \<Rightarrow> llama_error + (semantic_delta list \<times> 'p)"
  nt_parser_finish :: "'p \<Rightarrow> utf8 \<Rightarrow> llama_error + (semantic_delta list \<times> 'p)"
  nt_has_tool_calls :: "'p \<Rightarrow> bool"
  nt_restore :: "'s \<Rightarrow> nat \<Rightarrow> llama_error option"
  nt_clear_sequence :: "nat \<Rightarrow> llama_error option"
  nt_capture :: "nat \<Rightarrow> ('s \<times> nat) option"
  nt_media_eval :: "nat \<Rightarrow> llama_error + nat"
  nt_decode :: "batch_plan \<Rightarrow> llama_error option"
  nt_force_reasoning_end :: "'m \<Rightarrow> llama_error + (bool \<times> 'm)"
  nt_reserved_open :: "nat \<Rightarrow> bool"
  nt_readiness_open :: "nat \<Rightarrow> bool"
  nt_cancelled_meanwhile :: "nat \<Rightarrow> bool"
  nt_count :: "nat \<Rightarrow> llama_error + nat"
  nt_elapsed :: nat
  nt_clear_all_panics :: "string option"

record effective_template =
  et_engine :: template_engine
  et_source :: string
  et_enable_thinking :: bool

record worker_config =
  wc_runtime :: runtime_config
  wc_template :: effective_template
  wc_n_ctx_train :: u32
  wc_load_epoch :: u64

definition cache_compatibility :: "worker_config \<Rightarrow> request \<Rightarrow> compatibility" where
  "cache_compatibility cfg req =
     \<lparr>load_epoch = wc_load_epoch cfg,
      input = (if req_raw_prompt req then RawPrompt
               else Template (et_engine (wc_template cfg)) (et_source (wc_template cfg))
                      (et_enable_thinking (wc_template cfg)))\<rparr>"

definition request_allows_prefix_cache :: "request \<Rightarrow> bool" where
  "request_allows_prefix_cache req \<longleftrightarrow> \<not> req_has_images req"

definition defer_media_prefill :: "bool \<Rightarrow> bool \<Rightarrow> bool \<Rightarrow> bool" where
  "defer_media_prefill has_media media_prefilled_last_tick ordinary_work \<longleftrightarrow>
     has_media \<and> media_prefilled_last_tick \<and> ordinary_work"

definition prompt_positions :: "'p prepared \<Rightarrow> nat" where
  "prompt_positions p = (case pr_media p of None \<Rightarrow> length (pr_tokens p) | Some (_, positions) \<Rightarrow> positions)"

definition prompt_token_count :: "'p prepared \<Rightarrow> nat" where
  "prompt_token_count p = (case pr_media p of None \<Rightarrow> length (pr_tokens p) | Some (tokens, _) \<Rightarrow> tokens)"

text \<open>\<open>prepare_generation\<close>: rendering and tokenising are native, the context check is here.\<close>

definition prepare_generation ::
  "('f, 'm, 'p, 's) native \<Rightarrow> worker_config \<Rightarrow> request \<Rightarrow> llama_error + 'p prepared" where
  "prepare_generation nt cfg req =
     (case nt_prepare nt req of
        Inl e \<Rightarrow> Inl e
      | Inr p \<Rightarrow>
          (case check_context (prompt_token_count p) (prompt_positions p) (req_max_tokens req)
                  (effective_context_size (wc_n_ctx_train cfg) (wc_runtime cfg)) of
             Some e \<Rightarrow> Inl e
           | None \<Rightarrow> Inr p))"

section \<open>Ending a slot\<close>

text \<open>Taking the readiness sender and sending over it.\<close>

definition send_readiness :: "llama_error option \<Rightarrow> 'f lifecycle \<Rightarrow> 'f reply list \<times> 'f lifecycle" where
  "send_readiness result lc =
     (if lc_readiness lc then ([Readiness (lc_client lc) result], lc\<lparr>lc_readiness := False\<rparr>)
      else ([], lc))"

definition empty_draining :: "'f lifecycle \<Rightarrow> llama_error \<Rightarrow> 'f draining_slot" where
  "empty_draining lc error =
     \<lparr>d_lifecycle = lc, d_pending_tokens = [], d_pending_content = None, d_pending_semantic = [],
      d_outcome = Inl error\<rparr>"

definition reject_reserved ::
  "llama_error \<Rightarrow> 'f lifecycle \<Rightarrow> 'f reply list \<times> ('f, 'm, 'p) slot_state" where
  "reject_reserved error lc =
     (let (log, lc') = send_readiness (Some error) lc in (log, Draining (empty_draining lc' error)))"

text \<open>\<open>into_draining\<close> without flushing the stop filter cannot panic.\<close>

definition fail_active :: "('f, 'm, 'p) active_slot \<Rightarrow> llama_error \<Rightarrow> ('f, 'm, 'p) slot_state" where
  "fail_active a error = Draining (drained a (Inl error))"

definition observe_slot :: "('f, 'm, 'p) slot_state \<Rightarrow> 'f reply list \<times> ('f, 'm, 'p) slot_state" where
  "observe_slot s =
     (case s of
        Vacant \<Rightarrow> ([], Vacant)
      | Reserved r \<Rightarrow>
          if lc_cancelled (r_lifecycle r) then reject_reserved Cancelled (r_lifecycle r) else ([], s)
      | Active a \<Rightarrow> ([], if lc_cancelled (a_lifecycle a) then fail_active a Cancelled else s)
      | Draining d \<Rightarrow>
          ([], if lc_cancelled (d_lifecycle d)
               then Draining (d\<lparr>d_pending_tokens := [], d_pending_content := None,
                                d_pending_semantic := [], d_outcome := Inl Cancelled\<rparr>)
               else s))"

definition on_slots ::
  "(('f, 'm, 'p) slot_state \<Rightarrow> 'f reply list \<times> ('f, 'm, 'p) slot_state) \<Rightarrow>
   ('f, 'm, 'p) slot_state list \<Rightarrow> 'f reply list \<times> ('f, 'm, 'p) slot_state list" where
  "on_slots f slots = (concat (map (fst \<circ> f) slots), map (snd \<circ> f) slots)"

definition observe_cancellations ::
  "('f, 'm, 'p) slot_state list \<Rightarrow> 'f reply list \<times> ('f, 'm, 'p) slot_state list" where
  "observe_cancellations slots = on_slots observe_slot slots"

definition flush_slot :: "('f, 'm, 'p) slot_state \<Rightarrow> ('f, 'm, 'p) slot_state" where
  "flush_slot s =
     (case s of
        Active a \<Rightarrow>
          (case try_flush_content a of
             (None, a') \<Rightarrow> Active a'
           | (Some _, a') \<Rightarrow> fail_active a' Cancelled)
      | _ \<Rightarrow> s)"

definition flush_active_content :: "('f, 'm, 'p) slot_state list \<Rightarrow> ('f, 'm, 'p) slot_state list" where
  "flush_active_content slots = map flush_slot slots"

text \<open>The end of a draining slot: events, readiness, terminal and acknowledgement, in this order.\<close>

definition final_replies :: "'f draining_slot \<Rightarrow> 'f reply list" where
  "final_replies d =
     (let lc = d_lifecycle d; result = (case d_outcome d of Inl e \<Rightarrow> Some e | Inr _ \<Rightarrow> None) in
      (if lc_readiness lc then [Readiness (lc_client lc) result] else [])
      @ (if lc_terminal lc then [Terminal (lc_client lc) (d_outcome d)] else [])
      @ (if lc_acknowledged lc then [Acknowledged (lc_client lc) result] else []))"

definition finalize_slot ::
  "(nat \<Rightarrow> llama_error option) \<Rightarrow> nat \<Rightarrow> 'f draining_slot \<Rightarrow>
   'f reply list \<times> ('f, 'm, 'p) slot_state \<times> llama_error option" where
  "finalize_slot clear i d =
     (let d1 = (if lc_cancelled (d_lifecycle d)
                then d\<lparr>d_pending_tokens := [], d_pending_content := None, d_outcome := Inl Cancelled\<rparr>
                else d)
      in case try_flush_draining d1 of
           (False, d2) \<Rightarrow> ([], Draining d2, None)
         | (True, d2) \<Rightarrow>
             (case clear i of
                Some e \<Rightarrow> ([], Draining d2, Some e)
              | None \<Rightarrow> (SequenceCleared i # final_replies d2, Vacant, None)))"

fun finalize_from ::
  "(nat \<Rightarrow> llama_error option) \<Rightarrow> nat \<Rightarrow> ('f, 'm, 'p) slot_state list \<Rightarrow>
   'f reply list \<times> ('f, 'm, 'p) slot_state list \<times> llama_error option" where
  "finalize_from clear i [] = ([], [], None)"
| "finalize_from clear i (s # ss) =
     (case (case s of Draining d \<Rightarrow> finalize_slot clear i d | _ \<Rightarrow> ([], s, None)) of
        (log, s', Some e) \<Rightarrow> (log, s' # ss, Some e)
      | (log, s', None) \<Rightarrow>
          (case finalize_from clear (Suc i) ss of
             (log', ss', e) \<Rightarrow> (log @ log', s' # ss', e)))"

definition finalize_draining_slots ::
  "('f, 'm, 'p, 's) native \<Rightarrow> ('f, 'm, 'p) slot_state list \<Rightarrow>
   'f reply list \<times> ('f, 'm, 'p) slot_state list \<times> llama_error option" where
  "finalize_draining_slots nt slots = finalize_from (nt_clear_sequence nt) 0 slots"

definition set_cancelled :: "('f, 'm, 'p) slot_state \<Rightarrow> ('f, 'm, 'p) slot_state" where
  "set_cancelled s =
     (case s of
        Vacant \<Rightarrow> Vacant
      | Reserved r \<Rightarrow> Reserved (r\<lparr>r_lifecycle := (r_lifecycle r)\<lparr>lc_cancelled := True\<rparr>\<rparr>)
      | Active a \<Rightarrow> Active (a\<lparr>a_lifecycle := (a_lifecycle a)\<lparr>lc_cancelled := True\<rparr>\<rparr>)
      | Draining d \<Rightarrow> Draining (d\<lparr>d_lifecycle := (d_lifecycle d)\<lparr>lc_cancelled := True\<rparr>\<rparr>))"

definition cancel_all_slots ::
  "('f, 'm, 'p) slot_state list \<Rightarrow> 'f reply list \<times> ('f, 'm, 'p) slot_state list" where
  "cancel_all_slots slots = observe_cancellations (map set_cancelled slots)"

fun slot_lifecycle :: "('f, 'm, 'p) slot_state \<Rightarrow> 'f lifecycle option" where
  "slot_lifecycle Vacant = None"
| "slot_lifecycle (Reserved r) = Some (r_lifecycle r)"
| "slot_lifecycle (Active a) = Some (a_lifecycle a)"
| "slot_lifecycle (Draining d) = Some (d_lifecycle d)"

definition fail_slot :: "llama_error \<Rightarrow> ('f, 'm, 'p) slot_state \<Rightarrow> 'f reply list \<times> ('f, 'm, 'p) slot_state" where
  "fail_slot error s =
     (case slot_lifecycle s of
        None \<Rightarrow> ([], s)
      | Some lc \<Rightarrow>
          ((if lc_readiness lc then [Readiness (lc_client lc) (Some error)] else [])
           @ (if lc_terminal lc then [Terminal (lc_client lc) (Inl error)] else [])
           @ (if lc_acknowledged lc then [Acknowledged (lc_client lc) (Some error)] else []), Vacant))"

definition fail_all_slots ::
  "llama_error \<Rightarrow> ('f, 'm, 'p) slot_state list \<Rightarrow> 'f reply list \<times> ('f, 'm, 'p) slot_state list" where
  "fail_all_slots error slots = on_slots (fail_slot error) slots"

text \<open>Slots dropped with their senders, when the worker function returns or unwinds.\<close>

definition drop_senders :: "'f lifecycle \<Rightarrow> 'f reply list" where
  "drop_senders lc =
     (if lc_readiness lc then [SenderDropped ReadinessSender (lc_client lc)] else [])
     @ (if lc_terminal lc then [SenderDropped TerminalSender (lc_client lc)] else [])
     @ (if lc_acknowledged lc then [SenderDropped AcknowledgedSender (lc_client lc)] else [])"

definition drop_slot :: "('f, 'm, 'p) slot_state \<Rightarrow> 'f reply list \<times> ('f, 'm, 'p) slot_state" where
  "drop_slot s =
     (case slot_lifecycle s of None \<Rightarrow> ([], s) | Some lc \<Rightarrow> (drop_senders lc, Vacant))"

section \<open>Sampled tokens\<close>

datatype accepted = Accepted "finish_reason option" | AcceptError llama_error | AcceptPanic

definition is_reasoning :: "semantic_delta \<Rightarrow> bool" where
  "is_reasoning d \<longleftrightarrow> (case d of Reasoning _ \<Rightarrow> True | _ \<Rightarrow> False)"

text \<open>What the parsed deltas of one piece do to the reasoning counters.\<close>

definition count_reasoning ::
  "bool \<Rightarrow> semantic_delta list \<Rightarrow> ('f, 'm, 'p) active_slot \<Rightarrow> ('f, 'm, 'p) active_slot" where
  "count_reasoning was_reasoning deltas a =
     (let produced = list_ex is_reasoning deltas; left = list_ex (\<lambda>d. \<not> is_reasoning d) deltas;
          a1 = (if produced \<and> \<not> was_reasoning
                then a\<lparr>a_reasoning_tokens := a_reasoning_tokens a + 1\<rparr> else a);
          a2 = (if produced then a1\<lparr>a_reasoning_active := True\<rparr> else a1);
          a3 = (if left then a2\<lparr>a_reasoning_active := False\<rparr> else a2)
      in a3\<lparr>a_pending_semantic := a_pending_semantic a @ deltas\<rparr>)"

text \<open>Passing the decoded piece through the stop filter and the semantic parser; the flag is that a
  stop sequence was found.\<close>

definition emit_piece ::
  "('f, 'm, 'p, 's) native \<Rightarrow> bool \<Rightarrow> utf8 \<Rightarrow> 'f token_logprobs option \<Rightarrow> ('f, 'm, 'p) active_slot \<Rightarrow>
   (llama_error + bool) option \<times> ('f, 'm, 'p) active_slot" where
  "emit_piece nt was_reasoning piece logprobs a =
     (case logprobs of
        Some lp \<Rightarrow>
          (case push_token piece lp (a_stop_filter a) of
             None \<Rightarrow> (None, a)
           | Some ((stopped, out), f) \<Rightarrow>
               (Some (Inr stopped),
                a\<lparr>a_stop_filter := f, a_pending_tokens := a_pending_tokens a @ out\<rparr>))
      | None \<Rightarrow>
          (case push_piece piece (a_stop_filter a) of
             None \<Rightarrow> (None, a)
           | Some ((stopped, None), f) \<Rightarrow> (Some (Inr stopped), a\<lparr>a_stop_filter := f\<rparr>)
           | Some ((stopped, Some out), f) \<Rightarrow>
               (case a_semantic_parser a of
                  None \<Rightarrow> (Some (Inr stopped), a\<lparr>a_stop_filter := f, a_pending_content := Some out\<rparr>)
                | Some p \<Rightarrow>
                    (case nt_parser_push nt p out of
                       Inl e \<Rightarrow> (Some (Inl e), a\<lparr>a_stop_filter := f\<rparr>)
                     | Inr (deltas, p') \<Rightarrow>
                         (Some (Inr stopped), count_reasoning was_reasoning deltas
                            (a\<lparr>a_stop_filter := f, a_semantic_parser := Some p'\<rparr>))))))"

definition accept_sampled_token ::
  "('f, 'm, 'p, 's) native \<Rightarrow> i32 \<Rightarrow> 'f token_logprobs option \<Rightarrow> ('f, 'm, 'p) active_slot \<Rightarrow>
   accepted \<times> ('f, 'm, 'p) active_slot" where
  "accept_sampled_token nt token logprobs a =
     (if nt_is_eog nt token then (Accepted (Some Stop), a)
      else
        (let was_reasoning = a_reasoning_active a;
             a1 = a\<lparr>a_completion_tokens := a_completion_tokens a + 1,
                    a_reasoning_tokens := a_reasoning_tokens a + (if was_reasoning then 1 else 0)\<rparr>;
             (piece, m) = nt_decode_piece nt (a_sampler a) token (token \<in> set (a_preserved_tokens a))
         in case emit_piece nt was_reasoning piece logprobs (a1\<lparr>a_sampler := m\<rparr>) of
              (None, a2) \<Rightarrow> (AcceptPanic, a2)
            | (Some (Inl e), a2) \<Rightarrow> (AcceptError e, a2)
            | (Some (Inr stopped), a2) \<Rightarrow>
                if stopped then (Accepted (Some Stop), a2)
                else if req_max_tokens (a_request a2) \<le> a_completion_tokens a2
                then (Accepted (Some Length), a2)
                else (Accepted None, a2\<lparr>a_pending_decode := Some token\<rparr>)))"

text \<open>The end of a finished slot. \<open>None\<close> is the panic of cutting the filter's text inside a
  character, which unwinds and drops the slot.\<close>

definition drain_finished ::
  "('f, 'm, 'p, 's) native \<Rightarrow> ('f, 'm, 'p) active_slot \<Rightarrow> finish_reason \<Rightarrow>
   ('f, 'm, 'p) slot_state option" where
  "drain_finished nt a reason =
     (case a_semantic_parser a of
        None \<Rightarrow> map_option Draining (into_draining a (Inr (finish_event a reason)) True)
      | Some p \<Rightarrow>
          (case take_flush (a_stop_filter a) of
             None \<Rightarrow> None
           | Some (suffix, f) \<Rightarrow>
               (let a1 = a\<lparr>a_stop_filter := f\<rparr> in
                case nt_parser_finish nt p (opt_text suffix) of
                  Inl e \<Rightarrow> Some (fail_active a1 e)
                | Inr (deltas, p') \<Rightarrow>
                    (let a2 = a1\<lparr>a_semantic_parser := Some p',
                                 a_pending_semantic := a_pending_semantic a1 @ deltas\<rparr>;
                         reason' = (if nt_has_tool_calls nt p' then ToolCalls else reason)
                     in map_option Draining (into_draining a2 (Inr (finish_event a2 reason')) True)))))"

definition stop_filter_panic :: llama_error where
  "stop_filter_panic = WorkerPanic ''byte index is not a char boundary''"

definition index_panic :: llama_error where
  "index_panic = WorkerPanic ''index out of bounds''"

text \<open>Replacing slot \<open>i\<close> by the end of its generation.\<close>

definition drain_finished_slot ::
  "('f, 'm, 'p, 's) native \<Rightarrow> nat \<Rightarrow> finish_reason \<Rightarrow> ('f, 'm, 'p) slot_state list \<Rightarrow>
   'f reply list \<times> ('f, 'm, 'p) slot_state list \<times> llama_error option" where
  "drain_finished_slot nt i reason slots =
     (case slots ! i of
        Active a \<Rightarrow>
          (case drain_finished nt a reason of
             None \<Rightarrow> (fst (drop_slot (Active a)), slots[i := Vacant], Some stop_filter_panic)
           | Some s \<Rightarrow> ([], slots[i := s], None))
      | _ \<Rightarrow> ([], slots[i := Vacant], None))"

section \<open>Applying a decoded batch\<close>

definition apply_entry ::
  "batch_entry \<Rightarrow> ('f, 'm, 'p) slot_state list \<Rightarrow> ('f, 'm, 'p) slot_state list" where
  "apply_entry e slots =
     (case slots ! be_slot e of
        Active a \<Rightarrow>
          slots[be_slot e := Active
            (case be_kind e of
               Prefill \<Rightarrow> a\<lparr>a_prefill_cursor := a_prefill_cursor a + 1\<rparr>
             | Decode \<Rightarrow> a\<lparr>a_pending_decode := None,
                            a_next_position := sat_add (a_next_position a) 1\<rparr>)]
      | _ \<Rightarrow> slots)"

definition saw :: "batch_entry_kind \<Rightarrow> batch_entry list \<Rightarrow> nat \<Rightarrow> bool" where
  "saw k entries i \<longleftrightarrow> (\<exists>e \<in> set entries. be_kind e = k \<and> be_slot e = i)"

definition charge_slot ::
  "nat \<Rightarrow> batch_entry list \<Rightarrow> nat \<Rightarrow> ('f, 'm, 'p) slot_state \<Rightarrow> ('f, 'm, 'p) slot_state" where
  "charge_slot elapsed entries i s =
     (case s of
        Active a \<Rightarrow> Active
          (a\<lparr>a_prompt_wall := a_prompt_wall a + (if saw Prefill entries i then elapsed else 0),
             a_predicted_wall := a_predicted_wall a + (if saw Decode entries i then elapsed else 0)\<rparr>)
      | _ \<Rightarrow> s)"

definition apply_entries ::
  "nat \<Rightarrow> batch_entry list \<Rightarrow> ('f, 'm, 'p) slot_state list \<Rightarrow> ('f, 'm, 'p) slot_state list option" where
  "apply_entries elapsed entries slots =
     (if \<exists>e \<in> set entries. length slots \<le> be_slot e then None
      else let slots' = fold apply_entry entries slots
           in Some (map (\<lambda>(i, s). charge_slot elapsed entries i s) (enumerate 0 slots')))"

text \<open>Capturing the prefix of every slot that has just reached its capture target.\<close>

definition clear_capture :: "('f, 'm, 'p) slot_state \<Rightarrow> ('f, 'm, 'p) slot_state" where
  "clear_capture s =
     (case s of Active a \<Rightarrow> Active (a\<lparr>a_cache_capture_at := None\<rparr>) | _ \<Rightarrow> s)"

definition capture_due :: "('f, 'm, 'p) slot_state \<Rightarrow> bool" where
  "capture_due s \<longleftrightarrow>
     (case s of Active a \<Rightarrow> a_cache_capture_at a = Some (a_prefill_cursor a) | _ \<Rightarrow> False)"

definition insert_prefix ::
  "('f, 'm, 'p) active_slot \<Rightarrow> 's \<Rightarrow> nat \<Rightarrow> 's prefix_cache \<Rightarrow> 's prefix_cache option" where
  "insert_prefix a state bytes cache =
     (if length (a_tokens a) < a_prefill_cursor a then None
      else cache_insert (a_cache_compatibility a) (take (a_prefill_cursor a) (a_tokens a)) state bytes cache)"

fun capture_from ::
  "('f, 'm, 'p, 's) native \<Rightarrow> nat \<Rightarrow> ('f, 'm, 'p) slot_state list \<Rightarrow> 's prefix_cache \<Rightarrow>
   (('f, 'm, 'p) slot_state list \<times> 's prefix_cache) option" where
  "capture_from nt i [] cache = Some ([], cache)"
| "capture_from nt i (s # ss) cache =
     (if capture_due s then
        (case s of
           Active a \<Rightarrow>
             (case nt_capture nt i of
                None \<Rightarrow> Some (s # ss, cache_disable cache)
              | Some (state, bytes) \<Rightarrow>
                  (case insert_prefix a state bytes cache of
                     None \<Rightarrow> None
                   | Some cache' \<Rightarrow>
                       map_option (\<lambda>(ss', c). (clear_capture s # ss', c)) (capture_from nt (Suc i) ss cache')))
         | _ \<Rightarrow> None)
      else map_option (\<lambda>(ss', c). (s # ss', c)) (capture_from nt (Suc i) ss cache))"

definition capture_prompt_prefixes ::
  "('f, 'm, 'p, 's) native \<Rightarrow> ('f, 'm, 'p) slot_state list \<Rightarrow> 's prefix_cache \<Rightarrow>
   (('f, 'm, 'p) slot_state list \<times> 's prefix_cache) option" where
  "capture_prompt_prefixes nt slots cache =
     (if \<not> pc_enabled cache then Some (map clear_capture slots, cache)
      else map_option
             (\<lambda>(slots', cache'). (if pc_enabled cache' then slots' else map clear_capture slots', cache'))
             (capture_from nt 0 slots cache))"

text \<open>Sampling for every entry that carries logits, in batch order.\<close>

definition sample_slot ::
  "('f, 'm, 'p, 's) native \<Rightarrow> nat \<Rightarrow> nat \<Rightarrow> ('f, 'm, 'p) slot_state list \<Rightarrow>
   'f reply list \<times> ('f, 'm, 'p) slot_state list \<times> llama_error option" where
  "sample_slot nt raw i slots =
     (case slots ! i of
        Active a \<Rightarrow>
          if lc_cancelled (a_lifecycle a) then ([], slots, None)
          else (case nt_sample nt (a_sampler a) raw (req_top_logprobs (a_request a)) of
             Inl e \<Rightarrow> ([], slots[i := fail_active a e], None)
           | Inr (token, logprobs, m) \<Rightarrow>
               (case accept_sampled_token nt token logprobs (a\<lparr>a_sampler := m\<rparr>) of
                  (AcceptPanic, a') \<Rightarrow> ([], slots[i := Active a'], Some stop_filter_panic)
                | (AcceptError e, a') \<Rightarrow> ([], slots[i := fail_active a' e], None)
                | (Accepted None, a') \<Rightarrow> ([], slots[i := Active a'], None)
                | (Accepted (Some reason), a') \<Rightarrow>
                    drain_finished_slot nt i reason (slots[i := Active a'])))
      | _ \<Rightarrow> ([], slots, None))"

fun sample_targets ::
  "('f, 'm, 'p, 's) native \<Rightarrow> (nat \<times> nat) list \<Rightarrow> ('f, 'm, 'p) slot_state list \<Rightarrow>
   'f reply list \<times> ('f, 'm, 'p) slot_state list \<times> llama_error option" where
  "sample_targets nt [] slots = ([], slots, None)"
| "sample_targets nt ((raw, i) # ts) slots =
     (case sample_slot nt raw i slots of
        (log, slots', Some e) \<Rightarrow> (log, slots', Some e)
      | (log, slots', None) \<Rightarrow>
          (case sample_targets nt ts slots' of (log', slots'', e) \<Rightarrow> (log @ log', slots'', e)))"

definition zero_length :: "('f, 'm, 'p) slot_state \<Rightarrow> bool" where
  "zero_length s \<longleftrightarrow>
     (case s of
        Active a \<Rightarrow> a_prefill_cursor a = length (a_tokens a) \<and> req_max_tokens (a_request a) = 0
      | _ \<Rightarrow> False)"

fun drain_all ::
  "('f, 'm, 'p, 's) native \<Rightarrow> nat list \<Rightarrow> ('f, 'm, 'p) slot_state list \<Rightarrow>
   'f reply list \<times> ('f, 'm, 'p) slot_state list \<times> llama_error option" where
  "drain_all nt [] slots = ([], slots, None)"
| "drain_all nt (i # is) slots =
     (case drain_finished_slot nt i Length slots of
        (log, slots', Some e) \<Rightarrow> (log, slots', Some e)
      | (log, slots', None) \<Rightarrow>
          (case drain_all nt is slots' of (log', slots'', e) \<Rightarrow> (log @ log', slots'', e)))"

definition apply_decoded_batch ::
  "('f, 'm, 'p, 's) native \<Rightarrow> batch_plan \<Rightarrow> ('f, 'm, 'p) slot_state list \<Rightarrow> 's prefix_cache \<Rightarrow>
   'f reply list \<times> ('f, 'm, 'p) slot_state list \<times> 's prefix_cache \<times> llama_error option" where
  "apply_decoded_batch nt plan slots cache =
     (case apply_entries (nt_elapsed nt) (bp_entries plan) slots of
        None \<Rightarrow> ([], slots, cache, Some index_panic)
      | Some slots1 \<Rightarrow>
          (case capture_prompt_prefixes nt slots1 cache of
             None \<Rightarrow> ([], slots1, cache, Some index_panic)
           | Some (slots2, cache') \<Rightarrow>
               (case observe_cancellations slots2 of
                  (log1, slots3) \<Rightarrow>
                    (case logits_targets plan of
                       Inl e \<Rightarrow> (log1, slots3, cache', Some e)
                     | Inr targets \<Rightarrow>
                         (case sample_targets nt targets slots3 of
                            (log2, slots4, Some e) \<Rightarrow> (log1 @ log2, slots4, cache', Some e)
                          | (log2, slots4, None) \<Rightarrow>
                              (case observe_cancellations slots4 of
                                 (log3, slots5) \<Rightarrow>
                                   (case drain_all nt (map fst (filter (\<lambda>(_, s). zero_length s)
                                             (enumerate 0 slots5))) slots5 of
                                      (log4, slots6, e) \<Rightarrow>
                                        (log1 @ log2 @ log3 @ log4, slots6, cache', e))))))))"

section \<open>Reservation\<close>

record 'f reservation =
  rs_client :: nat
  rs_operation :: "u64 option"
  rs_cancelled :: bool
  rs_events :: "'f channel"
  rs_decision :: decision_poll

datatype 'f command =
    ReserveGeneration "'f reservation"
  | CountTokens nat bool
  | ReserveEmbedding nat
  | Shutdown

datatype 'f admission = Admitted | Blocked "'f command" | AdmitShutdown

definition reserved_of :: "'f reservation \<Rightarrow> 'f reserved_slot" where
  "reserved_of r =
     \<lparr>r_lifecycle = \<lparr>lc_client = rs_client r, lc_operation = rs_operation r,
                     lc_cancelled = rs_cancelled r, lc_events = Some (rs_events r),
                     lc_readiness = True, lc_acknowledged = True, lc_terminal = True\<rparr>,
      r_decision = Some (rs_decision r), r_committed = None\<rparr>"

text \<open>A reservation that is refused because it is cancelled or nobody listens only gets its
  acknowledgement; its other senders are dropped (the reservation sender unsent or into a closed
  channel). The embedding result of a misdirected embedding request is its terminal reply.\<close>

definition admit_generation_command ::
  "('f, 'm, 'p, 's) native \<Rightarrow> 'f command \<Rightarrow> ('f, 'm, 'p) slot_state list \<Rightarrow>
   'f reply list \<times> ('f, 'm, 'p) slot_state list \<times> 'f admission" where
  "admit_generation_command nt command slots =
     (case command of
        ReserveGeneration r \<Rightarrow>
          (case position is_vacant slots of
             None \<Rightarrow> ([], slots, Blocked command)
           | Some i \<Rightarrow>
               if rs_cancelled r \<or> \<not> nt_reserved_open nt (rs_client r)
               then ([SenderDropped ReservedSender (rs_client r),
                      Acknowledged (rs_client r) (Some Cancelled),
                      SenderDropped ReadinessSender (rs_client r),
                      SenderDropped TerminalSender (rs_client r)], slots, Admitted)
               else ([ReservedReply (rs_client r) None], slots[i := Reserved (reserved_of r)], Admitted))
      | CountTokens client cancelled \<Rightarrow>
          if list_ex is_occupied slots then ([], slots, Blocked command)
          else ([Counted client (if cancelled then Inl Cancelled else nt_count nt client)], slots, Admitted)
      | ReserveEmbedding client \<Rightarrow>
          (let error = InvalidConfig ''generation deployment cannot create embeddings'' in
           ([ReservedReply client (Some error), Readiness client (Some error),
             Terminal client (Inl error), Acknowledged client (Some error)], slots, Admitted))
      | Shutdown \<Rightarrow> ([], slots, AdmitShutdown))"

definition reject_command :: "llama_error \<Rightarrow> 'f command \<Rightarrow> 'f reply list" where
  "reject_command error command =
     (case command of
        CountTokens client _ \<Rightarrow> [Counted client (Inl error)]
      | ReserveGeneration r \<Rightarrow>
          [ReservedReply (rs_client r) (Some error), Readiness (rs_client r) (Some error),
           Terminal (rs_client r) (Inl error), Acknowledged (rs_client r) (Some error)]
      | ReserveEmbedding client \<Rightarrow>
          [ReservedReply client (Some error), Readiness client (Some error),
           Terminal client (Inl error), Acknowledged client (Some error)]
      | Shutdown \<Rightarrow> [])"

section \<open>Activating a committed request\<close>

text \<open>How the poll of one slot ends: go on, return that media was prefilled, or fail the worker.\<close>

datatype poll_exit = PollNext | PollMedia | PollError llama_error

text \<open>Restoring the longest cached prefix. A failed restore disables the cache and clears the
  sequence; only a failure of that clearing is an error.\<close>

definition restore_prefix ::
  "('f, 'm, 'p, 's) native \<Rightarrow> worker_config \<Rightarrow> nat \<Rightarrow> request \<Rightarrow> i32 list \<Rightarrow> 's prefix_cache \<Rightarrow>
   'f reply list \<times> 's prefix_cache \<times> (llama_error + nat)" where
  "restore_prefix nt cfg i req toks cache =
     (if pc_enabled cache \<and> request_allows_prefix_cache req then
        (case cache_lookup (cache_compatibility cfg req) toks cache of
           (None, cache') \<Rightarrow> ([], cache', Inr 0)
         | (Some (n, state), cache') \<Rightarrow>
             (case nt_restore nt state i of
                None \<Rightarrow> ([SequenceWritten i], cache', Inr n)
              | Some _ \<Rightarrow>
                  (case nt_clear_sequence nt i of
                     None \<Rightarrow> ([SequenceWritten i, SequenceCleared i], cache_disable cache', Inr 0)
                   | Some e \<Rightarrow> ([SequenceWritten i], cache_disable cache', Inl e))))
      else ([], cache, Inr 0))"

definition fresh_active ::
  "worker_config \<Rightarrow> 'f lifecycle \<Rightarrow> request \<Rightarrow> 'p prepared \<Rightarrow> nat \<Rightarrow> 'm \<Rightarrow> ('f, 'm, 'p) active_slot" where
  "fresh_active cfg lc req p cache_n sampler =
     \<lparr>a_lifecycle = lc, a_request = req, a_tokens = pr_tokens p, a_prefill_cursor = cache_n,
      a_cache_n = cache_n, a_cache_capture_at = None,
      a_cache_compatibility = cache_compatibility cfg req, a_pending_decode = None,
      a_sampler = sampler,
      a_semantic_parser = (if pr_parse_semantic p then pr_semantic_parser p else None),
      a_preserved_tokens = pr_preserved_tokens p, a_stop_filter = new_filter (pr_stops p),
      a_pending_semantic = [], a_pending_tokens = [], a_pending_content = None,
      a_completion_tokens = 0, a_reasoning_tokens = 0, a_reasoning_active = pr_reasoning_active p,
      a_prompt_tokens = prompt_token_count p, a_next_position = prompt_positions p,
      a_prompt_wall = 0, a_predicted_wall = 0\<rparr>"

text \<open>Announcing readiness; the flag is that somebody received it.\<close>

definition announce ::
  "('f, 'm, 'p, 's) native \<Rightarrow> ('f, 'm, 'p) active_slot \<Rightarrow>
   'f reply list \<times> ('f, 'm, 'p) active_slot \<times> bool" where
  "announce nt a =
     (case send_readiness None (a_lifecycle a) of
        (log, lc) \<Rightarrow> (log, a\<lparr>a_lifecycle := lc\<rparr>,
           lc_readiness (a_lifecycle a) \<and> nt_readiness_open nt (lc_client (a_lifecycle a))))"

definition activate_text ::
  "('f, 'm, 'p, 's) native \<Rightarrow> ('f, 'm, 'p) active_slot \<Rightarrow> 's prefix_cache \<Rightarrow>
   'f reply list \<times> ('f, 'm, 'p) slot_state" where
  "activate_text nt a cache =
     (case announce nt a of
        (log, a', False) \<Rightarrow> (log, Draining (empty_draining (a_lifecycle a') Cancelled))
      | (log, a', True) \<Rightarrow>
          (let target = length (a_tokens a') - 1 in
           (log, Active (a'\<lparr>a_cache_capture_at :=
              (if pc_enabled cache \<and> cfg_min_prefix_tokens (pc_config cache) \<le> target
                  \<and> a_cache_n a' < target then Some target else None)\<rparr>))))"

text \<open>The end of a media prefill: the first token, or the end of a request for none. \<open>into_draining\<close>
  may panic as in \<open>drain_finished\<close>.\<close>

definition finish_media ::
  "('f, 'm, 'p) active_slot \<Rightarrow> finish_reason \<Rightarrow>
   'f reply list \<times> ('f, 'm, 'p) slot_state \<times> poll_exit" where
  "finish_media a reason =
     (case into_draining a (Inr (finish_event a reason)) True of
        None \<Rightarrow> (fst (drop_slot (Active a)), Vacant, PollError stop_filter_panic)
      | Some d \<Rightarrow> ([], Draining d, PollMedia))"

definition activate_media ::
  "('f, 'm, 'p, 's) native \<Rightarrow> nat \<Rightarrow> nat \<Rightarrow> ('f, 'm, 'p) active_slot \<Rightarrow>
   'f reply list \<times> ('f, 'm, 'p) slot_state \<times> poll_exit" where
  "activate_media nt i positions a =
     (if lc_cancelled (a_lifecycle a) then ([], fail_active a Cancelled, PollNext)
      else case nt_media_eval nt i of
        Inl e \<Rightarrow> ([SequenceWritten i], Active a, PollError e)
      | Inr next_position \<Rightarrow>
          (let a1 = a\<lparr>a_prompt_wall := nt_elapsed nt\<rparr> in
           if next_position \<noteq> positions
           then ([SequenceWritten i], Active a1,
                 PollError (Generation ''multimodal prefill returned an unexpected position''))
           else if nt_cancelled_meanwhile nt (lc_client (a_lifecycle a1))
           then ([SequenceWritten i],
                 fail_active (a1\<lparr>a_lifecycle := (a_lifecycle a1)\<lparr>lc_cancelled := True\<rparr>\<rparr>) Cancelled, PollNext)
           else if req_max_tokens (a_request a1) = 0
           then (case finish_media a1 Length of (log, s, x) \<Rightarrow> (SequenceWritten i # log, s, x))
           else
             (case nt_sample_media nt (a_sampler a1) (req_top_logprobs (a_request a1)) of
                Inl e \<Rightarrow> ([SequenceWritten i], fail_active a1 e, PollMedia)
              | Inr (token, logprobs, m) \<Rightarrow>
                  (case accept_sampled_token nt token logprobs (a1\<lparr>a_sampler := m\<rparr>) of
                     (AcceptPanic, a2) \<Rightarrow>
                       (SequenceWritten i # fst (drop_slot (Active a2)), Vacant, PollError stop_filter_panic)
                   | (AcceptError e, a2) \<Rightarrow> ([SequenceWritten i], fail_active a2 e, PollMedia)
                   | (Accepted (Some reason), a2) \<Rightarrow>
                       (case finish_media a2 reason of (log, s, x) \<Rightarrow> (SequenceWritten i # log, s, x))
                   | (Accepted None, a2) \<Rightarrow>
                       (case announce nt a2 of
                          (log, a3, False) \<Rightarrow>
                            (SequenceWritten i # log, fail_active a3 Cancelled, PollNext)
                        | (log, a3, True) \<Rightarrow> (SequenceWritten i # log, Active a3, PollMedia))))))"

text \<open>A committed request whose turn it is. The restore failure that cannot be cleaned up leaves the
  slot vacant: \<open>reserved\<close> is dropped by the early return.\<close>

definition activate_request ::
  "('f, 'm, 'p, 's) native \<Rightarrow> worker_config \<Rightarrow> nat \<Rightarrow> 'f lifecycle \<Rightarrow> request \<Rightarrow> 's prefix_cache \<Rightarrow>
   'f reply list \<times> ('f, 'm, 'p) slot_state \<times> 's prefix_cache \<times> poll_exit" where
  "activate_request nt cfg i lc req cache =
     (if lc_cancelled lc
      then (case reject_reserved Cancelled lc of (log, s) \<Rightarrow> (log, s, cache, PollNext))
      else case prepare_generation nt cfg req of
        Inl e \<Rightarrow> (case reject_reserved e lc of (log, s) \<Rightarrow> (log, s, cache, PollNext))
      | Inr p \<Rightarrow>
          (case restore_prefix nt cfg i req (pr_tokens p) cache of
             (log1, cache', Inl e) \<Rightarrow>
               (log1 @ drop_senders lc, Vacant, cache', PollError e)
           | (log1, cache', Inr cache_n) \<Rightarrow>
               (case nt_create_sampler nt req p of
                  Inl e \<Rightarrow>
                    (case reject_reserved e lc of (log, s) \<Rightarrow> (log1 @ log, s, cache', PollNext))
                | Inr sampler \<Rightarrow>
                    (let a = fresh_active cfg lc req p cache_n sampler in
                     case pr_media p of
                       None \<Rightarrow>
                         (case activate_text nt a cache' of
                            (log2, s) \<Rightarrow> (log1 @ log2, s, cache', PollNext))
                     | Some (_, positions) \<Rightarrow>
                         (case activate_media nt i positions a of
                            (log2, s, x) \<Rightarrow> (log1 @ log2, s, cache', x))))))"

text \<open>The decision of a reservation: a stored request, the answer of the channel, or none yet.\<close>

definition decision_of :: "'f reserved_slot \<Rightarrow> decision_poll" where
  "decision_of r =
     (case r_committed r of
        Some req \<Rightarrow> PollCommit req
      | None \<Rightarrow> (case r_decision r of None \<Rightarrow> PollClosed | Some d \<Rightarrow> d))"

definition poll_reserved ::
  "('f, 'm, 'p, 's) native \<Rightarrow> worker_config \<Rightarrow> bool \<Rightarrow> bool \<Rightarrow> nat \<Rightarrow> 'f reserved_slot \<Rightarrow>
   's prefix_cache \<Rightarrow> 'f reply list \<times> ('f, 'm, 'p) slot_state \<times> 's prefix_cache \<times> poll_exit" where
  "poll_reserved nt cfg media_last ordinary i r cache =
     (case decision_of r of
        PollEmpty \<Rightarrow> ([], Reserved (r\<lparr>r_committed := None\<rparr>), cache, PollNext)
      | PollAbort \<Rightarrow>
          (case reject_reserved Cancelled (r_lifecycle r) of (log, s) \<Rightarrow> (log, s, cache, PollNext))
      | PollClosed \<Rightarrow>
          (case reject_reserved Cancelled (r_lifecycle r) of (log, s) \<Rightarrow> (log, s, cache, PollNext))
      | PollCommit req \<Rightarrow>
          if defer_media_prefill (req_has_images req) media_last ordinary
          then ([], Reserved (r\<lparr>r_decision := (if r_committed r = None then None else r_decision r),
                               r_committed := Some req\<rparr>), cache, PollNext)
          else activate_request nt cfg i (r_lifecycle r) req cache)"

fun poll_from ::
  "('f, 'm, 'p, 's) native \<Rightarrow> worker_config \<Rightarrow> bool \<Rightarrow> bool \<Rightarrow> nat \<Rightarrow> ('f, 'm, 'p) slot_state list \<Rightarrow>
   's prefix_cache \<Rightarrow>
   'f reply list \<times> ('f, 'm, 'p) slot_state list \<times> 's prefix_cache \<times> (llama_error + bool)" where
  "poll_from nt cfg media_last ordinary i [] cache = ([], [], cache, Inr False)"
| "poll_from nt cfg media_last ordinary i (s # ss) cache =
     (case (case s of Reserved r \<Rightarrow> poll_reserved nt cfg media_last ordinary i r cache
                    | _ \<Rightarrow> ([], s, cache, PollNext)) of
        (log, s', cache', PollError e) \<Rightarrow> (log, s' # ss, cache', Inl e)
      | (log, s', cache', PollMedia) \<Rightarrow> (log, s' # ss, cache', Inr True)
      | (log, s', cache', PollNext) \<Rightarrow>
          (case poll_from nt cfg media_last ordinary (Suc i) ss cache' of
             (log', ss', cache'', x) \<Rightarrow> (log @ log', s' # ss', cache'', x)))"

definition poll_generation_decisions ::
  "('f, 'm, 'p, 's) native \<Rightarrow> worker_config \<Rightarrow> bool \<Rightarrow> ('f, 'm, 'p) slot_state list \<Rightarrow>
   's prefix_cache \<Rightarrow>
   'f reply list \<times> ('f, 'm, 'p) slot_state list \<times> 's prefix_cache \<times> (llama_error + bool)" where
  "poll_generation_decisions nt cfg media_last slots cache =
     (case plan_batch slots 1 0 of
        None \<Rightarrow> ([], slots, cache, Inl index_panic)
      | Some plan \<Rightarrow> poll_from nt cfg media_last (bp_entries plan \<noteq> []) 0 slots cache)"

section \<open>No sender is lost or used twice\<close>

text \<open>The senders a slot holds, and those a log has disposed of.\<close>

definition lifecycle_senders :: "'f lifecycle \<Rightarrow> (sender \<times> nat) multiset" where
  "lifecycle_senders lc =
     (if lc_readiness lc then {#(ReadinessSender, lc_client lc)#} else {#})
     + (if lc_terminal lc then {#(TerminalSender, lc_client lc)#} else {#})
     + (if lc_acknowledged lc then {#(AcknowledgedSender, lc_client lc)#} else {#})"

definition held :: "('f, 'm, 'p) slot_state \<Rightarrow> (sender \<times> nat) multiset" where
  "held s = (case slot_lifecycle s of None \<Rightarrow> {#} | Some lc \<Rightarrow> lifecycle_senders lc)"

definition held_all :: "('f, 'm, 'p) slot_state list \<Rightarrow> (sender \<times> nat) multiset" where
  "held_all slots = sum_list (map held slots)"

fun disposes :: "'f reply \<Rightarrow> (sender \<times> nat) multiset" where
  "disposes (ReservedReply c _) = {#(ReservedSender, c)#}"
| "disposes (Readiness c _) = {#(ReadinessSender, c)#}"
| "disposes (Terminal c _) = {#(TerminalSender, c)#}"
| "disposes (Acknowledged c _) = {#(AcknowledgedSender, c)#}"
| "disposes (Counted c _) = {#(CountSender, c)#}"
| "disposes (Controlled c _) = {#(ControlSender, c)#}"
| "disposes (SenderDropped k c) = {#(k, c)#}"
| "disposes (SequenceWritten _) = {#}"
| "disposes (SequenceCleared _) = {#}"

definition used :: "'f reply list \<Rightarrow> (sender \<times> nat) multiset" where
  "used log = sum_list (map disposes log)"

lemma used_simps [simp]: "used [] = {#}" "used (r # log) = disposes r + used log"
  "used (log @ log') = used log + used log'"
  by (simp_all add: used_def)

lemma used_append_held: "used (log @ log') + h = used log + (used log' + h)"
  by (simp add: used_def ac_simps)

lemma held_all_simps [simp]: "held_all [] = {#}" "held_all (s # ss) = held s + held_all ss"
  by (simp_all add: held_all_def)

lemma held_simps [simp]:
  "held Vacant = {#}" "held (Reserved r) = lifecycle_senders (r_lifecycle r)"
  "held (Active a) = lifecycle_senders (a_lifecycle a)"
  "held (Draining d) = lifecycle_senders (d_lifecycle d)"
  by (simp_all add: held_def)

lemma held_all_update: "i < length slots \<Longrightarrow> held_all (slots[i := s]) + held (slots ! i) = held_all slots + held s"
proof (induction slots arbitrary: i)
  case (Cons t ts)
  then show ?case by (cases i) (auto simp: add.assoc add.commute add.left_commute)
qed simp

lemma held_all_same: "i < length slots \<Longrightarrow> held s = held (slots ! i) \<Longrightarrow> held_all (slots[i := s]) = held_all slots"
  using held_all_update [of i slots s] by simp

text \<open>The contract of an operation on one slot: every sender it no longer holds is in its log.\<close>

locale slot_operation =
  fixes f :: "('f, 'm, 'p) slot_state \<Rightarrow> 'f reply list \<times> ('f, 'm, 'p) slot_state"
  assumes conserves: "used (fst (f s)) + held (snd (f s)) = held s"
begin

lemma on_slots_conserves:
  "used (fst (on_slots f slots)) + held_all (snd (on_slots f slots)) = held_all slots"
proof (induction slots)
  case (Cons s ss)
  then show ?case
    unfolding held_all_simps conserves [of s, symmetric]
    by (simp add: on_slots_def ac_simps flip: Cons)
qed (simp add: on_slots_def)

end

lemma send_readiness_conserves:
  "used (fst (send_readiness e lc)) + lifecycle_senders (snd (send_readiness e lc)) = lifecycle_senders lc"
  by (simp add: send_readiness_def lifecycle_senders_def)

lemma reject_reserved_conserves:
  "used (fst (reject_reserved e lc)) + held (snd (reject_reserved e lc)) = lifecycle_senders lc"
  using send_readiness_conserves [of "Some e" lc]
  by (simp add: reject_reserved_def empty_draining_def split_def Let_def)

lemma held_fail_active [simp]: "held (fail_active a e) = lifecycle_senders (a_lifecycle a)"
  by (simp add: fail_active_def drained_def)

interpretation observe: slot_operation observe_slot
proof
  fix s :: "('f, 'm, 'p) slot_state"
  show "used (fst (observe_slot s)) + held (snd (observe_slot s)) = held s"
    using reject_reserved_conserves
    by (cases s) (auto simp: observe_slot_def)
qed

interpretation failing: slot_operation "fail_slot error" for error
proof
  fix s :: "('f, 'm, 'p) slot_state"
  show "used (fst (fail_slot error s)) + held (snd (fail_slot error s)) = held s"
    by (cases s) (simp_all add: fail_slot_def lifecycle_senders_def)
qed

interpretation dropping: slot_operation drop_slot
proof
  fix s :: "('f, 'm, 'p) slot_state"
  show "used (fst (drop_slot s)) + held (snd (drop_slot s)) = held s"
    by (cases s) (simp_all add: drop_slot_def drop_senders_def lifecycle_senders_def)
qed

text \<open>The same for the operations that also touch the channel, the cache or other slots.\<close>

lemma lifecycle_senders_cong:
  "lc_client lc' = lc_client lc \<Longrightarrow> lc_readiness lc' = lc_readiness lc \<Longrightarrow> lc_terminal lc' = lc_terminal lc \<Longrightarrow>
   lc_acknowledged lc' = lc_acknowledged lc \<Longrightarrow> lifecycle_senders lc' = lifecycle_senders lc"
  by (simp add: lifecycle_senders_def)

lemma cancelled_senders [simp]: "lifecycle_senders (lc\<lparr>lc_cancelled := b\<rparr>) = lifecycle_senders lc"
  by (simp add: lifecycle_senders_def)

lemma set_channel_senders [simp]: "lifecycle_senders (set_channel ch lc) = lifecycle_senders lc"
  by (simp add: set_channel_def lifecycle_senders_def)

lemma try_flush_content_senders:
  "lifecycle_senders (a_lifecycle (snd (try_flush_content a))) = lifecycle_senders (a_lifecycle a)"
  by (auto simp: try_flush_content_def flush_token_part_def flush_content_part_def Let_def
           split: list.splits option.splits send_result.splits)

lemma try_flush_draining_senders:
  "lifecycle_senders (d_lifecycle (snd (try_flush_draining d))) = lifecycle_senders (d_lifecycle d)"
  by (auto simp: try_flush_draining_def drain_token_part_def drain_content_part_def Let_def
           split: list.splits option.splits send_result.splits)

lemma held_flush_slot: "held (flush_slot s) = held s"
proof (cases s)
  case (Active a)
  then show ?thesis using try_flush_content_senders [of a]
    by (cases "try_flush_content a") (auto simp: flush_slot_def split: option.splits)
qed (simp_all add: flush_slot_def)

lemma flush_active_content_conserves: "held_all (flush_active_content slots) = held_all slots"
  by (simp add: flush_active_content_def held_all_def comp_def held_flush_slot)

lemma final_replies_used: "used (final_replies d) = lifecycle_senders (d_lifecycle d)"
  by (simp add: final_replies_def Let_def lifecycle_senders_def)

lemma finalize_slot_conserves:
  assumes "finalize_slot clear i d = (log, s, e)"
  shows "used log + held s = lifecycle_senders (d_lifecycle d)"
proof -
  let ?d = "if lc_cancelled (d_lifecycle d)
    then d\<lparr>d_pending_tokens := [], d_pending_content := None, d_outcome := Inl Cancelled\<rparr> else d"
  obtain flushed d2 where d2: "try_flush_draining ?d = (flushed, d2)" by fastforce
  then have "lifecycle_senders (d_lifecycle d2) = lifecycle_senders (d_lifecycle d)"
    using try_flush_draining_senders [of ?d] by simp
  with assms d2 show ?thesis
    by (auto simp: finalize_slot_def final_replies_used Let_def split: bool.splits option.splits)
qed

lemma finalize_from_conserves:
  "finalize_from clear i slots = (log, slots', e) \<Longrightarrow> used log + held_all slots' = held_all slots"
proof (induction slots arbitrary: i log slots' e)
  case (Cons s ss)
  obtain l1 s1 e1 where one: "(case s of Draining d \<Rightarrow> finalize_slot clear i d | _ \<Rightarrow> ([], s, None)) = (l1, s1, e1)"
    by (metis prod_cases3)
  have c1: "used l1 + held s1 = held s"
  proof (cases s)
    case (Draining d)
    with one finalize_slot_conserves [of clear i d l1 s1 e1] show ?thesis by simp
  qed (use one in auto)
  obtain l2 ss2 e2 where rest: "finalize_from clear (Suc i) ss = (l2, ss2, e2)" by (metis prod_cases3)
  show ?case
  proof (cases e1)
    case None
    with Cons.prems one rest have "log = l1 @ l2" "slots' = s1 # ss2" by auto
    with c1 Cons.IH [OF rest] show ?thesis by (simp add: ac_simps flip: c1 Cons.IH [OF rest])
  next
    case (Some err)
    with Cons.prems one have "log = l1" "slots' = s1 # ss" by auto
    with c1 show ?thesis by (simp add: ac_simps flip: c1)
  qed
qed simp

lemma emit_piece_keeps:
  "a_lifecycle (snd (emit_piece nt b piece lp a)) = a_lifecycle a
   \<and> a_request (snd (emit_piece nt b piece lp a)) = a_request a"
  by (auto simp: emit_piece_def count_reasoning_def Let_def split: option.splits sum.splits)

lemma accept_sampled_token_keeps:
  "a_lifecycle (snd (accept_sampled_token nt token lp a)) = a_lifecycle a
   \<and> a_request (snd (accept_sampled_token nt token lp a)) = a_request a"
proof -
  let ?m = "nt_decode_piece nt (a_sampler a) token (token \<in> set (a_preserved_tokens a))"
  let ?a = "a\<lparr>a_completion_tokens := a_completion_tokens a + 1,
      a_reasoning_tokens := a_reasoning_tokens a + (if a_reasoning_active a then 1 else 0),
      a_sampler := snd ?m\<rparr>"
  from emit_piece_keeps [of nt "a_reasoning_active a" "fst ?m" lp ?a]
  have "a_lifecycle (snd (emit_piece nt (a_reasoning_active a) (fst ?m) lp ?a)) = a_lifecycle a"
    "a_request (snd (emit_piece nt (a_reasoning_active a) (fst ?m) lp ?a)) = a_request a" by simp_all
  then show ?thesis
    by (cases "emit_piece nt (a_reasoning_active a) (fst ?m) lp ?a")
       (auto simp: accept_sampled_token_def Let_def split_def split: option.splits sum.splits)
qed

lemma into_draining_lifecycle: "into_draining a outcome b = Some d \<Longrightarrow> d_lifecycle d = a_lifecycle a"
  by (auto simp: into_draining_def drained_def split: if_splits option.splits)

lemma drain_finished_held: "drain_finished nt a reason = Some s \<Longrightarrow> held s = lifecycle_senders (a_lifecycle a)"
  by (auto simp: drain_finished_def Let_def dest!: into_draining_lifecycle
           split: option.splits sum.splits)

lemma drain_finished_slot_conserves:
  assumes "drain_finished_slot nt i reason slots = (log, slots', e)" and i: "i < length slots"
    and "\<exists>a. slots ! i = Active a"
  shows "used log + held_all slots' = held_all slots \<and> length slots' = length slots"
proof -
  obtain a where a: "slots ! i = Active a" using assms(3) by blast
  note up = held_all_update [OF i, unfolded a]
  show ?thesis
  proof (cases "drain_finished nt a reason")
    case None
    with assms(1) a have eq: "log = fst (drop_slot (Active a :: ('a, 'b, 'c) slot_state))" "slots' = slots[i := Vacant]"
      by (simp_all add: drain_finished_slot_def)
    have "used (fst (drop_slot (Active a :: ('a, 'b, 'c) slot_state))) = held (Active a :: ('a, 'b, 'c) slot_state)"
      using dropping.conserves [of "Active a :: ('a, 'b, 'c) slot_state"] by (simp add: drop_slot_def)
    with up [of Vacant] eq show ?thesis by (simp add: add.commute)
  next
    case (Some s)
    with assms(1) a have eq: "log = []" "slots' = slots[i := s]" by (simp_all add: drain_finished_slot_def)
    with up [of s] drain_finished_held [OF Some] show ?thesis by simp
  qed
qed

lemma sample_slot_conserves:
  assumes "sample_slot nt raw i slots = (log, slots', e)" and i: "i < length slots"
  shows "used log + held_all slots' = held_all slots \<and> length slots' = length slots"
proof (cases "slots ! i")
  case (Active a)
  show ?thesis
  proof (cases "lc_cancelled (a_lifecycle a)")
    case True
    with assms Active show ?thesis by (simp add: sample_slot_def)
  next
    case False
    have upd: "held s = lifecycle_senders (a_lifecycle a) \<Longrightarrow> held_all (slots[i := s]) = held_all slots" for s
      using held_all_update [OF i, of s] Active by simp
    show ?thesis
    proof (cases "nt_sample nt (a_sampler a) raw (req_top_logprobs (a_request a))")
      case (Inl err)
      with assms Active False upd [of "fail_active a err"] show ?thesis by (auto simp: sample_slot_def)
    next
      case (Inr t)
      obtain token lp m where t: "t = (token, lp, m)" by (cases t) auto
      obtain r a' where acc: "accept_sampled_token nt token lp (a\<lparr>a_sampler := m\<rparr>) = (r, a')" by fastforce
      have lc: "a_lifecycle a' = a_lifecycle a"
        using accept_sampled_token_keeps [of nt token lp "a\<lparr>a_sampler := m\<rparr>"] acc by simp
      have here: "slots[i := Active a'] ! i = Active a'" using i by simp
      show ?thesis
      proof (cases r)
        case (Accepted x)
        show ?thesis
        proof (cases x)
          case None
          with assms Active False Inr t acc Accepted upd [of "Active a'"] lc show ?thesis
            by (auto simp: sample_slot_def)
        next
          case (Some reason)
          then have "drain_finished_slot nt i reason (slots[i := Active a']) = (log, slots', e)"
            using assms Active False Inr t acc Accepted by (simp add: sample_slot_def)
          from drain_finished_slot_conserves [OF this] i here upd [of "Active a'"] lc show ?thesis by simp
        qed
      next
        case (AcceptError err)
        with assms Active False Inr t acc upd [of "fail_active a' err"] lc show ?thesis
          by (auto simp: sample_slot_def)
      next
        case AcceptPanic
        with assms Active False Inr t acc upd [of "Active a'"] lc show ?thesis
          by (auto simp: sample_slot_def)
      qed
    qed
  qed
qed (use assms in \<open>simp_all add: sample_slot_def\<close>)

lemma sample_targets_conserves:
  "sample_targets nt ts slots = (log, slots', e) \<Longrightarrow> \<forall>(raw, i) \<in> set ts. i < length slots \<Longrightarrow>
   used log + held_all slots' = held_all slots \<and> length slots' = length slots"
proof (induction ts arbitrary: slots log slots' e)
  case (Cons t ts)
  obtain raw i where t: "t = (raw, i)" by fastforce
  obtain l1 s1 e1 where one: "sample_slot nt raw i slots = (l1, s1, e1)" by (metis prod_cases3)
  have i: "i < length slots" using Cons.prems(2) t by simp
  note c1 = sample_slot_conserves [OF one i]
  obtain l2 s2 e2 where rest: "sample_targets nt ts s1 = (l2, s2, e2)" by (metis prod_cases3)
  show ?case
  proof (cases e1)
    case None
    with Cons.prems(1) one rest t have "log = l1 @ l2" "slots' = s2" by simp_all
    moreover have "used l2 + held_all s2 = held_all s1 \<and> length s2 = length s1"
      using Cons.IH [OF rest] Cons.prems(2) c1 by simp
    ultimately show ?thesis using c1 by (simp add: used_append_held del: used_simps(3))
  next
    case (Some err)
    with Cons.prems(1) one t have "log = l1" "slots' = s1" by simp_all
    with c1 show ?thesis by simp
  qed
qed simp

lemma drain_all_conserves:
  "drain_all nt is slots = (log, slots', e) \<Longrightarrow> distinct is \<Longrightarrow>
   \<forall>i \<in> set is. i < length slots \<and> (\<exists>a. slots ! i = Active a) \<Longrightarrow>
   used log + held_all slots' = held_all slots \<and> length slots' = length slots"
proof (induction "is" arbitrary: slots log slots' e)
  case (Cons i "is")
  obtain l1 s1 e1 where one: "drain_finished_slot nt i Length slots = (l1, s1, e1)" by (metis prod_cases3)
  have i: "i < length slots" "\<exists>a. slots ! i = Active a" using Cons.prems(3) by simp_all
  note c1 = drain_finished_slot_conserves [OF one i]
  have other: "s1 ! j = slots ! j" if "j \<noteq> i" for j
    using one i(2) that by (auto simp: drain_finished_slot_def split: option.splits)
  obtain l2 s2 e2 where rest: "drain_all nt is s1 = (l2, s2, e2)" by (metis prod_cases3)
  show ?case
  proof (cases e1)
    case None
    with Cons.prems(1) one rest have "log = l1 @ l2" "slots' = s2" by simp_all
    moreover have "used l2 + held_all s2 = held_all s1 \<and> length s2 = length s1"
    proof (rule Cons.IH [OF rest])
      show "\<forall>j \<in> set is. j < length s1 \<and> (\<exists>a. s1 ! j = Active a)"
      proof
        fix j assume j: "j \<in> set is"
        with Cons.prems(2) have "j \<noteq> i" by auto
        with other [of j] Cons.prems(3) j c1 show "j < length s1 \<and> (\<exists>a. s1 ! j = Active a)" by auto
      qed
    qed (use Cons.prems(2) in simp)
    ultimately show ?thesis using c1 by (simp add: used_append_held del: used_simps(3))
  next
    case (Some err)
    with Cons.prems(1) one have "log = l1" "slots' = s1" by simp_all
    with c1 show ?thesis by simp
  qed
qed simp

lemma apply_entry_held:
  "be_slot e < length slots \<Longrightarrow> held_all (apply_entry e slots) = held_all slots"
  by (cases "slots ! be_slot e")
     (auto simp: apply_entry_def intro!: held_all_same split: batch_entry_kind.splits)

lemma apply_entry_length [simp]: "length (apply_entry e slots) = length slots"
  by (simp add: apply_entry_def split: slot_state.split)

lemma fold_apply_entry_length [simp]: "length (fold apply_entry es slots) = length slots"
  by (induction es arbitrary: slots) simp_all

lemma fold_apply_entry_held:
  "\<forall>e \<in> set es. be_slot e < length slots \<Longrightarrow> held_all (fold apply_entry es slots) = held_all slots"
proof (induction es arbitrary: slots)
  case (Cons e es)
  then show ?case using apply_entry_held [of e slots] by simp
qed simp

lemma held_charge_slot: "held (charge_slot n es i s) = held s"
  by (cases s) (simp_all add: charge_slot_def)

lemma held_map_enumerate:
  "\<forall>i s. held (g i s) = held s \<Longrightarrow> held_all (map (\<lambda>(i, s). g i s) (enumerate n slots)) = held_all slots"
  by (induction slots arbitrary: n) auto

lemma apply_entries_conserves:
  assumes "apply_entries n es slots = Some slots'"
  shows "held_all slots' = held_all slots" "length slots' = length slots"
    "\<forall>e \<in> set es. be_slot e < length slots"
proof -
  have in_range: "\<forall>e \<in> set es. be_slot e < length slots" and
    eq: "slots' = map (\<lambda>(i, s). charge_slot n es i s) (enumerate 0 (fold apply_entry es slots))"
    using assms by (auto simp: apply_entries_def Let_def split: if_splits)
  show "held_all slots' = held_all slots" unfolding eq
    using held_map_enumerate [of "charge_slot n es"] held_charge_slot fold_apply_entry_held [OF in_range]
    by metis
  show "length slots' = length slots" unfolding eq by simp
  show "\<forall>e \<in> set es. be_slot e < length slots" by (rule in_range)
qed

lemma held_clear_capture: "held (clear_capture s) = held s"
  by (cases s) (simp_all add: clear_capture_def)

lemma held_map_clear_capture: "held_all (map clear_capture slots) = held_all slots"
  by (simp add: held_all_def comp_def held_clear_capture)

lemma capture_from_conserves:
  "capture_from nt i slots cache = Some (slots', cache') \<Longrightarrow>
   held_all slots' = held_all slots \<and> length slots' = length slots"
proof (induction slots arbitrary: i cache slots' cache')
  case (Cons s ss)
  show ?case
  proof (cases "capture_due s")
    case True
    then obtain a where a: "s = Active a" by (cases s) (simp_all add: capture_due_def)
    with Cons True show ?thesis
      by (fastforce simp: held_clear_capture split: option.splits)
  next
    case False
    with Cons show ?thesis by fastforce
  qed
qed simp

lemma capture_prompt_prefixes_conserves:
  assumes "capture_prompt_prefixes nt slots cache = Some (slots', cache')"
  shows "held_all slots' = held_all slots" "length slots' = length slots"
proof -
  consider "slots' = map clear_capture slots"
    | ss c where "capture_from nt 0 slots cache = Some (ss, c)" "slots' = ss \<or> slots' = map clear_capture ss"
    using assms by (auto simp: capture_prompt_prefixes_def split: if_splits)
  then have "held_all slots' = held_all slots \<and> length slots' = length slots"
  proof cases
    case 2
    from capture_from_conserves [OF 2(1)] 2(2) show ?thesis by (auto simp: held_map_clear_capture)
  qed (simp add: held_map_clear_capture)
  then show "held_all slots' = held_all slots" "length slots' = length slots" by blast+
qed

lemma observe_cancellations_conserves:
  assumes "observe_cancellations slots = (log, slots')"
  shows "used log + held_all slots' = held_all slots" "length slots' = length slots"
proof -
  show "used log + held_all slots' = held_all slots"
    using observe.on_slots_conserves [of slots] assms by (simp add: observe_cancellations_def)
  show "length slots' = length slots"
    using assms by (auto simp: observe_cancellations_def on_slots_def)
qed

lemma logits_targets_slots:
  "logits_targets plan = Inr ts \<Longrightarrow> (raw, i) \<in> set ts \<Longrightarrow> \<exists>e \<in> set (bp_entries plan). be_slot e = i"
  by (auto simp: logits_targets_def Let_def in_set_enumerate_eq split: if_splits intro!: bexI [OF _ nth_mem])

lemma zero_length_indices:
  "i \<in> set (map fst (filter (\<lambda>(_, s). zero_length s) (enumerate 0 slots))) \<Longrightarrow>
   i < length slots \<and> (\<exists>a. slots ! i = Active a)"
  by (auto simp: in_set_enumerate_eq zero_length_def split: slot_state.splits)

lemma zero_length_distinct: "distinct (map fst (filter P (enumerate 0 slots)))"
  by (rule distinct_map_filter) simp

lemma apply_decoded_batch_conserves:
  assumes "apply_decoded_batch nt plan slots cache = (log, slots', cache', e)"
  shows "used log + held_all slots' = held_all slots \<and> length slots' = length slots"
proof (cases "apply_entries (nt_elapsed nt) (bp_entries plan) slots")
  case None
  with assms show ?thesis by (auto simp: apply_decoded_batch_def)
next
  case (Some s1)
  note c1 = apply_entries_conserves [OF Some]
  show ?thesis
  proof (cases "capture_prompt_prefixes nt s1 cache")
    case None
    with assms Some c1 show ?thesis by (auto simp: apply_decoded_batch_def)
  next
    case cap: (Some sc)
    obtain s2 k2 where sc: "sc = (s2, k2)" by fastforce
    note c2 = capture_prompt_prefixes_conserves [OF cap [unfolded sc]]
    obtain l3 s3 where ob: "observe_cancellations s2 = (l3, s3)" by fastforce
    note c3 = observe_cancellations_conserves [OF ob]
    show ?thesis
    proof (cases "logits_targets plan")
      case (Inl err)
      with assms Some cap sc ob c1 c2 c3 show ?thesis by (auto simp: apply_decoded_batch_def)
    next
      case (Inr ts)
      obtain l4 s4 e4 where sam: "sample_targets nt ts s3 = (l4, s4, e4)" by (metis prod_cases3)
      have "\<forall>(raw, i) \<in> set ts. i < length s3"
        using logits_targets_slots [OF Inr] c1(2,3) c2(2) c3(2) by fastforce
      note c4 = sample_targets_conserves [OF sam this]
      show ?thesis
      proof (cases e4)
        case err: (Some err)
        with assms Some cap sc ob Inr sam have "log = l3 @ l4" "slots' = s4"
          by (simp_all add: apply_decoded_batch_def)
        with c1 c2 c3 c4 show ?thesis by (simp add: used_append_held del: used_simps(3))
      next
        case None
        obtain l5 s5 where ob2: "observe_cancellations s4 = (l5, s5)" by fastforce
        note c5 = observe_cancellations_conserves [OF ob2]
        let ?zs = "map fst (filter (\<lambda>(_, s). zero_length s) (enumerate 0 s5))"
        obtain l6 s6 e6 where dr: "drain_all nt ?zs s5 = (l6, s6, e6)" by (metis prod_cases3)
        have c6: "used l6 + held_all s6 = held_all s5 \<and> length s6 = length s5"
          using drain_all_conserves [OF dr zero_length_distinct] zero_length_indices by blast
        from None assms Some cap sc ob Inr sam ob2 dr have "log = l3 @ l4 @ l5 @ l6" "slots' = s6"
          by (simp_all add: apply_decoded_batch_def)
        with c1 c2 c3 c4 c5 c6 show ?thesis by (simp add: used_append_held del: used_simps(3))
      qed
    qed
  qed
qed

lemma announce_conserves:
  "announce nt a = (log, a', ok) \<Longrightarrow>
   used log + lifecycle_senders (a_lifecycle a') = lifecycle_senders (a_lifecycle a)"
  using send_readiness_conserves [of None "a_lifecycle a"]
  by (auto simp: announce_def split: prod.splits)

lemma activate_text_conserves:
  "activate_text nt a cache = (log, s) \<Longrightarrow> used log + held s = lifecycle_senders (a_lifecycle a)"
  by (auto simp: activate_text_def empty_draining_def Let_def split: prod.splits bool.splits
           dest: announce_conserves)

lemma drop_slot_used: "used (fst (drop_slot s)) = held s"
  by (cases s) (simp_all add: drop_slot_def drop_senders_def lifecycle_senders_def)

lemma drop_senders_used: "used (drop_senders lc) = lifecycle_senders lc"
  by (simp add: drop_senders_def lifecycle_senders_def)

lemma finish_media_conserves:
  "finish_media a reason = (log, s, x) \<Longrightarrow> used log + held s = lifecycle_senders (a_lifecycle a)"
  by (auto simp: finish_media_def drop_slot_used dest!: into_draining_lifecycle split: option.splits)

lemma activate_media_conserves:
  assumes "activate_media nt i positions a = (log, s, x)"
  shows "used log + held s = lifecycle_senders (a_lifecycle a)"
proof -
  have acc: "lifecycle_senders (a_lifecycle a') = lifecycle_senders (a_lifecycle a)"
    if "accept_sampled_token nt token lp (a\<lparr>a_prompt_wall := nt_elapsed nt, a_sampler := m\<rparr>) = (r, a')"
    for token lp m r a'
    using accept_sampled_token_keeps [of nt token lp "a\<lparr>a_prompt_wall := nt_elapsed nt, a_sampler := m\<rparr>"] that
    by simp
  from assms show ?thesis
    unfolding activate_media_def
    by (auto simp: Let_def drop_slot_used dest!: finish_media_conserves announce_conserves
             dest: acc split: if_splits sum.splits prod.splits accepted.splits option.splits bool.splits)
qed

lemma reject_reservedD: "reject_reserved e lc = (log, s) \<Longrightarrow> used log + held s = lifecycle_senders lc"
  using send_readiness_conserves [of "Some e" lc]
  by (auto simp: reject_reserved_def empty_draining_def Let_def split: prod.splits)

lemma restore_prefix_used: "restore_prefix nt cfg i req toks cache = (log, cache', r) \<Longrightarrow> used log = {#}"
  by (auto simp: restore_prefix_def split: if_splits prod.splits option.splits)

lemma activate_request_conserves:
  assumes "activate_request nt cfg i lc req cache = (log, s, cache', x)"
  shows "used log + held s = lifecycle_senders lc"
proof (cases "lc_cancelled lc")
  case True
  with assms show ?thesis
    by (auto simp: activate_request_def dest: reject_reservedD split: prod.splits)
next
  case False
  show ?thesis
  proof (cases "prepare_generation nt cfg req")
    case (Inl e)
    with False assms show ?thesis
      by (auto simp: activate_request_def dest: reject_reservedD split: prod.splits)
  next
    case (Inr p)
    obtain l1 k1 r where res: "restore_prefix nt cfg i req (pr_tokens p) cache = (l1, k1, r)"
      by (metis prod_cases3)
    note c1 = restore_prefix_used [OF res]
    show ?thesis
    proof (cases r)
      case (Inl e)
      with False assms \<open>prepare_generation nt cfg req = Inr p\<close> res c1 drop_senders_used [of lc]
      show ?thesis by (auto simp: activate_request_def)
    next
      case n: (Inr n)
      show ?thesis
      proof (cases "nt_create_sampler nt req p")
        case (Inl e)
        with False assms Inr n res c1 show ?thesis
          by (auto simp: activate_request_def dest: reject_reservedD split: prod.splits)
      next
        case m: (Inr m)
        let ?a = "fresh_active cfg lc req p n m"
        have lc: "a_lifecycle ?a = lc" by (simp add: fresh_active_def)
        show ?thesis
        proof (cases "pr_media p")
          case None
          obtain l2 s2 where act: "activate_text nt ?a k1 = (l2, s2)" by fastforce
          with False assms Inr n m None res have "log = l1 @ l2" "s = s2"
            by (simp_all add: activate_request_def)
          with activate_text_conserves [OF act] c1 lc show ?thesis by simp
        next
          case (Some media)
          obtain t pos where media: "media = (t, pos)" by fastforce
          obtain l2 s2 x2 where act: "activate_media nt i pos ?a = (l2, s2, x2)" by (metis prod_cases3)
          with False assms Inr n m Some media res have "log = l1 @ l2" "s = s2"
            by (simp_all add: activate_request_def)
          with activate_media_conserves [OF act] c1 lc show ?thesis by simp
        qed
      qed
    qed
  qed
qed

lemma poll_reserved_conserves:
  assumes "poll_reserved nt cfg ml ord i r cache = (log, s, cache', x)"
  shows "used log + held s = lifecycle_senders (r_lifecycle r)"
  using assms
  by (auto simp: poll_reserved_def dest: reject_reservedD activate_request_conserves
           split: decision_poll.splits if_splits prod.splits)

lemma poll_from_conserves:
  "poll_from nt cfg ml ord i slots cache = (log, slots', cache', x) \<Longrightarrow>
   used log + held_all slots' = held_all slots \<and> length slots' = length slots"
proof (induction slots arbitrary: i cache log slots' cache' x)
  case (Cons s ss)
  obtain l1 s1 k1 x1 where one: "(case s of Reserved r \<Rightarrow> poll_reserved nt cfg ml ord i r cache
      | _ \<Rightarrow> ([], s, cache, PollNext)) = (l1, s1, k1, x1)" by (metis prod_cases4)
  have c1: "used l1 + held s1 = held s"
  proof (cases s)
    case (Reserved r)
    with one have "poll_reserved nt cfg ml ord i r cache = (l1, s1, k1, x1)" by simp
    from poll_reserved_conserves [OF this] Reserved show ?thesis by simp
  qed (use one in auto)
  obtain l2 ss2 k2 x2 where rest: "poll_from nt cfg ml ord (Suc i) ss k1 = (l2, ss2, k2, x2)"
    by (metis prod_cases4)
  note IH = Cons.IH [OF rest]
  show ?case
  proof (cases x1)
    case PollNext
    with Cons.prems one rest have "log = l1 @ l2" "slots' = s1 # ss2" by simp_all
    moreover have "used l1 + used l2 + (held s1 + held_all ss2) = (used l1 + held s1) + (used l2 + held_all ss2)"
      by (simp add: ac_simps)
    ultimately show ?thesis using c1 IH by simp
  next
    case PollMedia
    with Cons.prems one have "log = l1" "slots' = s1 # ss" by simp_all
    with c1 show ?thesis by (simp add: ac_simps flip: c1)
  next
    case (PollError e)
    with Cons.prems one have "log = l1" "slots' = s1 # ss" by simp_all
    with c1 show ?thesis by (simp add: ac_simps flip: c1)
  qed
qed simp

lemma poll_generation_decisions_conserves:
  "poll_generation_decisions nt cfg ml slots cache = (log, slots', cache', x) \<Longrightarrow>
   used log + held_all slots' = held_all slots \<and> length slots' = length slots"
  by (auto simp: poll_generation_decisions_def dest!: poll_from_conserves split: option.splits)

text \<open>A command holds the senders of its client.\<close>

definition command_senders :: "'f command \<Rightarrow> (sender \<times> nat) multiset" where
  "command_senders c =
     (case c of
        ReserveGeneration r \<Rightarrow> {#(ReservedSender, rs_client r), (ReadinessSender, rs_client r),
                              (TerminalSender, rs_client r), (AcknowledgedSender, rs_client r)#}
      | CountTokens client _ \<Rightarrow> {#(CountSender, client)#}
      | ReserveEmbedding client \<Rightarrow> {#(ReservedSender, client), (ReadinessSender, client),
                              (TerminalSender, client), (AcknowledgedSender, client)#}
      | Shutdown \<Rightarrow> {#})"

definition admission_senders :: "'f admission \<Rightarrow> (sender \<times> nat) multiset" where
  "admission_senders x = (case x of Blocked c \<Rightarrow> command_senders c | _ \<Rightarrow> {#})"

lemma position_less: "position P xs = Some i \<Longrightarrow> i < length xs \<and> P (xs ! i)"
  by (induction xs arbitrary: i) (auto split: if_splits)

lemma reject_command_used: "used (reject_command e c) = command_senders c"
  by (cases c) (simp_all add: reject_command_def command_senders_def)

lemma admit_conserves:
  assumes "admit_generation_command nt c slots = (log, slots', x)"
  shows "used log + held_all slots' + admission_senders x = held_all slots + command_senders c
         \<and> length slots' = length slots"
proof (cases c)
  case (ReserveGeneration r)
  show ?thesis
  proof (cases "position is_vacant slots")
    case None
    with assms ReserveGeneration show ?thesis
      by (auto simp: admit_generation_command_def admission_senders_def)
  next
    case (Some i)
    note i = position_less [OF Some]
    then have "slots ! i = Vacant" by (cases "slots ! i") (simp_all add: is_vacant_def)
    with held_all_update [of i slots "Reserved (reserved_of r)"] i
    have up: "held_all (slots[i := Reserved (reserved_of r)])
        = held_all slots + {#(ReadinessSender, rs_client r), (TerminalSender, rs_client r),
                              (AcknowledgedSender, rs_client r)#}"
      by (simp add: reserved_of_def lifecycle_senders_def)
    from assms ReserveGeneration Some show ?thesis
      by (auto simp: admit_generation_command_def admission_senders_def command_senders_def up
               split: if_splits)
  qed
qed (use assms in \<open>auto simp: admit_generation_command_def admission_senders_def command_senders_def
        Let_def split: if_splits\<close>)

end
