(* ===== verification/Worker.thy ===== *)
theory Worker
  imports Scheduler
begin

text \<open>
  The generation worker as a whole (\<open>generation_tick\<close>, \<open>generation_worker_loop\<close>,
  \<open>poll_reasoning_controls\<close>, \<open>fatal_generation_worker\<close> in
  \<open>libs/orchion-llama-cpp/src/scheduler.rs\<close>): one cooperative tick, what the loop makes of its
  result, and the step relation of the worker together with its clients, who submit commands, decide
  their reservations, cancel, read their events and go away at any time between two turns.

  The log collects every reply in order. \<open>w_submitted\<close> is a ghost counter of the one-shot senders the
  clients have handed over.
\<close>

section \<open>Reasoning controls\<close>

text \<open>A control command, with whether its attempt is still pending: a control that was cancelled
  while queued is answered without being applied.\<close>

record control =
  ct_client :: nat
  ct_operation :: u64
  ct_pending :: bool

definition controls_operation :: "u64 option \<Rightarrow> u64 \<Rightarrow> bool" where
  "controls_operation active requested \<longleftrightarrow> active = Some requested"

text \<open>The first active slot with the operation is asked to end its reasoning.\<close>

fun force_reasoning_end ::
  "('f, 'm, 'p, 's) native \<Rightarrow> u64 \<Rightarrow> ('f, 'm, 'p) slot_state list \<Rightarrow>
   (llama_error + reasoning_control_result) \<times> ('f, 'm, 'p) slot_state list" where
  "force_reasoning_end nt operation [] = (Inr NotFound, [])"
| "force_reasoning_end nt operation (s # ss) =
     (case s of
        Active a \<Rightarrow>
          if controls_operation (lc_operation (a_lifecycle a)) operation then
            (case nt_force_reasoning_end nt (a_sampler a) of
               Inl e \<Rightarrow> (Inl e, s # ss)
             | Inr (forced, m) \<Rightarrow>
                 (Inr (if forced then Success else NotReasoning), Active (a\<lparr>a_sampler := m\<rparr>) # ss))
          else (case force_reasoning_end nt operation ss of (r, ss') \<Rightarrow> (r, s # ss'))
      | _ \<Rightarrow> (case force_reasoning_end nt operation ss of (r, ss') \<Rightarrow> (r, s # ss')))"

fun poll_reasoning_controls ::
  "('f, 'm, 'p, 's) native \<Rightarrow> control list \<Rightarrow> ('f, 'm, 'p) slot_state list \<Rightarrow>
   'f reply list \<times> ('f, 'm, 'p) slot_state list" where
  "poll_reasoning_controls nt [] slots = ([], slots)"
| "poll_reasoning_controls nt (c # cs) slots =
     (case (if ct_pending c then force_reasoning_end nt (ct_operation c) slots else (Inr NotFound, slots)) of
        (result, slots') \<Rightarrow>
          (case poll_reasoning_controls nt cs slots' of
             (log, slots'') \<Rightarrow> (Controlled (ct_client c) result # log, slots'')))"

section \<open>One tick\<close>

record ('f, 'm, 'p, 's) worker =
  w_slots :: "('f, 'm, 'p) slot_state list"
  w_pending :: "'f command option"
  w_commands :: "'f command list"
  w_disconnected :: bool
  w_controls :: "control list"
  w_prefill_cursor :: nat
  w_cache :: "'s prefix_cache"
  w_media_prefilled :: bool
  w_healthy :: bool
  w_stopped :: bool
  w_log :: "'f reply list"
  w_submitted :: "(sender \<times> nat) multiset"

definition initial_worker :: "worker_config \<Rightarrow> ('f, 'm, 'p, 's) worker" where
  "initial_worker cfg =
     \<lparr>w_slots = replicate (unat (rc_parallel_sequences (wc_runtime cfg))) Vacant, w_pending = None,
      w_commands = [], w_disconnected = False, w_controls = [], w_prefill_cursor = 0,
      w_cache = new_cache (rc_prompt_cache (wc_runtime cfg)), w_media_prefilled = False,
      w_healthy = True, w_stopped = False, w_log = [], w_submitted = {#}\<rparr>"

datatype tick_result = Continue | TickShutdown | TickError llama_error

text \<open>Appending to the log.\<close>

definition logged :: "'f reply list \<Rightarrow> ('f, 'm, 'p, 's) worker \<Rightarrow> ('f, 'm, 'p, 's) worker" where
  "logged log w = w\<lparr>w_log := w_log w @ log\<rparr>"

definition with_slots ::
  "'f reply list \<times> ('f, 'm, 'p) slot_state list \<Rightarrow> ('f, 'm, 'p, 's) worker \<Rightarrow> ('f, 'm, 'p, 's) worker" where
  "with_slots r w = (case r of (log, slots) \<Rightarrow> logged log (w\<lparr>w_slots := slots\<rparr>))"

text \<open>The first half: controls, cancellations, output, and the end of drained slots.\<close>

definition tick_drain ::
  "('f, 'm, 'p, 's) native \<Rightarrow> ('f, 'm, 'p, 's) worker \<Rightarrow> ('f, 'm, 'p, 's) worker \<times> llama_error option" where
  "tick_drain nt w0 =
     (let w1 = with_slots (poll_reasoning_controls nt (w_controls w0) (w_slots w0)) (w0\<lparr>w_controls := []\<rparr>);
          w2 = with_slots (observe_cancellations (w_slots w1)) w1;
          w3 = w2\<lparr>w_slots := flush_active_content (w_slots w2)\<rparr>;
          w4 = with_slots (observe_cancellations (w_slots w3)) w3
      in case finalize_draining_slots nt (w_slots w4) of
           (log, slots, e) \<Rightarrow> (with_slots (log, slots) w4, e))"

definition tick_poll ::
  "('f, 'm, 'p, 's) native \<Rightarrow> worker_config \<Rightarrow> ('f, 'm, 'p, 's) worker \<Rightarrow>
   ('f, 'm, 'p, 's) worker \<times> (llama_error + bool)" where
  "tick_poll nt cfg w =
     (case poll_generation_decisions nt cfg (w_media_prefilled w) (w_slots w) (w_cache w) of
        (log, slots, cache, x) \<Rightarrow> (with_slots (log, slots) (w\<lparr>w_cache := cache\<rparr>), x))"

text \<open>Receiving a command when none is pending; \<open>False\<close> is that all senders are gone.\<close>

definition tick_receive :: "('f, 'm, 'p, 's) worker \<Rightarrow> ('f, 'm, 'p, 's) worker \<times> bool" where
  "tick_receive w =
     (case w_pending w of
        Some _ \<Rightarrow> (w, True)
      | None \<Rightarrow>
          (case w_commands w of
             c # cs \<Rightarrow> (w\<lparr>w_pending := Some c, w_commands := cs\<rparr>, True)
           | [] \<Rightarrow> (w, \<not> w_disconnected w)))"

text \<open>\<open>False\<close> is that the pending command was a shutdown.\<close>

definition tick_admit ::
  "('f, 'm, 'p, 's) native \<Rightarrow> ('f, 'm, 'p, 's) worker \<Rightarrow> ('f, 'm, 'p, 's) worker \<times> bool" where
  "tick_admit nt w =
     (case w_pending w of
        None \<Rightarrow> (w, True)
      | Some c \<Rightarrow>
          (case admit_generation_command nt c (w_slots w) of
             (log, slots, x) \<Rightarrow>
               (let w' = with_slots (log, slots) (w\<lparr>w_pending := None\<rparr>) in
                case x of
                  Admitted \<Rightarrow> (w', True)
                | Blocked c' \<Rightarrow> (w'\<lparr>w_pending := Some c'\<rparr>, True)
                | AdmitShutdown \<Rightarrow> (w', False))))"

definition written_slots :: "batch_plan \<Rightarrow> 'f reply list" where
  "written_slots plan = map SequenceWritten (remdups (map be_slot (bp_entries plan)))"

definition tick_decode ::
  "('f, 'm, 'p, 's) native \<Rightarrow> worker_config \<Rightarrow> ('f, 'm, 'p, 's) worker \<Rightarrow>
   ('f, 'm, 'p, 's) worker \<times> llama_error option" where
  "tick_decode nt cfg w =
     (case plan_batch (w_slots w) (unat (rc_batch_size (wc_runtime cfg))) (w_prefill_cursor w) of
        None \<Rightarrow> (w, Some index_panic)
      | Some plan \<Rightarrow>
          (let w1 = w\<lparr>w_prefill_cursor := bp_next_prefill_slot plan\<rparr> in
           if bp_entries plan = [] then (w1, None)
           else (let w2 = logged (written_slots plan) w1 in
                 case nt_decode nt plan of
                   Some e \<Rightarrow> (w2, Some e)
                 | None \<Rightarrow>
                     (case apply_decoded_batch nt plan (w_slots w2) (w_cache w2) of
                        (log, slots, cache, e) \<Rightarrow>
                          (with_slots (log, slots)
                             (w2\<lparr>w_cache := cache,
                                 w_media_prefilled := (if e = None then False else w_media_prefilled w2)\<rparr>),
                           e)))))"

definition generation_tick ::
  "('f, 'm, 'p, 's) native \<Rightarrow> worker_config \<Rightarrow> ('f, 'm, 'p, 's) worker \<Rightarrow>
   ('f, 'm, 'p, 's) worker \<times> tick_result" where
  "generation_tick nt cfg w =
     (case tick_drain nt w of
        (w1, Some e) \<Rightarrow> (w1, TickError e)
      | (w1, None) \<Rightarrow>
          (case tick_poll nt cfg w1 of
             (w2, Inl e) \<Rightarrow> (w2, TickError e)
           | (w2, Inr True) \<Rightarrow> (w2\<lparr>w_media_prefilled := True\<rparr>, Continue)
           | (w2, Inr False) \<Rightarrow>
               (case tick_receive w2 of
                  (w3, False) \<Rightarrow> (w3, TickShutdown)
                | (w3, True) \<Rightarrow>
                    (case tick_admit nt w3 of
                       (w4, False) \<Rightarrow> (w4, TickShutdown)
                     | (w4, True) \<Rightarrow>
                         (case tick_decode nt cfg w4 of
                            (w5, Some e) \<Rightarrow> (w5, TickError e)
                          | (w5, None) \<Rightarrow> (w5, Continue))))))"

section \<open>The loop\<close>

text \<open>What is still held when the worker function returns is dropped.\<close>

definition drop_command :: "'f command \<Rightarrow> 'f reply list" where
  "drop_command c =
     (case c of
        CountTokens client _ \<Rightarrow> [SenderDropped CountSender client]
      | ReserveGeneration r \<Rightarrow>
          map (\<lambda>k. SenderDropped k (rs_client r))
            [ReservedSender, ReadinessSender, TerminalSender, AcknowledgedSender]
      | ReserveEmbedding client \<Rightarrow>
          map (\<lambda>k. SenderDropped k client)
            [ReservedSender, ReadinessSender, TerminalSender, AcknowledgedSender]
      | Shutdown \<Rightarrow> [])"

definition stop_worker :: "('f, 'm, 'p, 's) worker \<Rightarrow> ('f, 'm, 'p, 's) worker" where
  "stop_worker w =
     (let w1 = with_slots (on_slots drop_slot (w_slots w)) w in
      logged ((case w_pending w of None \<Rightarrow> [] | Some c \<Rightarrow> drop_command c)
              @ concat (map drop_command (w_commands w))
              @ map (\<lambda>c. SenderDropped ControlSender (ct_client c)) (w_controls w))
        (w1\<lparr>w_pending := None, w_commands := [], w_controls := [], w_stopped := True\<rparr>))"

text \<open>An orderly shutdown: everything is cancelled, what is drained is finished, and the pending
  command is rejected.\<close>

definition shutdown_worker ::
  "('f, 'm, 'p, 's) native \<Rightarrow> ('f, 'm, 'p, 's) worker \<Rightarrow> ('f, 'm, 'p, 's) worker" where
  "shutdown_worker nt w =
     (let w1 = with_slots (cancel_all_slots (w_slots w)) w in
      case finalize_draining_slots nt (w_slots w1) of
        (log, slots, e) \<Rightarrow>
          (let w2 = with_slots (log, slots) w1;
               w3 = (case e of
                       None \<Rightarrow> w2
                     | Some err \<Rightarrow> with_slots (fail_all_slots err (w_slots w2)) (w2\<lparr>w_healthy := False\<rparr>));
               w4 = (case w_pending w3 of
                       None \<Rightarrow> w3
                     | Some c \<Rightarrow> logged (reject_command Cancelled c) (w3\<lparr>w_pending := None\<rparr>))
           in stop_worker w4))"

definition fatal_generation_worker ::
  "('f, 'm, 'p, 's) native \<Rightarrow> llama_error \<Rightarrow> ('f, 'm, 'p, 's) worker \<Rightarrow> ('f, 'm, 'p, 's) worker" where
  "fatal_generation_worker nt error w =
     (let error' = (case nt_clear_all_panics nt of None \<Rightarrow> error | Some message \<Rightarrow> WorkerPanic message)
      in stop_worker (with_slots (fail_all_slots error' (w_slots w)) (w\<lparr>w_healthy := False\<rparr>)))"

text \<open>An idle worker waits for a command; it ends when none can come any more.\<close>

definition await_command :: "('f, 'm, 'p, 's) worker \<Rightarrow> ('f, 'm, 'p, 's) worker" where
  "await_command w =
     (if w_pending w = None \<and> list_all is_vacant (w_slots w) then
        (case w_commands w of
           c # cs \<Rightarrow> w\<lparr>w_pending := Some c, w_commands := cs\<rparr>
         | [] \<Rightarrow> if w_disconnected w then stop_worker w else w)
      else w)"

definition worker_turn ::
  "('f, 'm, 'p, 's) native \<Rightarrow> worker_config \<Rightarrow> ('f, 'm, 'p, 's) worker \<Rightarrow> ('f, 'm, 'p, 's) worker" where
  "worker_turn nt cfg w =
     (case generation_tick nt cfg w of
        (w', Continue) \<Rightarrow> await_command w'
      | (w', TickShutdown) \<Rightarrow> shutdown_worker nt w'
      | (w', TickError e) \<Rightarrow> fatal_generation_worker nt e w')"

section \<open>Worker and clients\<close>

text \<open>What happens outside the worker. A command carries fresh senders; a reservation starts undecided
  or already decided.\<close>

datatype 'f client_action =
    Submit "'f command"
  | SubmitControl control
  | Decide nat decision_poll
  | Cancel nat
  | TakeEvent nat
  | CloseEvents nat
  | Disconnect

definition on_lifecycle ::
  "('f lifecycle \<Rightarrow> 'f lifecycle) \<Rightarrow> ('f, 'm, 'p) slot_state \<Rightarrow> ('f, 'm, 'p) slot_state" where
  "on_lifecycle g s =
     (case s of
        Vacant \<Rightarrow> Vacant
      | Reserved r \<Rightarrow> Reserved (r\<lparr>r_lifecycle := g (r_lifecycle r)\<rparr>)
      | Active a \<Rightarrow> Active (a\<lparr>a_lifecycle := g (a_lifecycle a)\<rparr>)
      | Draining d \<Rightarrow> Draining (d\<lparr>d_lifecycle := g (d_lifecycle d)\<rparr>))"

definition on_channel :: "('f channel \<Rightarrow> 'f channel) \<Rightarrow> 'f lifecycle \<Rightarrow> 'f lifecycle" where
  "on_channel g lc = lc\<lparr>lc_events := map_option g (lc_events lc)\<rparr>"

definition decide_slot :: "decision_poll \<Rightarrow> ('f, 'm, 'p) slot_state \<Rightarrow> ('f, 'm, 'p) slot_state" where
  "decide_slot d s =
     (case s of
        Reserved r \<Rightarrow> if r_decision r = Some PollEmpty then Reserved (r\<lparr>r_decision := Some d\<rparr>) else s
      | _ \<Rightarrow> s)"

definition change_slot ::
  "nat \<Rightarrow> (('f, 'm, 'p) slot_state \<Rightarrow> ('f, 'm, 'p) slot_state) \<Rightarrow> ('f, 'm, 'p, 's) worker \<Rightarrow>
   ('f, 'm, 'p, 's) worker" where
  "change_slot i g w =
     (if i < length (w_slots w) then w\<lparr>w_slots := (w_slots w)[i := g (w_slots w ! i)]\<rparr> else w)"

fun client_step :: "'f client_action \<Rightarrow> ('f, 'm, 'p, 's) worker \<Rightarrow> ('f, 'm, 'p, 's) worker" where
  "client_step (Submit c) w =
     w\<lparr>w_commands := w_commands w @ [c], w_submitted := w_submitted w + command_senders c\<rparr>"
| "client_step (SubmitControl c) w =
     w\<lparr>w_controls := w_controls w @ [c],
       w_submitted := add_mset (ControlSender, ct_client c) (w_submitted w)\<rparr>"
| "client_step (Decide i d) w = change_slot i (decide_slot d) w"
| "client_step (Cancel i) w = change_slot i set_cancelled w"
| "client_step (TakeEvent i) w =
     change_slot i (on_lifecycle (on_channel (\<lambda>ch. ch\<lparr>ch_queue := tl (ch_queue ch)\<rparr>))) w"
| "client_step (CloseEvents i) w =
     change_slot i (on_lifecycle (on_channel (\<lambda>ch. ch\<lparr>ch_closed := True\<rparr>))) w"
| "client_step Disconnect w = w\<lparr>w_disconnected := True\<rparr>"

inductive reachable :: "worker_config \<Rightarrow> ('f, 'm, 'p, 's) worker \<Rightarrow> bool" for cfg where
  start: "reachable cfg (initial_worker cfg)"
| turn: "reachable cfg w \<Longrightarrow> \<not> w_stopped w \<Longrightarrow> reachable cfg (worker_turn nt cfg w)"
| client: "reachable cfg w \<Longrightarrow> \<not> w_stopped w \<Longrightarrow> reachable cfg (client_step x w)"

inductive_cases reachableE: "reachable cfg w"

section \<open>Every sender is accounted for\<close>

definition outstanding :: "('f, 'm, 'p, 's) worker \<Rightarrow> (sender \<times> nat) multiset" where
  "outstanding w =
     held_all (w_slots w)
     + (case w_pending w of None \<Rightarrow> {#} | Some c \<Rightarrow> command_senders c)
     + sum_list (map command_senders (w_commands w))
     + mset (map (\<lambda>c. (ControlSender, ct_client c)) (w_controls w))"

definition accounted :: "('f, 'm, 'p, 's) worker \<Rightarrow> (sender \<times> nat) multiset" where
  "accounted w = used (w_log w) + outstanding w"

lemma with_slots_accounted:
  assumes "used log + held_all slots = held_all (w_slots w)"
  shows "accounted (with_slots (log, slots) w) = accounted w"
proof -
  have "used (w_log w) + used log + (held_all slots + x) = used (w_log w) + (held_all (w_slots w) + x)" for x
    unfolding assms [symmetric] by (simp add: ac_simps)
  then show ?thesis
    by (simp add: accounted_def outstanding_def with_slots_def logged_def add.assoc)
qed

text \<open>An operation of the worker that keeps the account and the number of slots.\<close>

definition keeps_account :: "('f, 'm, 'p, 's) worker \<Rightarrow> ('f, 'm, 'p, 's) worker \<Rightarrow> bool" where
  "keeps_account w w' \<longleftrightarrow> accounted w' = accounted w \<and> w_submitted w' = w_submitted w
     \<and> length (w_slots w') = length (w_slots w)"

lemma keeps_account_refl [simp]: "keeps_account w w"
  by (simp add: keeps_account_def)

lemma keeps_account_trans [trans]:
  "keeps_account w w' \<Longrightarrow> keeps_account w' w'' \<Longrightarrow> keeps_account w w''"
  by (simp add: keeps_account_def)

lemma keeps_account_slots:
  "used log + held_all slots = held_all (w_slots w) \<Longrightarrow> length slots = length (w_slots w) \<Longrightarrow>
   keeps_account w (with_slots (log, slots) w)"
  using with_slots_accounted [of log slots w]
  by (simp add: keeps_account_def with_slots_def logged_def)

lemma keeps_account_fields [simp]:
  "keeps_account w (w'\<lparr>w_prefill_cursor := p\<rparr>) = keeps_account w w'"
  "keeps_account w (w'\<lparr>w_cache := k\<rparr>) = keeps_account w w'"
  "keeps_account w (w'\<lparr>w_media_prefilled := b\<rparr>) = keeps_account w w'"
  "keeps_account w (w'\<lparr>w_healthy := b\<rparr>) = keeps_account w w'"
  "keeps_account w (w'\<lparr>w_stopped := b\<rparr>) = keeps_account w w'"
  "keeps_account w (w'\<lparr>w_disconnected := b\<rparr>) = keeps_account w w'"
  by (simp_all add: keeps_account_def accounted_def outstanding_def)

lemma with_slots_fields [simp]:
  "w_slots (with_slots (log, slots) w) = slots" "w_pending (with_slots r w) = w_pending w"
  "w_commands (with_slots r w) = w_commands w" "w_controls (with_slots r w) = w_controls w"
  "w_cache (with_slots r w) = w_cache w" "w_stopped (with_slots r w) = w_stopped w"
  "w_healthy (with_slots r w) = w_healthy w"
  by (simp_all add: with_slots_def logged_def split: prod.split)

lemma force_reasoning_end_conserves:
  "force_reasoning_end nt op slots = (r, slots') \<Longrightarrow>
   held_all slots' = held_all slots \<and> length slots' = length slots"
proof (induction slots arbitrary: slots')
  case (Cons s ss)
  obtain r1 ss1 where rest: "force_reasoning_end nt op ss = (r1, ss1)" by fastforce
  from Cons.IH [of ss1] Cons.prems rest show ?case
    by (cases s) (auto split: if_splits sum.splits)
qed simp

lemma poll_reasoning_controls_conserves:
  "poll_reasoning_controls nt cs slots = (log, slots') \<Longrightarrow>
   used log = mset (map (\<lambda>c. (ControlSender, ct_client c)) cs) \<and> held_all slots' = held_all slots
   \<and> length slots' = length slots"
proof (induction cs arbitrary: slots log slots')
  case (Cons c cs)
  obtain r1 s1 where one: "(if ct_pending c then force_reasoning_end nt (ct_operation c) slots
      else (Inr NotFound, slots)) = (r1, s1)" by fastforce
  have c1: "held_all s1 = held_all slots \<and> length s1 = length slots"
    using one force_reasoning_end_conserves [of nt "ct_operation c" slots r1 s1]
    by (auto split: if_splits)
  obtain l2 s2 where rest: "poll_reasoning_controls nt cs s1 = (l2, s2)" by fastforce
  from Cons.prems one rest have "log = Controlled (ct_client c) r1 # l2" "slots' = s2"
    by (simp_all del: if_split)
  with c1 Cons.IH [OF rest] show ?case by simp
qed simp

lemma controls_keep_account:
  assumes "poll_reasoning_controls nt (w_controls w) (w_slots w) = (log, slots)"
  shows "keeps_account w (with_slots (log, slots) (w\<lparr>w_controls := []\<rparr>))"
  using poll_reasoning_controls_conserves [OF assms]
  by (simp add: keeps_account_def accounted_def outstanding_def with_slots_def logged_def ac_simps)

lemma observe_keeps_account: "keeps_account w (with_slots (observe_cancellations (w_slots w)) w)"
proof -
  obtain log slots where o: "observe_cancellations (w_slots w) = (log, slots)" by fastforce
  from observe_cancellations_conserves [OF o] show ?thesis unfolding o by (intro keeps_account_slots)
qed

lemma flush_keeps_account: "keeps_account w (w\<lparr>w_slots := flush_active_content (w_slots w)\<rparr>)"
  using flush_active_content_conserves [of "w_slots w"]
  by (simp add: keeps_account_def accounted_def outstanding_def flush_active_content_def)

lemma finalize_from_length:
  "finalize_from clear i slots = (log, slots', e) \<Longrightarrow> length slots' = length slots"
proof (induction slots arbitrary: i log slots' e)
  case (Cons s ss)
  then show ?case by (fastforce split: prod.splits option.splits)
qed simp

lemma finalize_keeps_account:
  assumes "finalize_draining_slots nt (w_slots w) = (log, slots, e)"
  shows "keeps_account w (with_slots (log, slots) w)"
  using assms unfolding finalize_draining_slots_def
  by (intro keeps_account_slots) (auto dest: finalize_from_conserves finalize_from_length)

lemma tick_drain_keeps_account: "keeps_account w (fst (tick_drain nt w))"
proof -
  obtain l1 s1 where c: "poll_reasoning_controls nt (w_controls w) (w_slots w) = (l1, s1)" by fastforce
  let ?w1 = "with_slots (l1, s1) (w\<lparr>w_controls := []\<rparr>)"
  let ?w2 = "with_slots (observe_cancellations (w_slots ?w1)) ?w1"
  let ?w3 = "?w2\<lparr>w_slots := flush_active_content (w_slots ?w2)\<rparr>"
  let ?w4 = "with_slots (observe_cancellations (w_slots ?w3)) ?w3"
  obtain l s e where f: "finalize_draining_slots nt (w_slots ?w4) = (l, s, e)" by (metis prod_cases3)
  note controls_keep_account [OF c]
  also note observe_keeps_account [of ?w1]
  also note flush_keeps_account [of ?w2]
  also note observe_keeps_account [of ?w3]
  also note finalize_keeps_account [OF f]
  finally show ?thesis using f unfolding tick_drain_def Let_def c by (simp only: prod.case fst_conv)
qed

lemma tick_poll_keeps_account: "keeps_account w (fst (tick_poll nt cfg w))"
proof -
  obtain l s k x where p: "poll_generation_decisions nt cfg (w_media_prefilled w) (w_slots w) (w_cache w)
      = (l, s, k, x)" by (metis prod_cases4)
  have "keeps_account w (w\<lparr>w_cache := k\<rparr>)" by simp
  also have "keeps_account (w\<lparr>w_cache := k\<rparr>) (with_slots (l, s) (w\<lparr>w_cache := k\<rparr>))"
    using poll_generation_decisions_conserves [OF p] by (intro keeps_account_slots) simp_all
  finally show ?thesis using p by (simp add: tick_poll_def)
qed

lemma tick_receive_keeps_account: "keeps_account w (fst (tick_receive w))"
  by (auto simp: tick_receive_def keeps_account_def accounted_def outstanding_def ac_simps
           split: option.split list.split)

lemma tick_admit_keeps_account: "keeps_account w (fst (tick_admit nt w))"
proof (cases "w_pending w")
  case (Some c)
  obtain l s x where a: "admit_generation_command nt c (w_slots w) = (l, s, x)" by (metis prod_cases3)
  note cons = admit_conserves [OF a]
  let ?w = "with_slots (l, s) (w\<lparr>w_pending := None\<rparr>)"
  have "keeps_account w (case x of Blocked c' \<Rightarrow> ?w\<lparr>w_pending := Some c'\<rparr> | _ \<Rightarrow> ?w)"
  proof -
    have eq: "used l + held_all s + (admission_senders x + y) = held_all (w_slots w) + (command_senders c + y)" for y
      using cons by (metis add.assoc)
    show ?thesis using Some cons eq
      by (cases x) (simp_all add: keeps_account_def accounted_def outstanding_def with_slots_def
          logged_def admission_senders_def add.assoc add.left_commute [of "held_all _"])
  qed
  with a Some show ?thesis by (cases x) (simp_all add: tick_admit_def Let_def)
qed (simp add: tick_admit_def)

lemma used_written_slots: "used (written_slots plan) = {#}"
proof -
  have "used (map SequenceWritten is) = {#}" for "is" by (induction "is") simp_all
  then show ?thesis by (simp add: written_slots_def)
qed

lemma tick_decode_keeps_account: "keeps_account w (fst (tick_decode nt cfg w))"
proof (cases "plan_batch (w_slots w) (unat (rc_batch_size (wc_runtime cfg))) (w_prefill_cursor w)")
  case None
  then show ?thesis by (simp add: tick_decode_def)
next
  case (Some plan)
  let ?w1 = "w\<lparr>w_prefill_cursor := bp_next_prefill_slot plan\<rparr>"
  let ?w2 = "logged (written_slots plan) ?w1"
  have k2: "keeps_account w ?w2"
    by (simp add: keeps_account_def accounted_def outstanding_def logged_def used_written_slots)
  obtain l s k e where ap: "apply_decoded_batch nt plan (w_slots ?w2) (w_cache ?w2) = (l, s, k, e)"
    by (metis prod_cases4)
  let ?w3 = "?w2\<lparr>w_cache := k, w_media_prefilled := (if e = None then False else w_media_prefilled ?w2)\<rparr>"
  have "keeps_account w ?w3" using k2 by simp
  also have "keeps_account ?w3 (with_slots (l, s) ?w3)"
    using apply_decoded_batch_conserves [OF ap] by (intro keeps_account_slots) simp_all
  finally have k3: "keeps_account w (with_slots (l, s) ?w3)" .
  show ?thesis using Some ap k2 k3
    by (auto simp: tick_decode_def Let_def split: option.splits)
qed

lemma generation_tick_keeps_account: "keeps_account w (fst (generation_tick nt cfg w))"
proof -
  obtain w1 e1 where d: "tick_drain nt w = (w1, e1)" by fastforce
  obtain w2 x2 where p: "tick_poll nt cfg w1 = (w2, x2)" by fastforce
  obtain w3 b3 where r: "tick_receive w2 = (w3, b3)" by fastforce
  obtain w4 b4 where a: "tick_admit nt w3 = (w4, b4)" by fastforce
  obtain w5 e5 where c: "tick_decode nt cfg w4 = (w5, e5)" by fastforce
  have k1: "keeps_account w w1" using tick_drain_keeps_account [of w nt] d by simp
  also have "keeps_account w1 w2" using tick_poll_keeps_account [of w1 nt cfg] p by simp
  finally have k2: "keeps_account w w2" .
  also have "keeps_account w2 w3" using tick_receive_keeps_account [of w2] r by simp
  finally have k3: "keeps_account w w3" .
  also have "keeps_account w3 w4" using tick_admit_keeps_account [of w3 nt] a by simp
  finally have k4: "keeps_account w w4" .
  also have "keeps_account w4 w5" using tick_decode_keeps_account [of w4 nt cfg] c by simp
  finally have k5: "keeps_account w w5" .
  show ?thesis using d p r a c k1 k2 k3 k4 k5
    by (auto simp: generation_tick_def split: option.splits sum.splits bool.splits)
qed

lemma drop_command_used: "used (drop_command c) = command_senders c"
  by (cases c) (simp_all add: drop_command_def command_senders_def)

lemma used_concat: "used (concat logs) = sum_list (map used logs)"
  by (induction logs) simp_all

lemma used_drop_controls:
  "used (map (\<lambda>c. SenderDropped ControlSender (ct_client c)) cs) = mset (map (\<lambda>c. (ControlSender, ct_client c)) cs)"
  by (induction cs) simp_all

lemma drop_slot_Vacant: "snd (drop_slot s) = Vacant"
  by (cases s) (simp_all add: drop_slot_def)

lemma on_slots_drop:
  assumes "on_slots drop_slot slots = (log, slots')"
  shows "used log = held_all slots" "held_all slots' = {#}" "length slots' = length slots"
    "\<forall>s \<in> set slots'. s = Vacant"
proof -
  have eq: "slots' = map (\<lambda>s. Vacant) slots"
    using assms by (auto simp: on_slots_def drop_slot_Vacant comp_def)
  moreover have "held_all (map (\<lambda>s. Vacant) slots) = {#}" by (induction slots) simp_all
  ultimately show "held_all slots' = {#}" by (simp only:)
  with dropping.on_slots_conserves [of slots] assms show "used log = held_all slots" by simp
  show "length slots' = length slots" "\<forall>s \<in> set slots'. s = Vacant" using eq by auto
qed

lemma stop_worker_keeps_account:
  "keeps_account w (stop_worker w)" "outstanding (stop_worker w) = {#}" "w_stopped (stop_worker w)"
  "w_healthy (stop_worker w) = w_healthy w"
proof -
  obtain l s where d: "on_slots drop_slot (w_slots w) = (l, s)" by fastforce
  note D = on_slots_drop [OF d]
  let ?p = "case w_pending w of None \<Rightarrow> [] | Some c \<Rightarrow> drop_command c"
  have p: "used ?p = (case w_pending w of None \<Rightarrow> {#} | Some c \<Rightarrow> command_senders c)"
    by (simp add: drop_command_used split: option.split)
  have q: "used (concat (map drop_command (w_commands w))) = sum_list (map command_senders (w_commands w))"
    by (simp add: used_concat comp_def drop_command_used)
  show out: "outstanding (stop_worker w) = {#}"
    using d D by (simp add: stop_worker_def outstanding_def logged_def with_slots_def)
  show "keeps_account w (stop_worker w)"
    using d D(1,3) p q used_drop_controls [of "w_controls w"] out
    by (simp add: keeps_account_def accounted_def)
       (simp add: stop_worker_def outstanding_def logged_def with_slots_def ac_simps)
  show "w_stopped (stop_worker w)" "w_healthy (stop_worker w) = w_healthy w"
    by (simp_all add: stop_worker_def logged_def Let_def)
qed

lemma fail_all_keeps_account: "keeps_account w (with_slots (fail_all_slots e (w_slots w)) w)"
proof -
  obtain log slots where f: "fail_all_slots e (w_slots w) = (log, slots)" by fastforce
  have "used log + held_all slots = held_all (w_slots w)"
    using failing.on_slots_conserves [of e "w_slots w"] f by (simp add: fail_all_slots_def)
  moreover have "length slots = length (w_slots w)" using f by (auto simp: fail_all_slots_def on_slots_def)
  ultimately show ?thesis unfolding f by (rule keeps_account_slots)
qed

lemma held_set_cancelled: "held (set_cancelled s) = held s"
  by (cases s) (simp_all add: set_cancelled_def)

lemma cancel_all_keeps_account: "keeps_account w (with_slots (cancel_all_slots (w_slots w)) w)"
proof -
  obtain log slots where o: "observe_cancellations (map set_cancelled (w_slots w)) = (log, slots)" by fastforce
  have h: "held_all (map set_cancelled (w_slots w)) = held_all (w_slots w)"
    by (simp add: held_all_def comp_def held_set_cancelled)
  from observe_cancellations_conserves [OF o] h show ?thesis unfolding cancel_all_slots_def o
    by (intro keeps_account_slots) simp_all
qed

lemma fatal_keeps_account:
  "keeps_account w (fatal_generation_worker nt e w)" "outstanding (fatal_generation_worker nt e w) = {#}"
proof -
  let ?e = "case nt_clear_all_panics nt of None \<Rightarrow> e | Some m \<Rightarrow> WorkerPanic m"
  let ?w1 = "w\<lparr>w_healthy := False\<rparr>"
  let ?w2 = "with_slots (fail_all_slots ?e (w_slots ?w1)) ?w1"
  have "keeps_account w ?w1" by simp
  also note fail_all_keeps_account [of ?w1 ?e]
  also note stop_worker_keeps_account(1) [of ?w2]
  finally show "keeps_account w (fatal_generation_worker nt e w)"
    by (simp add: fatal_generation_worker_def Let_def)
  show "outstanding (fatal_generation_worker nt e w) = {#}"
    by (simp add: fatal_generation_worker_def Let_def stop_worker_keeps_account(2))
qed

lemma shutdown_keeps_account:
  "keeps_account w (shutdown_worker nt w)" "outstanding (shutdown_worker nt w) = {#}"
proof -
  let ?w1 = "with_slots (cancel_all_slots (w_slots w)) w"
  obtain l s e where f: "finalize_draining_slots nt (w_slots ?w1) = (l, s, e)" by (metis prod_cases3)
  let ?w2 = "with_slots (l, s) ?w1"
  let ?w3 = "case e of None \<Rightarrow> ?w2
    | Some err \<Rightarrow> with_slots (fail_all_slots err (w_slots ?w2)) (?w2\<lparr>w_healthy := False\<rparr>)"
  let ?w4 = "case w_pending ?w3 of None \<Rightarrow> ?w3
    | Some c \<Rightarrow> logged (reject_command Cancelled c) (?w3\<lparr>w_pending := None\<rparr>)"
  have eq: "shutdown_worker nt w = stop_worker ?w4"
    using f by (simp add: shutdown_worker_def Let_def)
  have 3: "keeps_account ?w2 ?w3"
  proof (cases e)
    case (Some err)
    have "keeps_account ?w2 (?w2\<lparr>w_healthy := False\<rparr>)" by simp
    also note fail_all_keeps_account [of "?w2\<lparr>w_healthy := False\<rparr>" err]
    finally show ?thesis using Some by simp
  qed simp
  have 4: "keeps_account ?w3 ?w4"
    by (simp add: keeps_account_def accounted_def outstanding_def logged_def reject_command_used ac_simps
             split: option.split)
  note cancel_all_keeps_account [of w]
  also note finalize_keeps_account [OF f]
  also note 3
  also note 4
  also note stop_worker_keeps_account(1) [of ?w4]
  finally show "keeps_account w (shutdown_worker nt w)" unfolding eq .
  show "outstanding (shutdown_worker nt w) = {#}" unfolding eq by (rule stop_worker_keeps_account(2))
qed

lemma await_keeps_account:
  "keeps_account w (await_command w)" "w_stopped (await_command w) \<Longrightarrow> w_stopped w \<or> outstanding (await_command w) = {#}"
  by (auto simp: await_command_def stop_worker_keeps_account split: list.splits if_splits)
     (simp add: keeps_account_def accounted_def outstanding_def ac_simps)

lemma tick_stopped: "w_stopped (fst (generation_tick nt cfg w)) = w_stopped w"
proof -
  have 1: "w_stopped (fst (tick_drain nt w)) = w_stopped w" for w
    by (simp add: tick_drain_def Let_def split: prod.split)
  have 2: "w_stopped (fst (tick_poll nt cfg w)) = w_stopped w" for w
    by (simp add: tick_poll_def split: prod.split)
  have 3: "w_stopped (fst (tick_receive w)) = w_stopped w" for w
    by (simp add: tick_receive_def split: option.split list.split)
  have 4: "w_stopped (fst (tick_admit nt w)) = w_stopped w" for w
    by (simp add: tick_admit_def Let_def split: option.split prod.split admission.split)
  have 5: "w_stopped (fst (tick_decode nt cfg w)) = w_stopped w" for w
    by (simp add: tick_decode_def Let_def logged_def split: option.split prod.split)
  obtain w1 e1 where d: "tick_drain nt w = (w1, e1)" by fastforce
  obtain w2 x2 where p: "tick_poll nt cfg w1 = (w2, x2)" by fastforce
  obtain w3 b3 where r: "tick_receive w2 = (w3, b3)" by fastforce
  obtain w4 b4 where a: "tick_admit nt w3 = (w4, b4)" by fastforce
  obtain w5 e5 where c: "tick_decode nt cfg w4 = (w5, e5)" by fastforce
  show ?thesis using d p r a c 1 [of w] 2 [of w1] 3 [of w2] 4 [of w3] 5 [of w4]
    by (auto simp: generation_tick_def split: option.splits sum.splits bool.splits)
qed

lemma worker_turn_keeps_account:
  "keeps_account w (worker_turn nt cfg w)"
  "\<not> w_stopped w \<Longrightarrow> w_stopped (worker_turn nt cfg w) \<Longrightarrow> outstanding (worker_turn nt cfg w) = {#}"
proof -
  obtain w1 x where t: "generation_tick nt cfg w = (w1, x)" by fastforce
  have k: "keeps_account w w1" "w_stopped w1 = w_stopped w"
    using generation_tick_keeps_account [of w nt cfg] tick_stopped [of nt cfg w] t by simp_all
  show "keeps_account w (worker_turn nt cfg w)"
    using t
    by (cases x)
       (auto simp: worker_turn_def intro: keeps_account_trans [OF k(1)] await_keeps_account(1)
          fatal_keeps_account(1) shutdown_keeps_account(1))
  show "\<not> w_stopped w \<Longrightarrow> w_stopped (worker_turn nt cfg w) \<Longrightarrow> outstanding (worker_turn nt cfg w) = {#}"
    using t k(2) await_keeps_account(2) [of w1] fatal_keeps_account(2) shutdown_keeps_account(2)
    by (cases x) (simp_all add: worker_turn_def)
qed

lemma held_on_lifecycle: "(\<And>lc. lifecycle_senders (g lc) = lifecycle_senders lc) \<Longrightarrow> held (on_lifecycle g s) = held s"
  by (cases s) (simp_all add: on_lifecycle_def)

lemma on_channel_senders [simp]: "lifecycle_senders (on_channel g lc) = lifecycle_senders lc"
  by (simp add: on_channel_def lifecycle_senders_def)

lemma held_decide_slot: "held (decide_slot d s) = held s"
  by (cases s) (simp_all add: decide_slot_def)

lemma change_slot_keeps_account:
  assumes "\<And>s. held (g s) = held s"
  shows "keeps_account w (change_slot i g w)"
  using held_all_same [of i "w_slots w" "g (w_slots w ! i)"] assms
  by (simp add: change_slot_def keeps_account_def accounted_def outstanding_def)

text \<open>The clients' steps add to the account exactly what they submit.\<close>

definition balanced :: "('f, 'm, 'p, 's) worker \<Rightarrow> bool" where
  "balanced w \<longleftrightarrow> accounted w = w_submitted w"

lemma change_slot_balanced:
  assumes "balanced w" and "\<And>s. held (g s) = held s"
  shows "balanced (change_slot i g w) \<and> length (w_slots (change_slot i g w)) = length (w_slots w)"
  using change_slot_keeps_account [OF assms(2), of w i] assms(1)
  by (simp add: keeps_account_def balanced_def)

lemma client_step_balanced:
  assumes "balanced w"
  shows "balanced (client_step x w) \<and> length (w_slots (client_step x w)) = length (w_slots w)"
proof (cases x)
  case (Decide i d)
  then show ?thesis using change_slot_balanced [OF assms held_decide_slot] by simp
next
  case (Cancel i)
  then show ?thesis using change_slot_balanced [OF assms held_set_cancelled] by simp
next
  case (TakeEvent i)
  then show ?thesis using change_slot_balanced [OF assms held_on_lifecycle [OF on_channel_senders]] by simp
next
  case (CloseEvents i)
  then show ?thesis using change_slot_balanced [OF assms held_on_lifecycle [OF on_channel_senders]] by simp
qed (use assms in \<open>simp_all add: balanced_def accounted_def outstanding_def ac_simps\<close>)

lemma client_step_stopped: "w_stopped (client_step x w) = w_stopped w"
  by (cases x) (simp_all add: change_slot_def)

lemma initial_balanced: "balanced (initial_worker cfg)"
proof -
  have "held_all (replicate n (Vacant :: ('f, 'm, 'p) slot_state)) = {#}" for n by (induction n) simp_all
  then show ?thesis by (simp add: balanced_def accounted_def outstanding_def initial_worker_def)
qed

lemma reachable_balanced:
  "reachable cfg w \<Longrightarrow> balanced w \<and> (w_stopped w \<longrightarrow> outstanding w = {#})
     \<and> length (w_slots w) = unat (rc_parallel_sequences (wc_runtime cfg))"
proof (induction rule: reachable.induct)
  case start
  show ?case using initial_balanced [of cfg] by (simp add: initial_worker_def)
next
  case (turn w nt)
  then show ?case using worker_turn_keeps_account [of w nt cfg]
    by (auto simp: keeps_account_def balanced_def)
next
  case (client w x)
  then show ?case using client_step_balanced [of w x] client_step_stopped [of x w] by auto
qed


section \<open>Nobody is dropped while the worker runs\<close>

fun is_drop :: "'f reply \<Rightarrow> bool" where
  "is_drop (SenderDropped k c) \<longleftrightarrow> True"
| "is_drop _ \<longleftrightarrow> False"

definition no_drop :: "'f reply list \<Rightarrow> bool" where
  "no_drop log \<longleftrightarrow> (\<forall>r \<in> set log. \<not> is_drop r)"

lemma no_drop_simps [simp]:
  "no_drop []" "no_drop (r # log) \<longleftrightarrow> \<not> is_drop r \<and> no_drop log"
  "no_drop (log @ log') \<longleftrightarrow> no_drop log \<and> no_drop log'"
  by (auto simp: no_drop_def)

lemma send_readiness_no_drop: "send_readiness e lc = (log, lc') \<Longrightarrow> no_drop log"
  by (auto simp: send_readiness_def split: if_splits)

lemma reject_reserved_no_drop: "reject_reserved e lc = (log, s) \<Longrightarrow> no_drop log"
  by (auto simp: reject_reserved_def dest: send_readiness_no_drop split: prod.splits)

lemma observe_slot_no_drop: "no_drop (fst (observe_slot s))"
  by (cases s) (auto simp: observe_slot_def reject_reserved_no_drop [OF prod.collapse [symmetric]])

lemma observe_no_drop: "observe_cancellations slots = (log, slots') \<Longrightarrow> no_drop log"
  using observe_slot_no_drop [unfolded no_drop_def]
  by (fastforce simp: observe_cancellations_def on_slots_def no_drop_def)

lemma final_replies_no_drop [simp]: "no_drop (final_replies d)"
  by (simp add: final_replies_def Let_def)

lemma finalize_slot_no_drop: "finalize_slot clear i d = (log, s, e) \<Longrightarrow> no_drop log"
  by (auto simp: finalize_slot_def Let_def split: prod.splits bool.splits option.splits)

lemma finalize_from_no_drop: "finalize_from clear i slots = (log, slots', e) \<Longrightarrow> no_drop log"
proof (induction slots arbitrary: i log slots' e)
  case (Cons s ss)
  obtain l1 s1 e1 where one: "(case s of Draining d \<Rightarrow> finalize_slot clear i d | _ \<Rightarrow> ([], s, None)) = (l1, s1, e1)"
    by (metis prod_cases3)
  have n1: "no_drop l1" using one finalize_slot_no_drop by (cases s) auto
  obtain l2 ss2 e2 where rest: "finalize_from clear (Suc i) ss = (l2, ss2, e2)" by (metis prod_cases3)
  from Cons.prems one rest n1 Cons.IH [OF rest] show ?case by (cases e1) auto
qed simp

lemma announce_no_drop: "announce nt a = (log, a', b) \<Longrightarrow> no_drop log"
  by (auto simp: announce_def dest: send_readiness_no_drop split: prod.splits)

lemma activate_text_no_drop: "activate_text nt a cache = (log, s) \<Longrightarrow> no_drop log"
  by (auto simp: activate_text_def Let_def dest: announce_no_drop split: prod.splits bool.splits)

lemma finish_media_no_drop: "finish_media a r = (log, s, x) \<Longrightarrow> (\<nexists>e. x = PollError e) \<Longrightarrow> no_drop log"
  by (auto simp: finish_media_def split: option.splits)

lemma activate_media_no_drop:
  "activate_media nt i p a = (log, s, x) \<Longrightarrow> (\<nexists>e. x = PollError e) \<Longrightarrow> no_drop log"
  by (auto simp: activate_media_def Let_def dest: announce_no_drop finish_media_no_drop
           split: if_splits sum.splits prod.splits accepted.splits option.splits bool.splits)

lemma restore_prefix_no_drop: "restore_prefix nt cfg i req toks cache = (log, cache', r) \<Longrightarrow> no_drop log"
  by (auto simp: restore_prefix_def split: if_splits prod.splits option.splits)

lemma activate_request_no_drop:
  "activate_request nt cfg i lc req cache = (log, s, cache', x) \<Longrightarrow> (\<nexists>e. x = PollError e) \<Longrightarrow> no_drop log"
  by (auto simp: activate_request_def Let_def
           dest!: reject_reserved_no_drop restore_prefix_no_drop activate_text_no_drop activate_media_no_drop
           split: if_splits sum.splits prod.splits option.splits)

lemma poll_reserved_no_drop:
  "poll_reserved nt cfg ml ord i r cache = (log, s, cache', x) \<Longrightarrow> (\<nexists>e. x = PollError e) \<Longrightarrow> no_drop log"
  by (auto simp: poll_reserved_def dest: reject_reserved_no_drop activate_request_no_drop
           split: decision_poll.splits if_splits prod.splits)

lemma poll_from_no_drop:
  "poll_from nt cfg ml ord i slots cache = (log, slots', cache', Inr b) \<Longrightarrow> no_drop log"
proof (induction slots arbitrary: i cache log slots' cache' b)
  case (Cons s ss)
  obtain l1 s1 k1 x1 where one: "(case s of Reserved r \<Rightarrow> poll_reserved nt cfg ml ord i r cache
      | _ \<Rightarrow> ([], s, cache, PollNext)) = (l1, s1, k1, x1)" by (metis prod_cases4)
  have n1: "no_drop l1" if "\<nexists>e. x1 = PollError e"
    using one that poll_reserved_no_drop by (cases s) fastforce+
  obtain l2 ss2 k2 x2 where rest: "poll_from nt cfg ml ord (Suc i) ss k1 = (l2, ss2, k2, x2)"
    by (metis prod_cases4)
  from Cons.prems one rest n1 Cons.IH [of "Suc i" k1] show ?case
    by (cases x1) auto
qed simp

lemma drain_finished_slot_no_drop: "drain_finished_slot nt i r slots = (log, slots', None) \<Longrightarrow> no_drop log"
  by (auto simp: drain_finished_slot_def split: slot_state.splits option.splits)

lemma sample_slot_no_drop: "sample_slot nt raw i slots = (log, slots', None) \<Longrightarrow> no_drop log"
  by (auto simp: sample_slot_def dest: drain_finished_slot_no_drop
           split: slot_state.splits if_splits sum.splits prod.splits accepted.splits option.splits)

lemma sample_targets_no_drop: "sample_targets nt ts slots = (log, slots', None) \<Longrightarrow> no_drop log"
proof (induction ts arbitrary: slots log slots')
  case (Cons t ts)
  then show ?case
    by (cases t) (fastforce dest: sample_slot_no_drop split: prod.splits option.splits)
qed simp

lemma drain_all_no_drop: "drain_all nt is slots = (log, slots', None) \<Longrightarrow> no_drop log"
proof (induction "is" arbitrary: slots log slots')
  case (Cons i "is")
  then show ?case by (fastforce dest: drain_finished_slot_no_drop split: prod.splits option.splits)
qed simp

lemma apply_decoded_batch_no_drop:
  "apply_decoded_batch nt plan slots cache = (log, slots', cache', None) \<Longrightarrow> no_drop log"
  by (auto simp: apply_decoded_batch_def
           dest: observe_no_drop sample_targets_no_drop drain_all_no_drop
           split: option.splits prod.splits sum.splits)

lemma controls_no_drop: "poll_reasoning_controls nt cs slots = (log, slots') \<Longrightarrow> no_drop log"
  by (induction cs arbitrary: slots log slots') (fastforce split: prod.splits)+

text \<open>A drop is explained by a refused reservation: its own sender is dropped with the others.\<close>

definition explained :: "'f reply list \<Rightarrow> bool" where
  "explained log \<longleftrightarrow>
     (\<forall>k c. SenderDropped k c \<in> set log \<longrightarrow>
        SenderDropped ReservedSender c \<in> set log \<and> Acknowledged c (Some Cancelled) \<in> set log)"

lemma no_drop_explained: "no_drop log \<Longrightarrow> explained log"
  by (fastforce simp: no_drop_def explained_def)

lemma explained_append: "explained log \<Longrightarrow> explained log' \<Longrightarrow> explained (log @ log')"
  by (auto simp: explained_def)

lemma admit_explained: "admit_generation_command nt c slots = (log, slots', x) \<Longrightarrow> explained log"
  by (auto simp: admit_generation_command_def explained_def Let_def
           split: command.splits option.splits if_splits)

definition log_explained :: "('f, 'm, 'p, 's) worker \<Rightarrow> ('f, 'm, 'p, 's) worker \<Rightarrow> bool" where
  "log_explained w w' \<longleftrightarrow> (\<exists>log. w_log w' = w_log w @ log \<and> explained log)"

lemma log_explained_refl [simp]: "log_explained w w"
  by (simp add: log_explained_def explained_def)

lemma log_explained_trans [trans]: "log_explained w w' \<Longrightarrow> log_explained w' w'' \<Longrightarrow> log_explained w w''"
  by (auto simp: log_explained_def explained_append)

lemma log_explained_with_slots: "explained log \<Longrightarrow> log_explained w (with_slots (log, slots) w)"
  by (auto simp: log_explained_def with_slots_def logged_def)

lemma log_explained_fields [simp]:
  "log_explained w (w'\<lparr>w_prefill_cursor := p\<rparr>) = log_explained w w'"
  "log_explained w (w'\<lparr>w_cache := k\<rparr>) = log_explained w w'"
  "log_explained w (w'\<lparr>w_media_prefilled := b\<rparr>) = log_explained w w'"
  "log_explained w (w'\<lparr>w_slots := s\<rparr>) = log_explained w w'"
  "log_explained w (w'\<lparr>w_pending := c\<rparr>) = log_explained w w'"
  "log_explained w (w'\<lparr>w_commands := cs\<rparr>) = log_explained w w'"
  "log_explained w (w'\<lparr>w_controls := cc\<rparr>) = log_explained w w'"
  by (simp_all add: log_explained_def)

lemma observe_log_explained: "log_explained w (with_slots (observe_cancellations (w_slots w')) w)"
proof -
  obtain log slots where o: "observe_cancellations (w_slots w') = (log, slots)" by fastforce
  show ?thesis unfolding o by (rule log_explained_with_slots [OF no_drop_explained [OF observe_no_drop [OF o]]])
qed

lemma tick_drain_explained: "log_explained w (fst (tick_drain nt w))"
proof -
  obtain l1 s1 where c: "poll_reasoning_controls nt (w_controls w) (w_slots w) = (l1, s1)" by fastforce
  let ?w1 = "with_slots (l1, s1) (w\<lparr>w_controls := []\<rparr>)"
  let ?w2 = "with_slots (observe_cancellations (w_slots ?w1)) ?w1"
  let ?w3 = "?w2\<lparr>w_slots := flush_active_content (w_slots ?w2)\<rparr>"
  let ?w4 = "with_slots (observe_cancellations (w_slots ?w3)) ?w3"
  obtain l s e where f: "finalize_draining_slots nt (w_slots ?w4) = (l, s, e)" by (metis prod_cases3)
  have "log_explained w (w\<lparr>w_controls := []\<rparr>)" by simp
  also have "log_explained (w\<lparr>w_controls := []\<rparr>) ?w1"
    by (rule log_explained_with_slots [OF no_drop_explained [OF controls_no_drop [OF c]]])
  also have "log_explained ?w1 ?w2" by (rule observe_log_explained)
  also have "log_explained ?w2 ?w3" by simp
  also have "log_explained ?w3 ?w4" by (rule observe_log_explained)
  also have "log_explained ?w4 (with_slots (l, s) ?w4)"
    using f unfolding finalize_draining_slots_def
    by (intro log_explained_with_slots no_drop_explained) (rule finalize_from_no_drop)
  finally show ?thesis using f unfolding tick_drain_def Let_def c by (simp only: prod.case fst_conv)
qed

lemma tick_poll_explained:
  assumes "tick_poll nt cfg w = (w', Inr b)"
  shows "log_explained w w'"
proof -
  obtain l s k x where p: "poll_generation_decisions nt cfg (w_media_prefilled w) (w_slots w) (w_cache w)
      = (l, s, k, x)" by (metis prod_cases4)
  with assms have w': "w' = with_slots (l, s) (w\<lparr>w_cache := k\<rparr>)" "x = Inr b"
    by (simp_all add: tick_poll_def)
  have "no_drop l"
    using p w'(2) by (auto simp: poll_generation_decisions_def dest: poll_from_no_drop split: option.splits)
  from log_explained_with_slots [OF no_drop_explained [OF this], of "w\<lparr>w_cache := k\<rparr>" s]
  show ?thesis unfolding w'(1) by (simp add: log_explained_def)
qed

lemma tick_receive_explained: "log_explained w (fst (tick_receive w))"
  by (auto simp: tick_receive_def split: option.split list.split)

lemma tick_admit_explained: "log_explained w (fst (tick_admit nt w))"
proof (cases "w_pending w")
  case (Some c)
  obtain l s x where a: "admit_generation_command nt c (w_slots w) = (l, s, x)" by (metis prod_cases3)
  from log_explained_with_slots [OF admit_explained [OF a], of "w\<lparr>w_pending := None\<rparr>" s]
  have "log_explained w (with_slots (l, s) (w\<lparr>w_pending := None\<rparr>))" by (simp add: log_explained_def)
  with Some a show ?thesis by (cases x) (simp_all add: tick_admit_def Let_def)
qed (simp add: tick_admit_def)

lemma written_slots_no_drop [simp]: "no_drop (written_slots plan)"
  by (auto simp: written_slots_def no_drop_def)

lemma tick_decode_explained:
  assumes "tick_decode nt cfg w = (w', None)"
  shows "log_explained w w'"
proof (cases "plan_batch (w_slots w) (unat (rc_batch_size (wc_runtime cfg))) (w_prefill_cursor w)")
  case None
  with assms show ?thesis by (simp add: tick_decode_def)
next
  case (Some plan)
  let ?w2 = "logged (written_slots plan) (w\<lparr>w_prefill_cursor := bp_next_prefill_slot plan\<rparr>)"
  have 2: "log_explained w ?w2"
    by (auto simp: log_explained_def logged_def intro: no_drop_explained)
  obtain l s k e where ap: "apply_decoded_batch nt plan (w_slots ?w2) (w_cache ?w2) = (l, s, k, e)"
    by (metis prod_cases4)
  let ?w3 = "?w2\<lparr>w_cache := k, w_media_prefilled := (if e = None then False else w_media_prefilled ?w2)\<rparr>"
  show ?thesis
  proof (cases "bp_entries plan = []")
    case True
    with assms Some show ?thesis by (auto simp: tick_decode_def Let_def)
  next
    case False
    with assms Some ap have w': "w' = with_slots (l, s) ?w3" "e = None"
      by (auto simp: tick_decode_def Let_def split: option.splits)
    note 2
    also have "log_explained ?w2 ?w3" by simp
    also have "log_explained ?w3 w'" unfolding w'(1)
      using apply_decoded_batch_no_drop [OF ap [unfolded w'(2)]]
      by (intro log_explained_with_slots no_drop_explained)
    finally show ?thesis .
  qed
qed

lemma generation_tick_explained:
  assumes "generation_tick nt cfg w = (w', x)" and "\<nexists>e. x = TickError e"
  shows "log_explained w w'"
proof -
  obtain w1 e1 where d: "tick_drain nt w = (w1, e1)" by fastforce
  obtain w2 x2 where p: "tick_poll nt cfg w1 = (w2, x2)" by fastforce
  obtain w3 b3 where r: "tick_receive w2 = (w3, b3)" by fastforce
  obtain w4 b4 where a: "tick_admit nt w3 = (w4, b4)" by fastforce
  obtain w5 e5 where c: "tick_decode nt cfg w4 = (w5, e5)" by fastforce
  have "e1 = None" using assms d by (auto simp: generation_tick_def split: option.splits)
  then obtain b2 where b2: "x2 = Inr b2"
    using assms d p by (cases x2) (auto simp: generation_tick_def)
  have k1: "log_explained w w1" using tick_drain_explained [of w nt] d by simp
  also have "log_explained w1 w2" using p b2 by (intro tick_poll_explained) simp
  finally have k2: "log_explained w w2" .
  also have "log_explained w2 w3" using tick_receive_explained [of w2] r by simp
  finally have k3: "log_explained w w3" .
  also have "log_explained w3 w4" using tick_admit_explained [of w3 nt] a by simp
  finally have k4: "log_explained w w4" .
  have k5: "log_explained w w5" if "e5 = None"
    using log_explained_trans [OF k4 tick_decode_explained] c that by simp
  show ?thesis using assms d p r a c k2 k3 k4 k5 b2 \<open>e1 = None\<close>
    by (auto simp: generation_tick_def split: option.splits bool.splits)
qed

lemma reachable_explained: "reachable cfg w \<Longrightarrow> \<not> w_stopped w \<Longrightarrow> explained (w_log w)"
proof (induction rule: reachable.induct)
  case start
  show ?case by (simp add: initial_worker_def explained_def)
next
  case (turn w nt)
  obtain w1 x where t: "generation_tick nt cfg w = (w1, x)" by fastforce
  with turn.prems have x: "x = Continue"
    by (cases x) (auto simp: worker_turn_def shutdown_worker_def fatal_generation_worker_def Let_def
        stop_worker_keeps_account(3) split: prod.splits)
  with t turn.prems have run: "\<not> w_stopped (await_command w1)" "worker_turn nt cfg w = await_command w1"
    by (simp_all add: worker_turn_def)
  have "w_log (await_command w1) = w_log w1"
    using run(1) by (auto simp: await_command_def stop_worker_keeps_account(3) split: list.splits if_splits)
  with run(2) generation_tick_explained [OF t] x turn.IH turn.hyps(2) show ?case
    by (auto simp: log_explained_def explained_append)
next
  case (client w x)
  have "w_log (client_step x w) = w_log w" by (cases x) (simp_all add: change_slot_def)
  with client client_step_stopped [of x w] show ?case by simp
qed

text \<open>C11. As long as the worker has not stopped, no sender has been dropped unused, except those of
  reservations that were refused because they were cancelled or abandoned before a slot was given to
  them, and these were acknowledged as cancelled. So a client whose reservation was granted cannot
  find its channels closed while the worker runs.\<close>

theorem running_worker_drops_nobody:
  assumes "reachable cfg w" and "\<not> w_stopped w" and "SenderDropped k c \<in> set (w_log w)"
  shows "SenderDropped ReservedSender c \<in> set (w_log w) \<and> Acknowledged c (Some Cancelled) \<in> set (w_log w)"
  using reachable_explained [OF assms(1,2)] assms(3) by (auto simp: explained_def)

section \<open>Three replies that go wrong\<close>

lemma shutdown_unfold:
  assumes "cancel_all_slots (w_slots w) = (l1, s1)" and "finalize_draining_slots nt s1 = (l2, s2, None)"
    and "on_slots drop_slot s2 = (l3, s3)"
    and "w_pending w = None" and "w_commands w = []" and "w_controls w = []"
  shows "w_log (shutdown_worker nt w) = w_log w @ l1 @ l2 @ l3
     \<and> w_healthy (shutdown_worker nt w) = w_healthy w \<and> w_stopped (shutdown_worker nt w)"
  using assms by (simp add: shutdown_worker_def stop_worker_def with_slots_def logged_def Let_def)

text \<open>C12. An orderly shutdown does not finish a generation that still has two or more parsed deltas to
  deliver: cancelling turns the slot into a draining one but keeps the deltas, finalising clears the
  pending tokens and content of a cancelled slot but not its deltas, one delta is sent, the slot
  counts as not yet flushed, and the worker returns with the slot unfinished. Its client gets no
  terminal reply and no acknowledgement, although the worker is healthy and no error occurred.\<close>

theorem shutdown_forgets_pending_deltas:
  assumes "w_slots w = [Active a]" and "a_pending_semantic a = d1 # d2 # ds"
    and "lc_events (a_lifecycle a) = Some ch" and "\<not> ch_closed ch"
    and "length (ch_queue ch) < ch_capacity ch" and "lc_terminal (a_lifecycle a)"
    and "w_pending w = None" and "w_commands w = []" and "w_controls w = []"
  shows "w_log (shutdown_worker nt w) = w_log w @ drop_senders (a_lifecycle a)
    \<and> SenderDropped TerminalSender (lc_client (a_lifecycle a)) \<in> set (w_log (shutdown_worker nt w))
    \<and> w_healthy (shutdown_worker nt w) = w_healthy w \<and> w_stopped (shutdown_worker nt w)"
proof -
  let ?lc = "(a_lifecycle a)\<lparr>lc_cancelled := True\<rparr>"
  let ?d = "\<lparr>d_lifecycle = ?lc, d_pending_tokens = a_pending_tokens a,
      d_pending_content = a_pending_content a, d_pending_semantic = d1 # d2 # ds,
      d_outcome = Inl Cancelled\<rparr>"
  have 1: "cancel_all_slots (w_slots w) = ([], [Draining ?d])"
    using assms(1,2)
    by (simp add: cancel_all_slots_def observe_cancellations_def on_slots_def set_cancelled_def
          observe_slot_def fail_active_def drained_def)
  let ?lc' = "set_channel (ch\<lparr>ch_queue := ch_queue ch @ [Semantic d1]\<rparr>) ?lc"
  let ?d' = "\<lparr>d_lifecycle = ?lc', d_pending_tokens = [], d_pending_content = None,
      d_pending_semantic = d2 # ds, d_outcome = Inl Cancelled\<rparr>"
  have 2: "finalize_draining_slots nt [Draining ?d] = ([], [Draining ?d'], None)"
    using assms(3-5)
    by (simp add: finalize_draining_slots_def finalize_slot_def try_flush_draining_def try_send_def Let_def)
  have 3: "on_slots drop_slot [Draining ?d'] = (drop_senders (a_lifecycle a), [Vacant])"
    by (simp add: on_slots_def drop_slot_def drop_senders_def set_channel_def)
  from shutdown_unfold [OF 1 2 3 assms(7-9)] assms(6) show ?thesis
    by (simp add: drop_senders_def)
qed



section \<open>Witnesses\<close>

definition sample_native :: "(unit, unit, unit, unit) native" where
  "sample_native =
     \<lparr>nt_prepare = (\<lambda>_. Inr \<lparr>pr_tokens = [1, 2], pr_media = None, pr_semantic_parser = None,
        pr_parse_semantic = False, pr_preserved_tokens = [], pr_stops = [], pr_reasoning_active = False\<rparr>),
      nt_create_sampler = (\<lambda>_ _. Inr ()), nt_is_eog = (\<lambda>t. t = 2),
      nt_decode_piece = (\<lambda>m _ _. (ascii ''x'', m)), nt_sample = (\<lambda>m _ _. Inr (2, None, m)),
      nt_sample_media = (\<lambda>m _. Inr (2, None, m)), nt_parser_push = (\<lambda>p _. Inr ([], p)),
      nt_parser_finish = (\<lambda>p _. Inr ([], p)), nt_has_tool_calls = (\<lambda>_. True),
      nt_restore = (\<lambda>_ _. Some (Generation ''restore'')), nt_clear_sequence = (\<lambda>_. None),
      nt_capture = (\<lambda>_. None), nt_media_eval = (\<lambda>_. Inr 0), nt_decode = (\<lambda>_. None),
      nt_force_reasoning_end = (\<lambda>m. Inr (True, m)), nt_reserved_open = (\<lambda>_. True),
      nt_readiness_open = (\<lambda>_. True), nt_cancelled_meanwhile = (\<lambda>_. False),
      nt_count = (\<lambda>_. Inr 0), nt_elapsed = 1, nt_clear_all_panics = None\<rparr>"

definition sample_worker_config :: worker_config where
  "sample_worker_config =
     \<lparr>wc_runtime = sample_runtime, wc_template = \<lparr>et_engine = LlamaCpp, et_source = ''t'',
      et_enable_thinking = False\<rparr>, wc_n_ctx_train = 4096, wc_load_epoch = 0\<rparr>"

definition sample_request :: request where
  "sample_request = \<lparr>req_max_tokens = 4, req_top_logprobs = None, req_has_images = False,
                     req_raw_prompt = True\<rparr>"

definition sample_reservation :: "bool \<Rightarrow> nat \<Rightarrow> unit reservation" where
  "sample_reservation cancelled client =
     \<lparr>rs_client = client, rs_operation = None, rs_cancelled = cancelled,
      rs_events = \<lparr>ch_capacity = 4, ch_queue = [], ch_closed = False\<rparr>,
      rs_decision = PollCommit sample_request\<rparr>"

abbreviation sample_turn :: "(unit, unit, unit, unit) worker \<Rightarrow> (unit, unit, unit, unit) worker" where
  "sample_turn \<equiv> worker_turn sample_native sample_worker_config"

definition sample_start :: "(unit, unit, unit, unit) worker" where
  "sample_start =
     client_step (Submit (ReserveGeneration (sample_reservation True 8)))
       (client_step (Submit (ReserveGeneration (sample_reservation False 7)))
         (initial_worker sample_worker_config))"

lemma sample_start_reachable: "reachable sample_worker_config sample_start"
proof -
  have running: "\<not> w_stopped (initial_worker sample_worker_config :: (unit, unit, unit, unit) worker)"
    by (simp add: initial_worker_def)
  have one: "reachable sample_worker_config (client_step (Submit c)
      (initial_worker sample_worker_config :: (unit, unit, unit, unit) worker))" for c
    by (rule reachable.client [OF reachable.start running])
  show ?thesis unfolding sample_start_def
    by (rule reachable.client [OF one]) (use running in simp)
qed

lemma sample_start_runs: "\<not> w_stopped sample_start"
  by code_simp

text \<open>Two turns later client 7 is decoding and client 8, who had cancelled, has been refused; two more
  turns later client 7 has got its terminal reply and its slot is free again.\<close>

definition sample_two :: "(unit, unit, unit, unit) worker" where
  "sample_two = sample_turn (sample_turn sample_start)"

definition sample_done :: "(unit, unit, unit, unit) worker" where
  "sample_done = sample_turn (sample_turn sample_two)"

lemma sample_runs:
  "\<not> w_stopped (sample_turn sample_start)" "\<not> w_stopped sample_two"
  "\<not> w_stopped (sample_turn sample_two)" "\<not> w_stopped sample_done"
  by code_simp+

lemma sample_two_reachable: "reachable sample_worker_config sample_two"
  unfolding sample_two_def
  by (rule reachable.turn [OF reachable.turn [OF sample_start_reachable sample_start_runs] sample_runs(1)])

lemma sample_done_reachable: "reachable sample_worker_config sample_done"
  unfolding sample_done_def
  by (rule reachable.turn [OF reachable.turn [OF sample_two_reachable sample_runs(2)] sample_runs(3)])

lemma sample_two_log:
  "w_log sample_two = [ReservedReply 7 None, Readiness 7 None, SenderDropped ReservedSender 8,
     Acknowledged 8 (Some Cancelled), SenderDropped ReadinessSender 8, SenderDropped TerminalSender 8,
     SequenceWritten 0]"
  by code_simp

lemma sample_done_submitted:
  "w_submitted sample_done = command_senders (ReserveGeneration (sample_reservation False 7))
     + command_senders (ReserveGeneration (sample_reservation True 8))"
  by code_simp

lemma sample_done_written: "SequenceWritten 0 \<in> set (w_log sample_done)"
  by code_simp

lemma sample_done_slots: "map is_vacant (w_slots sample_done) = [True, True, True]"
  by code_simp


theorem running_worker_drops_nobody_witness:
  "SenderDropped TerminalSender 8 \<in> set (w_log sample_two) \<and> Acknowledged 8 (Some Cancelled) \<in> set (w_log sample_two)"
  using running_worker_drops_nobody [OF sample_two_reachable sample_runs(2), of TerminalSender 8]
  by (simp add: sample_two_log)

definition sample_lifecycle :: "unit lifecycle" where
  "sample_lifecycle = fresh_lifecycle 7 4"

definition sample_busy :: "(unit, unit, unit) active_slot" where
  "sample_busy = fresh_active sample_worker_config sample_lifecycle sample_request
     \<lparr>pr_tokens = [1, 2], pr_media = None, pr_semantic_parser = Some (),
      pr_parse_semantic = True, pr_preserved_tokens = [], pr_stops = [], pr_reasoning_active = False\<rparr> 0 ()"

theorem shutdown_forgets_pending_deltas_witness:
  "SenderDropped TerminalSender 7 \<in> set (w_log (shutdown_worker sample_native
     ((initial_worker sample_worker_config)\<lparr>w_slots := [Active (sample_busy\<lparr>a_pending_semantic :=
        [Text (ascii ''a''), Text (ascii ''b'')]\<rparr>)]\<rparr>)))"
  (is "_ \<in> set (w_log (shutdown_worker _ ?w))")
proof -
  let ?a = "sample_busy\<lparr>a_pending_semantic := [Text (ascii ''a''), Text (ascii ''b'')]\<rparr>"
  have "w_slots ?w = [Active ?a]" "a_pending_semantic ?a = [Text (ascii ''a''), Text (ascii ''b'')]"
    "lc_events (a_lifecycle ?a) = Some (open_channel 4)" "\<not> ch_closed (open_channel 4)"
    "length (ch_queue (open_channel 4)) < ch_capacity (open_channel 4)" "lc_terminal (a_lifecycle ?a)"
    "w_pending ?w = None" "w_commands ?w = []" "w_controls ?w = []"
    "lc_client (a_lifecycle ?a) = 7"
    by (simp_all add: sample_busy_def fresh_active_def sample_lifecycle_def fresh_lifecycle_def
          initial_worker_def open_channel_def)
  from shutdown_forgets_pending_deltas [OF this(1-9), of sample_native] this(10)
  show ?thesis by metis
qed

definition sample_broken_native :: "(unit, unit, unit, unit) native" where
  "sample_broken_native = sample_native\<lparr>nt_clear_sequence := (\<lambda>_. Some (Generation ''clear''))\<rparr>"

definition sample_cached :: "unit prefix_cache" where
  "sample_cached = \<lparr>pc_config = default_prompt_cache_config, pc_entries =
     [\<lparr>e_compatibility = raw_key 0, e_tokens = [1], e_state = (), e_bytes = 8, e_last_used = 1\<rparr>],
     pc_bytes = 8, pc_clock = 1, pc_enabled = True\<rparr>"



end
