(* ===== verification/Sequence_Hygiene.thy ===== *)
theory Sequence_Hygiene
  imports Worker
begin

text \<open>
  The native KV sequences of the slots. The log of the worker records when a slot's sequence is
  written (a restored prefix, a media prefill, a decoded batch) and when it is cleared; this theory
  shows that a slot that is free or merely reserved always has a clean sequence, so no request is
  evaluated on top of another request's cells.
\<close>

section \<open>A slot is given away with a clean sequence\<close>

fun touches :: "'f reply \<Rightarrow> nat option" where
  "touches (SequenceWritten i) = Some i"
| "touches (SequenceCleared i) = Some i"
| "touches _ = None"

definition touch :: "nat \<Rightarrow> 'f reply \<Rightarrow> bool \<Rightarrow> bool" where
  "touch i r b = (if touches r = Some i then (case r of SequenceWritten _ \<Rightarrow> True | _ \<Rightarrow> False) else b)"

definition dirty_after :: "nat \<Rightarrow> 'f reply list \<Rightarrow> bool \<Rightarrow> bool" where
  "dirty_after i log b = fold (touch i) log b"

definition dirty :: "nat \<Rightarrow> 'f reply list \<Rightarrow> bool" where
  "dirty i log \<longleftrightarrow> dirty_after i log False"

definition idle :: "('f, 'm, 'p) slot_state \<Rightarrow> bool" where
  "idle s \<longleftrightarrow> (case s of Vacant \<Rightarrow> True | Reserved _ \<Rightarrow> True | _ \<Rightarrow> False)"

lemma idle_simps [simp]: "idle Vacant" "idle (Reserved r)" "\<not> idle (Active a)" "\<not> idle (Draining d)"
  by (simp_all add: idle_def)

lemma dirty_after_simps [simp]:
  "dirty_after i [] b = b" "dirty_after i (r # log) b = dirty_after i log (touch i r b)"
  "dirty_after i (log @ log') b = dirty_after i log' (dirty_after i log b)"
  by (simp_all add: dirty_after_def)

lemma dirty_after_mono: "dirty_after i log False \<Longrightarrow> dirty_after i log b"
proof (induction log arbitrary: b)
  case (Cons r log)
  then show ?case by (cases "touches r = Some i"; cases b) (simp_all add: touch_def)
qed simp

lemma dirty_after_quiet: "\<forall>r \<in> set log. touches r \<noteq> Some i \<Longrightarrow> dirty_after i log b = b"
  by (induction log) (simp_all add: touch_def)

text \<open>A step on slots \<open>n, n + 1, \<dots>\<close> keeps sequences clean: a slot that is idle afterwards was idle and
  untouched, or its sequence was cleared last.\<close>

definition clean_from :: "nat \<Rightarrow> ('f, 'm, 'p) slot_state list \<Rightarrow> 'f reply list \<Rightarrow> ('f, 'm, 'p) slot_state list \<Rightarrow> bool" where
  "clean_from n slots log slots' \<longleftrightarrow> length slots' = length slots
     \<and> (\<forall>j < length slots. idle (slots' ! j) \<longrightarrow> \<not> dirty_after (n + j) log (\<not> idle (slots ! j)))"

abbreviation clean_step :: "('f, 'm, 'p) slot_state list \<Rightarrow> 'f reply list \<Rightarrow> ('f, 'm, 'p) slot_state list \<Rightarrow> bool" where
  "clean_step \<equiv> clean_from 0"

lemma clean_step_trans:
  assumes "clean_step s1 l1 s2" and "clean_step s2 l2 s3"
  shows "clean_step s1 (l1 @ l2) s3"
  unfolding clean_from_def
proof (intro conjI allI impI)
  show "length s3 = length s1" using assms by (simp add: clean_from_def)
  fix j assume j: "j < length s1" and i3: "idle (s3 ! j)"
  have 2: "\<not> dirty_after j l2 (\<not> idle (s2 ! j))" using assms j i3 by (simp add: clean_from_def)
  have 1: "idle (s2 ! j) \<Longrightarrow> \<not> dirty_after j l1 (\<not> idle (s1 ! j))" using assms(1) j by (simp add: clean_from_def)
  show "\<not> dirty_after (0 + j) (l1 @ l2) (\<not> idle (s1 ! j))"
  proof (cases "idle (s2 ! j)")
    case True
    with 1 2 show ?thesis by simp
  next
    case False
    with 2 have "\<not> dirty_after j l2 b" for b using dirty_after_mono [of j l2] by (cases b) auto
    then show ?thesis by simp
  qed
qed

lemma clean_quiet:
  assumes "\<forall>r \<in> set log. touches r = None" and "length slots' = length slots"
    and "\<And>j. j < length slots \<Longrightarrow> idle (slots' ! j) \<Longrightarrow> idle (slots ! j)"
  shows "clean_from n slots log slots'"
proof -
  have "dirty_after i log b = b" for i b using assms(1) by (intro dirty_after_quiet) simp
  with assms(2,3) show ?thesis by (simp add: clean_from_def)
qed

lemma clean_Cons:
  assumes "clean_from n [s] l1 [s']" and "\<forall>r \<in> set l1. touches r \<in> {None, Some n}"
    and "clean_from (Suc n) ss l2 ss'" and "\<forall>r \<in> set l2. \<forall>i. touches r = Some i \<longrightarrow> n < i"
  shows "clean_from n (s # ss) (l1 @ l2) (s' # ss')"
  unfolding clean_from_def
proof (intro conjI allI impI)
  show "length (s' # ss') = length (s # ss)" using assms(3) by (simp add: clean_from_def)
  fix j assume j: "j < length (s # ss)" and idl: "idle ((s' # ss') ! j)"
  show "\<not> dirty_after (n + j) (l1 @ l2) (\<not> idle ((s # ss) ! j))"
  proof (cases j)
    case 0
    have "\<forall>r \<in> set l2. touches r \<noteq> Some n" using assms(4) by blast
    then have "dirty_after n l2 b = b" for b by (rule dirty_after_quiet)
    with assms(1) idl 0 show ?thesis by (simp add: clean_from_def)
  next
    case (Suc k)
    have "\<forall>r \<in> set l1. touches r \<noteq> Some (n + j)"
    proof
      fix r assume "r \<in> set l1"
      with assms(2) have "touches r = None \<or> touches r = Some n" by blast
      with Suc show "touches r \<noteq> Some (n + j)" by auto
    qed
    then have "dirty_after (n + j) l1 b = b" for b by (rule dirty_after_quiet)
    with assms(3) idl Suc j show ?thesis by (simp add: clean_from_def)
  qed
qed

text \<open>The operations.\<close>

lemma send_readiness_quiet: "send_readiness e lc = (log, lc') \<Longrightarrow> r \<in> set log \<Longrightarrow> touches r = None"
  by (auto simp: send_readiness_def split: if_splits)

lemma reject_reserved_quiet: "reject_reserved e lc = (log, s) \<Longrightarrow> r \<in> set log \<Longrightarrow> touches r = None"
  by (auto simp: reject_reserved_def dest: send_readiness_quiet split: prod.splits)

lemma reject_reserved_busy: "reject_reserved e lc = (log, s) \<Longrightarrow> \<not> idle s"
  by (auto simp: reject_reserved_def split: prod.splits)

lemma fail_active_busy [simp]: "\<not> idle (fail_active a e)"
  by (simp add: fail_active_def)

lemma observe_slot_clean:
  "observe_slot s = (log, s') \<Longrightarrow> (idle s' \<longrightarrow> idle s) \<and> (\<forall>r \<in> set log. touches r = None)"
  by (cases s)
     (auto simp: observe_slot_def dest: reject_reserved_quiet reject_reserved_busy split: if_splits)

lemma observe_clean: "observe_cancellations slots = (log, slots') \<Longrightarrow> clean_step slots log slots'"
proof -
  assume o: "observe_cancellations slots = (log, slots')"
  have one: "(idle (snd (observe_slot s)) \<longrightarrow> idle s) \<and> (\<forall>r \<in> set (fst (observe_slot s)). touches r = None)"
    for s :: "('a, 'b, 'c) slot_state" using observe_slot_clean [of s] by (metis prod.collapse)
  show ?thesis
    by (rule clean_quiet) (use o one in \<open>auto simp: observe_cancellations_def on_slots_def\<close>)
qed

lemma flush_clean: "clean_step slots [] (flush_active_content slots)"
proof (rule clean_quiet)
  fix j assume "j < length slots" "idle (flush_active_content slots ! j)"
  then show "idle (slots ! j)"
    by (cases "slots ! j") (auto simp: flush_active_content_def flush_slot_def split: prod.splits option.splits)
qed (simp_all add: flush_active_content_def)

lemma final_replies_quiet: "r \<in> set (final_replies d) \<Longrightarrow> touches r = None"
  by (auto simp: final_replies_def Let_def split: if_splits)

lemma finalize_slot_clean:
  assumes "finalize_slot clear n d = (log, s, e)"
  shows "clean_from n [Draining d] log [s]" "\<forall>r \<in> set log. touches r \<in> {None, Some n}"
proof -
  have quiet: "dirty_after n (final_replies d2) b = b" for b and d2 :: "'a draining_slot"
    by (rule dirty_after_quiet) (simp add: final_replies_quiet)
  show "clean_from n [Draining d] log [s]"
    using assms quiet
    by (auto simp: finalize_slot_def clean_from_def Let_def touch_def split: prod.splits bool.splits option.splits)
  show "\<forall>r \<in> set log. touches r \<in> {None, Some n}"
    using assms
    by (auto simp: finalize_slot_def Let_def dest: final_replies_quiet
             split: prod.splits bool.splits option.splits)
qed

lemma clean_same: "clean_from n slots [] slots"
  by (simp add: clean_from_def)

lemma finalize_from_clean:
  "finalize_from clear n slots = (log, slots', e) \<Longrightarrow>
   clean_from n slots log slots' \<and> (\<forall>r \<in> set log. \<forall>i. touches r = Some i \<longrightarrow> n \<le> i)"
proof (induction slots arbitrary: n log slots' e)
  case (Cons s ss)
  obtain l1 s1 e1 where one: "(case s of Draining d \<Rightarrow> finalize_slot clear n d | _ \<Rightarrow> ([], s, None)) = (l1, s1, e1)"
    by (metis prod_cases3)
  have c1: "clean_from n [s] l1 [s1] \<and> (\<forall>r \<in> set l1. touches r \<in> {None, Some n})"
  proof (cases s)
    case (Draining d)
    with one have "finalize_slot clear n d = (l1, s1, e1)" by simp
    from finalize_slot_clean [OF this] Draining show ?thesis by blast
  qed (use one clean_same [of n "[s]"] in auto)
  obtain l2 ss2 e2 where rest: "finalize_from clear (Suc n) ss = (l2, ss2, e2)" by (metis prod_cases3)
  note IH = Cons.IH [OF rest]
  have gt: "\<forall>r \<in> set l2. \<forall>i. touches r = Some i \<longrightarrow> n < i" using IH by auto
  show ?case
  proof (cases e1)
    case None
    with Cons.prems one rest have "log = l1 @ l2" "slots' = s1 # ss2" by simp_all
    with clean_Cons [of n s l1 s1 ss l2 ss2] c1 IH gt show ?thesis by fastforce
  next
    case (Some err)
    with Cons.prems one have "log = l1 @ []" "slots' = s1 # ss" by simp_all
    with clean_Cons [of n s l1 s1 ss "[]" ss] c1 clean_same [of "Suc n" ss] show ?thesis by fastforce
  qed
qed (simp add: clean_from_def)

lemma controls_clean:
  "poll_reasoning_controls nt cs slots = (log, slots') \<Longrightarrow> clean_step slots log slots'"
proof (induction cs arbitrary: slots log slots')
  case Nil
  then show ?case by (simp add: clean_same)
next
  case (Cons c cs)
  have force: "length ss' = length ss \<and> (\<forall>j < length ss. idle (ss' ! j) = idle (ss ! j))"
    if "force_reasoning_end nt op ss = (r, ss')" for op r and ss ss' :: "('a, 'b, 'c) slot_state list"
    using that
  proof (induction ss arbitrary: ss')
    case (Cons t ts)
    obtain r1 ts1 where rest: "force_reasoning_end nt op ts = (r1, ts1)" by fastforce
    from Cons.IH [of ts1] Cons.prems rest show ?case
      by (cases t) (auto simp: nth_Cons' split: if_splits sum.splits)
  qed simp
  obtain r1 s1 where one: "(if ct_pending c then force_reasoning_end nt (ct_operation c) slots
      else (Inr NotFound, slots)) = (r1, s1)" by fastforce
  have s1: "length s1 = length slots" "\<forall>j < length slots. idle (s1 ! j) = idle (slots ! j)"
    using one force [of "ct_operation c" slots r1 s1] by (auto split: if_splits)
  have c1: "clean_step slots [Controlled (ct_client c) r1] s1"
    by (rule clean_quiet) (use s1 in auto)
  obtain l2 s2 where rest: "poll_reasoning_controls nt cs s1 = (l2, s2)" by fastforce
  from Cons.prems one rest have "log = [Controlled (ct_client c) r1] @ l2" "slots' = s2"
    by (simp_all del: if_split)
  with clean_step_trans [OF c1 Cons.IH [OF rest]] show ?case by simp
qed

lemma announce_quiet: "announce nt a = (log, a', b) \<Longrightarrow> r \<in> set log \<Longrightarrow> touches r = None"
  by (auto simp: announce_def dest: send_readiness_quiet split: prod.splits)

lemma activate_text_clean:
  "activate_text nt a cache = (log, s) \<Longrightarrow> \<not> idle s \<and> (\<forall>r \<in> set log. touches r = None)"
  by (auto simp: activate_text_def Let_def dest: announce_quiet split: prod.splits bool.splits)

lemma finish_media_clean:
  "finish_media a r = (log, s, x) \<Longrightarrow> (\<nexists>e. x = PollError e) \<Longrightarrow> \<not> idle s \<and> log = []"
  by (auto simp: finish_media_def split: option.splits)

lemma activate_media_clean:
  "activate_media nt n p a = (log, s, x) \<Longrightarrow> (\<nexists>e. x = PollError e) \<Longrightarrow>
   \<not> idle s \<and> (\<forall>r \<in> set log. touches r \<in> {None, Some n})"
  by (auto simp: activate_media_def Let_def dest: announce_quiet dest!: finish_media_clean
           split: if_splits sum.splits prod.splits accepted.splits option.splits bool.splits)

lemma restore_prefix_touches:
  "restore_prefix nt cfg n req toks cache = (log, cache', r) \<Longrightarrow> x \<in> set log \<Longrightarrow> touches x = Some n"
  by (auto simp: restore_prefix_def split: if_splits prod.splits option.splits)

lemma activate_request_clean:
  "activate_request nt cfg n lc req cache = (log, s, cache', x) \<Longrightarrow> (\<nexists>e. x = PollError e) \<Longrightarrow>
   \<not> idle s \<and> (\<forall>r \<in> set log. touches r \<in> {None, Some n})"
  by (auto simp: activate_request_def Let_def
           dest: reject_reserved_quiet reject_reserved_busy restore_prefix_touches
           dest!: activate_text_clean activate_media_clean
           split: if_splits sum.splits prod.splits option.splits)

lemma poll_reserved_clean:
  "poll_reserved nt cfg ml ord n r cache = (log, s, cache', x) \<Longrightarrow> (\<nexists>e. x = PollError e) \<Longrightarrow>
   (idle s \<longrightarrow> log = []) \<and> (\<forall>y \<in> set log. touches y \<in> {None, Some n})"
  by (auto simp: poll_reserved_def dest: reject_reserved_quiet reject_reserved_busy
           dest!: activate_request_clean
           split: decision_poll.splits if_splits prod.splits)

lemma poll_from_clean:
  "poll_from nt cfg ml ord n slots cache = (log, slots', cache', Inr b) \<Longrightarrow>
   clean_from n slots log slots' \<and> (\<forall>r \<in> set log. \<forall>i. touches r = Some i \<longrightarrow> n \<le> i)"
proof (induction slots arbitrary: n cache log slots' cache' b)
  case (Cons s ss)
  obtain l1 s1 k1 x1 where one: "(case s of Reserved r \<Rightarrow> poll_reserved nt cfg ml ord n r cache
      | _ \<Rightarrow> ([], s, cache, PollNext)) = (l1, s1, k1, x1)" by (metis prod_cases4)
  have c1: "clean_from n [s] l1 [s1] \<and> (\<forall>r \<in> set l1. touches r \<in> {None, Some n})"
    if "\<nexists>e. x1 = PollError e"
  proof (cases s)
    case (Reserved r)
    with one have "poll_reserved nt cfg ml ord n r cache = (l1, s1, k1, x1)" by simp
    from poll_reserved_clean [OF this that] Reserved show ?thesis by (auto simp: clean_from_def)
  qed (use one clean_same [of n "[s]"] in auto)
  obtain l2 ss2 k2 x2 where rest: "poll_from nt cfg ml ord (Suc n) ss k1 = (l2, ss2, k2, x2)"
    by (metis prod_cases4)
  show ?case
  proof (cases x1)
    case PollNext
    with Cons.prems one rest have eq: "log = l1 @ l2" "slots' = s1 # ss2" "x2 = Inr b" by simp_all
    note IH = Cons.IH [OF rest [unfolded eq(3)]]
    have gt: "\<forall>r \<in> set l2. \<forall>i. touches r = Some i \<longrightarrow> n < i" using IH by auto
    show ?thesis using clean_Cons [of n s l1 s1 ss l2 ss2] c1 PollNext IH gt eq by fastforce
  next
    case PollMedia
    with Cons.prems one have "log = l1 @ []" "slots' = s1 # ss" by simp_all
    with clean_Cons [of n s l1 s1 ss "[]" ss] c1 PollMedia clean_same [of "Suc n" ss] show ?thesis by fastforce
  next
    case (PollError e)
    with Cons.prems one show ?thesis by simp
  qed
qed (simp add: clean_from_def)

lemma admit_clean:
  assumes "admit_generation_command nt c slots = (log, slots', x)"
  shows "clean_step slots log slots'"
proof (cases c)
  case (ReserveGeneration r)
  show ?thesis
  proof (cases "position is_vacant slots")
    case (Some i)
    have vac: "i < length slots" "idle (slots ! i)"
      using position_less [OF Some] by (auto simp: is_vacant_def idle_def split: slot_state.splits)
    show ?thesis
      by (rule clean_quiet)
         (use assms ReserveGeneration Some vac in
           \<open>auto simp: admit_generation_command_def nth_list_update split: if_splits\<close>)
  qed (use assms ReserveGeneration clean_same in \<open>auto simp: admit_generation_command_def\<close>)
qed (rule clean_quiet; use assms in \<open>auto simp: admit_generation_command_def Let_def split: if_splits\<close>)+

text \<open>Applying a batch never makes a slot idle.\<close>

lemma drain_finished_busy: "drain_finished nt a reason = Some s \<Longrightarrow> \<not> idle s"
  by (auto simp: drain_finished_def Let_def split: option.splits sum.splits)

definition busy_kept :: "('f, 'm, 'p) slot_state list \<Rightarrow> ('f, 'm, 'p) slot_state list \<Rightarrow> bool" where
  "busy_kept slots slots' \<longleftrightarrow> length slots' = length slots
     \<and> (\<forall>j < length slots. idle (slots' ! j) \<longrightarrow> idle (slots ! j))"

lemma busy_kept_refl [simp]: "busy_kept slots slots"
  by (simp add: busy_kept_def)

lemma busy_kept_trans [trans]: "busy_kept s1 s2 \<Longrightarrow> busy_kept s2 s3 \<Longrightarrow> busy_kept s1 s3"
  by (simp add: busy_kept_def)

lemma busy_kept_update: "\<not> idle s \<Longrightarrow> busy_kept slots (slots[i := s])"
  by (simp add: busy_kept_def) (metis nth_list_update_eq nth_list_update_neq)

lemma drain_finished_slot_quiet:
  assumes "drain_finished_slot nt i r slots = (log, slots', None)" and "\<exists>a. slots ! i = Active a"
  shows "log = [] \<and> busy_kept slots slots'"
proof -
  obtain a where a: "slots ! i = Active a" using assms(2) by blast
  with assms(1) obtain s where "drain_finished nt a r = Some s" "log = []" "slots' = slots[i := s]"
    by (auto simp: drain_finished_slot_def split: option.splits)
  with busy_kept_update [OF drain_finished_busy] show ?thesis by blast
qed

lemma sample_slot_quiet:
  assumes "sample_slot nt raw i slots = (log, slots', None)" and i: "i < length slots"
  shows "log = [] \<and> busy_kept slots slots'"
proof (cases "slots ! i")
  case (Active a)
  show ?thesis
  proof (cases "lc_cancelled (a_lifecycle a)")
    case False
    show ?thesis
    proof (cases "nt_sample nt (a_sampler a) raw (req_top_logprobs (a_request a))")
      case (Inl e)
      with assms Active False busy_kept_update [of "fail_active a e" slots i] show ?thesis
        by (auto simp: sample_slot_def)
    next
      case (Inr t)
      obtain token lp m where t: "t = (token, lp, m)" by (cases t) auto
      obtain r a' where acc: "accept_sampled_token nt token lp (a\<lparr>a_sampler := m\<rparr>) = (r, a')" by fastforce
      have up: "busy_kept slots (slots[i := Active a'])" by (rule busy_kept_update) simp
      show ?thesis
      proof (cases "\<exists>reason. r = Accepted (Some reason)")
        case True
        then obtain reason where r: "r = Accepted (Some reason)" by blast
        have "drain_finished_slot nt i reason (slots[i := Active a']) = (log, slots', None)"
          using assms Active False Inr t acc r by (simp add: sample_slot_def)
        from drain_finished_slot_quiet [OF this] i busy_kept_trans [OF up] show ?thesis by simp
      next
        case no: False
        show ?thesis
        proof (cases r)
          case (Accepted x)
          with no have "x = None" by (cases x) auto
          with assms Active False Inr t acc Accepted up show ?thesis by (auto simp: sample_slot_def)
        next
          case (AcceptError e)
          with assms Active False Inr t acc busy_kept_update [of "fail_active a' e" slots i]
          show ?thesis by (auto simp: sample_slot_def)
        next
          case AcceptPanic
          with assms Active False Inr t acc show ?thesis by (auto simp: sample_slot_def)
        qed
      qed
    qed
  qed (use assms Active in \<open>auto simp: sample_slot_def\<close>)
qed (use assms in \<open>auto simp: sample_slot_def\<close>)

lemma sample_targets_quiet:
  "sample_targets nt ts slots = (log, slots', None) \<Longrightarrow> \<forall>(raw, i) \<in> set ts. i < length slots \<Longrightarrow>
   log = [] \<and> busy_kept slots slots'"
proof (induction ts arbitrary: slots log slots')
  case (Cons t ts)
  obtain raw i where t: "t = (raw, i)" by fastforce
  obtain l1 s1 e1 where one: "sample_slot nt raw i slots = (l1, s1, e1)" by (metis prod_cases3)
  obtain l2 s2 e2 where rest: "sample_targets nt ts s1 = (l2, s2, e2)" by (metis prod_cases3)
  have "e1 = None" using Cons.prems(1) t one by (cases e1) simp_all
  with Cons.prems(1) t one rest have eq: "log = l1 @ l2" "slots' = s2" "e2 = None" by simp_all
  have b1: "l1 = [] \<and> busy_kept slots s1"
    using sample_slot_quiet [of nt raw i slots l1 s1] one \<open>e1 = None\<close> Cons.prems(2) t by simp
  then have "length s1 = length slots" by (simp add: busy_kept_def)
  then have "l2 = [] \<and> busy_kept s1 s2"
    using Cons.IH [OF rest [unfolded eq(3)]] Cons.prems(2) by simp
  with b1 eq busy_kept_trans [of slots s1 s2] show ?case by simp
qed simp

lemma drain_all_quiet:
  "drain_all nt is slots = (log, slots', None) \<Longrightarrow> distinct is \<Longrightarrow>
   \<forall>i \<in> set is. i < length slots \<and> (\<exists>a. slots ! i = Active a) \<Longrightarrow> log = [] \<and> busy_kept slots slots'"
proof (induction "is" arbitrary: slots log slots')
  case (Cons i "is")
  obtain l1 s1 e1 where one: "drain_finished_slot nt i Length slots = (l1, s1, e1)" by (metis prod_cases3)
  obtain l2 s2 e2 where rest: "drain_all nt is s1 = (l2, s2, e2)" by (metis prod_cases3)
  have "e1 = None" using Cons.prems(1) one by (cases e1) simp_all
  with Cons.prems(1) one rest have eq: "log = l1 @ l2" "slots' = s2" "e2 = None" by simp_all
  have b1: "l1 = [] \<and> busy_kept slots s1"
    using drain_finished_slot_quiet [of nt i Length slots l1 s1] one \<open>e1 = None\<close> Cons.prems(3) by simp
  have other: "s1 ! j = slots ! j" if "j \<noteq> i" for j
    using one Cons.prems(3) that by (auto simp: drain_finished_slot_def split: option.splits slot_state.splits)
  have "l2 = [] \<and> busy_kept s1 s2"
  proof (rule Cons.IH [OF rest [unfolded eq(3)]])
    show "\<forall>j \<in> set is. j < length s1 \<and> (\<exists>a. s1 ! j = Active a)"
    proof
      fix j assume j: "j \<in> set is"
      with Cons.prems(2) have "j \<noteq> i" by auto
      with other [of j] Cons.prems(3) j b1 show "j < length s1 \<and> (\<exists>a. s1 ! j = Active a)"
        by (auto simp: busy_kept_def)
    qed
  qed (use Cons.prems(2) in simp)
  with b1 eq busy_kept_trans [of slots s1 s2] show ?case by simp
qed simp

lemma apply_entry_busy: "busy_kept slots (apply_entry e slots)"
  by (cases "slots ! be_slot e") (simp_all add: apply_entry_def busy_kept_update)

lemma fold_apply_entry_busy: "busy_kept slots (fold apply_entry es slots)"
proof (induction es arbitrary: slots)
  case (Cons e es)
  show ?case using busy_kept_trans [OF apply_entry_busy Cons.IH] by simp
qed simp

lemma charge_slot_idle: "idle (charge_slot n es i s) = idle s"
  by (cases s) (simp_all add: charge_slot_def)

lemma apply_entries_busy: "apply_entries n es slots = Some slots' \<Longrightarrow> busy_kept slots slots'"
  using fold_apply_entry_busy [of slots es]
  by (auto simp: apply_entries_def busy_kept_def Let_def charge_slot_idle nth_enumerate_eq split: if_splits)

lemma clear_capture_idle: "idle (clear_capture s) = idle s"
  by (cases s) (simp_all add: clear_capture_def)

lemma capture_from_busy:
  "capture_from nt i slots cache = Some (slots', cache') \<Longrightarrow> map idle slots' = map idle slots"
proof (induction slots arbitrary: i cache slots' cache')
  case (Cons s ss)
  show ?case
  proof (cases "capture_due s")
    case True
    then obtain a where "s = Active a" by (cases s) (simp_all add: capture_due_def)
    with Cons True show ?thesis by (fastforce simp: clear_capture_idle split: option.splits)
  next
    case False
    with Cons show ?thesis by fastforce
  qed
qed simp

lemma busy_kept_map: "map idle slots' = map idle slots \<Longrightarrow> busy_kept slots slots'"
  unfolding busy_kept_def by (metis length_map nth_map)

lemma capture_busy:
  assumes "capture_prompt_prefixes nt slots cache = Some (slots', cache')"
  shows "busy_kept slots slots'"
proof -
  have clear: "map idle (map clear_capture ss) = map idle ss" for ss :: "('a, 'b, 'c) slot_state list"
    by (simp add: clear_capture_idle)
  consider "slots' = map clear_capture slots"
    | ss c where "capture_from nt 0 slots cache = Some (ss, c)" "slots' = ss \<or> slots' = map clear_capture ss"
    using assms by (auto simp: capture_prompt_prefixes_def split: if_splits)
  then show ?thesis
  proof cases
    case 1
    with clear [of slots] show ?thesis by (simp add: busy_kept_map)
  next
    case 2
    with capture_from_busy [OF 2(1)] clear [of ss] show ?thesis by (intro busy_kept_map) metis
  qed
qed

lemma busy_kept_clean: "busy_kept slots slots' \<Longrightarrow> clean_step slots [] slots'"
  by (simp add: busy_kept_def clean_from_def)

lemma apply_decoded_batch_clean:
  assumes "apply_decoded_batch nt plan slots cache = (log, slots', cache', None)"
  shows "clean_step slots log slots'"
proof -
  obtain s1 where ap: "apply_entries (nt_elapsed nt) (bp_entries plan) slots = Some s1"
    using assms by (auto simp: apply_decoded_batch_def split: option.splits)
  note a = apply_entries_conserves [OF ap]
  obtain s2 k2 where cap: "capture_prompt_prefixes nt s1 cache = Some (s2, k2)"
    using assms ap by (auto simp: apply_decoded_batch_def split: option.splits)
  obtain l3 s3 where ob: "observe_cancellations s2 = (l3, s3)" by fastforce
  obtain ts where ts: "logits_targets plan = Inr ts"
    using assms ap cap ob by (cases "logits_targets plan") (auto simp: apply_decoded_batch_def)
  obtain l4 s4 e4 where sam: "sample_targets nt ts s3 = (l4, s4, e4)" by (metis prod_cases3)
  have "e4 = None" using assms ap cap ob ts sam by (cases e4) (auto simp: apply_decoded_batch_def)
  obtain l5 s5 where ob2: "observe_cancellations s4 = (l5, s5)" by fastforce
  let ?zs = "map fst (filter (\<lambda>(_, s). zero_length s) (enumerate 0 s5))"
  obtain l6 s6 e6 where dr: "drain_all nt ?zs s5 = (l6, s6, e6)" by (metis prod_cases3)
  have eq: "log = l3 @ l4 @ l5 @ l6" "slots' = s6" "e6 = None"
    using assms ap cap ob ts sam \<open>e4 = None\<close> ob2 dr by (simp_all add: apply_decoded_batch_def)
  have "\<forall>(raw, i) \<in> set ts. i < length s3"
    using logits_targets_slots [OF ts] a(2,3) capture_prompt_prefixes_conserves(2) [OF cap]
      observe_cancellations_conserves(2) [OF ob] by fastforce
  from sample_targets_quiet [OF sam [unfolded \<open>e4 = None\<close>] this]
  have q4: "l4 = []" "busy_kept s3 s4" by simp_all
  have q6: "l6 = []" "busy_kept s5 s6"
    using drain_all_quiet [OF dr [unfolded eq(3)] zero_length_distinct] zero_length_indices by blast+
  note busy_kept_clean [OF busy_kept_trans [OF apply_entries_busy [OF ap] capture_busy [OF cap]]]
  from clean_step_trans [OF this observe_clean [OF ob]]
  have "clean_step slots l3 s3" by simp
  from clean_step_trans [OF this busy_kept_clean [OF q4(2)]] have "clean_step slots l3 s4" by simp
  from clean_step_trans [OF this observe_clean [OF ob2]] have "clean_step slots (l3 @ l5) s5" .
  from clean_step_trans [OF this busy_kept_clean [OF q6(2)]] show ?thesis using eq q4(1) q6(1) by simp
qed

lemma written_clean:
  assumes "plan_batch slots capacity cursor = Some plan"
  shows "clean_step slots (written_slots plan :: 'f reply list) slots"
  unfolding clean_from_def
proof (intro conjI allI impI)
  fix j assume j: "j < length slots" and idl: "idle (slots ! j)"
  have "\<forall>r \<in> set (written_slots plan :: 'f reply list). touches r \<noteq> Some j"
    using plan_batch_active [OF assms] idl by (fastforce simp: written_slots_def)
  then have "dirty_after j (written_slots plan :: 'f reply list) False = False" by (rule dirty_after_quiet)
  with idl show "\<not> dirty_after (0 + j) (written_slots plan :: 'f reply list) (\<not> idle (slots ! j))"
    by simp
qed simp

section \<open>The worker\<close>

definition worker_clean :: "('f, 'm, 'p, 's) worker \<Rightarrow> ('f, 'm, 'p, 's) worker \<Rightarrow> bool" where
  "worker_clean w w' \<longleftrightarrow> (\<exists>log. w_log w' = w_log w @ log \<and> clean_step (w_slots w) log (w_slots w'))"

lemma worker_clean_trans [trans]: "worker_clean w w' \<Longrightarrow> worker_clean w' w'' \<Longrightarrow> worker_clean w w''"
  unfolding worker_clean_def using clean_step_trans by fastforce

lemma worker_clean_same: "w_log w' = w_log w \<Longrightarrow> w_slots w' = w_slots w \<Longrightarrow> worker_clean w w'"
  by (simp add: worker_clean_def clean_same)

lemma worker_clean_slots: "clean_step (w_slots w) log slots \<Longrightarrow> worker_clean w (with_slots (log, slots) w)"
  by (auto simp: worker_clean_def with_slots_def logged_def)

lemma worker_clean_fields:
  "worker_clean w (w'\<lparr>w_pending := c\<rparr>) = worker_clean w w'"
  "worker_clean w (w'\<lparr>w_media_prefilled := b\<rparr>) = worker_clean w w'"
  "worker_clean (w\<lparr>w_controls := cc\<rparr>) w' = worker_clean w w'"
  "worker_clean (w\<lparr>w_cache := k\<rparr>) w' = worker_clean w w'"
  "worker_clean (w\<lparr>w_pending := c\<rparr>) w' = worker_clean w w'"
  by (simp_all add: worker_clean_def)

lemma tick_drain_clean: "worker_clean w (fst (tick_drain nt w))"
proof -
  obtain l1 s1 where c: "poll_reasoning_controls nt (w_controls w) (w_slots w) = (l1, s1)" by fastforce
  let ?w1 = "with_slots (l1, s1) (w\<lparr>w_controls := []\<rparr>)"
  obtain l2 s2 where o2: "observe_cancellations (w_slots ?w1) = (l2, s2)" by fastforce
  let ?w2 = "with_slots (l2, s2) ?w1"
  let ?w3 = "?w2\<lparr>w_slots := flush_active_content (w_slots ?w2)\<rparr>"
  obtain l4 s4 where o4: "observe_cancellations (w_slots ?w3) = (l4, s4)" by fastforce
  let ?w4 = "with_slots (l4, s4) ?w3"
  obtain l s e where f: "finalize_draining_slots nt (w_slots ?w4) = (l, s, e)" by (metis prod_cases3)
  have "worker_clean (w\<lparr>w_controls := []\<rparr>) ?w1"
    by (rule worker_clean_slots) (use controls_clean [OF c] in simp)
  then have "worker_clean w ?w1" by (simp only: worker_clean_fields)
  also have "worker_clean ?w1 ?w2" by (rule worker_clean_slots [OF observe_clean [OF o2]])
  also have "worker_clean ?w2 ?w3"
    unfolding worker_clean_def by (rule exI [of _ "[]"]) (use flush_clean in simp)
  also have "worker_clean ?w3 ?w4" by (rule worker_clean_slots [OF observe_clean [OF o4]])
  also have "worker_clean ?w4 (with_slots (l, s) ?w4)"
    by (rule worker_clean_slots)
       (use finalize_from_clean [OF f [unfolded finalize_draining_slots_def]] in blast)
  finally show ?thesis using f o2 o4 unfolding tick_drain_def Let_def c by (simp only: prod.case fst_conv)
qed

lemma tick_poll_clean:
  assumes "tick_poll nt cfg w = (w', Inr b)"
  shows "worker_clean w w'"
proof -
  obtain l s k x where p: "poll_generation_decisions nt cfg (w_media_prefilled w) (w_slots w) (w_cache w)
      = (l, s, k, x)" by (metis prod_cases4)
  with assms have w': "w' = with_slots (l, s) (w\<lparr>w_cache := k\<rparr>)" "x = Inr b"
    by (simp_all add: tick_poll_def)
  have "clean_step (w_slots w) l s"
    using p w'(2) by (auto simp: poll_generation_decisions_def dest: poll_from_clean split: option.splits)
  then have "worker_clean (w\<lparr>w_cache := k\<rparr>) w'" unfolding w' by (intro worker_clean_slots) simp
  then show ?thesis by (simp only: worker_clean_fields)
qed

lemma tick_admit_clean: "worker_clean w (fst (tick_admit nt w))"
proof (cases "w_pending w")
  case None
  then show ?thesis by (simp add: tick_admit_def worker_clean_same)
next
  case (Some c)
  obtain l s x where a: "admit_generation_command nt c (w_slots w) = (l, s, x)" by (metis prod_cases3)
  have "worker_clean (w\<lparr>w_pending := None\<rparr>) (with_slots (l, s) (w\<lparr>w_pending := None\<rparr>))"
    by (rule worker_clean_slots) (use admit_clean [OF a] in simp)
  then have "worker_clean w (with_slots (l, s) (w\<lparr>w_pending := None\<rparr>))" by (simp only: worker_clean_fields)
  with Some a show ?thesis by (cases x) (simp_all add: tick_admit_def Let_def worker_clean_fields)
qed

lemma tick_receive_clean: "worker_clean w (fst (tick_receive w))"
  by (rule worker_clean_same) (simp_all add: tick_receive_def split: option.split list.split)

lemma tick_decode_clean:
  assumes "tick_decode nt cfg w = (w', None)"
  shows "worker_clean w w'"
proof (cases "plan_batch (w_slots w) (unat (rc_batch_size (wc_runtime cfg))) (w_prefill_cursor w)")
  case None
  with assms show ?thesis by (simp add: tick_decode_def)
next
  case (Some plan)
  let ?w2 = "logged (written_slots plan) (w\<lparr>w_prefill_cursor := bp_next_prefill_slot plan\<rparr>)"
  have 2: "worker_clean w ?w2"
    using written_clean [OF Some] by (auto simp: worker_clean_def logged_def)
  obtain l s k e where ap: "apply_decoded_batch nt plan (w_slots ?w2) (w_cache ?w2) = (l, s, k, e)"
    by (metis prod_cases4)
  let ?w3 = "?w2\<lparr>w_cache := k, w_media_prefilled := (if e = None then False else w_media_prefilled ?w2)\<rparr>"
  show ?thesis
  proof (cases "bp_entries plan = []")
    case True
    with assms Some show ?thesis by (auto simp: tick_decode_def Let_def intro: worker_clean_same)
  next
    case False
    with assms Some ap have w': "w' = with_slots (l, s) ?w3" "e = None"
      by (auto simp: tick_decode_def Let_def split: option.splits)
    note 2
    also have "worker_clean ?w2 ?w3" by (rule worker_clean_same) simp_all
    also have "worker_clean ?w3 w'" unfolding w'(1)
      by (rule worker_clean_slots) (use apply_decoded_batch_clean [OF ap [unfolded w'(2)]] in simp)
    finally show ?thesis .
  qed
qed

lemma generation_tick_clean:
  assumes "generation_tick nt cfg w = (w', x)" and "\<nexists>e. x = TickError e"
  shows "worker_clean w w'"
proof -
  obtain w1 e1 where d: "tick_drain nt w = (w1, e1)" by fastforce
  obtain w2 x2 where p: "tick_poll nt cfg w1 = (w2, x2)" by fastforce
  obtain w3 b3 where r: "tick_receive w2 = (w3, b3)" by fastforce
  obtain w4 b4 where a: "tick_admit nt w3 = (w4, b4)" by fastforce
  obtain w5 e5 where c: "tick_decode nt cfg w4 = (w5, e5)" by fastforce
  have "e1 = None" using assms d by (auto simp: generation_tick_def split: option.splits)
  then obtain b2 where b2: "x2 = Inr b2"
    using assms d p by (cases x2) (auto simp: generation_tick_def)
  have k1: "worker_clean w w1" using tick_drain_clean [of w nt] d by simp
  also have "worker_clean w1 w2" using p b2 by (intro tick_poll_clean) simp
  finally have k2: "worker_clean w w2" .
  also have "worker_clean w2 w3" using tick_receive_clean [of w2] r by simp
  finally have k3: "worker_clean w w3" .
  also have "worker_clean w3 w4" using tick_admit_clean [of w3 nt] a by simp
  finally have k4: "worker_clean w w4" .
  have k5: "worker_clean w w5" if "e5 = None"
    using worker_clean_trans [OF k4 tick_decode_clean] c that by simp
  show ?thesis using assms d p r a c k2 k3 k4 k5 b2 \<open>e1 = None\<close>
    by (auto simp: generation_tick_def worker_clean_fields split: option.splits bool.splits)
qed

definition slots_clean :: "('f, 'm, 'p, 's) worker \<Rightarrow> bool" where
  "slots_clean w \<longleftrightarrow> (\<forall>i < length (w_slots w). idle (w_slots w ! i) \<longrightarrow> \<not> dirty i (w_log w))"

lemma worker_clean_keeps:
  assumes "worker_clean w w'" and "slots_clean w"
  shows "slots_clean w'"
  unfolding slots_clean_def
proof (intro allI impI)
  fix i assume i: "i < length (w_slots w')" "idle (w_slots w' ! i)"
  obtain log where log: "w_log w' = w_log w @ log" "clean_step (w_slots w) log (w_slots w')"
    using assms(1) by (auto simp: worker_clean_def)
  then have ln: "i < length (w_slots w)" using i by (simp add: clean_from_def)
  have new: "\<not> dirty_after i log (\<not> idle (w_slots w ! i))" using log(2) i ln by (simp add: clean_from_def)
  show "\<not> dirty i (w_log w')"
  proof (cases "idle (w_slots w ! i)")
    case True
    with assms(2) ln have "\<not> dirty i (w_log w)" by (simp add: slots_clean_def)
    with new True log(1) show ?thesis by (simp add: dirty_def)
  next
    case False
    with new have "\<not> dirty_after i log b" for b using dirty_after_mono [of i log] by (cases b) auto
    with log(1) show ?thesis by (simp add: dirty_def)
  qed
qed

lemma change_slot_clean:
  assumes "\<And>s. idle (g s) = idle s" and "slots_clean w"
  shows "slots_clean (change_slot i g w)"
  using assms by (auto simp: change_slot_def slots_clean_def nth_list_update)

lemma idle_on_lifecycle: "idle (on_lifecycle g s) = idle s"
  by (cases s) (simp_all add: on_lifecycle_def)

lemma idle_set_cancelled: "idle (set_cancelled s) = idle s"
  by (cases s) (simp_all add: set_cancelled_def)

lemma idle_decide_slot: "idle (decide_slot d s) = idle s"
  by (cases s) (simp_all add: decide_slot_def)

lemma client_step_clean: "slots_clean w \<Longrightarrow> slots_clean (client_step x w)"
proof (cases x)
  case (Submit c)
  then show "slots_clean w \<Longrightarrow> slots_clean (client_step x w)" by (simp add: slots_clean_def)
next
  case (SubmitControl c)
  then show "slots_clean w \<Longrightarrow> slots_clean (client_step x w)" by (simp add: slots_clean_def)
next
  case Disconnect
  then show "slots_clean w \<Longrightarrow> slots_clean (client_step x w)" by (simp add: slots_clean_def)
qed (simp_all add: change_slot_clean idle_on_lifecycle idle_set_cancelled idle_decide_slot)

lemma reachable_clean: "reachable cfg w \<Longrightarrow> \<not> w_stopped w \<Longrightarrow> slots_clean w"
proof (induction rule: reachable.induct)
  case start
  show ?case by (simp add: initial_worker_def slots_clean_def dirty_def)
next
  case (turn w nt)
  obtain w1 x where t: "generation_tick nt cfg w = (w1, x)" by fastforce
  with turn.prems have x: "x = Continue"
    by (cases x) (auto simp: worker_turn_def shutdown_worker_def fatal_generation_worker_def Let_def
        stop_worker_keeps_account(3) split: prod.splits)
  with t turn.prems have run: "\<not> w_stopped (await_command w1)" "worker_turn nt cfg w = await_command w1"
    by (simp_all add: worker_turn_def)
  have same: "w_log (await_command w1) = w_log w1" "w_slots (await_command w1) = w_slots w1"
    using run(1) by (auto simp: await_command_def stop_worker_keeps_account(3) split: list.splits if_splits)
  have "slots_clean w1"
    using worker_clean_keeps [OF generation_tick_clean [OF t] turn.IH [OF turn.hyps(2)]] x by simp
  with run(2) same show ?case by (simp add: slots_clean_def)
next
  case (client w x)
  with client_step_stopped [of x w] client_step_clean [of w x] show ?case by simp
qed

text \<open>C10. While the worker runs, the native sequence of a slot that is vacant or only reserved is clean:
  everything an earlier request wrote into it, a restored prefix, a media prefill or decoded tokens,
  has been cleared before the slot could be given away again. In particular no request starts on top
  of the cells of another one.\<close>

theorem idle_slots_are_clean:
  assumes "reachable cfg w" and "\<not> w_stopped w" and "i < length (w_slots w)"
    and "w_slots w ! i = Vacant \<or> (\<exists>r. w_slots w ! i = Reserved r)"
  shows "\<not> dirty i (w_log w)"
  using reachable_clean [OF assms(1,2)] assms(3,4) by (auto simp: slots_clean_def)

theorem idle_slots_are_clean_witness:
  "SequenceWritten 0 \<in> set (w_log sample_done) \<and> \<not> dirty 0 (w_log sample_done)"
proof -
  have "0 < length (w_slots sample_done)" "w_slots sample_done ! 0 = Vacant"
    using arg_cong [OF sample_done_slots, of length] arg_cong [OF sample_done_slots, of hd]
    by (cases "w_slots sample_done"; cases "hd (w_slots sample_done)"; simp add: is_vacant_def)+
  with idle_slots_are_clean [OF sample_done_reachable sample_runs(4), of 0] show ?thesis
    using sample_done_written by simp
qed

end
