(* ===== verification/Model_Id.thy ===== *)
theory Model_Id
  imports Prelude
begin

text \<open>
  Model identifiers (\<open>libs/orchion-core/src/model/id.rs\<close>): \<open>vendor/name\<close>, two segments of ASCII
  letters, digits, \<open>-\<close>, \<open>_\<close> and \<open>.\<close> that are not empty, \<open>.\<close> or \<open>..\<close>. A Rust string is its
  list of UTF-8 bytes; the bytes of a character outside ASCII are not ASCII alphanumeric, so checking
  bytes is checking characters.
\<close>

section \<open>Strings\<close>

text \<open>\<open>str::split\<close> on one character, \<open>str::split_once\<close> and the ASCII classes of \<open>char\<close>.\<close>

fun split_on :: "char \<Rightarrow> string \<Rightarrow> string list" where
  "split_on c [] = [[]]"
| "split_on c (x # xs) =
     (if x = c then [] # split_on c xs
      else (case split_on c xs of [] \<Rightarrow> [[x]] | p # ps \<Rightarrow> (x # p) # ps))"

fun split_once :: "char \<Rightarrow> string \<Rightarrow> (string \<times> string) option" where
  "split_once c [] = None"
| "split_once c (x # xs) =
     (if x = c then Some ([], xs)
      else map_option (\<lambda>(a, b). (x # a, b)) (split_once c xs))"

definition is_ascii_lowercase :: "char \<Rightarrow> bool" where
  "is_ascii_lowercase c \<longleftrightarrow> 97 \<le> (of_char c :: nat) \<and> (of_char c :: nat) \<le> 122"

definition is_ascii_uppercase :: "char \<Rightarrow> bool" where
  "is_ascii_uppercase c \<longleftrightarrow> 65 \<le> (of_char c :: nat) \<and> (of_char c :: nat) \<le> 90"

definition is_ascii_digit :: "char \<Rightarrow> bool" where
  "is_ascii_digit c \<longleftrightarrow> 48 \<le> (of_char c :: nat) \<and> (of_char c :: nat) \<le> 57"

definition is_ascii_alphanumeric :: "char \<Rightarrow> bool" where
  "is_ascii_alphanumeric c \<longleftrightarrow> is_ascii_lowercase c \<or> is_ascii_uppercase c \<or> is_ascii_digit c"

lemma split_on_nonempty [simp]: "split_on c s \<noteq> []"
  by (induction s) (auto split: list.split)

lemma split_on_sep_free: "c \<notin> set s \<Longrightarrow> split_on c s = [s]"
  by (induction s) auto

lemma split_on_append:
  "c \<notin> set a \<Longrightarrow> split_on c (a @ c # b) = a # split_on c b"
  by (induction a) auto

lemma split_on_single: "split_on c s = [p] \<Longrightarrow> s = p \<and> c \<notin> set p"
proof (induction s arbitrary: p)
  case (Cons x xs)
  then show ?case by (cases "split_on c xs") (auto split: if_splits)
qed simp

lemma split_on_cons: "split_on c s = p # q # ps \<Longrightarrow>
   \<exists>t. s = p @ c # t \<and> c \<notin> set p \<and> split_on c t = q # ps"
proof (induction s arbitrary: p)
  case (Cons x xs)
  show ?case
  proof (cases "x = c")
    case True
    with Cons.prems show ?thesis by (intro exI [of _ xs]) auto
  next
    case False
    then obtain p' where p: "p = x # p'" "split_on c xs = p' # q # ps"
      using Cons.prems by (cases "split_on c xs") auto
    from Cons.IH [OF this(2)] p(1) False show ?thesis by auto
  qed
qed simp

lemma split_once_append: "c \<notin> set a \<Longrightarrow> split_once c (a @ c # b) = Some (a, b)"
  by (induction a) auto

section \<open>Identifiers\<close>

definition valid_segment :: "string \<Rightarrow> bool" where
  "valid_segment s \<longleftrightarrow>
     s \<noteq> [] \<and> s \<noteq> ''.'' \<and> s \<noteq> ''..''
     \<and> list_all (\<lambda>c. is_ascii_alphanumeric c \<or> c \<in> {CHR ''-'', CHR ''_'', CHR ''.''}) s"

text \<open>The error carries the rejected text.\<close>

definition parse_model_id :: "string \<Rightarrow> string + string" where
  "parse_model_id text =
     (case split_on CHR ''/'' text of
        [vendor, name] \<Rightarrow> if \<not> valid_segment vendor \<or> \<not> valid_segment name then Inl text else Inr text
      | _ \<Rightarrow> Inl text)"

definition model_vendor :: "string \<Rightarrow> string" where
  "model_vendor mid = (case split_once CHR ''/'' mid of None \<Rightarrow> [] | Some (vendor, _) \<Rightarrow> vendor)"

definition model_name :: "string \<Rightarrow> string" where
  "model_name mid = (case split_once CHR ''/'' mid of None \<Rightarrow> [] | Some (_, name) \<Rightarrow> name)"

lemma valid_segment_no_slash: "valid_segment s \<Longrightarrow> CHR ''/'' \<notin> set s"
  by (auto simp: valid_segment_def list_all_iff is_ascii_alphanumeric_def is_ascii_lowercase_def
        is_ascii_uppercase_def is_ascii_digit_def)

lemma parse_model_id_iff:
  "parse_model_id text = Inr mid \<longleftrightarrow>
     mid = text \<and> (\<exists>v n. text = v @ CHR ''/'' # n \<and> valid_segment v \<and> valid_segment n)"
proof
  assume p: "parse_model_id text = Inr mid"
  then obtain v n where s: "split_on CHR ''/'' text = [v, n]" "valid_segment v" "valid_segment n" "mid = text"
    by (auto simp: parse_model_id_def split: list.splits if_splits)
  from split_on_cons [OF s(1)] obtain t where "text = v @ CHR ''/'' # t" "split_on CHR ''/'' t = [n]" by auto
  with split_on_single [OF this(2)] s show "mid = text \<and> (\<exists>v n. text = v @ CHR ''/'' # n \<and> valid_segment v \<and> valid_segment n)"
    by auto
next
  assume "mid = text \<and> (\<exists>v n. text = v @ CHR ''/'' # n \<and> valid_segment v \<and> valid_segment n)"
  then obtain v n where "mid = text" "text = v @ CHR ''/'' # n" "valid_segment v" "valid_segment n" by blast
  then show "parse_model_id text = Inr mid"
    by (simp add: parse_model_id_def split_on_append split_on_sep_free valid_segment_no_slash)
qed

lemma parsed_parts:
  assumes "parse_model_id text = Inr mid"
  shows "text = model_vendor mid @ CHR ''/'' # model_name mid"
    "valid_segment (model_vendor mid)" "valid_segment (model_name mid)"
  using assms unfolding parse_model_id_iff
  by (auto simp: model_vendor_def model_name_def split_once_append valid_segment_no_slash)

text \<open>Parsing an identifier and taking it apart are inverse.  A vendor and a name that are both
  valid path segments, joined by a slash, are accepted, and \<^verbatim>\<open>vendor()\<close> and \<^verbatim>\<open>name()\<close> of
  the result give the two back; conversely every accepted text is its own identifier and is the
  join of its vendor and its name, both valid and free of slashes; a rejected text is the
  error's value.\<close>

theorem model_id_roundtrip:
  "(valid_segment v \<and> valid_segment n \<longrightarrow>
      (let mid = v @ CHR ''/'' # n in
        parse_model_id mid = Inr mid \<and> model_vendor mid = v \<and> model_name mid = n))
   \<and> (case parse_model_id s of
        Inl e \<Rightarrow> e = s \<and> (\<nexists>a b. valid_segment a \<and> valid_segment b \<and> s = a @ CHR ''/'' # b)
      | Inr mid \<Rightarrow> mid = s \<and> mid = model_vendor mid @ CHR ''/'' # model_name mid
          \<and> valid_segment (model_vendor mid) \<and> valid_segment (model_name mid)
          \<and> CHR ''/'' \<notin> set (model_vendor mid) \<union> set (model_name mid))"
proof
  show "valid_segment v \<and> valid_segment n \<longrightarrow>
      (let mid = v @ CHR ''/'' # n in
        parse_model_id mid = Inr mid \<and> model_vendor mid = v \<and> model_name mid = n)"
    by (auto simp: Let_def parse_model_id_iff model_vendor_def model_name_def split_once_append
          valid_segment_no_slash)
next
  show "case parse_model_id s of
        Inl e \<Rightarrow> e = s \<and> (\<nexists>a b. valid_segment a \<and> valid_segment b \<and> s = a @ CHR ''/'' # b)
      | Inr mid \<Rightarrow> mid = s \<and> mid = model_vendor mid @ CHR ''/'' # model_name mid
          \<and> valid_segment (model_vendor mid) \<and> valid_segment (model_name mid)
          \<and> CHR ''/'' \<notin> set (model_vendor mid) \<union> set (model_name mid)"
  proof (cases "parse_model_id s")
    case (Inl e)
    moreover from Inl have "e = s" by (auto simp: parse_model_id_def split: list.splits if_splits)
    moreover have "\<nexists>a b. valid_segment a \<and> valid_segment b \<and> s = a @ CHR ''/'' # b"
    proof
      assume "\<exists>a b. valid_segment a \<and> valid_segment b \<and> s = a @ CHR ''/'' # b"
      then have "parse_model_id s = Inr s" using parse_model_id_iff by blast
      with Inl show False by simp
    qed
    ultimately show ?thesis by simp
  next
    case (Inr mid)
    then have "mid = s" by (simp add: parse_model_id_iff)
    with parsed_parts [OF Inr] Inr show ?thesis
      by (simp add: valid_segment_no_slash)
  qed
qed

text \<open>Accepted and rejected identifiers.\<close>

theorem model_id_roundtrip_witness:
  "parse_model_id ''Qwen/Qwen3-4B'' = Inr ''Qwen/Qwen3-4B'' \<and> model_vendor ''Qwen/Qwen3-4B'' = ''Qwen''
   \<and> model_name ''Qwen/Qwen3-4B'' = ''Qwen3-4B'' \<and> parse_model_id ''../x'' = Inl ''../x''"
  using model_id_roundtrip [of "''Qwen''" "''Qwen3-4B''" "''../x''"]
  by (auto simp: Let_def valid_segment_def is_ascii_alphanumeric_def is_ascii_lowercase_def
        is_ascii_uppercase_def is_ascii_digit_def parse_model_id_def)

end
