(* ===== verification/Activity_Store.thy ===== *)
theory Activity_Store
  imports Model_Id "HOL-Library.AList" "HOL-Library.Multiset" "HOL-Library.Code_Target_Nat"
begin

text \<open>
  The activity hub of the server (\<open>apps/orchion-server/src/api/activity/store.rs\<close>, with the entry types
  of \<open>libs/orchion-protocol/src/activity.rs\<close>): requests in flight, the bounded history of completed
  ones with its success count and its sorted durations, the event stream, and the pages of the
  history that clients ask for.

  Instants are nanoseconds on the monotonic clock; every operation is given the instant at which it
  reads the clock. The map of requests in flight is an association list: the code reads it by key,
  counts it, and sorts what it lists. Identifiers and cursors are kept as the numbers whose decimal
  text the code stores. A rate is a value of the type parameter \<open>'f\<close> (\<open>f64\<close>); the success rate is
  kept in per mille, a tenth of which is the percentage sent. The log \<open>ah_events\<close> holds every event
  broadcast, oldest first; what a slow subscriber misses of it is the channel's business.
\<close>

section \<open>Entries and events\<close>


datatype activity_state = InFlight | Completed

datatype activity_transport = Http | Websocket

datatype activity_operation =
    Asr | AsrStream | Tts | Ocr | Pdf | Chat | Responses | EmbeddingsOp | Completions | InputTokens

datatype activity_outcome =
    Success | ClientError | ServerError | CancelledOutcome | Disconnected | Timeout | ResourceExhausted

record activity_error =
  er_code :: "string option"
  er_message :: "string option"

record 'f activity_entry =
  ae_id :: u64
  ae_state :: activity_state
  ae_transport :: activity_transport
  ae_operation :: activity_operation
  ae_method :: string
  ae_route :: string
  ae_model :: "string option"
  ae_address :: "string option"
  ae_user_agent :: "string option"
  ae_started_at_ms :: nat
  ae_duration_ms :: "nat option"
  ae_http_status :: "u16 option"
  ae_outcome :: "activity_outcome option"
  ae_input_bytes :: "nat option"
  ae_prompt_tokens :: "nat option"
  ae_completion_tokens :: "nat option"
  ae_reasoning_tokens :: "nat option"
  ae_queue_time_ms :: "nat option"
  ae_eval_time_ms :: "nat option"
  ae_prefill_rate :: "'f option"
  ae_decode_rate :: "'f option"
  ae_error_code :: "string option"
  ae_error_message :: "string option"

record activity_summary =
  as_active :: nat
  as_retained :: nat
  as_success_per_mille :: "nat option"
  as_p95_duration_ms :: "nat option"

record 'f activity_page =
  ap_enabled :: bool
  ap_cursor :: nat
  ap_active :: "'f activity_entry list"
  ap_history :: "'f activity_entry list"
  ap_summary :: activity_summary
  ap_next_before :: "u64 option"

record 'f event_payload =
  ep_cursor :: nat
  ep_entry :: "'f activity_entry option"
  ep_active :: "'f activity_entry list option"
  ep_summary :: "activity_summary option"

datatype event_kind = Started | Updated | CompletedEvent

record 'f activity_event =
  ev_kind :: event_kind
  ev_payload :: "'f event_payload"

record activity_filter =
  af_limit :: nat
  af_before :: "u64 option"
  af_operation :: "activity_operation option"
  af_outcome :: "activity_outcome option"
  af_model :: "string option"

section \<open>The store\<close>

record 'f active_entry =
  ac_entry :: "'f activity_entry"
  ac_started :: nat
  ac_pending_input_bytes :: nat
  ac_last_input_update :: "nat option"
  ac_input_flush_scheduled :: bool

record 'f store_state =
  st_active :: "(u64 \<times> 'f active_entry) list"
  st_history :: "'f activity_entry list"
  st_success_count :: nat
  st_sorted_durations :: "nat list"
  st_event_seq :: nat

record 'f activity_hub =
  ah_enabled :: bool
  ah_history_capacity :: nat
  ah_next_id :: u64
  ah_state :: "'f store_state"
  ah_events :: "'f activity_event list"

definition max_model_id_bytes :: nat where "max_model_id_bytes = 256"
definition max_user_agent_bytes :: nat where "max_user_agent_bytes = 512"

text \<open>250 ms.\<close>

definition input_update_interval :: nat where "input_update_interval = 250000000"

definition duration_ms :: "nat \<Rightarrow> nat" where
  "duration_ms nanos = min (nanos div 1000000) usize_max"

definition new_hub :: "bool \<Rightarrow> nat \<Rightarrow> 'f activity_hub" where
  "new_hub is_enabled capacity =
     \<lparr>ah_enabled = is_enabled, ah_history_capacity = capacity, ah_next_id = 1,
      ah_state = \<lparr>st_active = [], st_history = [], st_success_count = 0, st_sorted_durations = [],
                  st_event_seq = 0\<rparr>,
      ah_events = []\<rparr>"

text \<open>\<open>LiveRequestMetadata::new\<close>: the standard library's address parser is a parameter.\<close>

definition live_metadata ::
  "(string \<Rightarrow> string option) \<Rightarrow> string option \<Rightarrow> string option \<Rightarrow> string option \<times> string option" where
  "live_metadata parse_ip address user_agent =
     ((case address of None \<Rightarrow> None | Some text \<Rightarrow> parse_ip text),
      (case user_agent of None \<Rightarrow> None
       | Some agent \<Rightarrow> if length agent \<le> max_user_agent_bytes then Some agent else None))"

text \<open>The sorted durations, with \<open>partition_point\<close> and \<open>binary_search\<close> of the standard library on a
  sorted vector. Which of several equal elements \<open>binary_search\<close> finds is unspecified; removing any
  of them gives the same vector.\<close>

definition partition_point :: "(nat \<Rightarrow> bool) \<Rightarrow> nat list \<Rightarrow> nat" where
  "partition_point p xs = length (takeWhile p xs)"

definition insert_at :: "nat \<Rightarrow> 'a \<Rightarrow> 'a list \<Rightarrow> 'a list" where
  "insert_at i x xs = take i xs @ x # drop i xs"

definition add_history_metrics :: "'f activity_entry \<Rightarrow> 'f store_state \<Rightarrow> 'f store_state" where
  "add_history_metrics en st =
     st\<lparr>st_success_count :=
          (if ae_outcome en = Some Success then sat_add (st_success_count st) 1 else st_success_count st),
        st_sorted_durations :=
          (case ae_duration_ms en of
             None \<Rightarrow> st_sorted_durations st
           | Some duration \<Rightarrow>
               insert_at (partition_point (\<lambda>value. value \<le> duration) (st_sorted_durations st)) duration
                 (st_sorted_durations st))\<rparr>"

definition remove_history_metrics :: "'f activity_entry \<Rightarrow> 'f store_state \<Rightarrow> 'f store_state" where
  "remove_history_metrics en st =
     st\<lparr>st_success_count :=
          (if ae_outcome en = Some Success then st_success_count st - 1 else st_success_count st),
        st_sorted_durations :=
          (case ae_duration_ms en of
             None \<Rightarrow> st_sorted_durations st
           | Some duration \<Rightarrow>
               (case position ((=) duration) (st_sorted_durations st) of
                  None \<Rightarrow> st_sorted_durations st
                | Some index \<Rightarrow> remove_at index (st_sorted_durations st)))\<rparr>"

text \<open>The loop that trims the history to its capacity.\<close>

function trim_history :: "nat \<Rightarrow> 'f store_state \<Rightarrow> 'f store_state" where
  "trim_history capacity st =
     (if capacity < length (st_history st)
      then trim_history capacity
             (remove_history_metrics (last (st_history st)) (st\<lparr>st_history := butlast (st_history st)\<rparr>))
      else st)"
  by pat_completeness auto
termination
  by (relation "measure (\<lambda>(_, st). length (st_history st))")
     (auto simp: remove_history_metrics_def)

declare trim_history.simps [simp del]

definition activity_summary_of :: "'f store_state \<Rightarrow> activity_summary" where
  "activity_summary_of st =
     (let retained = length (st_history st); durations = st_sorted_durations st in
      \<lparr>as_active = length (st_active st), as_retained = retained,
       as_success_per_mille =
         (if 0 < retained
          then (let per_mille = sat_mul (st_success_count st) 1000 div retained
                in Some (if per_mille < 2 ^ 16 then per_mille else 1000))
          else None),
       as_p95_duration_ms =
         (if durations \<noteq> [] then Some (durations ! (div_ceil (length durations * 95) 100 - 1))
          else None)\<rparr>)"

definition flush_pending_input :: "'f active_entry \<Rightarrow> 'f active_entry" where
  "flush_pending_input a =
     (if ac_pending_input_bytes a = 0 then a
      else a\<lparr>ac_entry := (ac_entry a)\<lparr>ae_input_bytes :=
               Some (sat_add (case ae_input_bytes (ac_entry a) of None \<Rightarrow> 0 | Some n \<Rightarrow> n)
                       (ac_pending_input_bytes a))\<rparr>,
             ac_pending_input_bytes := 0\<rparr>)"

definition active_snapshot :: "nat \<Rightarrow> 'f active_entry \<Rightarrow> 'f activity_entry" where
  "active_snapshot now a = (ac_entry a)\<lparr>ae_duration_ms := Some (duration_ms (now - ac_started a))\<rparr>"

text \<open>Every change ends by counting and broadcasting one event.\<close>

definition publish ::
  "event_kind \<Rightarrow> 'f activity_entry \<Rightarrow> 'f store_state \<Rightarrow> 'f activity_hub \<Rightarrow> 'f activity_hub" where
  "publish kind en st hub =
     (let st' = st\<lparr>st_event_seq := sat_add (st_event_seq st) 1\<rparr> in
      hub\<lparr>ah_state := st',
          ah_events := ah_events hub @
            [\<lparr>ev_kind = kind,
              ev_payload = \<lparr>ep_cursor = st_event_seq st', ep_entry = Some en, ep_active = None,
                            ep_summary = Some (activity_summary_of st')\<rparr>\<rparr>]\<rparr>)"

definition start_activity ::
  "activity_operation \<Rightarrow> activity_transport \<Rightarrow> string \<Rightarrow> string \<Rightarrow> nat option \<Rightarrow>
   string option \<times> string option \<Rightarrow> nat \<Rightarrow> nat \<Rightarrow> 'f activity_hub \<Rightarrow>
   'f activity_hub \<times> u64 option" where
  "start_activity operation transport http_method route input_bytes metadata unix_ms now hub =
     (if \<not> ah_enabled hub then (hub, None)
      else let i = ah_next_id hub;
               en = \<lparr>ae_id = i, ae_state = InFlight, ae_transport = transport, ae_operation = operation,
                     ae_method = http_method, ae_route = route, ae_model = None, ae_address = fst metadata,
                     ae_user_agent = snd metadata, ae_started_at_ms = unix_ms, ae_duration_ms = Some 0,
                     ae_http_status = None, ae_outcome = None, ae_input_bytes = input_bytes,
                     ae_prompt_tokens = None, ae_completion_tokens = None, ae_reasoning_tokens = None,
                     ae_queue_time_ms = None, ae_eval_time_ms = None, ae_prefill_rate = None,
                     ae_decode_rate = None, ae_error_code = None, ae_error_message = None\<rparr>;
               a = \<lparr>ac_entry = en, ac_started = now, ac_pending_input_bytes = 0,
                    ac_last_input_update = None, ac_input_flush_scheduled = False\<rparr>;
               st = ah_state hub
           in (publish Started en (st\<lparr>st_active := AList.update i a (st_active st)\<rparr>)
                 (hub\<lparr>ah_next_id := i + 1\<rparr>),
               Some i))"

definition update_activity ::
  "u64 \<Rightarrow> ('f activity_entry \<Rightarrow> 'f activity_entry) \<Rightarrow> nat \<Rightarrow> 'f activity_hub \<Rightarrow> 'f activity_hub" where
  "update_activity i change now hub =
     (case map_of (st_active (ah_state hub)) i of
        None \<Rightarrow> hub
      | Some a \<Rightarrow>
          (let a' = a\<lparr>ac_entry := change (ac_entry a)\<rparr>; st = ah_state hub in
           publish Updated (active_snapshot now a') (st\<lparr>st_active := AList.update i a' (st_active st)\<rparr>) hub))"

text \<open>The locked part of \<open>add_input_bytes\<close>, and what it then does: nothing, a timer, or the flush at once.
  The flush takes the lock again, so that other operations can come between.\<close>

datatype input_followup = NoFollowup | FlushAfter nat | FlushNow

definition add_input_bytes ::
  "u64 \<Rightarrow> nat \<Rightarrow> nat \<Rightarrow> 'f activity_hub \<Rightarrow> 'f activity_hub \<times> input_followup" where
  "add_input_bytes i bytes now hub =
     (case map_of (st_active (ah_state hub)) i of
        None \<Rightarrow> (hub, NoFollowup)
      | Some a0 \<Rightarrow>
          (let st = ah_state hub;
               a = a0\<lparr>ac_pending_input_bytes := sat_add (ac_pending_input_bytes a0) bytes\<rparr>;
               wait = (case ac_last_input_update a of
                         None \<Rightarrow> None
                       | Some last_update \<Rightarrow>
                           if now - last_update \<le> input_update_interval
                           then Some (input_update_interval - (now - last_update)) else None);
               put = (\<lambda>b. hub\<lparr>ah_state := st\<lparr>st_active := AList.update i b (st_active st)\<rparr>\<rparr>)
           in case wait of
                None \<Rightarrow> (put a, FlushNow)
              | Some delay \<Rightarrow>
                  if ac_input_flush_scheduled a then (put a, NoFollowup)
                  else (put (a\<lparr>ac_input_flush_scheduled := True\<rparr>), FlushAfter delay)))"

definition flush_input_update :: "u64 \<Rightarrow> nat \<Rightarrow> 'f activity_hub \<Rightarrow> 'f activity_hub" where
  "flush_input_update i now hub =
     (case map_of (st_active (ah_state hub)) i of
        None \<Rightarrow> hub
      | Some a0 \<Rightarrow>
          (let st = ah_state hub; a = a0\<lparr>ac_input_flush_scheduled := False\<rparr> in
           if ac_pending_input_bytes a = 0
           then hub\<lparr>ah_state := st\<lparr>st_active := AList.update i a (st_active st)\<rparr>\<rparr>
           else (let a' = (flush_pending_input a)\<lparr>ac_last_input_update := Some now\<rparr> in
                 publish Updated (active_snapshot now a')
                   (st\<lparr>st_active := AList.update i a' (st_active st)\<rparr>) hub)))"

definition complete_activity ::
  "u64 \<Rightarrow> u16 option \<Rightarrow> activity_outcome \<Rightarrow> activity_error option \<Rightarrow> nat \<Rightarrow> 'f activity_hub \<Rightarrow>
   'f activity_hub" where
  "complete_activity i status outcome err now hub =
     (case map_of (st_active (ah_state hub)) i of
        None \<Rightarrow> hub
      | Some a0 \<Rightarrow>
          (let st = (ah_state hub)\<lparr>st_active := AList.delete i (st_active (ah_state hub))\<rparr>;
               a = flush_pending_input a0;
               en = (ac_entry a)\<lparr>ae_state := Completed,
                      ae_duration_ms := Some (duration_ms (now - ac_started a)),
                      ae_http_status := status, ae_outcome := Some outcome,
                      ae_error_code := (case err of None \<Rightarrow> None | Some e \<Rightarrow> er_code e),
                      ae_error_message := (case err of None \<Rightarrow> None | Some e \<Rightarrow> er_message e),
                      ae_address := None, ae_user_agent := None\<rparr>;
               st' = (if 0 < ah_history_capacity hub
                      then (let st1 = add_history_metrics en st in
                            trim_history (ah_history_capacity hub)
                              (st1\<lparr>st_history := en # st_history st1\<rparr>))
                      else st)
           in publish CompletedEvent en st' hub))"

section \<open>Contexts and sockets\<close>

definition http_outcome :: "u16 \<Rightarrow> activity_outcome" where
  "http_outcome status =
     (let n = unat status in
      if 200 \<le> n \<and> n \<le> 399 then Success
      else if n = 429 then ResourceExhausted
      else if 400 \<le> n \<and> n \<le> 499 then ClientError
      else ServerError)"

definition set_model :: "u64 \<Rightarrow> string \<Rightarrow> nat \<Rightarrow> 'f activity_hub \<Rightarrow> 'f activity_hub" where
  "set_model i model now hub =
     (if length model \<le> max_model_id_bytes \<and> (case parse_model_id model of Inl _ \<Rightarrow> False | Inr _ \<Rightarrow> True)
      then update_activity i (\<lambda>en. en\<lparr>ae_model := Some model\<rparr>) now hub else hub)"

definition set_input_bytes :: "u64 \<Rightarrow> nat \<Rightarrow> nat \<Rightarrow> 'f activity_hub \<Rightarrow> 'f activity_hub" where
  "set_input_bytes i n now hub = update_activity i (\<lambda>en. en\<lparr>ae_input_bytes := Some n\<rparr>) now hub"

definition set_llm_usage :: "u64 \<Rightarrow> nat \<Rightarrow> nat \<Rightarrow> nat \<Rightarrow> 'f activity_hub \<Rightarrow> 'f activity_hub" where
  "set_llm_usage i prompt completion now hub =
     update_activity i
       (\<lambda>en. en\<lparr>ae_prompt_tokens := Some prompt, ae_completion_tokens := Some completion\<rparr>) now hub"

definition set_llm_reasoning_tokens :: "u64 \<Rightarrow> nat \<Rightarrow> nat \<Rightarrow> 'f activity_hub \<Rightarrow> 'f activity_hub" where
  "set_llm_reasoning_tokens i n now hub =
     update_activity i (\<lambda>en. en\<lparr>ae_reasoning_tokens := Some n\<rparr>) now hub"

text \<open>\<open>rate_ok\<close> is that a rate is finite and not negative.\<close>

definition set_llm_timing ::
  "('f \<Rightarrow> bool) \<Rightarrow> u64 \<Rightarrow> nat option \<Rightarrow> nat option \<Rightarrow> 'f \<Rightarrow> 'f \<Rightarrow> nat \<Rightarrow> 'f activity_hub \<Rightarrow>
   'f activity_hub" where
  "set_llm_timing rate_ok i queue_ms eval_ms prefill decode now hub =
     update_activity i
       (\<lambda>en. en\<lparr>ae_queue_time_ms := queue_ms, ae_eval_time_ms := eval_ms,
                ae_prefill_rate := (if rate_ok prefill then Some prefill else None),
                ae_decode_rate := (if rate_ok decode then Some decode else None)\<rparr>) now hub"

definition complete_http_outcome :: "u16 \<Rightarrow> activity_error option \<Rightarrow> activity_outcome" where
  "complete_http_outcome status err =
     (case err of
        None \<Rightarrow> http_outcome status
      | Some e \<Rightarrow>
          if er_code e = Some ''request_timeout'' then Timeout
          else if er_code e = Some ''resource_exhausted'' then ResourceExhausted
          else if er_code e = Some ''server_shutdown'' then CancelledOutcome
          else http_outcome status)"

definition complete_http ::
  "u64 \<Rightarrow> u16 \<Rightarrow> activity_error option \<Rightarrow> nat \<Rightarrow> 'f activity_hub \<Rightarrow> 'f activity_hub" where
  "complete_http i status err now hub =
     complete_activity i (Some status) (complete_http_outcome status err) err now hub"

section \<open>Pages\<close>

definition matches_filter :: "'f activity_entry \<Rightarrow> activity_filter \<Rightarrow> bool \<Rightarrow> bool" where
  "matches_filter en flt use_before \<longleftrightarrow>
     \<not> (use_before \<and> (case af_before flt of None \<Rightarrow> False | Some before \<Rightarrow> before \<le> ae_id en))
     \<and> \<not> (case af_operation flt of None \<Rightarrow> False | Some operation \<Rightarrow> ae_operation en \<noteq> operation)
     \<and> \<not> (case af_outcome flt of None \<Rightarrow> False | Some outcome \<Rightarrow> ae_outcome en \<noteq> Some outcome)
     \<and> (case af_model flt of None \<Rightarrow> True | Some model \<Rightarrow> ae_model en = Some model)"

text \<open>What is in flight is listed by descending identifier.\<close>

definition active_entries :: "nat \<Rightarrow> 'f store_state \<Rightarrow> 'f activity_entry list" where
  "active_entries now st = map (active_snapshot now \<circ> snd) (st_active st)"

definition by_descending_id :: "'f activity_entry list \<Rightarrow> 'f activity_entry list" where
  "by_descending_id es = rev (sort_key (\<lambda>en. unat (ae_id en)) es)"

definition history_page :: "activity_filter \<Rightarrow> 'f activity_entry list \<Rightarrow> 'f activity_entry list \<times> u64 option" where
  "history_page flt history =
     (let found = take (sat_add (af_limit flt) 1) (filter (\<lambda>en. matches_filter en flt True) history);
          has_more = af_limit flt < length found;
          shown = (if has_more then butlast found else found)
      in (shown, if has_more \<and> shown \<noteq> [] then Some (ae_id (last shown)) else None))"

definition activity_page_of :: "activity_filter \<Rightarrow> nat \<Rightarrow> 'f activity_hub \<Rightarrow> 'f activity_page" where
  "activity_page_of flt now hub =
     (let st = ah_state hub in
      if \<not> ah_enabled hub then
        \<lparr>ap_enabled = False, ap_cursor = st_event_seq st, ap_active = [], ap_history = [],
         ap_summary = \<lparr>as_active = 0, as_retained = 0, as_success_per_mille = None,
                       as_p95_duration_ms = None\<rparr>,
         ap_next_before = None\<rparr>
      else case history_page flt (st_history st) of (shown, next_before) \<Rightarrow>
        \<lparr>ap_enabled = True, ap_cursor = st_event_seq st,
         ap_active = by_descending_id
           (filter (\<lambda>en. matches_filter en flt False) (active_entries now st)),
         ap_history = shown, ap_summary = activity_summary_of st, ap_next_before = next_before\<rparr>)"

definition snapshot_event :: "nat \<Rightarrow> 'f activity_hub \<Rightarrow> 'f event_payload" where
  "snapshot_event now hub =
     \<lparr>ep_cursor = st_event_seq (ah_state hub), ep_entry = None,
      ep_active = Some (by_descending_id (active_entries now (ah_state hub))),
      ep_summary = Some (activity_summary_of (ah_state hub))\<rparr>"

definition reset_event :: "'f activity_hub \<Rightarrow> 'f event_payload" where
  "reset_event hub =
     \<lparr>ep_cursor = st_event_seq (ah_state hub), ep_entry = None, ep_active = None,
      ep_summary = Some (activity_summary_of (ah_state hub))\<rparr>"

section \<open>Runs of the hub\<close>

text \<open>Everything the rest of the server can do to the hub, in any order and at any instants.
  \<open>WsComplete k\<close> ends the \<open>k\<close>-th socket; dropping a socket is ending it as disconnected.\<close>

datatype 'f hub_action =
    Start activity_operation activity_transport string string "nat option" "string option \<times> string option" nat
  | SetModel u64 string
  | SetInputBytes u64 nat
  | SetUsage u64 nat nat
  | SetReasoning u64 nat
  | SetTiming u64 "nat option" "nat option" 'f 'f
  | CompleteHttp u64 u16 "activity_error option"
  | CompleteStreamFailure u64 activity_outcome activity_error
  | CompleteStreamCancelled u64
  | CancelActivity u64
  | DisconnectActivity u64
  | HandoffWebsocket u64
  | HandoffOwner u64
  | AddInput u64 nat
  | FlushInput u64
  | WsComplete nat activity_outcome "activity_error option"

record 'f activity_system =
  sys_hub :: "'f activity_hub"
  sys_handed_off :: "u64 list"
  sys_sockets :: "(u64 \<times> bool) list"

definition new_system :: "bool \<Rightarrow> nat \<Rightarrow> 'f activity_system" where
  "new_system is_enabled capacity =
     \<lparr>sys_hub = new_hub is_enabled capacity, sys_handed_off = [], sys_sockets = []\<rparr>"

definition on_hub :: "('f activity_hub \<Rightarrow> 'f activity_hub) \<Rightarrow> 'f activity_system \<Rightarrow> 'f activity_system" where
  "on_hub f sys = sys\<lparr>sys_hub := f (sys_hub sys)\<rparr>"

definition handoff_to_websocket :: "u64 \<Rightarrow> nat \<Rightarrow> 'f activity_system \<Rightarrow> 'f activity_system" where
  "handoff_to_websocket i now sys =
     (on_hub (update_activity i (\<lambda>en. en\<lparr>ae_transport := Websocket\<rparr>) now)
        (sys\<lparr>sys_handed_off := List.insert i (sys_handed_off sys)\<rparr>))
       \<lparr>sys_sockets := sys_sockets sys @ [(i, False)]\<rparr>"

definition handoff_to_owner :: "u64 \<Rightarrow> 'f activity_system \<Rightarrow> 'f activity_system" where
  "handoff_to_owner i sys = sys\<lparr>sys_handed_off := List.insert i (sys_handed_off sys)\<rparr>"

definition was_handed_off :: "u64 \<Rightarrow> 'f activity_system \<Rightarrow> bool" where
  "was_handed_off i sys \<longleftrightarrow> i \<in> set (sys_handed_off sys)"

definition websocket_complete ::
  "nat \<Rightarrow> activity_outcome \<Rightarrow> activity_error option \<Rightarrow> nat \<Rightarrow> 'f activity_system \<Rightarrow> 'f activity_system" where
  "websocket_complete k outcome err now sys =
     (if k < length (sys_sockets sys) \<and> \<not> snd (sys_sockets sys ! k)
      then (let i = fst (sys_sockets sys ! k) in
            on_hub (complete_activity i (Some 101) outcome err now)
              (sys\<lparr>sys_sockets := (sys_sockets sys)[k := (i, True)]\<rparr>))
      else sys)"

fun hub_step :: "('f \<Rightarrow> bool) \<Rightarrow> nat \<Rightarrow> 'f hub_action \<Rightarrow> 'f activity_system \<Rightarrow> 'f activity_system" where
  "hub_step rate_ok now (Start operation transport m route bytes metadata unix_ms) sys =
     on_hub (\<lambda>hub. fst (start_activity operation transport m route bytes metadata unix_ms now hub)) sys"
| "hub_step rate_ok now (SetModel i model) sys = on_hub (set_model i model now) sys"
| "hub_step rate_ok now (SetInputBytes i n) sys = on_hub (set_input_bytes i n now) sys"
| "hub_step rate_ok now (SetUsage i p c) sys = on_hub (set_llm_usage i p c now) sys"
| "hub_step rate_ok now (SetReasoning i n) sys = on_hub (set_llm_reasoning_tokens i n now) sys"
| "hub_step rate_ok now (SetTiming i q e p d) sys = on_hub (set_llm_timing rate_ok i q e p d now) sys"
| "hub_step rate_ok now (CompleteHttp i status err) sys = on_hub (complete_http i status err now) sys"
| "hub_step rate_ok now (CompleteStreamFailure i outcome err) sys =
     on_hub (complete_activity i (Some 200) outcome (Some err) now) sys"
| "hub_step rate_ok now (CompleteStreamCancelled i) sys =
     on_hub (complete_activity i (Some 200) CancelledOutcome None now) sys"
| "hub_step rate_ok now (CancelActivity i) sys =
     on_hub (complete_activity i None CancelledOutcome None now) sys"
| "hub_step rate_ok now (DisconnectActivity i) sys =
     on_hub (complete_activity i None Disconnected None now) sys"
| "hub_step rate_ok now (HandoffWebsocket i) sys = handoff_to_websocket i now sys"
| "hub_step rate_ok now (HandoffOwner i) sys = handoff_to_owner i sys"
| "hub_step rate_ok now (AddInput i n) sys = on_hub (\<lambda>hub. fst (add_input_bytes i n now hub)) sys"
| "hub_step rate_ok now (FlushInput i) sys = on_hub (flush_input_update i now) sys"
| "hub_step rate_ok now (WsComplete k outcome err) sys = websocket_complete k outcome err now sys"

fun hub_run :: "('f \<Rightarrow> bool) \<Rightarrow> (nat \<times> 'f hub_action) list \<Rightarrow> 'f activity_system \<Rightarrow> 'f activity_system" where
  "hub_run rate_ok [] sys = sys"
| "hub_run rate_ok ((now, x) # xs) sys = hub_run rate_ok xs (hub_step rate_ok now x sys)"

text \<open>The operations that a hub step can come down to: a change of one entry in flight, a note of
  input, a flush, the end of one, or a start.\<close>

definition entry_change :: "('f activity_entry \<Rightarrow> 'f activity_entry) \<Rightarrow> bool" where
  "entry_change f \<longleftrightarrow> (\<forall>en. ae_id (f en) = ae_id en)"

inductive hub_effect :: "'f activity_hub \<Rightarrow> 'f activity_hub \<Rightarrow> bool" where
  same: "hub_effect hub hub"
| changed: "entry_change f \<Longrightarrow> hub_effect hub (update_activity i f now hub)"
| noted: "hub_effect hub (fst (add_input_bytes i n now hub))"
| flushed: "hub_effect hub (flush_input_update i now hub)"
| ended: "hub_effect hub (complete_activity i status outcome err now hub)"
| started: "hub_effect hub (fst (start_activity operation transport m route bytes metadata ms now hub))"

lemma hub_step_effect: "hub_effect (sys_hub sys) (sys_hub (hub_step rate_ok now x sys))"
  by (cases x)
     (auto simp: on_hub_def set_model_def set_input_bytes_def set_llm_usage_def
        set_llm_reasoning_tokens_def set_llm_timing_def complete_http_def handoff_to_websocket_def
        handoff_to_owner_def websocket_complete_def Let_def entry_change_def split: sum.split
        intro!: hub_effect.intros)

lemma hub_run_invariant:
  assumes "\<And>hub hub'. hub_effect hub hub' \<Longrightarrow> P hub \<Longrightarrow> P hub'" and "P (sys_hub sys)"
  shows "P (sys_hub (hub_run rate_ok xs sys))"
  using assms(2)
proof (induction rate_ok xs sys rule: hub_run.induct)
  case (2 rate_ok now x xs sys)
  then show ?case using assms(1) [OF hub_step_effect] by simp
qed simp

section \<open>The history and its metrics agree\<close>

definition succeeded :: "'f activity_entry \<Rightarrow> bool" where
  "succeeded en \<longleftrightarrow> ae_outcome en = Some Success"

definition durations :: "'f activity_entry list \<Rightarrow> nat list" where
  "durations es = List.map_filter ae_duration_ms es"

definition metrics_ok :: "'f store_state \<Rightarrow> bool" where
  "metrics_ok st \<longleftrightarrow>
     st_success_count st = length (filter succeeded (st_history st))
     \<and> sorted (st_sorted_durations st)
     \<and> mset (st_sorted_durations st) = mset (durations (st_history st))"

lemma durations_simps [simp]:
  "durations [] = []"
  "durations (en # es) = (case ae_duration_ms en of None \<Rightarrow> durations es | Some d \<Rightarrow> d # durations es)"
  "durations (es @ es') = durations es @ durations es'"
  by (simp_all add: durations_def map_filter_simps List.map_filter_def split: option.split)

lemma insert_at_partition_point:
  "insert_at (partition_point p xs) x xs = takeWhile p xs @ x # dropWhile p xs"
  by (simp add: insert_at_def partition_point_def takeWhile_eq_take [symmetric] dropWhile_eq_drop [symmetric])

lemma sorted_insert_at_partition_point:
  assumes "sorted xs"
  shows "sorted (insert_at (partition_point (\<lambda>v. v \<le> d) xs) (d :: nat) xs)"
proof -
  have "sorted (takeWhile (\<lambda>v. v \<le> d) xs @ dropWhile (\<lambda>v. v \<le> d) xs)" using assms by simp
  moreover have "d < v" if "v \<in> set (dropWhile (\<lambda>v. v \<le> d) xs)" for v
  proof -
    have "sorted (dropWhile (\<lambda>v. v \<le> d) xs)" using assms by (rule sorted_dropWhile)
    moreover have "d < hd (dropWhile (\<lambda>v. v \<le> d) xs)"
      using hd_dropWhile [of "\<lambda>v. v \<le> d" xs] that by (metis empty_iff empty_set not_le)
    ultimately show ?thesis using that
      by (cases "dropWhile (\<lambda>v. v \<le> d) xs") auto
  qed
  ultimately show ?thesis
    unfolding insert_at_partition_point sorted_append sorted_simps(2)
    by (auto dest: set_takeWhileD intro: less_imp_le)
qed

lemma mset_insert_at [simp]: "mset (insert_at i x xs) = add_mset x (mset xs)"
proof -
  have "mset xs = mset (take i xs) + mset (drop i xs)" by (metis append_take_drop_id mset_append)
  then show ?thesis by (simp add: insert_at_def)
qed

lemma mset_remove_at: "i < length xs \<Longrightarrow> mset (remove_at i xs) = mset xs - {# xs ! i #}"
proof -
  assume i: "i < length xs"
  have "mset xs = mset (take i xs @ xs ! i # drop (Suc i) xs)" using remove_at_split [OF i] by metis
  then show ?thesis by (simp add: remove_at_def)
qed

lemma sorted_remove_at:
  assumes "sorted xs"
  shows "sorted (remove_at i xs)"
proof -
  have "sorted (take i xs @ drop i xs)" using assms by simp
  moreover have "set (drop (Suc i) xs) \<subseteq> set (drop i xs)" by (simp add: set_drop_subset_set_drop)
  ultimately show ?thesis using sorted_wrt_drop [OF assms, of "Suc i"]
    unfolding remove_at_def sorted_append by blast
qed

lemma add_metrics_ok:
  assumes "metrics_ok st" and "st_success_count st < usize_max"
  shows "metrics_ok ((add_history_metrics en st)\<lparr>st_history := en # st_history st\<rparr>)"
  using assms sorted_insert_at_partition_point [of "st_sorted_durations st"]
  by (auto simp: metrics_ok_def add_history_metrics_def succeeded_def sat_add_exact split: option.split)

lemma remove_metrics_ok:
  assumes "metrics_ok (st\<lparr>st_history := es @ [en]\<rparr>)"
  shows "metrics_ok (remove_history_metrics en (st\<lparr>st_history := es\<rparr>))"
proof (cases "ae_duration_ms en")
  case None
  with assms show ?thesis
    by (auto simp: metrics_ok_def remove_history_metrics_def succeeded_def)
next
  case (Some d)
  then have m: "mset (st_sorted_durations st) = add_mset d (mset (durations es))"
    using assms by (simp add: metrics_ok_def)
  then have "d \<in> set (st_sorted_durations st)" by (metis set_mset_mset union_single_eq_member)
  then obtain i where i: "position ((=) d) (st_sorted_durations st) = Some i"
    using position_None [of "(=) d"] by fastforce
  from position_Some [OF this] have "i < length (st_sorted_durations st)" "st_sorted_durations st ! i = d"
    by auto
  with mset_remove_at [OF this(1)] m have "mset (remove_at i (st_sorted_durations st)) = mset (durations es)"
    by simp
  with assms i Some show ?thesis
    by (auto simp: metrics_ok_def remove_history_metrics_def succeeded_def sorted_remove_at)
qed

lemma trim_history_ok:
  "metrics_ok st \<Longrightarrow>
   metrics_ok (trim_history capacity st)
   \<and> st_history (trim_history capacity st) = take capacity (st_history st)
   \<and> st_active (trim_history capacity st) = st_active st
   \<and> st_event_seq (trim_history capacity st) = st_event_seq st"
proof (induction capacity st rule: trim_history.induct)
  case (1 capacity st)
  show ?case
  proof (cases "capacity < length (st_history st)")
    case True
    let ?es = "butlast (st_history st)" and ?en = "last (st_history st)"
    let ?st' = "remove_history_metrics ?en (st\<lparr>st_history := ?es\<rparr>)"
    have ne: "st_history st \<noteq> []" using True by auto
    have "metrics_ok (st\<lparr>st_history := ?es @ [?en]\<rparr>)" using 1(2) ne by (simp add: metrics_ok_def)
    from remove_metrics_ok [OF this] have ok: "metrics_ok ?st'" .
    have t: "trim_history capacity st = trim_history capacity ?st'"
      using True by (subst trim_history.simps) simp
    have h: "st_history ?st' = ?es" "st_active ?st' = st_active st" "st_event_seq ?st' = st_event_seq st"
      by (simp_all add: remove_history_metrics_def)
    have "take capacity ?es = take capacity (st_history st)" using True by (simp add: take_butlast)
    with 1(1) [OF True ok] show ?thesis unfolding t h by simp
  next
    case False
    with 1(2) show ?thesis by (subst (1 2 3 4) trim_history.simps) simp
  qed
qed

definition store_inv :: "nat \<Rightarrow> 'f store_state \<Rightarrow> bool" where
  "store_inv capacity st \<longleftrightarrow>
     metrics_ok st \<and> length (st_history st) \<le> capacity
     \<and> (\<forall>en \<in> set (st_history st).
          ae_state en = Completed \<and> ae_address en = None \<and> ae_user_agent en = None)"

text \<open>What a completed activity becomes.\<close>

definition completed_entry ::
  "u16 option \<Rightarrow> activity_outcome \<Rightarrow> activity_error option \<Rightarrow> nat \<Rightarrow> 'f active_entry \<Rightarrow> 'f activity_entry" where
  "completed_entry status outcome err now a =
     (ac_entry (flush_pending_input a))\<lparr>ae_state := Completed,
        ae_duration_ms := Some (duration_ms (now - ac_started a)),
        ae_http_status := status, ae_outcome := Some outcome,
        ae_error_code := (case err of None \<Rightarrow> None | Some e \<Rightarrow> er_code e),
        ae_error_message := (case err of None \<Rightarrow> None | Some e \<Rightarrow> er_message e),
        ae_address := None, ae_user_agent := None\<rparr>"

definition remember :: "nat \<Rightarrow> 'f activity_entry \<Rightarrow> 'f store_state \<Rightarrow> 'f store_state" where
  "remember capacity en st =
     (if 0 < capacity
      then trim_history capacity ((add_history_metrics en st)\<lparr>st_history := en # st_history st\<rparr>)
      else st)"

lemma flush_pending_started [simp]: "ac_started (flush_pending_input a) = ac_started a"
  by (simp add: flush_pending_input_def)

lemma complete_activity_eq:
  "complete_activity i status outcome err now hub =
     (case map_of (st_active (ah_state hub)) i of
        None \<Rightarrow> hub
      | Some a \<Rightarrow>
          publish CompletedEvent (completed_entry status outcome err now a)
            (remember (ah_history_capacity hub) (completed_entry status outcome err now a)
               ((ah_state hub)\<lparr>st_active := AList.delete i (st_active (ah_state hub))\<rparr>)) hub)"
  by (auto simp: complete_activity_def completed_entry_def remember_def Let_def add_history_metrics_def
        split: option.split)

lemma remember_inv:
  assumes "store_inv capacity st" and "capacity < usize_max"
    and "ae_state en = Completed" "ae_address en = None" "ae_user_agent en = None"
  shows "store_inv capacity (remember capacity en st)"
proof (cases "0 < capacity")
  case True
  let ?st = "(add_history_metrics en st)\<lparr>st_history := en # st_history st\<rparr>"
  have "length (filter succeeded (st_history st)) \<le> capacity"
    using assms(1) le_trans [OF length_filter_le] by (auto simp: store_inv_def)
  then have "metrics_ok ?st" using assms(1,2) by (intro add_metrics_ok) (auto simp: store_inv_def metrics_ok_def)
  note t = trim_history_ok [OF this, of capacity]
  have "set (take capacity (en # st_history st)) \<subseteq> insert en (set (st_history st))"
    by (metis list.simps(15) set_take_subset)
  with t True assms show ?thesis by (auto simp: store_inv_def remember_def)
qed (use assms in \<open>simp add: remember_def\<close>)

lemma publish_fields [simp]:
  "ah_state (publish kind en st hub) = st\<lparr>st_event_seq := sat_add (st_event_seq st) 1\<rparr>"
  "ah_history_capacity (publish kind en st hub) = ah_history_capacity hub"
  "ah_enabled (publish kind en st hub) = ah_enabled hub"
  "ah_next_id (publish kind en st hub) = ah_next_id hub"
  by (simp_all add: publish_def Let_def)

lemma store_inv_fields [simp]:
  "store_inv capacity (st\<lparr>st_active := xs\<rparr>) = store_inv capacity st"
  "store_inv capacity (st\<lparr>st_event_seq := n\<rparr>) = store_inv capacity st"
  by (simp_all add: store_inv_def metrics_ok_def)

definition hub_inv :: "'f activity_hub \<Rightarrow> bool" where
  "hub_inv hub \<longleftrightarrow> ah_history_capacity hub < usize_max \<and> store_inv (ah_history_capacity hub) (ah_state hub)"

lemma hub_effect_inv: "hub_effect hub hub' \<Longrightarrow> hub_inv hub \<Longrightarrow> hub_inv hub'"
proof (induction rule: hub_effect.induct)
  case (ended hub i status outcome err now)
  then show ?case
    by (auto simp: hub_inv_def complete_activity_eq completed_entry_def intro!: remember_inv
        split: option.split)
qed (auto simp: hub_inv_def update_activity_def add_input_bytes_def flush_input_update_def
      start_activity_def Let_def split: option.split)

lemma hub_run_inv: "capacity < usize_max \<Longrightarrow> hub_inv (sys_hub (hub_run rate_ok xs (new_system en capacity)))"
  by (rule hub_run_invariant [OF hub_effect_inv])
     (simp_all add: hub_inv_def store_inv_def metrics_ok_def new_system_def new_hub_def)

lemma sorted_rank:
  assumes "sorted xs" and "i < length (xs :: nat list)"
  shows "i < length (filter (\<lambda>v. v \<le> xs ! i) xs)" and "length (filter (\<lambda>v. v < xs ! i) xs) \<le> i"
proof -
  have "filter (\<lambda>v. v \<le> xs ! i) (take (Suc i) xs) = take (Suc i) xs"
    using assms by (auto simp: filter_id_conv in_set_conv_nth less_Suc_eq_le intro!: sorted_nth_mono)
  moreover have "filter (\<lambda>v. v \<le> xs ! i) xs
      = filter (\<lambda>v. v \<le> xs ! i) (take (Suc i) xs) @ filter (\<lambda>v. v \<le> xs ! i) (drop (Suc i) xs)"
    by (metis append_take_drop_id filter_append)
  ultimately show "i < length (filter (\<lambda>v. v \<le> xs ! i) xs)" using assms(2) by simp
  have "filter (\<lambda>v. v < xs ! i) (drop i xs) = []"
    using assms by (auto simp: filter_empty_conv in_set_conv_nth not_less intro!: sorted_nth_mono)
  moreover have "filter (\<lambda>v. v < xs ! i) xs
      = filter (\<lambda>v. v < xs ! i) (take i xs) @ filter (\<lambda>v. v < xs ! i) (drop i xs)"
    by (metis append_take_drop_id filter_append)
  ultimately show "length (filter (\<lambda>v. v < xs ! i) xs) \<le> i"
    using assms(2) length_filter_le [of "\<lambda>v. v < xs ! i" "take i xs"] by simp
qed

lemma length_filter_mset: "mset xs = mset ys \<Longrightarrow> length (filter p xs) = length (filter p ys)"
  by (metis mset_filter size_mset)

text \<open>The 95th percentile by nearest rank: it is one of the values, at least 95 percent of the values
  are no greater, and fewer than 95 percent are smaller.\<close>

definition percentile_95 :: "nat list \<Rightarrow> nat \<Rightarrow> bool" where
  "percentile_95 ds p \<longleftrightarrow>
     p \<in> set ds
     \<and> length ds * 95 \<le> length (filter (\<lambda>v. v \<le> p) ds) * 100
     \<and> length (filter (\<lambda>v. v < p) ds) * 100 < length ds * 95"

lemma summary_percentile:
  assumes "metrics_ok st"
  shows "case as_p95_duration_ms (activity_summary_of st) of
           None \<Rightarrow> durations (st_history st) = []
         | Some p \<Rightarrow> percentile_95 (durations (st_history st)) p"
proof -
  let ?s = "st_sorted_durations st" and ?d = "durations (st_history st)"
  have m: "mset ?s = mset ?d" and srt: "sorted ?s" using assms by (auto simp: metrics_ok_def)
  have len: "length ?s = length ?d" and set: "set ?s = set ?d" using m by (metis size_mset, metis set_mset_mset)
  show ?thesis
  proof (cases "?s = []")
    case True
    with len show ?thesis by (simp add: activity_summary_of_def Let_def)
  next
    case False
    define k where "k = div_ceil (length ?s * 95) 100"
    have n: "0 < length ?s" using False by simp
    have "length ?s * 95 \<le> k * 100" unfolding k_def by (rule div_ceil_mult) simp
    moreover have "k * 100 \<le> length ?s * 95 + 99"
      unfolding k_def div_ceil_def using div_times_less_eq_dividend [of "length ?s * 95 + (100 - 1)" 100] by simp
    ultimately have k: "length ?s * 95 \<le> k * 100" "(k - 1) * 100 < length ?s * 95" "0 < k" "k \<le> length ?s"
      using n by linarith+
    have i: "k - 1 < length ?s" using k by linarith
    let ?p = "?s ! (k - 1)"
    have "k \<le> length (filter (\<lambda>v. v \<le> ?p) ?d)" "length (filter (\<lambda>v. v < ?p) ?d) \<le> k - 1"
      using sorted_rank [OF srt i] length_filter_mset [OF m, of "\<lambda>v. v \<le> ?p"]
        length_filter_mset [OF m, of "\<lambda>v. v < ?p"] k(3) by auto
    moreover have "?p \<in> set ?d" using i set by (metis nth_mem)
    ultimately have "percentile_95 ?d ?p"
      using k len unfolding percentile_95_def by (auto intro: le_trans order.strict_trans1)
    then show ?thesis using False by (simp add: activity_summary_of_def Let_def k_def)
  qed
qed

text \<open>C15. The figures the activity page reports are those of the history it retains. Whatever requests
  do, and in whatever order: the history never exceeds its capacity, the reported number retained is
  its length, the success rate is the share of its successful entries in per mille, the reported
  duration is the 95th percentile of its durations, and no retained entry still carries the address
  or the user agent of its client.\<close>

theorem activity_metrics_match_history:
  assumes "capacity * 1000 \<le> usize_max"
    and "st = ah_state (sys_hub (hub_run rate_ok xs (new_system is_enabled capacity)))"
  shows "length (st_history st) \<le> capacity
    \<and> as_retained (activity_summary_of st) = length (st_history st)
    \<and> as_success_per_mille (activity_summary_of st)
        = (if st_history st = [] then None
           else Some (length (filter succeeded (st_history st)) * 1000 div length (st_history st)))
    \<and> (case as_p95_duration_ms (activity_summary_of st) of
         None \<Rightarrow> durations (st_history st) = []
       | Some p \<Rightarrow> percentile_95 (durations (st_history st)) p)
    \<and> (\<forall>en \<in> set (st_history st). ae_address en = None \<and> ae_user_agent en = None)"
proof -
  have "capacity < usize_max" using assms(1) by (simp add: usize_max_def)
  moreover have "ah_history_capacity (sys_hub (hub_run rate_ok xs (new_system is_enabled capacity))) = capacity"
    by (rule hub_run_invariant [where P = "\<lambda>hub. ah_history_capacity hub = capacity"])
       (auto elim!: hub_effect.cases simp: update_activity_def add_input_bytes_def flush_input_update_def
          complete_activity_def start_activity_def Let_def new_system_def new_hub_def split: option.split)
  ultimately have inv: "store_inv capacity st"
    using hub_run_inv [of capacity rate_ok xs is_enabled] assms(2) by (simp add: hub_inv_def)
  then have m: "metrics_ok st" and le: "length (st_history st) \<le> capacity" by (auto simp: store_inv_def)
  have c: "st_success_count st = length (filter succeeded (st_history st))"
    "st_success_count st \<le> length (st_history st)"
    using m by (auto simp: metrics_ok_def)
  have mul: "sat_mul (st_success_count st) 1000 = st_success_count st * 1000"
    using c(2) le assms(1) by (simp add: sat_mul_def)
  have "st_success_count st * 1000 div length (st_history st) \<le> 1000"
    using div_le_mono [OF mult_le_mono1 [OF c(2)], of 1000 "length (st_history st)"]
    by (cases "st_history st = []") simp_all
  then have "as_success_per_mille (activity_summary_of st)
      = (if st_history st = [] then None else Some (st_success_count st * 1000 div length (st_history st)))"
    by (simp add: activity_summary_of_def Let_def mul)
  with inv summary_percentile [OF m] c(1) le show ?thesis
    by (auto simp: store_inv_def activity_summary_of_def Let_def)
qed

section \<open>The event stream\<close>

definition event_of :: "u64 \<Rightarrow> 'f activity_event \<Rightarrow> bool" where
  "event_of i e \<longleftrightarrow> (case ep_entry (ev_payload e) of None \<Rightarrow> False | Some en \<Rightarrow> ae_id en = i)"

definition kinds_of :: "u64 \<Rightarrow> 'f activity_hub \<Rightarrow> event_kind list" where
  "kinds_of i hub = map ev_kind (filter (event_of i) (ah_events hub))"

definition in_flight :: "u64 \<Rightarrow> 'f activity_hub \<Rightarrow> bool" where
  "in_flight i hub \<longleftrightarrow> map_of (st_active (ah_state hub)) i \<noteq> None"

definition issued :: "u64 \<Rightarrow> 'f activity_hub \<Rightarrow> bool" where
  "issued i hub \<longleftrightarrow> 0 < unat i \<and> unat i < unat (ah_next_id hub)"

definition lifeline :: "event_kind list \<Rightarrow> bool \<Rightarrow> bool" where
  "lifeline ks live \<longleftrightarrow> (\<exists>n. ks = Started # replicate n Updated @ (if live then [] else [CompletedEvent]))"

lemma lifeline_steps:
  "lifeline [Started] True"
  "lifeline ks True \<Longrightarrow> lifeline (ks @ [Updated]) True"
  "lifeline ks True \<Longrightarrow> lifeline (ks @ [CompletedEvent]) False"
  unfolding lifeline_def
proof -
  show "\<exists>n. [Started] = Started # replicate n Updated @ (if True then [] else [CompletedEvent])"
    by (intro exI [of _ 0]) simp
  assume "\<exists>n. ks = Started # replicate n Updated @ (if True then [] else [CompletedEvent])"
  then obtain n where n: "ks = Started # replicate n Updated" by auto
  from n show "\<exists>n. ks @ [Updated] = Started # replicate n Updated @ (if True then [] else [CompletedEvent])"
    by (intro exI [of _ "Suc n"]) (simp add: replicate_append_same)
  from n show "\<exists>n. ks @ [CompletedEvent] = Started # replicate n Updated @ (if False then [] else [CompletedEvent])"
    by auto
qed

lemma kinds_of_publish [simp]:
  "kinds_of i (publish kind en st hub) = kinds_of i hub @ (if ae_id en = i then [kind] else [])"
  by (simp add: kinds_of_def publish_def Let_def event_of_def)

lemma kinds_of_state [simp]:
  "kinds_of i (hub\<lparr>ah_state := st\<rparr>) = kinds_of i hub" "kinds_of i (hub\<lparr>ah_next_id := n\<rparr>) = kinds_of i hub"
  by (simp_all add: kinds_of_def)

lemma trim_history_fields [simp]:
  "st_active (trim_history capacity st) = st_active st"
  "st_event_seq (trim_history capacity st) = st_event_seq st"
proof (induction capacity st rule: trim_history.induct)
  case (1 capacity st)
  show "st_active (trim_history capacity st) = st_active st"
    using 1(1) by (subst trim_history.simps) (simp add: remove_history_metrics_def)
  show "st_event_seq (trim_history capacity st) = st_event_seq st"
    using 1(2) by (subst trim_history.simps) (simp add: remove_history_metrics_def)
qed

lemma remember_active [simp]:
  "st_active (remember capacity en st) = st_active st" "st_event_seq (remember capacity en st) = st_event_seq st"
  by (simp_all add: remember_def add_history_metrics_def)

lemma kept_ids [simp]:
  "ae_id (active_snapshot now a) = ae_id (ac_entry a)"
  "ae_id (completed_entry status outcome err now a) = ae_id (ac_entry a)"
  "ae_id (ac_entry (flush_pending_input a)) = ae_id (ac_entry a)"
  by (simp_all add: active_snapshot_def completed_entry_def flush_pending_input_def)

definition life_inv :: "'f activity_hub \<Rightarrow> bool" where
  "life_inv hub \<longleftrightarrow>
     0 < unat (ah_next_id hub)
     \<and> (\<forall>i a. map_of (st_active (ah_state hub)) i = Some a \<longrightarrow> ae_id (ac_entry a) = i)
     \<and> (\<forall>i. if issued i hub then lifeline (kinds_of i hub) (in_flight i hub)
            else kinds_of i hub = [] \<and> \<not> in_flight i hub)"

lemma life_invD:
  assumes "life_inv hub" and "map_of (st_active (ah_state hub)) i = Some a"
  shows "ae_id (ac_entry a) = i" "issued i hub" "in_flight i hub"
proof -
  show "ae_id (ac_entry a) = i" using assms by (simp add: life_inv_def)
  show live: "in_flight i hub" using assms(2) by (simp add: in_flight_def)
  have "if issued i hub then lifeline (kinds_of i hub) (in_flight i hub)
        else kinds_of i hub = [] \<and> \<not> in_flight i hub"
    using assms(1) unfolding life_inv_def by blast
  with live show "issued i hub" by (auto split: if_splits)
qed

lemma life_invD_line:
  assumes "life_inv hub" and "map_of (st_active (ah_state hub)) i = Some a"
  shows "lifeline (kinds_of i hub) True"
proof -
  have "if issued i hub then lifeline (kinds_of i hub) (in_flight i hub)
        else kinds_of i hub = [] \<and> \<not> in_flight i hub"
    using assms(1) unfolding life_inv_def by blast
  with life_invD(2,3) [OF assms] show ?thesis by simp
qed

text \<open>A step that concerns one activity in flight.\<close>

lemma life_inv_step:
  assumes "life_inv hub" and "issued i hub" and "ah_next_id hub' = ah_next_id hub"
    and "\<And>j a. map_of (st_active (ah_state hub')) j = Some a \<Longrightarrow> ae_id (ac_entry a) = j"
    and "lifeline (kinds_of i hub') (in_flight i hub')"
    and "\<And>j. j \<noteq> i \<Longrightarrow> kinds_of j hub' = kinds_of j hub"
    and "\<And>j. j \<noteq> i \<Longrightarrow> in_flight j hub' = in_flight j hub"
  shows "life_inv hub'"
  unfolding life_inv_def
proof (intro conjI allI impI)
  have same: "issued j hub' = issued j hub" for j using assms(3) by (simp add: issued_def)
  fix j
  show "if issued j hub' then lifeline (kinds_of j hub') (in_flight j hub')
        else kinds_of j hub' = [] \<and> \<not> in_flight j hub'"
  proof (cases "j = i")
    case True
    with same assms(2,5) show ?thesis by simp
  next
    case False
    have "if issued j hub then lifeline (kinds_of j hub) (in_flight j hub)
        else kinds_of j hub = [] \<and> \<not> in_flight j hub"
      using assms(1) unfolding life_inv_def by blast
    with False show ?thesis unfolding same by (simp add: assms(6,7))
  qed
next
  show "0 < unat (ah_next_id hub')" using assms(1,3) by (simp add: life_inv_def)
qed (use assms(4) in blast)

lemma life_inv_update:
  assumes "life_inv hub" and "map_of (st_active (ah_state hub)) i = Some a" and "ae_id (ac_entry a') = i"
  shows "life_inv (hub\<lparr>ah_state := (ah_state hub)\<lparr>st_active := AList.update i a' (st_active (ah_state hub))\<rparr>\<rparr>)"
    and "ae_id en = i \<Longrightarrow>
      life_inv (publish Updated en ((ah_state hub)\<lparr>st_active := AList.update i a' (st_active (ah_state hub))\<rparr>) hub)"
  using life_invD_line [OF assms(1,2)] lifeline_steps(2) [of "kinds_of i hub"] assms(3)
  by (auto intro!: life_inv_step [OF assms(1) life_invD(2) [OF assms(1,2)]]
      simp: in_flight_def update_conv' dest: life_invD(1) [OF assms(1)] split: if_splits)

lemma life_inv_complete:
  assumes "life_inv hub" and "map_of (st_active (ah_state hub)) i = Some a" and "ae_id en = i"
    and "st_active st = AList.delete i (st_active (ah_state hub))"
  shows "life_inv (publish CompletedEvent en st hub)"
  using life_invD_line [OF assms(1,2)] lifeline_steps(3) [of "kinds_of i hub"] assms(3,4)
  by (auto intro!: life_inv_step [OF assms(1) life_invD(2) [OF assms(1,2)]]
      simp: in_flight_def delete_conv' dest: life_invD(1) [OF assms(1)] split: if_splits)

lemma life_inv_start:
  assumes "life_inv hub" and "unat (ah_next_id hub) + 1 < 2 ^ 64" and "ae_id (ac_entry a) = ah_next_id hub"
    and "ae_id en = ah_next_id hub"
    and "st = (ah_state hub)\<lparr>st_active := AList.update (ah_next_id hub) a (st_active (ah_state hub))\<rparr>"
  shows "life_inv (publish Started en st (hub\<lparr>ah_next_id := ah_next_id hub + 1\<rparr>))"
proof -
  let ?n = "ah_next_id hub"
  have next1: "unat (?n + 1) = unat ?n + 1" using assms(2) by (simp add: unat_word_ariths)
  have new: "kinds_of ?n hub = [] \<and> \<not> in_flight ?n hub"
    using assms(1) by (force simp: life_inv_def issued_def)
  show ?thesis
    unfolding life_inv_def
  proof (intro conjI allI impI)
    fix i
    let ?h = "publish Started en st (hub\<lparr>ah_next_id := ?n + 1\<rparr>)"
    show "if issued i ?h then lifeline (kinds_of i ?h) (in_flight i ?h)
          else kinds_of i ?h = [] \<and> \<not> in_flight i ?h"
    proof (cases "i = ?n")
      case True
      with new assms next1 lifeline_steps(1) show ?thesis
        by (auto simp: life_inv_def issued_def in_flight_def update_conv')
    next
      case False
      then have "unat i \<noteq> unat ?n" by (simp add: word_unat_eq_iff)
      then have "issued i ?h = issued i hub" using next1 by (auto simp: issued_def)
      moreover have "kinds_of i ?h = kinds_of i hub" "in_flight i ?h = in_flight i hub"
        using False assms(4,5) by (simp_all add: in_flight_def update_conv')
      moreover have "if issued i hub then lifeline (kinds_of i hub) (in_flight i hub)
          else kinds_of i hub = [] \<and> \<not> in_flight i hub"
        using assms(1) unfolding life_inv_def by blast
      ultimately show ?thesis by simp
    qed
  qed (use assms next1 in \<open>auto simp: life_inv_def update_conv' split: if_splits\<close>)
qed

lemma hub_effect_life:
  "hub_effect hub hub' \<Longrightarrow> life_inv hub \<Longrightarrow>
   ah_next_id hub' = ah_next_id hub \<or> unat (ah_next_id hub) + 1 < 2 ^ 64 \<Longrightarrow> life_inv hub'"
proof (induction rule: hub_effect.induct)
  case (changed f hub i now)
  then show ?case
    by (auto simp: update_activity_def Let_def entry_change_def dest: life_invD(1)
        intro!: life_inv_update(2) split: option.split)
next
  case (noted hub i n now)
  then show ?case
    by (auto simp: add_input_bytes_def Let_def dest: life_invD(1) intro!: life_inv_update(1)
        split: option.split)
next
  case (flushed hub i now)
  then show ?case
    by (auto simp: flush_input_update_def Let_def dest: life_invD(1) intro!: life_inv_update
        split: option.split)
next
  case (ended hub i status outcome err now)
  then show ?case
    by (auto simp: complete_activity_eq dest: life_invD(1) intro!: life_inv_complete split: option.split)
next
  case (started hub operation transport m route bytes metadata ms now)
  show ?case
  proof (cases "ah_enabled hub")
    case True
    then have "ah_next_id (fst (start_activity operation transport m route bytes metadata ms now hub))
        \<noteq> ah_next_id hub"
      by (simp add: start_activity_def Let_def)
    with started True show ?thesis
      by (auto simp: start_activity_def Let_def intro!: life_inv_start)
  qed (use started in \<open>simp add: start_activity_def\<close>)
qed simp

fun is_start :: "'f hub_action \<Rightarrow> bool" where
  "is_start (Start _ _ _ _ _ _ _) = True"
| "is_start _ = False"

lemma next_id_simps [simp]:
  "ah_next_id (update_activity i f now hub) = ah_next_id hub"
  "ah_next_id (fst (add_input_bytes i n now hub)) = ah_next_id hub"
  "ah_next_id (flush_input_update i now hub) = ah_next_id hub"
  "ah_next_id (complete_activity i status outcome err now hub) = ah_next_id hub"
  by (auto simp: update_activity_def add_input_bytes_def flush_input_update_def complete_activity_def Let_def
      split: option.split)

lemma hub_step_next_id:
  "\<not> is_start x \<Longrightarrow> ah_next_id (sys_hub (hub_step rate_ok now x sys)) = ah_next_id (sys_hub sys)"
  by (cases x)
     (auto simp: on_hub_def set_model_def set_input_bytes_def set_llm_usage_def complete_http_def
        set_llm_reasoning_tokens_def set_llm_timing_def handoff_to_websocket_def handoff_to_owner_def
        websocket_complete_def Let_def split: sum.split)

lemma start_next_id:
  "unat (ah_next_id hub) + 1 < 2 ^ 64 \<Longrightarrow>
   unat (ah_next_id (fst (start_activity operation transport m route bytes metadata ms now hub)))
     \<le> unat (ah_next_id hub) + 1"
  by (simp add: start_activity_def Let_def unat_word_ariths)

lemma hub_run_life:
  "life_inv (sys_hub sys) \<Longrightarrow>
   unat (ah_next_id (sys_hub sys)) + length (filter (\<lambda>a. is_start (snd a)) xs) < 2 ^ 64 \<Longrightarrow>
   life_inv (sys_hub (hub_run rate_ok xs sys))"
proof (induction rate_ok xs sys rule: hub_run.induct)
  case (2 rate_ok now x xs sys)
  let ?hub = "sys_hub sys" and ?hub' = "sys_hub (hub_step rate_ok now x sys)"
  have ok: "ah_next_id ?hub' = ah_next_id ?hub \<or> unat (ah_next_id ?hub) + 1 < 2 ^ 64"
    using 2(3) hub_step_next_id [of x rate_ok now sys] by (cases "is_start x") simp_all
  have "unat (ah_next_id ?hub') + length (filter (\<lambda>a. is_start (snd a)) xs) < 2 ^ 64"
  proof (cases "is_start x")
    case True
    then obtain operation transport m route bytes metadata ms
      where "x = Start operation transport m route bytes metadata ms" by (cases x) auto
    with start_next_id [of ?hub operation transport m route bytes metadata ms now] 2(3)
    show ?thesis by (simp add: on_hub_def)
  qed (use 2(3) hub_step_next_id [of x rate_ok now sys] in simp)
  with 2(1) hub_effect_life [OF hub_step_effect 2(2) ok] show ?case by simp
qed simp

definition numbered :: "'f activity_hub \<Rightarrow> bool" where
  "numbered hub \<longleftrightarrow>
     st_event_seq (ah_state hub) = min (length (ah_events hub)) usize_max
     \<and> (\<forall>k < length (ah_events hub). ep_cursor (ev_payload (ah_events hub ! k)) = min (Suc k) usize_max)"

lemma numbered_publish:
  assumes "numbered hub" and "st_event_seq st = st_event_seq (ah_state hub)"
  shows "numbered (publish kind en st hub)"
  using assms
  by (auto simp: numbered_def publish_def Let_def nth_append less_Suc_eq sat_add_def)

lemma hub_effect_numbered: "hub_effect hub hub' \<Longrightarrow> numbered hub \<Longrightarrow> numbered hub'"
proof (induction rule: hub_effect.induct)
  case (started hub operation transport m route bytes metadata ms now)
  then have "numbered (hub\<lparr>ah_next_id := ah_next_id hub + 1\<rparr>)" by (simp add: numbered_def)
  from numbered_publish [OF this] started show ?case by (simp add: start_activity_def Let_def)
next
  case (noted hub i n now)
  then show ?case by (auto simp: add_input_bytes_def Let_def numbered_def split: option.split)
next
  case (flushed hub i now)
  then have "numbered (hub\<lparr>ah_state := (ah_state hub)\<lparr>st_active := xs\<rparr>\<rparr>)" for xs
    by (simp add: numbered_def)
  with flushed show ?case
    by (auto simp: flush_input_update_def Let_def intro!: numbered_publish split: option.split)
qed (auto simp: update_activity_def complete_activity_eq Let_def intro!: numbered_publish split: option.split)

text \<open>C16. The event stream tells the life of every request exactly once. As long as fewer than
  \<open>2^64 - 1\<close> requests start, the events of a request are its start, updates, and, from the moment it
  is no longer in flight, one completion after which nothing follows; a request that was never
  started has no events. The events of all requests together carry consecutive cursors from 1, so
  that a client sees every gap, and the cursor of a page or a reset is that of the last event.\<close>

theorem event_stream_tells_lives:
  assumes "length (filter (\<lambda>a. is_start (snd a)) xs) + 1 < 2 ^ 64"
    and "hub = sys_hub (hub_run rate_ok xs (new_system is_enabled capacity))"
  shows "kinds_of i hub =
      (if issued i hub
       then Started # replicate (length (kinds_of i hub) - (if in_flight i hub then 1 else 2)) Updated
              @ (if in_flight i hub then [] else [CompletedEvent])
       else [])
    \<and> (\<forall>k < length (ah_events hub). ep_cursor (ev_payload (ah_events hub ! k)) = min (Suc k) usize_max)
    \<and> ep_cursor (reset_event hub) = min (length (ah_events hub)) usize_max"
proof -
  let ?new = "new_system is_enabled capacity :: 'a activity_system"
  have "life_inv (sys_hub ?new)"
    by (auto simp: life_inv_def new_system_def new_hub_def kinds_of_def in_flight_def issued_def)
  then have life: "life_inv hub" unfolding assms(2)
    by (rule hub_run_life) (use assms(1) in \<open>simp add: new_system_def new_hub_def\<close>)
  have "numbered hub" unfolding assms(2)
    by (rule hub_run_invariant [OF hub_effect_numbered]) (simp_all add: numbered_def new_system_def new_hub_def)
  moreover have "if issued i hub then lifeline (kinds_of i hub) (in_flight i hub) else kinds_of i hub = []"
    using life unfolding life_inv_def by (metis (full_types))
  ultimately show ?thesis
    by (auto simp: numbered_def reset_event_def lifeline_def split: if_splits)
qed

section \<open>Input bytes\<close>

definition or_zero :: "nat option \<Rightarrow> nat" where
  "or_zero n = (case n of None \<Rightarrow> 0 | Some k \<Rightarrow> k)"

definition input_total :: "'f active_entry \<Rightarrow> nat" where
  "input_total a = sat_add (or_zero (ae_input_bytes (ac_entry a))) (ac_pending_input_bytes a)"

lemma sat_add_nested: "sat_add x (sat_add p n) = sat_add (sat_add x p) n"
  unfolding sat_add_def min_def by auto

lemma input_total_note: "input_total (a\<lparr>ac_pending_input_bytes := sat_add (ac_pending_input_bytes a) n\<rparr>)
    = sat_add (input_total a) n"
  by (simp add: input_total_def sat_add_nested)

lemma input_total_flush [simp]: "input_total (flush_pending_input a) = input_total a"
  by (simp add: input_total_def flush_pending_input_def or_zero_def sat_add_def split: option.split)

lemma input_total_fields [simp]:
  "input_total (a\<lparr>ac_last_input_update := t\<rparr>) = input_total a"
  "input_total (a\<lparr>ac_input_flush_scheduled := b\<rparr>) = input_total a"
  by (simp_all add: input_total_def)

lemma completed_input:
  "or_zero (ae_input_bytes (ac_entry a)) \<le> usize_max \<Longrightarrow>
   or_zero (ae_input_bytes (completed_entry status outcome err now a)) = input_total a"
  by (simp add: completed_entry_def flush_pending_input_def input_total_def or_zero_def sat_add_def
      split: option.split)

text \<open>An action that neither ends activity \<open>i\<close> nor sets its input bytes outright.\<close>

fun keeps_input :: "u64 \<Rightarrow> 'f activity_system \<Rightarrow> 'f hub_action \<Rightarrow> bool" where
  "keeps_input i sys (SetInputBytes j n) = (j \<noteq> i)"
| "keeps_input i sys (CompleteHttp j status err) = (j \<noteq> i)"
| "keeps_input i sys (CompleteStreamFailure j outcome err) = (j \<noteq> i)"
| "keeps_input i sys (CompleteStreamCancelled j) = (j \<noteq> i)"
| "keeps_input i sys (CancelActivity j) = (j \<noteq> i)"
| "keeps_input i sys (DisconnectActivity j) = (j \<noteq> i)"
| "keeps_input i sys (WsComplete k outcome err) =
     (k < length (sys_sockets sys) \<longrightarrow> fst (sys_sockets sys ! k) \<noteq> i)"
| "keeps_input i sys (Start _ _ _ _ _ _ _) = (ah_next_id (sys_hub sys) \<noteq> i)"
| "keeps_input i sys _ = True"

fun noted_input :: "u64 \<Rightarrow> 'f hub_action \<Rightarrow> nat" where
  "noted_input i (AddInput j n) = (if j = i then n else 0)"
| "noted_input i _ = 0"

fun keeps_input_run :: "u64 \<Rightarrow> ('f \<Rightarrow> bool) \<Rightarrow> (nat \<times> 'f hub_action) list \<Rightarrow> 'f activity_system \<Rightarrow> bool" where
  "keeps_input_run i rate_ok [] sys = True"
| "keeps_input_run i rate_ok ((now, x) # xs) sys =
     (keeps_input i sys x \<and> keeps_input_run i rate_ok xs (hub_step rate_ok now x sys))"

text \<open>Activity \<open>i\<close> is in flight and has received \<open>t\<close> bytes, published or not.\<close>

definition counted :: "u64 \<Rightarrow> nat \<Rightarrow> 'f activity_hub \<Rightarrow> bool" where
  "counted i t hub \<longleftrightarrow>
     (\<exists>a. map_of (st_active (ah_state hub)) i = Some a
        \<and> or_zero (ae_input_bytes (ac_entry a)) \<le> usize_max \<and> input_total a = t)"

lemma counted_update:
  "(\<forall>en. ae_input_bytes (f en) = ae_input_bytes en) \<or> j \<noteq> i \<Longrightarrow> counted i t hub \<Longrightarrow>
   counted i t (update_activity j f now hub)"
  by (auto simp: counted_def update_activity_def Let_def update_conv' input_total_def split: option.split)

lemma counted_complete:
  "j \<noteq> i \<Longrightarrow> counted i t hub \<Longrightarrow> counted i t (complete_activity j status outcome err now hub)"
  by (auto simp: counted_def complete_activity_eq delete_conv' split: option.split)

lemma counted_start:
  "ah_next_id hub \<noteq> i \<Longrightarrow> counted i t hub \<Longrightarrow>
   counted i t (fst (start_activity operation transport m route bytes metadata ms now hub))"
  by (auto simp: counted_def start_activity_def Let_def update_conv')

lemma counted_bound: "counted i t hub \<Longrightarrow> sat_add t 0 = t"
  by (auto simp: counted_def input_total_def sat_add_def)

lemma counted_add_input:
  assumes "counted i t hub"
  shows "counted i (sat_add t (if j = i then n else 0)) (fst (add_input_bytes j n now hub))"
proof (cases "j = i")
  case True
  with assms show ?thesis
    by (auto simp: counted_def add_input_bytes_def Let_def update_conv' input_total_note split: option.split)
next
  case False
  with assms counted_bound [OF assms] show ?thesis
    by (auto simp: counted_def add_input_bytes_def Let_def update_conv' split: option.split)
qed

lemma flushed_input_bound:
  "or_zero (ae_input_bytes (ac_entry a)) \<le> usize_max \<Longrightarrow>
   or_zero (ae_input_bytes (ac_entry (flush_pending_input a))) \<le> usize_max"
  by (auto simp: flush_pending_input_def or_zero_def split: option.splits)

lemma counted_flush: "counted i t hub \<Longrightarrow> counted i t (flush_input_update j now hub)"
  by (auto simp: counted_def flush_input_update_def Let_def update_conv' flushed_input_bound split: option.split)

lemma hub_step_counted:
  assumes "counted i t (sys_hub sys)" and "keeps_input i sys x"
  shows "counted i (sat_add t (noted_input i x)) (sys_hub (hub_step rate_ok now x sys))"
  using assms(2) counted_add_input [OF assms(1)] counted_flush [OF assms(1)] counted_bound [OF assms(1)]
    counted_update [OF _ assms(1)] counted_complete [OF _ assms(1)] counted_start [OF _ assms(1)] assms(1)
  by (cases x)
     (auto simp: on_hub_def set_model_def set_input_bytes_def set_llm_usage_def complete_http_def
        set_llm_reasoning_tokens_def set_llm_timing_def handoff_to_websocket_def handoff_to_owner_def
        websocket_complete_def Let_def split: sum.split)

lemma hub_run_counted:
  "counted i t (sys_hub sys) \<Longrightarrow> keeps_input_run i rate_ok xs sys \<Longrightarrow>
   counted i (sat_add t (sum_list (map (\<lambda>y. noted_input i (snd y)) xs))) (sys_hub (hub_run rate_ok xs sys))"
proof (induction rate_ok xs sys arbitrary: t rule: hub_run.induct)
  case (2 rate_ok now x xs sys)
  have "sat_add (sat_add u v) w = sat_add u (v + w)" for u v w by (simp add: sat_add_def)
  with 2(1) [OF hub_step_counted [OF 2(2)]] 2(3) show ?case by simp
qed (simp add: counted_bound)

lemma complete_reports_input:
  assumes "counted i t hub"
  shows "\<exists>en. ep_entry (ev_payload (last (ah_events (complete_activity i status outcome err now hub)))) = Some en
           \<and> ae_id en = ae_id (ac_entry (the (map_of (st_active (ah_state hub)) i)))
           \<and> ae_outcome en = Some outcome \<and> or_zero (ae_input_bytes en) = t"
proof -
  obtain a where a: "map_of (st_active (ah_state hub)) i = Some a"
    "or_zero (ae_input_bytes (ac_entry a)) \<le> usize_max" "input_total a = t"
    using assms by (auto simp: counted_def)
  have "ae_outcome (completed_entry status outcome err now a) = Some outcome"
    by (simp add: completed_entry_def)
  with a completed_input [OF a(2), of status outcome err now] show ?thesis
    by (simp add: complete_activity_eq publish_def Let_def)
qed

text \<open>No input is lost to throttling. However the notes of input of a request, their delayed
  flushes and the actions of other requests interleave, the completion of the request reports all its
  input: what it had at the start of the run plus every byte noted since (up to the largest \<open>u64\<close>).\<close>

theorem completion_counts_all_input:
  assumes "counted i t (sys_hub sys)" and "keeps_input_run i rate_ok xs sys"
  shows "\<exists>en. ep_entry (ev_payload (last (ah_events (complete_activity i status outcome err now
               (sys_hub (hub_run rate_ok xs sys)))))) = Some en
           \<and> ae_outcome en = Some outcome
           \<and> or_zero (ae_input_bytes en) = min (t + sum_list (map (\<lambda>y. noted_input i (snd y)) xs)) usize_max"
  using complete_reports_input [OF hub_run_counted [OF assms], of status outcome err now]
  by (auto simp: sat_add_def)

section \<open>Walking the pages\<close>

text \<open>A client asks for the next page with the cursor of the last one.\<close>

fun walk_pages :: "nat \<Rightarrow> activity_filter \<Rightarrow> 'f activity_entry list \<Rightarrow> 'f activity_entry list list" where
  "walk_pages 0 flt history = []"
| "walk_pages (Suc n) flt history =
     (case history_page flt history of
        (shown, None) \<Rightarrow> [shown]
      | (shown, Some before) \<Rightarrow> shown # walk_pages n (flt\<lparr>af_before := Some before\<rparr>) history)"

lemma history_page_split:
  assumes "history_page flt history = (shown, cursor)" and "0 < af_limit flt" and "af_limit flt < usize_max"
    and "found = filter (\<lambda>en. matches_filter en flt True) history"
  shows "shown = take (af_limit flt) found"
    and "cursor = (if af_limit flt < length found then Some (ae_id (last shown)) else None)"
proof -
  have add: "sat_add (af_limit flt) 1 = Suc (af_limit flt)" using assms(3) by (simp add: sat_add_exact)
  have "shown = take (af_limit flt) found
      \<and> cursor = (if af_limit flt < length found then Some (ae_id (last shown)) else None)"
  proof (cases "af_limit flt < length found")
    case True
    then have "length (take (Suc (af_limit flt)) found) = Suc (af_limit flt)"
      "butlast (take (Suc (af_limit flt)) found) = take (af_limit flt) found"
      "take (af_limit flt) found \<noteq> []"
      using assms(2) by (auto simp: butlast_take)
    with True assms(1,4) add show ?thesis by (auto simp: history_page_def Let_def)
  next
    case False
    with assms(1,4) add show ?thesis by (auto simp: history_page_def Let_def)
  qed
  then show "shown = take (af_limit flt) found"
    "cursor = (if af_limit flt < length found then Some (ae_id (last shown)) else None)" by auto
qed

lemma matches_next:
  assumes "case af_before flt of None \<Rightarrow> True | Some old \<Rightarrow> before \<le> old"
  shows "matches_filter en (flt\<lparr>af_before := Some before\<rparr>) True
     \<longleftrightarrow> matches_filter en flt True \<and> ae_id en < before"
  using assms by (auto simp: matches_filter_def not_le split: option.splits)

definition by_start :: "'f activity_entry list \<Rightarrow> bool" where
  "by_start es \<longleftrightarrow> sorted_wrt (\<lambda>a b. ae_id b < ae_id a) es"

lemma by_start_rest:
  assumes "by_start es" and "0 < n" "n \<le> length es"
  shows "filter (\<lambda>en. ae_id en < ae_id (last (take n es))) es = drop n es"
proof -
  let ?b = "ae_id (last (take n es))"
  have s: "sorted_wrt (\<lambda>a b. ae_id b < ae_id a) (take n es @ drop n es)"
    using assms(1) by (simp add: by_start_def)
  have tk: "take n es \<noteq> []" using assms(2,3) by auto
  then have "last (take n es) \<in> set (take n es)" by (rule last_in_set)
  note tk = tk this
  have split: "take n es = butlast (take n es) @ [last (take n es)]" using tk(1) by simp
  have "sorted_wrt (\<lambda>a b. ae_id b < ae_id a) (butlast (take n es) @ [last (take n es)])"
    using s unfolding split [symmetric] sorted_wrt_append by blast
  then have "\<forall>en \<in> set (butlast (take n es)). ?b < ae_id en" by (simp add: sorted_wrt_append)
  moreover have "set (take n es) = insert (last (take n es)) (set (butlast (take n es)))"
    by (subst split) simp
  ultimately have "\<forall>en \<in> set (take n es). \<not> ae_id en < ?b" by (auto simp: not_less intro: less_imp_le)
  then have "filter (\<lambda>en. ae_id en < ?b) (take n es) = []" by (simp add: filter_empty_conv)
  moreover have "filter (\<lambda>en. ae_id en < ?b) (drop n es) = drop n es"
    using s tk(2) unfolding sorted_wrt_append filter_id_conv by blast
  ultimately show ?thesis by (metis append_Nil append_take_drop_id filter_append)
qed

lemma walk_pages_by_start:
  assumes "by_start history" and "0 < af_limit flt" and "af_limit flt < usize_max"
  shows "length (filter (\<lambda>en. matches_filter en flt True) history) < n \<Longrightarrow>
    concat (walk_pages n flt history) = filter (\<lambda>en. matches_filter en flt True) history"
  using assms(2,3)
proof (induction n arbitrary: flt)
  case (Suc n)
  define found where "found = filter (\<lambda>en. matches_filter en flt True) history"
  obtain shown cursor where page: "history_page flt history = (shown, cursor)" by fastforce
  note split = history_page_split [OF page Suc.prems(2,3) found_def]
  show ?case
  proof (cases "af_limit flt < length found")
    case False
    with split page show ?thesis by (simp add: found_def)
  next
    case True
    let ?b = "ae_id (last shown)" and ?flt = "flt\<lparr>af_before := Some (ae_id (last shown))\<rparr>"
    have desc: "by_start found"
      using assms(1) by (simp add: by_start_def found_def sorted_wrt_filter)
    have "last shown \<in> set found" using True split(1) Suc.prems(2)
      by (metis in_set_takeD last_in_set length_0_conv length_take less_nat_zero_code min_less_iff_conj take_eq_Nil)
    then have "matches_filter (last shown) flt True" by (simp add: found_def)
    then have "case af_before flt of None \<Rightarrow> True | Some old \<Rightarrow> ?b \<le> old"
      by (auto simp: matches_filter_def not_le split: option.splits)
    then have "filter (\<lambda>en. matches_filter en ?flt True) history = filter (\<lambda>en. ae_id en < ?b) found"
      by (simp add: matches_next found_def)
    also have "\<dots> = drop (af_limit flt) found"
      unfolding split(1) using by_start_rest [OF desc Suc.prems(2)] True by simp
    finally have rest: "filter (\<lambda>en. matches_filter en ?flt True) history = drop (af_limit flt) found" .
    have "concat (walk_pages n ?flt history) = drop (af_limit flt) found"
      unfolding rest [symmetric]
      by (rule Suc.IH) (use Suc.prems True rest in \<open>auto simp: found_def\<close>)
    with True split page show ?thesis by (simp add: found_def [symmetric])
  qed
qed simp

text \<open>Paging is complete as long as requests finish in the order in which they started: walking
  the pages of such a history shows every retained entry that matches the filter, each once, newest
  first, in pages no longer than the limit.\<close>

theorem pages_show_ordered_history:
  assumes "by_start history" and "0 < af_limit flt" and "af_limit flt < usize_max"
    and "length history < n"
  shows "concat (walk_pages n flt history) = filter (\<lambda>en. matches_filter en flt True) history"
  using walk_pages_by_start [OF assms(1-3)] assms(4) le_less_trans [OF length_filter_le] by blast

lemma history_page_sub:
  assumes "history_page flt history = (shown, cursor)"
  shows "set shown \<subseteq> set (filter (\<lambda>en. matches_filter en flt True) history)"
proof -
  let ?found = "filter (\<lambda>en. matches_filter en flt True) history"
  have "set (butlast (take k ?found)) \<subseteq> set ?found" "set (take k ?found) \<subseteq> set ?found" for k
    by (meson in_set_butlastD in_set_takeD subsetI, rule set_take_subset)
  moreover have "shown = take (sat_add (af_limit flt) 1) ?found
      \<or> shown = butlast (take (sat_add (af_limit flt) 1) ?found)"
    using assms by (auto simp: history_page_def Let_def)
  ultimately show ?thesis by metis
qed

lemma walk_pages_before:
  "af_before flt = Some before \<Longrightarrow> before \<le> ae_id en \<Longrightarrow> en \<notin> set (concat (walk_pages n flt history))"
proof (induction n arbitrary: flt before)
  case (Suc n)
  obtain shown cursor where page: "history_page flt history = (shown, cursor)" by fastforce
  have sub: "set shown \<subseteq> set (filter (\<lambda>en. matches_filter en flt True) history)"
    by (rule history_page_sub [OF page])
  have now: "en \<notin> set shown"
    using sub Suc.prems by (auto simp: matches_filter_def)
  show ?case
  proof (cases cursor)
    case None
    with page now show ?thesis by simp
  next
    case (Some b)
    then have "b \<in> ae_id ` set shown"
      using page by (auto simp: history_page_def Let_def split: if_splits intro!: imageI last_in_set)
    then have "b < before" using sub Suc.prems(1) by (auto simp: matches_filter_def not_le)
    then have "b \<le> ae_id en" using Suc.prems(2) by simp
    with Suc.IH [of "flt\<lparr>af_before := Some b\<rparr>" b] page Some now show ?thesis by simp
  qed
qed simp

text \<open>C21. Otherwise pages lose entries. The history is in the order of completion, the cursor is an
  identifier, that is, the order of starting: a retained entry that matches the filter, is not yet
  shown, and has started after the last entry of a page, is on none of the following pages, however
  long the client goes on.\<close>

theorem pages_lose_late_starters:
  assumes "history_page flt history = (shown, Some before)" and "en \<in> set history"
    and "matches_filter en flt True" and "en \<notin> set shown" and "before \<le> ae_id en"
  shows "en \<notin> set (concat (walk_pages n flt history))"
proof (cases n)
  case (Suc m)
  with assms(1,4) walk_pages_before [of "flt\<lparr>af_before := Some before\<rparr>" before en m history] assms(5)
  show ?thesis by simp
qed simp

section \<open>Witnesses\<close>

text \<open>Three requests start; they finish in the order 1, 3, 2.\<close>

definition sample_actions :: "(nat \<times> nat hub_action) list" where
  "sample_actions =
     [(0, Start Asr Http ''POST'' ''/a'' None (Some ''ip'', None) 0),
      (0, Start Asr Http ''POST'' ''/a'' None (None, None) 0),
      (0, Start Asr Http ''POST'' ''/a'' None (None, None) 0),
      (1000000, AddInput 1 5), (1000000, FlushInput 1), (2000000, AddInput 1 7),
      (3000000, CompleteHttp 1 200 None), (5000000, CompleteHttp 3 404 None),
      (9000000, CompleteHttp 2 200 None)]"

definition sample_hub :: "nat activity_hub" where
  "sample_hub = sys_hub (hub_run (\<lambda>_. True) sample_actions (new_system True 2))"

theorem activity_metrics_match_history_witness:
  "length (st_history (ah_state sample_hub)) \<le> 2
   \<and> activity_summary_of (ah_state sample_hub)
       = \<lparr>as_active = 0, as_retained = 2, as_success_per_mille = Some 500, as_p95_duration_ms = Some 9\<rparr>"
proof -
  have "activity_summary_of (ah_state sample_hub)
       = \<lparr>as_active = 0, as_retained = 2, as_success_per_mille = Some 500, as_p95_duration_ms = Some 9\<rparr>"
    by code_simp
  moreover have "(2 :: nat) * 1000 \<le> usize_max" by (simp add: usize_max_def)
  ultimately show ?thesis
    using activity_metrics_match_history [OF _ refl, of 2 "\<lambda>_. True" sample_actions True]
    unfolding sample_hub_def by blast
qed

theorem event_stream_tells_lives_witness:
  "kinds_of 1 sample_hub = [Started, Updated, CompletedEvent] \<and> length (ah_events sample_hub) = 7
   \<and> ep_cursor (reset_event sample_hub) = 7"
proof -
  have "length (filter (\<lambda>a. is_start (snd a)) sample_actions) + 1 < 2 ^ 64"
    by (simp add: sample_actions_def)
  from event_stream_tells_lives [OF this, of sample_hub "\<lambda>_. True" True 2 1] sample_hub_def
  have "kinds_of 1 sample_hub = (if issued 1 sample_hub
       then Started # replicate (length (kinds_of 1 sample_hub) - (if in_flight 1 sample_hub then 1 else 2)) Updated
              @ (if in_flight 1 sample_hub then [] else [CompletedEvent]) else [])"
    "ep_cursor (reset_event sample_hub) = min (length (ah_events sample_hub)) usize_max" by blast+
  moreover have "issued 1 sample_hub" "\<not> in_flight 1 sample_hub" "length (kinds_of 1 sample_hub) = 3"
    "length (ah_events sample_hub) = 7"
    by code_simp+
  ultimately show ?thesis by (simp add: usize_max_def)
qed

definition sample_middle :: "nat activity_system" where
  "sample_middle = hub_run (\<lambda>_. True) (take 3 sample_actions) (new_system True 2)"

theorem completion_counts_all_input_witness:
  "\<exists>en. ep_entry (ev_payload (last (ah_events (complete_activity 1 None Disconnected None 3000000
          (sys_hub (hub_run (\<lambda>_. True) (take 3 (drop 3 sample_actions)) sample_middle)))))) = Some en
      \<and> ae_outcome en = Some Disconnected \<and> or_zero (ae_input_bytes en) = 12"
proof -
  have "counted 1 0 (sys_hub sample_middle)"
  proof -
    have "map_option input_total (map_of (st_active (ah_state (sys_hub sample_middle))) 1) = Some 0"
      "map_option (\<lambda>a. or_zero (ae_input_bytes (ac_entry a)))
         (map_of (st_active (ah_state (sys_hub sample_middle))) 1) = Some 0"
      by code_simp+
    then show ?thesis by (auto simp: counted_def)
  qed
  moreover have "keeps_input_run 1 (\<lambda>_. True) (take 3 (drop 3 sample_actions)) sample_middle" by code_simp
  moreover have "min (0 + sum_list (map (\<lambda>y. noted_input 1 (snd y)) (take 3 (drop 3 sample_actions)))) usize_max = 12"
    by code_simp
  ultimately show ?thesis
    using completion_counts_all_input [of 1 0 sample_middle "\<lambda>_. True" "take 3 (drop 3 sample_actions)"]
    by metis
qed

definition sample_filter :: activity_filter where
  "sample_filter = \<lparr>af_limit = 1, af_before = None, af_operation = None, af_outcome = None, af_model = None\<rparr>"

theorem pages_show_ordered_history_witness:
  "concat (walk_pages 5 sample_filter (rev (st_history (ah_state sample_hub))))
     = rev (st_history (ah_state sample_hub)) \<and> length (st_history (ah_state sample_hub)) = 2"
proof -
  have "by_start (rev (st_history (ah_state sample_hub)))" unfolding by_start_def by code_simp
  moreover have "0 < af_limit sample_filter" "af_limit sample_filter < usize_max" by code_simp+
  moreover have len: "length (st_history (ah_state sample_hub)) = 2" by code_simp
  then have "length (rev (st_history (ah_state sample_hub))) < 5" by simp
  moreover have "filter (\<lambda>en. matches_filter en sample_filter True) es = es" for es :: "nat activity_entry list"
    by (auto simp: filter_id_conv matches_filter_def sample_filter_def)
  ultimately show ?thesis using pages_show_ordered_history len by metis
qed

text \<open>Request 2, the last to finish, is on the first page; request 3 started after it and finished
  before it, is retained, and is on no page.\<close>

theorem pages_lose_late_starters_witness:
  "\<exists>en \<in> set (st_history (ah_state sample_hub)). ae_id en = 3
     \<and> (\<forall>n. en \<notin> set (concat (walk_pages n sample_filter (st_history (ah_state sample_hub)))))"
proof -
  let ?h = "st_history (ah_state sample_hub)"
  have ids: "map ae_id ?h = [2, 3]" by code_simp
  have pg: "history_page sample_filter ?h = (take 1 ?h, Some 2)"
    using ids by (auto simp: history_page_def sample_filter_def matches_filter_def Let_def sat_add_def usize_max_def)
  obtain en where en: "en \<in> set ?h" "ae_id en = 3" "en \<notin> set (take 1 ?h)"
  proof -
    obtain a b where h: "?h = [a, b]" "ae_id a = 2" "ae_id b = 3" using ids by (auto simp: map_eq_Cons_conv)
    then have "b \<noteq> a" by auto
    with h show ?thesis by (intro that [of b]) auto
  qed
  have "matches_filter en sample_filter True" by (simp add: matches_filter_def sample_filter_def)
  from pages_lose_late_starters [OF pg en(1) this en(3)] en show ?thesis
    by (auto simp: word_le_nat_alt)
qed

end
