(* ===== verification/Activity_Lifecycle.thy ===== *)
theory Activity_Lifecycle
  imports Activity_Store
begin

text \<open>
  How the server's middleware tells the activity hub about an HTTP request
  (\<open>apps/orchion-server/src/api/activity/lifecycle.rs\<close>): which requests are activities, the guard while
  the handler runs, and the wrapped response body, whose end, error or early drop is the end of the
  activity. The handler and the inner body are given by what they answer.
\<close>

section \<open>Which requests are activities\<close>

definition classify :: "string \<Rightarrow> string option \<Rightarrow> (activity_operation \<times> activity_transport \<times> string) option" where
  "classify http_method matched_route =
     (if http_method = ''OPTIONS'' then None
      else case matched_route of
        None \<Rightarrow> None
      | Some route \<Rightarrow>
          map_option (\<lambda>operation. (operation, Http, route))
            (if (http_method, route) = (''POST'', ''/v1/audio/transcriptions'') then Some Asr
             else if (http_method, route) = (''GET'', ''/v1/audio/transcriptions/stream'') then Some AsrStream
             else if (http_method, route) = (''POST'', ''/v1/audio/speech'') then Some Tts
             else if (http_method, route) = (''POST'', ''/v1/ocr'') then Some Ocr
             else if (http_method, route) = (''POST'', ''/v1/pdf/images'') then Some Pdf
             else if (http_method, route) = (''POST'', ''/v1/chat/completions'') then Some Chat
             else if (http_method, route) = (''POST'', ''/v1/completions'') then Some Completions
             else if (http_method, route) = (''POST'', ''/v1/responses'') then Some Responses
             else if (http_method, route) = (''POST'', ''/v1/responses/input_tokens'') then Some InputTokens
             else if (http_method, route) = (''POST'', ''/v1/embeddings'') then Some EmbeddingsOp
             else None))"

section \<open>The response body\<close>

text \<open>What polling the inner body answers. A frame holds data (with its length) or trailers, and says
  whether the inner body is at its end after it.\<close>

datatype inner_poll =
    InnerEnd
  | InnerFrame "nat option" bool
  | InnerError
  | InnerPending

record http_completion =
  hc_context :: u64
  hc_status :: u16
  hc_error :: "activity_error option"

record activity_body =
  ab_remaining_bytes :: "nat option"
  ab_completion :: "http_completion option"

definition report_complete :: "http_completion \<Rightarrow> 'f hub_action" where
  "report_complete c = CompleteHttp (hc_context c) (hc_status c) (hc_error c)"

definition report_disconnect :: "http_completion \<Rightarrow> 'f hub_action" where
  "report_disconnect c = DisconnectActivity (hc_context c)"

text \<open>Taking the completion and ending it in one of the two ways.\<close>

definition take_completion ::
  "(http_completion \<Rightarrow> 'f hub_action) \<Rightarrow> activity_body \<Rightarrow> 'f hub_action list \<times> activity_body" where
  "take_completion report b =
     ((case ab_completion b of None \<Rightarrow> [] | Some c \<Rightarrow> [report c]), b\<lparr>ab_completion := None\<rparr>)"

fun poll_frame :: "inner_poll \<Rightarrow> activity_body \<Rightarrow> 'f hub_action list \<times> activity_body" where
  "poll_frame InnerEnd b = take_completion report_complete b"
| "poll_frame (InnerFrame data at_end) b =
     (let b' = (case (ab_remaining_bytes b, data) of
                  (Some remaining, Some len) \<Rightarrow> b\<lparr>ab_remaining_bytes := Some (remaining - len)\<rparr>
                | _ \<Rightarrow> b)
      in if data = None \<or> ab_remaining_bytes b' = Some 0 \<or> at_end
         then take_completion report_complete b' else ([], b'))"
| "poll_frame InnerError b = take_completion report_disconnect b"
| "poll_frame InnerPending b = ([], b)"

text \<open>Dropping the body drops a completion that was not taken, which reports a disconnection.\<close>

definition drop_body :: "activity_body \<Rightarrow> 'f hub_action list" where
  "drop_body b = fst (take_completion report_disconnect b)"

fun poll_body :: "inner_poll list \<Rightarrow> activity_body \<Rightarrow> 'f hub_action list" where
  "poll_body [] b = drop_body b"
| "poll_body (p # ps) b = (case poll_frame p b of (log, b') \<Rightarrow> log @ poll_body ps b')"

section \<open>A tracked request\<close>

record response =
  rp_status :: u16
  rp_error :: "activity_error option"
  rp_end_stream :: bool
  rp_content_length :: "nat option"
  rp_exact_size :: "nat option"

definition track_response_body :: "u64 \<Rightarrow> response \<Rightarrow> 'f hub_action list \<times> activity_body option" where
  "track_response_body i r =
     (if rp_end_stream r \<or> rp_content_length r = Some 0
      then ([CompleteHttp i (rp_status r) (rp_error r)], None)
      else ([], Some \<lparr>ab_remaining_bytes =
                        (case rp_exact_size r of Some n \<Rightarrow> Some n | None \<Rightarrow> rp_content_length r),
                      ab_completion = Some \<lparr>hc_context = i, hc_status = rp_status r,
                                            hc_error = rp_error r\<rparr>\<rparr>))"

text \<open>The handler answers, or its future is dropped (the client went away, the handler panicked); the
  flag says whether it handed the activity to a socket or another owner.\<close>

datatype handler_outcome = HandlerDropped | Responded response bool

definition track_activity :: "u64 \<Rightarrow> handler_outcome \<Rightarrow> 'f hub_action list \<times> activity_body option" where
  "track_activity i outcome =
     (case outcome of
        HandlerDropped \<Rightarrow> ([CancelActivity i], None)
      | Responded r handed_off \<Rightarrow> if handed_off then ([], None) else track_response_body i r)"

definition tracked_request :: "u64 \<Rightarrow> handler_outcome \<Rightarrow> inner_poll list \<Rightarrow> 'f hub_action list" where
  "tracked_request i outcome polls =
     (case track_activity i outcome of
        (log, None) \<Rightarrow> log
      | (log, Some b) \<Rightarrow> log @ poll_body polls b)"

section \<open>One report per request\<close>

text \<open>The polls finish a body of which \<open>remaining\<close> bytes are expected, if known: before any error they
  reach the end, trailers, a last frame, or all the expected bytes.\<close>

fun data_bytes :: "inner_poll \<Rightarrow> nat" where
  "data_bytes (InnerFrame (Some len) at_end) = len"
| "data_bytes _ = 0"

definition finishing :: "nat option \<Rightarrow> inner_poll list \<Rightarrow> inner_poll \<Rightarrow> bool" where
  "finishing remaining before p \<longleftrightarrow>
     p = InnerEnd
     \<or> (\<exists>data at_end. p = InnerFrame data at_end
          \<and> (data = None \<or> at_end
             \<or> (\<exists>r. remaining = Some r \<and> r \<le> sum_list (map data_bytes before) + data_bytes p)))"

definition finishes :: "nat option \<Rightarrow> inner_poll list \<Rightarrow> bool" where
  "finishes remaining ps \<longleftrightarrow>
     (\<exists>before p after. ps = before @ p # after \<and> InnerError \<notin> set before \<and> finishing remaining before p)"

definition less_data :: "nat option \<Rightarrow> inner_poll \<Rightarrow> nat option" where
  "less_data remaining p = map_option (\<lambda>r. r - data_bytes p) remaining"

lemma less_data_pending [simp]: "less_data remaining InnerPending = remaining"
  by (cases remaining) (simp_all add: less_data_def)

lemma finishing_Cons: "finishing remaining (p # before) q = finishing (less_data remaining p) before q"
  by (auto simp: finishing_def less_data_def)

lemma finishes_Nil [simp]: "\<not> finishes remaining []"
  by (simp add: finishes_def)

lemma finishes_Cons:
  "finishes remaining (p # ps) \<longleftrightarrow>
     finishing remaining [] p \<or> (p \<noteq> InnerError \<and> finishes (less_data remaining p) ps)"
proof
  assume "finishes remaining (p # ps)"
  then obtain before q after where s: "p # ps = before @ q # after" "InnerError \<notin> set before"
    "finishing remaining before q" by (auto simp: finishes_def)
  then show "finishing remaining [] p \<or> (p \<noteq> InnerError \<and> finishes (less_data remaining p) ps)"
    by (cases before) (auto simp: finishing_Cons finishes_def)
next
  assume "finishing remaining [] p \<or> (p \<noteq> InnerError \<and> finishes (less_data remaining p) ps)"
  then show "finishes remaining (p # ps)"
  proof
    assume "finishing remaining [] p"
    then show ?thesis unfolding finishes_def by (intro exI [of _ "[]"]) auto
  next
    assume r: "p \<noteq> InnerError \<and> finishes (less_data remaining p) ps"
    then obtain before q after where "ps = before @ q # after" "InnerError \<notin> set before"
      "finishing (less_data remaining p) before q" by (auto simp: finishes_def)
    with r show ?thesis unfolding finishes_def
      by (intro exI [of _ "p # before"] exI [of _ q] exI [of _ after]) (auto simp: finishing_Cons)
  qed
qed

lemma poll_body_done: "ab_completion b = None \<Longrightarrow> poll_body ps b = []"
proof (induction ps arbitrary: b)
  case (Cons p ps)
  then show ?case by (cases p) (auto simp: take_completion_def Let_def split: option.splits)
qed (simp add: drop_body_def take_completion_def)

lemma poll_body_reports:
  "ab_completion b = Some c \<Longrightarrow>
   poll_body ps b = [if finishes (ab_remaining_bytes b) ps then report_complete c else report_disconnect c]"
proof (induction ps arbitrary: b)
  case Nil
  then show ?case by (simp add: drop_body_def take_completion_def)
next
  case (Cons p ps)
  show ?case
  proof (cases p)
    case (InnerFrame data at_end)
    let ?b = "case (ab_remaining_bytes b, data) of
        (Some remaining, Some len) \<Rightarrow> b\<lparr>ab_remaining_bytes := Some (remaining - len)\<rparr> | _ \<Rightarrow> b"
    have rem: "ab_remaining_bytes ?b = less_data (ab_remaining_bytes b) p" "ab_completion ?b = Some c"
      using Cons.prems InnerFrame by (auto simp: less_data_def split: option.split)
    have fin: "finishing (ab_remaining_bytes b) [] p
        \<longleftrightarrow> data = None \<or> ab_remaining_bytes ?b = Some 0 \<or> at_end"
      using InnerFrame unfolding rem by (cases data) (auto simp: finishing_def less_data_def)
    show ?thesis
    proof (cases "data = None \<or> ab_remaining_bytes ?b = Some 0 \<or> at_end")
      case True
      with fin have "finishes (ab_remaining_bytes b) (p # ps)" by (simp add: finishes_Cons)
      with True InnerFrame rem(2) show ?thesis
        by (simp add: Let_def take_completion_def poll_body_done)
    next
      case False
      then have "finishes (ab_remaining_bytes b) (p # ps) = finishes (less_data (ab_remaining_bytes b) p) ps"
      proof -
        have "\<not> finishing (ab_remaining_bytes b) [] p" using fin False by blast
        moreover have "p \<noteq> InnerError" using InnerFrame by simp
        ultimately show ?thesis by (simp add: finishes_Cons)
      qed
      moreover obtain len where "data = Some len" using False by auto
      ultimately show ?thesis using False InnerFrame Cons.IH [OF rem(2)] rem(1) by (simp add: Let_def)
    qed
  qed (use Cons in \<open>auto simp: take_completion_def poll_body_done finishes_Cons finishing_def
        split: option.splits\<close>)
qed

text \<open>C17. Every tracked request is reported to the hub exactly once, whatever its handler does, however
  its body is polled and whenever it is dropped, unless the handler handed the activity over: as
  cancelled when the handler is dropped, as completed with its status and error when the body is
  empty or is delivered to its end, and as disconnected otherwise.\<close>

theorem http_activity_reported_once:
  "(tracked_request i outcome polls :: 'f hub_action list) =
     (case outcome of
        HandlerDropped \<Rightarrow> [CancelActivity i]
      | Responded r True \<Rightarrow> []
      | Responded r False \<Rightarrow>
          [if rp_end_stream r \<or> rp_content_length r = Some 0
              \<or> finishes (case rp_exact_size r of Some n \<Rightarrow> Some n | None \<Rightarrow> rp_content_length r) polls
           then CompleteHttp i (rp_status r) (rp_error r) else DisconnectActivity i])"
  by (auto simp: tracked_request_def track_activity_def track_response_body_def poll_body_reports
      report_complete_def report_disconnect_def split: handler_outcome.split bool.split)

end
