(* ===== verification/Streaming_Vad.thy ===== *)
theory Streaming_Vad
  imports Prelude "HOL-Library.Code_Target_Nat"
begin

text \<open>
  Voice activity endpoints (\<open>libs/orchion-audio-vad/src/streaming.rs\<close>): samples are cut into frames, a
  native detector says of each frame whether it is speech, and a state machine turns the flags into
  segments with some audio before the speech. Samples are values of a type parameter; the detector,
  with the conversion of samples to 16 bits it is fed with, is a function of its state.
\<close>

section \<open>Configuration\<close>

record vad_config =
  vc_frame_duration_ms :: u32
  vc_min_speech_ms :: u32
  vc_min_silence_ms :: u32
  vc_max_segment_ms :: u32
  vc_speech_padding_ms :: u32

definition default_streaming_vad_config :: vad_config where
  "default_streaming_vad_config =
     \<lparr>vc_frame_duration_ms = 30, vc_min_speech_ms = 300, vc_min_silence_ms = 500,
      vc_max_segment_ms = 120000, vc_speech_padding_ms = 200\<rparr>"

definition asr_sample_rate :: nat where "asr_sample_rate = 16000"
definition max_candidate_ms :: nat where "max_candidate_ms = 60000"

definition checked_add_u32 :: "u32 \<Rightarrow> u32 \<Rightarrow> u32 option" where
  "checked_add_u32 a b = (if unat a + unat b < 2 ^ 32 then Some (a + b) else None)"

definition frames_for_ms :: "u32 \<Rightarrow> u32 \<Rightarrow> nat" where
  "frames_for_ms ms frame_ms = (if ms = 0 \<or> frame_ms = 0 then 0 else div_ceil (unat ms) (unat frame_ms))"

text \<open>The checks; the error is the reason it gives.\<close>

definition validate_streaming_vad_config :: "vad_config \<Rightarrow> string + u32" where
  "validate_streaming_vad_config c =
     (if vc_frame_duration_ms c = 0 then Inl ''frame_duration_ms must be greater than 0''
      else if vc_min_speech_ms c = 0 then Inl ''min_speech_ms must be greater than 0''
      else if vc_min_silence_ms c = 0 then Inl ''min_silence_ms must be greater than 0''
      else if vc_max_segment_ms c < vc_min_speech_ms c
      then Inl ''max_segment_ms must be greater than or equal to min_speech_ms''
      else case checked_add_u32 (vc_speech_padding_ms c) (vc_min_speech_ms c) of
             None \<Rightarrow> Inl ''speech_padding_ms + min_speech_ms overflowed''
           | Some combined \<Rightarrow>
               if max_candidate_ms < unat combined
               then Inl ''speech_padding_ms + min_speech_ms exceeds maximum candidate retention''
               else Inr combined)"

definition validate_candidate_sample_budget :: "vad_config \<Rightarrow> u32 \<Rightarrow> nat \<Rightarrow> string option" where
  "validate_candidate_sample_budget c combined frame_samples =
     (let candidate_samples = unat combined * asr_sample_rate div 1000 in
      if candidate_samples < frame_samples
      then Some ''speech_padding_ms + min_speech_ms must allow at least one VAD frame''
      else let min_speech = max (frames_for_ms (vc_min_speech_ms c) (vc_frame_duration_ms c)) 1 in
      if candidate_samples < min_speech * frame_samples
      then Some ''speech_padding_ms + min_speech_ms must hold the rounded minimum speech frames''
      else None)"

section \<open>The state machine\<close>

datatype 'a vad_event =
    SegmentStarted nat "'a list"
  | Audio "'a list"
  | SegmentFinal nat nat

record 'a buffered_frame =
  bf_start_sample :: nat
  bf_samples :: "'a list"

datatype vad_phase = Idle | CandidateSpeech nat | InSegment nat nat

record 'a vad_state =
  vs_config :: vad_config
  vs_frame_samples :: nat
  vs_next_sample :: nat
  vs_phase :: vad_phase
  vs_pre_speech :: "'a buffered_frame list"
  vs_candidate :: "'a buffered_frame list"

definition new_vad_state :: "vad_config \<Rightarrow> nat \<Rightarrow> 'a vad_state" where
  "new_vad_state config frame_samples =
     \<lparr>vs_config = config, vs_frame_samples = frame_samples, vs_next_sample = 0, vs_phase = Idle,
      vs_pre_speech = [], vs_candidate = []\<rparr>"

definition padding_frames :: "'a vad_state \<Rightarrow> nat" where
  "padding_frames st = frames_for_ms (vc_speech_padding_ms (vs_config st)) (vc_frame_duration_ms (vs_config st))"

definition min_speech_frames :: "'a vad_state \<Rightarrow> nat" where
  "min_speech_frames st =
     max (frames_for_ms (vc_min_speech_ms (vs_config st)) (vc_frame_duration_ms (vs_config st))) 1"

definition min_silence_frames :: "'a vad_state \<Rightarrow> nat" where
  "min_silence_frames st =
     max (frames_for_ms (vc_min_silence_ms (vs_config st)) (vc_frame_duration_ms (vs_config st))) 1"

definition max_segment_frames :: "'a vad_state \<Rightarrow> nat" where
  "max_segment_frames st = frames_for_ms (vc_max_segment_ms (vs_config st)) (vc_frame_duration_ms (vs_config st))"

definition max_candidate_samples :: "'a vad_state \<Rightarrow> nat" where
  "max_candidate_samples st =
     (if vc_frame_duration_ms (vs_config st) = 0 then 0
      else case checked_add_u32 (vc_speech_padding_ms (vs_config st)) (vc_min_speech_ms (vs_config st)) of
             None \<Rightarrow> 0
           | Some ms \<Rightarrow> unat ms * vs_frame_samples st div unat (vc_frame_duration_ms (vs_config st)))"

definition sample_count :: "'a buffered_frame list \<Rightarrow> nat" where
  "sample_count fs = sum_list (map (\<lambda>f. length (bf_samples f)) fs)"

text \<open>\<open>pop_front\<close> while a condition on the queue holds.\<close>

fun pop_while :: "('b list \<Rightarrow> bool) \<Rightarrow> 'b list \<Rightarrow> 'b list" where
  "pop_while cond [] = []"
| "pop_while cond (x # xs) = (if cond (x # xs) then pop_while cond xs else x # xs)"

definition remember_pre_speech :: "'a buffered_frame \<Rightarrow> 'a vad_state \<Rightarrow> 'a vad_state" where
  "remember_pre_speech frame st =
     st\<lparr>vs_pre_speech := pop_while (\<lambda>fs. padding_frames st < length fs) (vs_pre_speech st @ [frame])\<rparr>"

definition trim_candidate :: "'a vad_state \<Rightarrow> 'a vad_state" where
  "trim_candidate st =
     st\<lparr>vs_candidate := pop_while (\<lambda>fs. max_candidate_samples st < sample_count fs) (vs_candidate st)\<rparr>"

definition start_segment_if_ready :: "nat \<Rightarrow> 'a vad_state \<Rightarrow> 'a vad_event list \<times> 'a vad_state" where
  "start_segment_if_ready speech_frames st =
     (if speech_frames < min_speech_frames st then ([], st)
      else let start = (case vs_candidate st of [] \<Rightarrow> vs_next_sample st | f # _ \<Rightarrow> bf_start_sample f);
               samples = concat (map bf_samples (vs_candidate st))
           in ([SegmentStarted start samples],
               st\<lparr>vs_candidate := [], vs_phase := InSegment start 0\<rparr>))"

definition push_idle :: "bool \<Rightarrow> 'a buffered_frame \<Rightarrow> 'a vad_state \<Rightarrow> 'a vad_event list \<times> 'a vad_state" where
  "push_idle is_speech frame st =
     (if is_speech then
        (let st1 = st\<lparr>vs_candidate := vs_pre_speech st @ [frame], vs_pre_speech := []\<rparr>;
             st2 = (trim_candidate st1)\<lparr>vs_phase := CandidateSpeech 1\<rparr>
         in start_segment_if_ready 1 st2)
      else ([], remember_pre_speech frame st))"

definition push_candidate ::
  "bool \<Rightarrow> 'a buffered_frame \<Rightarrow> nat \<Rightarrow> 'a vad_state \<Rightarrow> 'a vad_event list \<times> 'a vad_state" where
  "push_candidate is_speech frame speech_frames st =
     (if is_speech then
        (let n = speech_frames + 1;
             st1 = st\<lparr>vs_candidate := vs_candidate st @ [frame]\<rparr>;
             st2 = (trim_candidate st1)\<lparr>vs_phase := CandidateSpeech n\<rparr>
         in start_segment_if_ready n st2)
      else ([], remember_pre_speech frame (st\<lparr>vs_candidate := [], vs_phase := Idle\<rparr>)))"

definition push_segment ::
  "bool \<Rightarrow> 'a buffered_frame \<Rightarrow> nat \<Rightarrow> nat \<Rightarrow> 'a vad_state \<Rightarrow> 'a vad_event list \<times> 'a vad_state" where
  "push_segment is_speech frame start silence_frames st =
     (let silence = (if is_speech then 0 else silence_frames + 1);
          segment_frames = (vs_next_sample st - start) div vs_frame_samples st
      in if min_silence_frames st \<le> silence
            \<or> (0 < max_segment_frames st \<and> max_segment_frames st \<le> segment_frames)
         then ([Audio (bf_samples frame), SegmentFinal start (vs_next_sample st)],
               st\<lparr>vs_phase := Idle, vs_pre_speech := [], vs_candidate := []\<rparr>)
         else ([Audio (bf_samples frame)],
               remember_pre_speech frame (st\<lparr>vs_phase := InSegment start silence\<rparr>)))"

definition push_flag :: "bool \<Rightarrow> 'a list \<Rightarrow> 'a vad_state \<Rightarrow> 'a vad_event list \<times> 'a vad_state" where
  "push_flag is_speech samples st =
     (let frame = \<lparr>bf_start_sample = vs_next_sample st, bf_samples = samples\<rparr>;
          st' = st\<lparr>vs_next_sample := vs_next_sample st + length samples\<rparr>
      in case vs_phase st of
           Idle \<Rightarrow> push_idle is_speech frame st'
         | CandidateSpeech n \<Rightarrow> push_candidate is_speech frame n st'
         | InSegment start silence \<Rightarrow> push_segment is_speech frame start silence st')"

definition finish_state :: "'a vad_state \<Rightarrow> 'a vad_event list \<times> 'a vad_state" where
  "finish_state st =
     ((case vs_phase st of InSegment start _ \<Rightarrow> [SegmentFinal start (vs_next_sample st)] | _ \<Rightarrow> []),
      st\<lparr>vs_phase := Idle, vs_candidate := [], vs_pre_speech := []\<rparr>)"

definition should_process_incomplete_frame :: "'a vad_state \<Rightarrow> bool" where
  "should_process_incomplete_frame st \<longleftrightarrow> vs_phase st \<noteq> Idle"

section \<open>The endpoint\<close>

text \<open>The detector answers for a whole frame, or fails. The loop of \<open>push\<close> does not end when the
  backend's frame size is zero; that is \<open>None\<close>. An error drops the events of the frames before it.\<close>

record ('a, 'v) vad_endpoint =
  ve_vad :: 'v
  ve_state :: "'a vad_state"
  ve_pending_samples :: "'a list"

function push_frames ::
  "('v \<Rightarrow> 'a list \<Rightarrow> (string + bool) \<times> 'v) \<Rightarrow> ('a, 'v) vad_endpoint \<Rightarrow>
   ((string + 'a vad_event list) \<times> ('a, 'v) vad_endpoint) option" where
  "push_frames detect ep =
     (let n = vs_frame_samples (ve_state ep) in
      if n = 0 then None
      else if length (ve_pending_samples ep) < n then Some (Inr [], ep)
      else (let frame = take n (ve_pending_samples ep);
                ep1 = ep\<lparr>ve_pending_samples := drop n (ve_pending_samples ep)\<rparr>
            in case detect (ve_vad ep1) frame of
                 (Inl e, v) \<Rightarrow> Some (Inl e, ep1\<lparr>ve_vad := v\<rparr>)
               | (Inr is_speech, v) \<Rightarrow>
                   (case push_flag is_speech frame (ve_state ep1) of
                      (evs, st) \<Rightarrow>
                        (case push_frames detect (ep1\<lparr>ve_vad := v, ve_state := st\<rparr>) of
                           None \<Rightarrow> None
                         | Some (Inl e, ep') \<Rightarrow> Some (Inl e, ep')
                         | Some (Inr evs', ep') \<Rightarrow> Some (Inr (evs @ evs'), ep')))))"
  by pat_completeness auto
termination
  by (relation "measure (\<lambda>(_, ep). length (ve_pending_samples ep))") auto

declare push_frames.simps [simp del]

lemma push_frames_zero: "vs_frame_samples (ve_state ep) = 0 \<Longrightarrow> push_frames detect ep = None"
  by (subst push_frames.simps) simp

lemma push_frames_short:
  "0 < vs_frame_samples (ve_state ep) \<Longrightarrow> length (ve_pending_samples ep) < vs_frame_samples (ve_state ep) \<Longrightarrow>
   push_frames detect ep = Some (Inr [], ep)"
  by (subst push_frames.simps) simp

lemma push_frames_step:
  assumes "0 < vs_frame_samples (ve_state ep)"
    and "vs_frame_samples (ve_state ep) \<le> length (ve_pending_samples ep)"
    and "detect (ve_vad ep) (take (vs_frame_samples (ve_state ep)) (ve_pending_samples ep)) = (answer, v)"
    and "ep1 = ep\<lparr>ve_pending_samples := drop (vs_frame_samples (ve_state ep)) (ve_pending_samples ep)\<rparr>"
  shows "push_frames detect ep =
     (case answer of
        Inl e \<Rightarrow> Some (Inl e, ep1\<lparr>ve_vad := v\<rparr>)
      | Inr is_speech \<Rightarrow>
          (case push_flag is_speech (take (vs_frame_samples (ve_state ep)) (ve_pending_samples ep)) (ve_state ep) of
             (evs, st) \<Rightarrow>
               (case push_frames detect (ep1\<lparr>ve_vad := v, ve_state := st\<rparr>) of
                  None \<Rightarrow> None
                | Some (Inl e, ep') \<Rightarrow> Some (Inl e, ep')
                | Some (Inr evs', ep') \<Rightarrow> Some (Inr (evs @ evs'), ep'))))"
  using assms by (cases answer; subst push_frames.simps) (simp_all add: Let_def)

definition push_samples ::
  "('v \<Rightarrow> 'a list \<Rightarrow> (string + bool) \<times> 'v) \<Rightarrow> 'a list \<Rightarrow> nat \<Rightarrow> ('a, 'v) vad_endpoint \<Rightarrow>
   ((string + 'a vad_event list) \<times> ('a, 'v) vad_endpoint) option" where
  "push_samples detect samples sample_rate ep =
     (if sample_rate \<noteq> asr_sample_rate
      then Some (Inl ''WebRTC streaming VAD requires 16000 Hz audio'', ep)
      else push_frames detect (ep\<lparr>ve_pending_samples := ve_pending_samples ep @ samples\<rparr>))"

text \<open>The end of the stream: an incomplete last frame is padded with silence for the detector only.\<close>

definition finish_stream ::
  "'a \<Rightarrow> ('v \<Rightarrow> 'a list \<Rightarrow> (string + bool) \<times> 'v) \<Rightarrow> ('a, 'v) vad_endpoint \<Rightarrow>
   'a vad_event list \<times> ('a, 'v) vad_endpoint" where
  "finish_stream zero detect ep =
     (let n = vs_frame_samples (ve_state ep);
          (evs, ep1) =
            (if ve_pending_samples ep \<noteq> [] \<and> should_process_incomplete_frame (ve_state ep)
             then (let frame = ve_pending_samples ep;
                       padded = take n (frame @ replicate (n - length frame) zero)
                   in case detect (ve_vad ep) padded of
                        (answer, v) \<Rightarrow>
                          (case push_flag (case answer of Inl _ \<Rightarrow> False | Inr is_speech \<Rightarrow> is_speech) frame
                                  (ve_state ep) of
                             (evs, st) \<Rightarrow> (evs, ep\<lparr>ve_pending_samples := [], ve_vad := v, ve_state := st\<rparr>)))
             else ([], ep\<lparr>ve_pending_samples := []\<rparr>))
      in case finish_state (ve_state ep1) of (evs', st) \<Rightarrow> (evs @ evs', ep1\<lparr>ve_state := st\<rparr>))"

section \<open>What the events say\<close>

text \<open>Reading the events: the segments that are final, each with its first sample, its end and all the
  audio that was sent for it, and the segment that is open. A sequence that is not well formed has no
  reading.\<close>

type_synonym 'a segment = "nat \<times> nat \<times> 'a list"

fun read_events ::
  "(nat \<times> 'a list) option \<Rightarrow> 'a vad_event list \<Rightarrow> ('a segment list \<times> (nat \<times> 'a list) option) option" where
  "read_events opened [] = Some ([], opened)"
| "read_events None (SegmentStarted s xs # es) = read_events (Some (s, xs)) es"
| "read_events (Some (s, ys)) (Audio xs # es) = read_events (Some (s, ys @ xs)) es"
| "read_events (Some (s, ys)) (SegmentFinal s' e # es) =
     (if s' = s then map_option (\<lambda>(segs, opened). ((s, e, ys) # segs, opened)) (read_events None es) else None)"
| "read_events _ _ = None"

lemma read_events_append:
  "read_events opened (es @ es') =
     (case read_events opened es of
        None \<Rightarrow> None
      | Some (segs, opened') \<Rightarrow>
          map_option (\<lambda>(segs', opened''). (segs @ segs', opened'')) (read_events opened' es'))"
proof (induction opened es rule: read_events.induct)
  case (1 opened)
  then show ?case by (cases "read_events opened es'") auto
next
  case (4 s ys s' e es)
  show ?case
  proof (cases "read_events None es")
    case None
    with 4 show ?thesis by simp
  next
    case (Some r)
    then obtain segs opened where r: "r = (segs, opened)" by (cases r)
    with 4 Some show ?thesis by (cases "read_events opened es'") auto
  qed
qed simp_all

text \<open>Frames that are the end of what has been heard, from sample \<open>k\<close>.\<close>

fun frames_from :: "nat \<Rightarrow> 'a buffered_frame list \<Rightarrow> bool" where
  "frames_from k [] = True"
| "frames_from k (f # fs) = (bf_start_sample f = k \<and> frames_from (k + length (bf_samples f)) fs)"

definition tail_frames :: "nat \<Rightarrow> 'a list \<Rightarrow> 'a buffered_frame list \<Rightarrow> bool" where
  "tail_frames low heard fs \<longleftrightarrow>
     (\<exists>k \<ge> low. k \<le> length heard \<and> frames_from k fs \<and> concat (map bf_samples fs) = drop k heard)"

definition speech_in :: "'a list \<Rightarrow> 'a segment \<Rightarrow> bool" where
  "speech_in heard seg \<longleftrightarrow> (case seg of (s, e, ys) \<Rightarrow> s \<le> e \<and> e \<le> length heard \<and> ys = take (e - s) (drop s heard))"

definition segs_ok :: "'a list \<Rightarrow> 'a segment list \<Rightarrow> bool" where
  "segs_ok heard segs \<longleftrightarrow>
     (\<forall>seg \<in> set segs. speech_in heard seg) \<and> sorted_wrt (\<lambda>(_, e, _) (s, _, _). e \<le> s) segs"

definition last_end :: "'a segment list \<Rightarrow> nat" where
  "last_end segs = (if segs = [] then 0 else fst (snd (last segs)))"

definition vad_inv :: "'a list \<Rightarrow> 'a vad_event list \<Rightarrow> 'a vad_state \<Rightarrow> bool" where
  "vad_inv heard evs st \<longleftrightarrow>
     vs_next_sample st = length heard
     \<and> (\<exists>segs opened. read_events None evs = Some (segs, opened) \<and> segs_ok heard segs
          \<and> last_end segs \<le> length heard
          \<and> (case vs_phase st of
               Idle \<Rightarrow> opened = None \<and> tail_frames (last_end segs) heard (vs_pre_speech st)
             | CandidateSpeech n \<Rightarrow>
                 opened = None \<and> vs_pre_speech st = [] \<and> tail_frames (last_end segs) heard (vs_candidate st)
             | InSegment s silence \<Rightarrow>
                 last_end segs \<le> s \<and> s \<le> length heard \<and> opened = Some (s, drop s heard)))"

lemma frames_from_append:
  "frames_from k (fs @ [f]) \<longleftrightarrow> frames_from k fs \<and> bf_start_sample f = k + sample_count fs"
  by (induction fs arbitrary: k) (simp_all add: sample_count_def add.assoc)

lemma sample_count_concat: "sample_count fs = length (concat (map bf_samples fs))"
  by (induction fs) (simp_all add: sample_count_def)

lemma tail_frames_snoc:
  assumes "tail_frames low heard fs" and "bf_start_sample f = length heard"
  shows "tail_frames low (heard @ bf_samples f) (fs @ [f])"
proof -
  obtain k where k: "low \<le> k" "k \<le> length heard" "frames_from k fs" "concat (map bf_samples fs) = drop k heard"
    using assms(1) by (auto simp: tail_frames_def)
  then have "sample_count fs = length heard - k" by (simp add: sample_count_concat)
  with k assms(2) show ?thesis
    unfolding tail_frames_def by (intro exI [of _ k]) (simp add: frames_from_append)
qed

lemma tail_frames_tl: "tail_frames low heard (f # fs) \<Longrightarrow> tail_frames low heard fs"
proof -
  assume "tail_frames low heard (f # fs)"
  then obtain k where k: "low \<le> k" "k \<le> length heard" "frames_from k (f # fs)"
    "bf_samples f @ concat (map bf_samples fs) = drop k heard" by (auto simp: tail_frames_def)
  let ?k = "k + length (bf_samples f)"
  have "length (bf_samples f) \<le> length heard - k" using arg_cong [OF k(4), of length] by simp
  moreover have "concat (map bf_samples fs) = drop ?k heard"
    using arg_cong [OF k(4), of "drop (length (bf_samples f))"] by (simp add: add.commute)
  ultimately show ?thesis using k unfolding tail_frames_def by (intro exI [of _ ?k]) auto
qed

lemma tail_frames_pop: "tail_frames low heard fs \<Longrightarrow> tail_frames low heard (pop_while cond fs)"
  by (induction cond fs rule: pop_while.induct) (auto dest: tail_frames_tl)

lemma tail_frames_Nil: "low \<le> length heard \<Longrightarrow> tail_frames low heard []"
  unfolding tail_frames_def by (intro exI [of _ "length heard"]) simp

lemma speech_in_append: "speech_in heard seg \<Longrightarrow> speech_in (heard @ xs) seg"
  by (cases seg) (auto simp: speech_in_def)

lemma segs_ok_append: "segs_ok heard segs \<Longrightarrow> segs_ok (heard @ xs) segs"
  by (auto simp: segs_ok_def intro: speech_in_append)

lemma segs_ok_snoc:
  assumes "segs_ok heard segs" and "speech_in heard (s, e, ys)" and "last_end segs \<le> s"
  shows "segs_ok heard (segs @ [(s, e, ys)])"
proof -
  have "e' \<le> s" if "(s', e', ys') \<in> set segs" for s' e' ys'
  proof -
    have ne: "segs \<noteq> []" using that by auto
    have split: "segs = butlast segs @ [last segs]" using ne by simp
    obtain sl el yl where l: "last segs = (sl, el, yl)" by (cases "last segs")
    have el: "el \<le> s" using assms(3) ne l by (simp add: last_end_def)
    have sp: "sl \<le> el" using assms(1) ne l last_in_set [OF ne] by (auto simp: segs_ok_def speech_in_def)
    have "sorted_wrt (\<lambda>(_, e, _) (s, _, _). e \<le> s) (butlast segs @ [last segs])"
      using assms(1) split by (metis segs_ok_def)
    then have "\<forall>x \<in> set (butlast segs). fst (snd x) \<le> sl"
      by (auto simp: sorted_wrt_append l)
    then show "e' \<le> s" using that el sp l by (subst (asm) split) fastforce
  qed
  with assms(1,2) show ?thesis by (auto simp: segs_ok_def sorted_wrt_append)
qed

lemma vad_inv_new: "vad_inv [] [] (new_vad_state config n)"
  by (simp add: vad_inv_def new_vad_state_def segs_ok_def last_end_def tail_frames_Nil)

text \<open>Opening a segment from the candidate.\<close>

lemma start_segment_inv:
  assumes "start_segment_if_ready n st = (evs', st')"
    and "vs_phase st = CandidateSpeech n" and "vad_inv heard evs st"
  shows "vad_inv heard (evs @ evs') st'"
proof (cases "n < min_speech_frames st")
  case True
  with assms show ?thesis by (simp add: start_segment_if_ready_def)
next
  case False
  obtain segs where segs: "read_events None evs = Some (segs, None)" "segs_ok heard segs"
    "last_end segs \<le> length heard" "tail_frames (last_end segs) heard (vs_candidate st)"
    "vs_next_sample st = length heard"
    using assms(2,3) by (auto simp: vad_inv_def)
  let ?fs = "vs_candidate st"
  let ?s = "case ?fs of [] \<Rightarrow> vs_next_sample st | f # _ \<Rightarrow> bf_start_sample f"
  have s: "last_end segs \<le> ?s \<and> ?s \<le> length heard \<and> concat (map bf_samples ?fs) = drop ?s heard"
    using segs(3-5) by (cases ?fs) (auto simp: tail_frames_def)
  have ev: "evs' = [SegmentStarted ?s (concat (map bf_samples ?fs))]"
    "st' = st\<lparr>vs_candidate := [], vs_phase := InSegment ?s 0\<rparr>"
    using assms(1) False by (auto simp: start_segment_if_ready_def Let_def)
  have "read_events None (evs @ evs') = Some (segs, Some (?s, drop ?s heard))"
    using segs(1) s by (simp add: read_events_append ev(1))
  with segs s show ?thesis by (auto simp: vad_inv_def ev(2))
qed

lemma vad_inv_idleD:
  assumes "vad_inv heard evs st" and "vs_phase st = Idle"
  obtains segs where "read_events None evs = Some (segs, None)" "segs_ok heard segs"
    "last_end segs \<le> length heard" "tail_frames (last_end segs) heard (vs_pre_speech st)"
  using assms by (auto simp: vad_inv_def)

lemma tail_frames_frame:
  "vs_next_sample st = length heard \<Longrightarrow> tail_frames low heard fs \<Longrightarrow>
   tail_frames low (heard @ xs) (fs @ [\<lparr>bf_start_sample = vs_next_sample st, bf_samples = xs\<rparr>])"
  using tail_frames_snoc [of low heard fs "\<lparr>bf_start_sample = vs_next_sample st, bf_samples = xs\<rparr>"] by simp

lemma push_flag_inv:
  assumes "vad_inv heard evs st" and "push_flag is_speech xs st = (evs', st')"
  shows "vad_inv (heard @ xs) (evs @ evs') st'"
proof -
  let ?f = "\<lparr>bf_start_sample = vs_next_sample st, bf_samples = xs\<rparr>"
  let ?st = "st\<lparr>vs_next_sample := vs_next_sample st + length xs\<rparr>"
  have next_s: "vs_next_sample st = length heard" using assms(1) by (simp add: vad_inv_def)
  show ?thesis
  proof (cases "vs_phase st")
    case Idle
    obtain segs where segs: "read_events None evs = Some (segs, None)" "segs_ok heard segs"
      "last_end segs \<le> length heard" "tail_frames (last_end segs) heard (vs_pre_speech st)"
      using vad_inv_idleD [OF assms(1) Idle] .
    note tl = tail_frames_frame [OF next_s segs(4), of xs]
    show ?thesis
    proof (cases is_speech)
      case True
      let ?st2 = "(trim_candidate (?st\<lparr>vs_candidate := vs_pre_speech st @ [?f], vs_pre_speech := []\<rparr>))
          \<lparr>vs_phase := CandidateSpeech 1\<rparr>"
      have "vad_inv (heard @ xs) evs ?st2"
        using segs tl next_s by (auto simp: vad_inv_def trim_candidate_def segs_ok_append intro: tail_frames_pop)
      moreover have "start_segment_if_ready 1 ?st2 = (evs', st')"
        using assms(2) True Idle by (simp add: push_flag_def push_idle_def Let_def)
      ultimately show ?thesis by (intro start_segment_inv) auto
    next
      case False
      then show ?thesis
        using assms(2) Idle segs tl next_s
        by (auto simp: push_flag_def push_idle_def Let_def remember_pre_speech_def vad_inv_def segs_ok_append
            intro: tail_frames_pop)
    qed
  next
    case (CandidateSpeech n)
    obtain segs where segs: "read_events None evs = Some (segs, None)" "segs_ok heard segs"
      "last_end segs \<le> length heard" "tail_frames (last_end segs) heard (vs_candidate st)"
      "vs_pre_speech st = []"
      using assms(1) CandidateSpeech by (auto simp: vad_inv_def)
    note tl = tail_frames_frame [OF next_s segs(4), of xs]
    show ?thesis
    proof (cases is_speech)
      case True
      let ?st2 = "(trim_candidate (?st\<lparr>vs_candidate := vs_candidate st @ [?f]\<rparr>))
          \<lparr>vs_phase := CandidateSpeech (n + 1)\<rparr>"
      have "vad_inv (heard @ xs) evs ?st2"
        using segs tl next_s by (auto simp: vad_inv_def trim_candidate_def segs_ok_append intro: tail_frames_pop)
      moreover have "start_segment_if_ready (n + 1) ?st2 = (evs', st')"
        using assms(2) True CandidateSpeech by (simp add: push_flag_def push_candidate_def Let_def)
      ultimately show ?thesis by (intro start_segment_inv) auto
    next
      case False
      have "tail_frames (last_end segs) (heard @ xs) ([] @ [?f])"
        using segs(3) by (intro tail_frames_frame [OF next_s] tail_frames_Nil)
      then have "tail_frames (last_end segs) (heard @ xs) (pop_while c [?f])" for c
        using tail_frames_pop [of _ _ "[?f]" c] by (metis append_Nil)
      with False show ?thesis
        using assms(2) CandidateSpeech segs next_s
        by (auto simp: push_flag_def push_candidate_def Let_def remember_pre_speech_def vad_inv_def
            segs_ok_append simp del: pop_while.simps)
    qed
  next
    case (InSegment s silence)
    obtain segs where segs: "read_events None evs = Some (segs, Some (s, drop s heard))" "segs_ok heard segs"
      "last_end segs \<le> s" "s \<le> length heard"
      using assms(1) InSegment by (auto simp: vad_inv_def)
    obtain quiet where "(evs', st') = ([Audio xs, SegmentFinal s (vs_next_sample ?st)],
          ?st\<lparr>vs_phase := Idle, vs_pre_speech := [], vs_candidate := []\<rparr>)
        \<or> (evs', st') = ([Audio xs], remember_pre_speech ?f (?st\<lparr>vs_phase := InSegment s quiet\<rparr>))"
      using assms(2) InSegment by (simp add: push_flag_def push_segment_def Let_def split: if_splits) blast+
    then show ?thesis
    proof
      assume fin: "(evs', st') = ([Audio xs, SegmentFinal s (vs_next_sample ?st)],
          ?st\<lparr>vs_phase := Idle, vs_pre_speech := [], vs_candidate := []\<rparr>)"
      let ?seg = "(s, length (heard @ xs), drop s heard @ xs)"
      have "speech_in (heard @ xs) ?seg" using segs(4) by (simp add: speech_in_def)
      then have "segs_ok (heard @ xs) (segs @ [?seg])"
        using segs by (intro segs_ok_snoc segs_ok_append) auto
      moreover have "read_events None (evs @ evs') = Some (segs @ [?seg], None)"
        using segs(1) fin next_s by (simp add: read_events_append)
      ultimately show ?thesis
        using fin next_s by (auto simp: vad_inv_def last_end_def intro!: tail_frames_Nil)
    next
      assume "(evs', st') = ([Audio xs], remember_pre_speech ?f (?st\<lparr>vs_phase := InSegment s quiet\<rparr>))"
      with segs next_s show ?thesis
        by (auto simp: vad_inv_def remember_pre_speech_def read_events_append segs_ok_append)
    qed
  qed
qed

lemma finish_state_inv:
  assumes "vad_inv heard evs st" and "finish_state st = (evs', st')"
  shows "\<exists>segs. read_events None (evs @ evs') = Some (segs, None) \<and> segs_ok heard segs"
proof (cases "vs_phase st")
  case (InSegment s silence)
  then obtain segs where segs: "read_events None evs = Some (segs, Some (s, drop s heard))"
    "segs_ok heard segs" "last_end segs \<le> s" "s \<le> length heard" "vs_next_sample st = length heard"
    using assms(1) by (auto simp: vad_inv_def)
  have "segs_ok heard (segs @ [(s, length heard, drop s heard)])"
    using segs by (intro segs_ok_snoc) (auto simp: speech_in_def)
  with segs assms(2) InSegment show ?thesis by (auto simp: finish_state_def read_events_append)
qed (use assms in \<open>auto simp: vad_inv_def finish_state_def read_events_append\<close>)

section \<open>Whole streams\<close>

definition new_endpoint :: "vad_config \<Rightarrow> nat \<Rightarrow> 'v \<Rightarrow> ('a, 'v) vad_endpoint" where
  "new_endpoint config n v = \<lparr>ve_vad = v, ve_state = new_vad_state config n, ve_pending_samples = []\<rparr>"

text \<open>Pushing pieces of a stream one after the other, until one fails.\<close>

fun push_all ::
  "('v \<Rightarrow> 'a list \<Rightarrow> (string + bool) \<times> 'v) \<Rightarrow> 'a list list \<Rightarrow> ('a, 'v) vad_endpoint \<Rightarrow>
   ((string + 'a vad_event list) \<times> ('a, 'v) vad_endpoint) option" where
  "push_all detect [] ep = Some (Inr [], ep)"
| "push_all detect (xs # xss) ep =
     (case push_samples detect xs asr_sample_rate ep of
        None \<Rightarrow> None
      | Some (Inl e, ep') \<Rightarrow> Some (Inl e, ep')
      | Some (Inr evs, ep') \<Rightarrow>
          (case push_all detect xss ep' of
             None \<Rightarrow> None
           | Some (Inl e, ep'') \<Rightarrow> Some (Inl e, ep'')
           | Some (Inr evs', ep'') \<Rightarrow> Some (Inr (evs @ evs'), ep'')))"

definition endpoint_inv :: "'a list \<Rightarrow> 'a vad_event list \<Rightarrow> ('a, 'v) vad_endpoint \<Rightarrow> bool" where
  "endpoint_inv stream evs ep \<longleftrightarrow>
     (\<exists>heard. stream = heard @ ve_pending_samples ep \<and> vad_inv heard evs (ve_state ep))"

lemma push_frames_inv:
  "push_frames detect ep = Some (Inr evs', ep') \<Longrightarrow> endpoint_inv stream evs ep \<Longrightarrow>
   endpoint_inv stream (evs @ evs') ep'"
proof (induction detect ep arbitrary: evs evs' ep' rule: push_frames.induct)
  case (1 detect ep)
  let ?n = "vs_frame_samples (ve_state ep)"
  let ?frame = "take ?n (ve_pending_samples ep)"
  let ?ep1 = "ep\<lparr>ve_pending_samples := drop ?n (ve_pending_samples ep)\<rparr>"
  have n: "?n \<noteq> 0" using 1(2) push_frames_zero [of ep detect] by auto
  show ?case
  proof (cases "length (ve_pending_samples ep) < ?n")
    case True
    with 1(2,3) n push_frames_short [of ep detect] show ?thesis by simp
  next
    case False
    obtain answer v where d: "detect (ve_vad ep) ?frame = (answer, v)" by fastforce
    note step = push_frames_step [where ep = ep and detect = detect, OF _ _ d refl]
    obtain is_speech where a: "answer = Inr is_speech"
      using 1(2) n False step by (cases answer) auto
    obtain ev st where pf: "push_flag is_speech ?frame (ve_state ep) = (ev, st)" by fastforce
    let ?ep2 = "?ep1\<lparr>ve_vad := v, ve_state := st\<rparr>"
    obtain evs2 where rest: "push_frames detect ?ep2 = Some (Inr evs2, ep')" "evs' = ev @ evs2"
      using 1(2) n False step a pf by (auto split: option.splits sum.splits)
    obtain heard where heard: "stream = heard @ ve_pending_samples ep" "vad_inv heard evs (ve_state ep)"
      using 1(3) by (auto simp: endpoint_inv_def)
    have "stream = (heard @ ?frame) @ ve_pending_samples ?ep2" using heard(1) by simp
    with push_flag_inv [OF heard(2) pf] have inv: "endpoint_inv stream (evs @ ev) ?ep2"
      unfolding endpoint_inv_def by (intro exI [of _ "heard @ ?frame"]) simp
    have "endpoint_inv stream ((evs @ ev) @ evs2) ep'"
      by (rule 1(1) [OF refl n False refl refl _ _ _ rest(1) inv]) (use d a pf in auto)
    then show ?thesis using rest(2) by simp
  qed
qed

lemma push_samples_inv:
  assumes "push_samples detect xs asr_sample_rate ep = Some (Inr evs', ep')" and "endpoint_inv stream evs ep"
  shows "endpoint_inv (stream @ xs) (evs @ evs') ep'"
proof -
  let ?ep = "ep\<lparr>ve_pending_samples := ve_pending_samples ep @ xs\<rparr>"
  have "endpoint_inv (stream @ xs) evs ?ep" using assms(2) by (auto simp: endpoint_inv_def)
  with push_frames_inv assms(1) show ?thesis unfolding push_samples_def by (auto split: if_splits)
qed

lemma push_all_inv:
  "push_all detect xss ep = Some (Inr evs', ep') \<Longrightarrow> endpoint_inv stream evs ep \<Longrightarrow>
   endpoint_inv (stream @ concat xss) (evs @ evs') ep'"
proof (induction detect xss ep arbitrary: stream evs evs' rule: push_all.induct)
  case (2 detect xs xss ep)
  obtain ev ep1 where one: "push_samples detect xs asr_sample_rate ep = Some (Inr ev, ep1)"
    using 2(2) by (auto split: option.splits sum.splits)
  obtain evs2 where rest: "push_all detect xss ep1 = Some (Inr evs2, ep')" "evs' = ev @ evs2"
    using 2(2) one by (auto split: option.splits sum.splits)
  from 2(1) [OF one refl refl rest(1) push_samples_inv [OF one 2(3)]] rest(2) show ?case by simp
qed simp

lemma new_endpoint_inv: "endpoint_inv [] [] (new_endpoint config n v)"
  by (auto simp: endpoint_inv_def new_endpoint_def vad_inv_new)

lemma finish_stream_inv:
  assumes "endpoint_inv stream evs ep" and "finish_stream zero detect ep = (evs', ep')"
  shows "\<exists>segs. read_events None (evs @ evs') = Some (segs, None) \<and> segs_ok stream segs"
proof -
  obtain heard where
    heard: "stream = heard @ ve_pending_samples ep" "vad_inv heard evs (ve_state ep)"
    using assms(1) by (auto simp: endpoint_inv_def)
  obtain evs1 st heard' evs2 where fin: "stream = heard' @ drop (length heard') stream"
    "vad_inv heard' (evs @ evs1) st" "finish_state st = (evs2, ve_state ep')" "evs' = evs1 @ evs2"
  proof (cases "ve_pending_samples ep \<noteq> [] \<and> should_process_incomplete_frame (ve_state ep)")
    case True
    let ?m = "vs_frame_samples (ve_state ep)"
    obtain answer w where d: "detect (ve_vad ep) (take ?m (ve_pending_samples ep
        @ replicate (?m - length (ve_pending_samples ep)) zero)) = (answer, w)" by fastforce
    obtain ev st where pf: "push_flag (case answer of Inl _ \<Rightarrow> False | Inr is_speech \<Rightarrow> is_speech)
        (ve_pending_samples ep) (ve_state ep) = (ev, st)" by fastforce
    obtain evs2 st' where fs: "finish_state st = (evs2, st')" by fastforce
    have "vad_inv stream (evs @ ev) st" using push_flag_inv [OF heard(2) pf] heard(1) by simp
    with that [of "stream" ev st evs2] assms(2) True d pf fs
    show ?thesis by (auto simp: finish_stream_def Let_def)
  next
    case False
    obtain evs2 st' where fs: "finish_state (ve_state ep) = (evs2, st')" by fastforce
    with that [of heard "[]" "ve_state ep" evs2] assms(2) False heard
    show ?thesis by (auto simp: finish_stream_def Let_def)
  qed
  from finish_state_inv [OF fin(2,3)] obtain segs where
    segs: "read_events None (evs @ evs') = Some (segs, None)" "segs_ok heard' segs"
    using fin(4) by auto
  have "segs_ok stream segs" using segs_ok_append [OF segs(2)] fin(1) by metis
  with segs(1) show ?thesis by blast
qed

text \<open>C18. Whatever the detector says of the frames, and however the stream is cut into pieces: the
  events of the pieces and of the end of the stream together are a well formed sequence of segments,
  each opened, filled and closed once. The segments follow each other without overlap, lie within the
  stream, and the audio sent for a segment is exactly the stream from its first sample to its end.\<close>

theorem vad_segments_are_slices:
  assumes "push_all detect xss (new_endpoint config n v) = Some (Inr evs, ep)"
    and "finish_stream zero detect ep = (evs', ep')"
  shows "\<exists>segs. read_events None (evs @ evs') = Some (segs, None)
           \<and> (\<forall>(s, e, ys) \<in> set segs. s \<le> e \<and> e \<le> length (concat xss)
                \<and> ys = take (e - s) (drop s (concat xss)))
           \<and> sorted_wrt (\<lambda>(_, e, _) (s, _, _). e \<le> s) segs"
proof -
  have "endpoint_inv (concat xss) evs ep" using push_all_inv [OF assms(1) new_endpoint_inv] by simp
  from finish_stream_inv [OF this assms(2)] show ?thesis by (auto simp: segs_ok_def speech_in_def)
qed

section \<open>Memory\<close>

definition retention_ok :: "nat \<Rightarrow> 'a vad_state \<Rightarrow> bool" where
  "retention_ok n st \<longleftrightarrow>
     length (vs_pre_speech st) \<le> padding_frames st
     \<and> (\<forall>f \<in> set (vs_pre_speech st). length (bf_samples f) \<le> n)
     \<and> sample_count (vs_candidate st) \<le> max_candidate_samples st"

lemma pop_while_stops: "\<not> cond [] \<Longrightarrow> \<not> cond (pop_while cond xs)"
  by (induction cond xs rule: pop_while.induct) auto

lemma set_pop_while: "set (pop_while cond xs) \<subseteq> set xs"
  by (induction cond xs rule: pop_while.induct) auto

lemma config_simps [simp]:
  "padding_frames (st\<lparr>vs_phase := p\<rparr>) = padding_frames st"
  "padding_frames (st\<lparr>vs_candidate := fs\<rparr>) = padding_frames st"
  "padding_frames (st\<lparr>vs_pre_speech := fs\<rparr>) = padding_frames st"
  "padding_frames (st\<lparr>vs_next_sample := k\<rparr>) = padding_frames st"
  "max_candidate_samples (st\<lparr>vs_phase := p\<rparr>) = max_candidate_samples st"
  "max_candidate_samples (st\<lparr>vs_candidate := fs\<rparr>) = max_candidate_samples st"
  "max_candidate_samples (st\<lparr>vs_pre_speech := fs\<rparr>) = max_candidate_samples st"
  "max_candidate_samples (st\<lparr>vs_next_sample := k\<rparr>) = max_candidate_samples st"
  by (simp_all add: padding_frames_def max_candidate_samples_def split: option.split)

lemma remember_retention:
  assumes "retention_ok n st" and "length (bf_samples f) \<le> n"
  shows "retention_ok n (remember_pre_speech f st)"
proof -
  let ?c = "\<lambda>fs. padding_frames st < length (fs :: 'a buffered_frame list)"
  have "\<not> ?c (pop_while ?c (vs_pre_speech st @ [f]))" by (rule pop_while_stops) simp
  moreover have "set (pop_while ?c (vs_pre_speech st @ [f])) \<subseteq> insert f (set (vs_pre_speech st))"
    using set_pop_while [of ?c "vs_pre_speech st @ [f]"] by simp
  ultimately show ?thesis using assms
    by (auto simp: retention_ok_def remember_pre_speech_def not_less)
qed

lemma trim_retention:
  "retention_ok n (st\<lparr>vs_candidate := []\<rparr>) \<Longrightarrow> retention_ok n (trim_candidate st)"
  using pop_while_stops [of "\<lambda>fs. max_candidate_samples st < sample_count fs" "vs_candidate st"]
  by (simp add: retention_ok_def trim_candidate_def sample_count_def not_less)

lemma retention_phase [simp]:
  "retention_ok n (st\<lparr>vs_phase := p\<rparr>) = retention_ok n st"
  "retention_ok n (st\<lparr>vs_next_sample := k\<rparr>) = retention_ok n st"
  by (simp_all add: retention_ok_def)

lemma retention_clear:
  "retention_ok n st \<Longrightarrow> retention_ok n (st\<lparr>vs_candidate := []\<rparr>)"
  "retention_ok n st \<Longrightarrow> retention_ok n (st\<lparr>vs_pre_speech := []\<rparr>)"
  by (simp_all add: retention_ok_def sample_count_def)

lemma start_segment_retention:
  "retention_ok n st \<Longrightarrow> retention_ok n (snd (start_segment_if_ready k st))"
  by (simp add: start_segment_if_ready_def Let_def retention_clear)

lemma push_idle_retention:
  assumes "retention_ok n st" and "length (bf_samples f) \<le> n"
  shows "retention_ok n (snd (push_idle is_speech f st))"
proof -
  have "retention_ok n (trim_candidate (st\<lparr>vs_candidate := fs, vs_pre_speech := []\<rparr>))" for fs
    by (intro trim_retention) (use assms(1) in \<open>simp add: retention_ok_def sample_count_def\<close>)
  with assms show ?thesis
    by (simp add: push_idle_def Let_def start_segment_retention remember_retention)
qed

lemma push_candidate_retention:
  assumes "retention_ok n st" and "length (bf_samples f) \<le> n"
  shows "retention_ok n (snd (push_candidate is_speech f k st))"
proof -
  have "retention_ok n (trim_candidate (st\<lparr>vs_candidate := fs\<rparr>))" for fs
    by (intro trim_retention) (use assms(1) in \<open>simp add: retention_ok_def sample_count_def\<close>)
  with assms show ?thesis
    by (simp add: push_candidate_def Let_def start_segment_retention remember_retention retention_clear)
qed

lemma push_segment_retention:
  "retention_ok n st \<Longrightarrow> length (bf_samples f) \<le> n \<Longrightarrow>
   retention_ok n (snd (push_segment is_speech f s k st))"
  by (simp add: push_segment_def Let_def remember_retention retention_clear)

lemma push_flag_retention:
  "retention_ok n st \<Longrightarrow> length xs \<le> n \<Longrightarrow> retention_ok n (snd (push_flag is_speech xs st))"
  by (simp add: push_flag_def Let_def push_idle_retention push_candidate_retention push_segment_retention
      split: vad_phase.split)

lemma snd_of_eq: "p = (a, b) \<Longrightarrow> snd p = b"
  by simp

lemma fixed_config_push [simp]:
  "vs_config (snd (push_flag is_speech xs st)) = vs_config st"
  "vs_frame_samples (snd (push_flag is_speech xs st)) = vs_frame_samples st"
  by (simp_all add: push_flag_def push_idle_def push_candidate_def push_segment_def Let_def
      start_segment_if_ready_def remember_pre_speech_def trim_candidate_def split: vad_phase.split)

definition endpoint_bounded :: "vad_config \<Rightarrow> nat \<Rightarrow> ('a, 'v) vad_endpoint \<Rightarrow> bool" where
  "endpoint_bounded config n ep \<longleftrightarrow>
     vs_config (ve_state ep) = config \<and> vs_frame_samples (ve_state ep) = n \<and> retention_ok n (ve_state ep)"

lemma push_frames_bounded:
  "endpoint_bounded config n ep \<Longrightarrow> 0 < n \<Longrightarrow>
   \<exists>result ep'. push_frames detect ep = Some (result, ep') \<and> endpoint_bounded config n ep'
     \<and> (case result of Inl _ \<Rightarrow> True | Inr _ \<Rightarrow> length (ve_pending_samples ep') < n)"
proof (induction detect ep rule: push_frames.induct)
  case (1 detect ep)
  let ?ep1 = "ep\<lparr>ve_pending_samples := drop n (ve_pending_samples ep)\<rparr>"
  have n: "vs_frame_samples (ve_state ep) = n" using 1(2) by (simp add: endpoint_bounded_def)
  show ?case
  proof (cases "length (ve_pending_samples ep) < n")
    case True
    with push_frames_short [of ep detect] n 1(2,3) show ?thesis by auto
  next
    case False
    obtain answer v where d: "detect (ve_vad ep) (take n (ve_pending_samples ep)) = (answer, v)" by fastforce
    note step = push_frames_step [where ep = ep and detect = detect, unfolded n, OF 1(3) _ d refl]
    show ?thesis
    proof (cases answer)
      case (Inl e)
      with step False 1(2) show ?thesis by (simp add: endpoint_bounded_def)
    next
      case (Inr is_speech)
      obtain ev st where pf: "push_flag is_speech (take n (ve_pending_samples ep)) (ve_state ep) = (ev, st)"
        by fastforce
      have "retention_ok n (snd (push_flag is_speech (take n (ve_pending_samples ep)) (ve_state ep)))"
        using 1(2) by (intro push_flag_retention) (auto simp: endpoint_bounded_def)
      then have "endpoint_bounded config n (?ep1\<lparr>ve_vad := v, ve_state := st\<rparr>)"
        using 1(2) pf fixed_config_push [of is_speech "take n (ve_pending_samples ep)" "ve_state ep"]
        by (simp add: endpoint_bounded_def)
      moreover have "(answer, v) = detect (ve_vad ?ep1) (take n (ve_pending_samples ep))"
        "(ev, st) = push_flag is_speech (take n (ve_pending_samples ep)) (ve_state ?ep1)"
        using d pf by simp_all
      ultimately obtain result ep' where "push_frames detect (?ep1\<lparr>ve_vad := v, ve_state := st\<rparr>) = Some (result, ep')"
        "endpoint_bounded config n ep'"
        "case result of Inl _ \<Rightarrow> True | Inr _ \<Rightarrow> length (ve_pending_samples ep') < n"
        using 1(1) [OF n [symmetric] _ _ refl refl _ Inr] False 1(3) by blast
      with step False Inr pf show ?thesis by (cases result) auto
    qed
  qed
qed

lemma push_samples_bounded:
  assumes "endpoint_bounded config n ep" "0 < n"
  shows "\<exists>result ep'. push_samples detect xs asr_sample_rate ep = Some (result, ep')
    \<and> endpoint_bounded config n ep'
    \<and> (case result of Inl _ \<Rightarrow> True | Inr _ \<Rightarrow> length (ve_pending_samples ep') < n)"
  using push_frames_bounded [of config n "ep\<lparr>ve_pending_samples := ve_pending_samples ep @ xs\<rparr>" detect]
    assms by (simp add: push_samples_def endpoint_bounded_def)

lemma new_endpoint_bounded: "endpoint_bounded config n (new_endpoint config n v)"
  by (simp add: endpoint_bounded_def new_endpoint_def new_vad_state_def retention_ok_def sample_count_def)

text \<open>C19. The endpoint always answers, and what it retains is bounded however long the stream or a
  segment is: with a detector frame of \<open>n > 0\<close> samples, after any successful sequence of pushes fewer
  than \<open>n\<close> samples wait for their frame, the frames kept from before speech are at most those of the
  configured padding, and the candidate holds at most the configured number of samples.\<close>

theorem vad_retention_bounded:
  assumes "0 < n"
  shows "\<exists>result ep. push_all detect xss (new_endpoint config n v) = Some (result, ep)
    \<and> (case result of
         Inl _ \<Rightarrow> True
       | Inr _ \<Rightarrow>
           length (ve_pending_samples ep) < n
           \<and> sample_count (vs_pre_speech (ve_state ep)) + sample_count (vs_candidate (ve_state ep))
               \<le> padding_frames (ve_state ep) * n + max_candidate_samples (ve_state ep))"
proof -
  have all: "\<exists>result ep'. push_all detect xss ep = Some (result, ep') \<and> endpoint_bounded config n ep'
      \<and> (case result of Inl _ \<Rightarrow> True | Inr _ \<Rightarrow> length (ve_pending_samples ep') < n)"
    if "endpoint_bounded config n ep" "length (ve_pending_samples ep) < n" for ep :: "('a, 'b) vad_endpoint"
    using that
  proof (induction xss arbitrary: ep)
    case (Cons xs xss)
    obtain result ep1 where r: "push_samples detect xs asr_sample_rate ep = Some (result, ep1)"
      "endpoint_bounded config n ep1"
      "case result of Inl _ \<Rightarrow> True | Inr _ \<Rightarrow> length (ve_pending_samples ep1) < n"
      using push_samples_bounded [OF Cons.prems(1) assms, of detect xs] by blast
    show ?case
    proof (cases result)
      case (Inr evs)
      with r Cons.IH [of ep1] obtain result2 ep2 where "push_all detect xss ep1 = Some (result2, ep2)"
        "endpoint_bounded config n ep2"
        "case result2 of Inl _ \<Rightarrow> True | Inr _ \<Rightarrow> length (ve_pending_samples ep2) < n" by auto
      with r(1) Inr show ?thesis by (cases result2) auto
    qed (use r in auto)
  qed auto
  have "length (ve_pending_samples (new_endpoint config n v)) < n"
    using assms by (simp add: new_endpoint_def)
  from all [OF new_endpoint_bounded this] obtain result ep where
    r: "push_all detect xss (new_endpoint config n v) = Some (result, ep)" "endpoint_bounded config n ep"
      "case result of Inl _ \<Rightarrow> True | Inr _ \<Rightarrow> length (ve_pending_samples ep) < n" by blast
  have ok: "retention_ok n (ve_state ep)" using r(2) by (simp add: endpoint_bounded_def)
  have "sample_count (vs_pre_speech (ve_state ep)) \<le> length (vs_pre_speech (ve_state ep)) * n"
    using ok sum_list_mono [of "vs_pre_speech (ve_state ep)" "\<lambda>f. length (bf_samples f)" "\<lambda>_. n"]
    by (simp add: retention_ok_def sample_count_def sum_list_triv)
  also have "\<dots> \<le> padding_frames (ve_state ep) * n" using ok by (simp add: retention_ok_def)
  finally show ?thesis using r ok by (auto simp: retention_ok_def split: sum.split)
qed

section \<open>Witnesses\<close>

text \<open>Frames of two samples, 10 ms each; a sample is speech when it is greater than 9.\<close>

definition sample_vad_config :: vad_config where
  "sample_vad_config =
     \<lparr>vc_frame_duration_ms = 10, vc_min_speech_ms = 20, vc_min_silence_ms = 20, vc_max_segment_ms = 1000,
      vc_speech_padding_ms = 10\<rparr>"

definition sample_detect :: "unit \<Rightarrow> nat list \<Rightarrow> (string + bool) \<times> unit" where
  "sample_detect v frame = (Inr (9 < hd frame), v)"

definition sample_pieces :: "nat list list" where
  "sample_pieces = [[1, 2, 3], [4, 10, 11, 12, 13], [14, 15, 5, 6, 7, 8], [10, 11, 12, 13, 14]]"

theorem vad_segments_are_slices_witness:
  "\<exists>evs ep evs' ep'.
     push_all sample_detect sample_pieces (new_endpoint sample_vad_config 2 ()) = Some (Inr evs, ep)
     \<and> finish_stream 0 sample_detect ep = (evs', ep')
     \<and> (\<exists>segs. read_events None (evs @ evs') = Some (segs, None) \<and> map fst segs = [2, 14])"
proof -
  let ?run = "push_all sample_detect sample_pieces (new_endpoint sample_vad_config 2 ())"
  have "case ?run of Some (Inr evs, ep) \<Rightarrow>
      map_option (\<lambda>(segs, _). map fst segs) (read_events None (evs @ fst (finish_stream 0 sample_detect ep)))
        = Some [2, 14] | _ \<Rightarrow> False"
    by code_simp
  moreover from this obtain result ep where r: "?run = Some (result, ep)"
    by (cases ?run) auto
  ultimately obtain evs where run: "?run = Some (Inr evs, ep)"
    and eval: "map_option (\<lambda>(segs, _). map fst segs) (read_events None (evs @ fst (finish_stream 0 sample_detect ep)))
        = Some [2, 14]"
    by (cases result) auto
  obtain evs' ep' where fin: "finish_stream 0 sample_detect ep = (evs', ep')" by fastforce
  from vad_segments_are_slices [OF run fin] eval fin run show ?thesis by auto
qed

theorem vad_retention_bounded_witness:
  "\<exists>result ep. push_all sample_detect sample_pieces (new_endpoint sample_vad_config 2 ()) = Some (result, ep)
    \<and> (case result of
         Inl _ \<Rightarrow> True
       | Inr _ \<Rightarrow>
           length (ve_pending_samples ep) < 2
           \<and> sample_count (vs_pre_speech (ve_state ep)) + sample_count (vs_candidate (ve_state ep))
               \<le> padding_frames (ve_state ep) * 2 + max_candidate_samples (ve_state ep))"
  by (rule vad_retention_bounded) simp

end
