(* ===== verification/Vad_Segmenter.thy ===== *)
theory Vad_Segmenter
  imports Streaming_Vad
begin

text \<open>
  Voice activity of a whole recording (\<open>libs/orchion-audio-vad/src/lib.rs\<close>): the runs of speech frames
  that are long enough, merged over short gaps, padded, and turned into ranges of samples.
\<close>

section \<open>Segments from flags\<close>

record segmenter_config =
  sc_frame_duration_ms :: u32
  sc_padding_ms :: u32
  sc_min_speech_ms :: u32
  sc_min_silence_ms :: u32
  sc_merge_gap_ms :: u32

definition default_segmenter_config :: segmenter_config where
  "default_segmenter_config =
     \<lparr>sc_frame_duration_ms = 30, sc_padding_ms = 300, sc_min_speech_ms = 300, sc_min_silence_ms = 540,
      sc_merge_gap_ms = 150\<rparr>"

record frame_segment =
  fs_start_frame :: nat
  fs_end_frame :: nat

record audio_segment =
  sg_start_sample :: nat
  sg_end_sample :: nat

text \<open>The inner loop: the end of the run of speech from \<open>index\<close>.\<close>

function run_end :: "bool list \<Rightarrow> nat \<Rightarrow> nat" where
  "run_end flags index =
     (if index < length flags \<and> flags ! index then run_end flags (index + 1) else index)"
  by pat_completeness auto
termination
  by (relation "measure (\<lambda>(flags, index). length flags - index)") auto

declare run_end.simps [simp del]

lemma run_end_ge: "index \<le> run_end flags index"
proof (induction flags index rule: run_end.induct)
  case (1 flags index)
  then show ?case by (subst run_end.simps) force
qed

lemma run_end_gt: "index < length flags \<Longrightarrow> flags ! index \<Longrightarrow> index < run_end flags index"
  using run_end_ge [of "index + 1" flags] by (subst run_end.simps) simp

text \<open>The outer loop.\<close>

function speech_runs :: "nat \<Rightarrow> bool list \<Rightarrow> nat \<Rightarrow> frame_segment list" where
  "speech_runs min_frames flags index =
     (if index < length flags then
        (if \<not> flags ! index then speech_runs min_frames flags (index + 1)
         else let stop = run_end flags index in
              if stop - index < min_frames then speech_runs min_frames flags stop
              else \<lparr>fs_start_frame = index, fs_end_frame = stop\<rparr> # speech_runs min_frames flags stop)
      else [])"
  by pat_completeness auto
termination
  by (relation "measure (\<lambda>(_, flags, index). length flags - index)") (auto simp: run_end_gt diff_less_mono2)

declare speech_runs.simps [simp del]

fun merge_into :: "nat \<Rightarrow> nat \<Rightarrow> frame_segment \<Rightarrow> frame_segment list \<Rightarrow> frame_segment list" where
  "merge_into min_silence merge_gap previous [] = [previous]"
| "merge_into min_silence merge_gap previous (seg # segs) =
     (let gap = fs_start_frame seg - fs_end_frame previous in
      if gap < min_silence \<or> gap \<le> merge_gap
      then merge_into min_silence merge_gap
             (previous\<lparr>fs_end_frame := max (fs_end_frame previous) (fs_end_frame seg)\<rparr>) segs
      else previous # merge_into min_silence merge_gap seg segs)"

definition merge_close_segments :: "frame_segment list \<Rightarrow> segmenter_config \<Rightarrow> frame_segment list" where
  "merge_close_segments segs c =
     (let min_silence = frames_for_ms (sc_min_silence_ms c) (sc_frame_duration_ms c);
          merge_gap = frames_for_ms (sc_merge_gap_ms c) (sc_frame_duration_ms c)
      in case segs of [] \<Rightarrow> [] | seg # rest \<Rightarrow> merge_into min_silence merge_gap seg rest)"

definition pad_segment :: "nat \<Rightarrow> nat \<Rightarrow> nat \<Rightarrow> nat \<Rightarrow> frame_segment \<Rightarrow> audio_segment" where
  "pad_segment padding total_frames total_samples frame_samples seg =
     (let padded_start = fs_start_frame seg - padding;
          padded_end = min (fs_end_frame seg + padding) total_frames
      in \<lparr>sg_start_sample = padded_start * frame_samples,
          sg_end_sample = min (padded_end * frame_samples) total_samples\<rparr>)"

definition segments_into_audio_segments ::
  "frame_segment list \<Rightarrow> nat \<Rightarrow> nat \<Rightarrow> nat \<Rightarrow> segmenter_config \<Rightarrow> audio_segment list" where
  "segments_into_audio_segments segs total_frames total_samples frame_samples c =
     map (pad_segment (frames_for_ms (sc_padding_ms c) (sc_frame_duration_ms c))
            total_frames total_samples frame_samples) segs"

definition segments_from_speech_flags ::
  "bool list \<Rightarrow> nat \<Rightarrow> nat \<Rightarrow> segmenter_config \<Rightarrow> audio_segment list" where
  "segments_from_speech_flags flags total_samples frame_samples c =
     (if flags = [] \<or> total_samples = 0 \<or> frame_samples = 0 then []
      else let min_speech = max (frames_for_ms (sc_min_speech_ms c) (sc_frame_duration_ms c)) 1;
               segs = speech_runs min_speech flags 0
           in segments_into_audio_segments (merge_close_segments segs c) (length flags) total_samples
                frame_samples c)"

text \<open>The segmenter: a chunk of samples per frame, the last one padded with silence for the detector,
  whose state goes from frame to frame. A frame size of zero makes \<open>chunks\<close> panic: \<open>None\<close>.\<close>

function chunks :: "nat \<Rightarrow> 'a list \<Rightarrow> 'a list list" where
  "chunks n xs = (if n = 0 \<or> xs = [] then [] else take n xs # chunks n (drop n xs))"
  by pat_completeness auto
termination
  by (relation "measure (\<lambda>(_, xs). length xs)") (auto simp: length_greater_0_conv)

declare chunks.simps [simp del]

fun detect_all ::
  "('v \<Rightarrow> 'a list \<Rightarrow> (string + bool) \<times> 'v) \<Rightarrow> 'a \<Rightarrow> nat \<Rightarrow> 'v \<Rightarrow> 'a list list \<Rightarrow> string + bool list" where
  "detect_all detect zero n v [] = Inr []"
| "detect_all detect zero n v (c # cs) =
     (case detect v (c @ replicate (n - length c) zero) of
        (Inl e, _) \<Rightarrow> Inl e
      | (Inr flag, v') \<Rightarrow>
          (case detect_all detect zero n v' cs of Inl e \<Rightarrow> Inl e | Inr flags \<Rightarrow> Inr (flag # flags)))"

definition segment_samples ::
  "('v \<Rightarrow> 'a list \<Rightarrow> (string + bool) \<times> 'v) \<Rightarrow> 'a \<Rightarrow> nat \<Rightarrow> 'v \<Rightarrow> segmenter_config \<Rightarrow> 'a list \<Rightarrow> nat \<Rightarrow>
   (string + audio_segment list) option" where
  "segment_samples detect zero n v c samples sample_rate =
     (if sample_rate \<noteq> asr_sample_rate then Some (Inl ''WebRTC VAD requires 16000 Hz audio'')
      else if samples = [] then Some (Inr [])
      else if n = 0 then None
      else case detect_all detect zero n v (chunks n samples) of
             Inl e \<Rightarrow> Some (Inl e)
           | Inr flags \<Rightarrow> Some (Inr (segments_from_speech_flags flags (length samples) n c)))"

section \<open>Runs\<close>

lemma run_end_run:
  "index \<le> length flags \<Longrightarrow>
   run_end flags index \<le> length flags
   \<and> (\<forall>k. index \<le> k \<and> k < run_end flags index \<longrightarrow> flags ! k)
   \<and> (run_end flags index < length flags \<longrightarrow> \<not> flags ! run_end flags index)"
proof (induction flags index rule: run_end.induct)
  case (1 flags index)
  show ?case
  proof (cases "index < length flags \<and> flags ! index")
    case True
    with 1 have ih: "run_end flags (index + 1) \<le> length flags"
      "\<forall>k. index + 1 \<le> k \<and> k < run_end flags (index + 1) \<longrightarrow> flags ! k"
      "run_end flags (index + 1) < length flags \<longrightarrow> \<not> flags ! run_end flags (index + 1)" by auto
    have eq: "run_end flags index = run_end flags (index + 1)"
      using True by (subst run_end.simps) simp
    show ?thesis unfolding eq
    proof (intro conjI allI impI)
      fix k assume "index \<le> k \<and> k < run_end flags (index + 1)"
      with ih(2) True show "flags ! k" by (cases "k = index") auto
    qed (use ih in auto)
  next
    case False
    then have "run_end flags index = index" by (subst run_end.simps) auto
    with False 1(2) show ?thesis by auto
  qed
qed

text \<open>A maximal run of speech.\<close>

definition is_run :: "bool list \<Rightarrow> nat \<Rightarrow> nat \<Rightarrow> bool" where
  "is_run flags a b \<longleftrightarrow>
     a < b \<and> b \<le> length flags \<and> (\<forall>k. a \<le> k \<and> k < b \<longrightarrow> flags ! k)
     \<and> (a = 0 \<or> \<not> flags ! (a - 1)) \<and> (b = length flags \<or> \<not> flags ! b)"

definition run_boundary :: "bool list \<Rightarrow> nat \<Rightarrow> bool" where
  "run_boundary flags i \<longleftrightarrow>
     i \<le> length flags \<and> (i = 0 \<or> i = length flags \<or> \<not> flags ! (i - 1) \<or> \<not> flags ! i)"

definition runs_from :: "nat \<Rightarrow> bool list \<Rightarrow> nat \<Rightarrow> frame_segment set" where
  "runs_from m flags i =
     {s. i \<le> fs_start_frame s \<and> is_run flags (fs_start_frame s) (fs_end_frame s)
        \<and> m \<le> fs_end_frame s - fs_start_frame s}"

lemma runs_from_silence: "\<not> flags ! i \<Longrightarrow> runs_from m flags i = runs_from m flags (i + 1)"
proof -
  assume "\<not> flags ! i"
  then have "i \<noteq> a" if "is_run flags a b" for a b using that by (auto simp: is_run_def)
  then show ?thesis unfolding runs_from_def by (auto simp: Suc_le_eq less_le)
qed

lemma runs_from_speech:
  assumes "run_boundary flags i" and "i < length flags" and "flags ! i"
  shows "run_boundary flags (run_end flags i)" and "is_run flags i (run_end flags i)"
    and "runs_from m flags i = (if m \<le> run_end flags i - i
       then insert \<lparr>fs_start_frame = i, fs_end_frame = run_end flags i\<rparr> (runs_from m flags (run_end flags i))
       else runs_from m flags (run_end flags i))"
proof -
  let ?e = "run_end flags i"
  have e: "?e \<le> length flags" "\<And>k. i \<le> k \<Longrightarrow> k < ?e \<Longrightarrow> flags ! k" "?e < length flags \<Longrightarrow> \<not> flags ! ?e" "i < ?e"
    using run_end_run [of i flags] run_end_gt assms by auto
  show "run_boundary flags ?e" using e by (auto simp: run_boundary_def)
  show run: "is_run flags i ?e"
    using e assms by (auto simp: is_run_def run_boundary_def le_less)
  have only: "a = i \<and> b = ?e \<or> ?e \<le> a" if "i \<le> a" "is_run flags a b" for a b
  proof (cases "a = i")
    case True
    have "\<not> b < ?e" using that True e(1) e(2) [of b] e(3) unfolding is_run_def by (metis less_imp_le_nat not_le le_less_trans)
    moreover have "\<not> ?e < b" using that True e unfolding is_run_def by (metis less_le_trans less_imp_le)
    ultimately show ?thesis using True by simp
  next
    case False
    have "\<not> a < ?e"
    proof
      assume "a < ?e"
      then have "flags ! (a - 1)" using False that(1) by (intro e(2)) auto
      with that False show False by (auto simp: is_run_def)
    qed
    then show ?thesis by simp
  qed
  have "s \<in> runs_from m flags i \<longleftrightarrow>
      (m \<le> ?e - i \<and> s = \<lparr>fs_start_frame = i, fs_end_frame = ?e\<rparr>) \<or> s \<in> runs_from m flags ?e" for s
  proof -
    obtain a b where s: "s = \<lparr>fs_start_frame = a, fs_end_frame = b\<rparr>" by (cases s) auto
    show ?thesis using only [of a b] run e(4) unfolding s runs_from_def by auto
  qed
  then show "runs_from m flags i = (if m \<le> ?e - i
       then insert \<lparr>fs_start_frame = i, fs_end_frame = ?e\<rparr> (runs_from m flags ?e)
       else runs_from m flags ?e)" by auto
qed

lemma speech_runs_spec:
  "run_boundary flags i \<Longrightarrow>
   set (speech_runs m flags i) = runs_from m flags i
   \<and> sorted_wrt (\<lambda>s t. fs_end_frame s < fs_start_frame t) (speech_runs m flags i)"
proof (induction m flags i rule: speech_runs.induct)
  case (1 m flags i)
  show ?case
  proof (cases "i < length flags")
    case False
    then have "runs_from m flags i = {}" by (auto simp: runs_from_def is_run_def)
    with False show ?thesis by (simp add: speech_runs.simps [of m flags i])
  next
    case True
    show ?thesis
    proof (cases "flags ! i")
      case False
      then have "run_boundary flags (i + 1)" using True by (auto simp: run_boundary_def)
      with 1(1) [OF True False] False True runs_from_silence [OF False, of m] show ?thesis
        by (simp add: speech_runs.simps [of m flags i])
    next
      case speech: True
      note r = runs_from_speech [OF 1(4) True speech]
      let ?e = "run_end flags i"
      have ih: "set (speech_runs m flags ?e) = runs_from m flags ?e
          \<and> sorted_wrt (\<lambda>s t. fs_end_frame s < fs_start_frame t) (speech_runs m flags ?e)"
        using 1(2,3) True speech r(1) by (cases "?e - i < m") auto
      have later: "?e < fs_start_frame t" if "t \<in> runs_from m flags ?e" for t
      proof -
        have "\<not> flags ! ?e \<or> ?e = length flags" using r(2) by (auto simp: is_run_def)
        with that show ?thesis by (auto simp: runs_from_def is_run_def le_less)
      qed
      show ?thesis
        using ih later True speech r(3) [of m]
        by (auto simp: speech_runs.simps [of m flags i] Let_def not_less)
    qed
  qed
qed

section \<open>Merging and padding\<close>

definition within :: "frame_segment \<Rightarrow> frame_segment \<Rightarrow> bool" where
  "within s m \<longleftrightarrow> fs_start_frame m \<le> fs_start_frame s \<and> fs_end_frame s \<le> fs_end_frame m"

definition apart :: "nat \<Rightarrow> nat \<Rightarrow> frame_segment \<Rightarrow> frame_segment \<Rightarrow> bool" where
  "apart min_silence merge_gap s t \<longleftrightarrow>
     fs_end_frame s < fs_start_frame t
     \<and> min_silence \<le> fs_start_frame t - fs_end_frame s \<and> merge_gap < fs_start_frame t - fs_end_frame s"

definition framed :: "nat \<Rightarrow> nat \<Rightarrow> frame_segment \<Rightarrow> bool" where
  "framed low high s \<longleftrightarrow> low \<le> fs_start_frame s \<and> fs_start_frame s < fs_end_frame s \<and> fs_end_frame s \<le> high"

lemma merge_into_spec:
  "sorted_wrt (\<lambda>s t. fs_end_frame s < fs_start_frame t) (previous # segs) \<Longrightarrow>
   framed (fs_start_frame previous) high previous \<Longrightarrow>
   (\<forall>s \<in> set segs. framed (fs_start_frame previous) high s) \<Longrightarrow>
   ms = merge_into min_silence merge_gap previous segs \<Longrightarrow>
   sorted_wrt (apart min_silence merge_gap) ms
   \<and> (\<forall>m \<in> set ms. framed (fs_start_frame previous) high m)
   \<and> (\<forall>s \<in> set (previous # segs). \<exists>m \<in> set ms. within s m)"
proof (induction min_silence merge_gap previous segs arbitrary: ms rule: merge_into.induct)
  case (1 min_silence merge_gap previous)
  then show ?case by (simp add: within_def)
next
  case (2 min_silence merge_gap previous seg segs)
  let ?gap = "fs_start_frame seg - fs_end_frame previous"
  let ?joined = "previous\<lparr>fs_end_frame := max (fs_end_frame previous) (fs_end_frame seg)\<rparr>"
  have ord: "fs_end_frame previous < fs_start_frame seg"
    "\<forall>t \<in> set segs. fs_end_frame previous < fs_start_frame t \<and> fs_end_frame seg < fs_start_frame t"
    "sorted_wrt (\<lambda>s t. fs_end_frame s < fs_start_frame t) segs"
    using 2(3) by auto
  show ?case
  proof (cases "?gap < min_silence \<or> ?gap \<le> merge_gap")
    case True
    then have ms: "ms = merge_into min_silence merge_gap ?joined segs" using 2(6) by (simp add: Let_def)
    have "sorted_wrt (\<lambda>s t. fs_end_frame s < fs_start_frame t) (?joined # segs)" using ord by simp
    moreover have "framed (fs_start_frame ?joined) high ?joined"
      "\<forall>s \<in> set segs. framed (fs_start_frame ?joined) high s"
      using 2(4,5) by (auto simp: framed_def)
    ultimately have ih: "sorted_wrt (apart min_silence merge_gap) ms
        \<and> (\<forall>m \<in> set ms. framed (fs_start_frame previous) high m)
        \<and> (\<forall>s \<in> set (?joined # segs). \<exists>m \<in> set ms. within s m)"
      using 2(1) [OF refl True _ _ _ ms] by simp
    then obtain m where "m \<in> set ms" "within ?joined m" by auto
    moreover from this(2) have "within previous m" "within seg m"
      using ord(1) 2(4) by (auto simp: within_def framed_def)
    ultimately show ?thesis using ih by auto
  next
    case False
    let ?rest = "merge_into min_silence merge_gap seg segs"
    have ms: "ms = previous # ?rest" using False 2(6) by (simp add: Let_def)
    have "framed (fs_start_frame seg) high s" if "s \<in> set segs" for s
      using that ord(2) 2(5) by (force simp: framed_def)
    moreover have "framed (fs_start_frame seg) high seg" using 2(5) by (simp add: framed_def)
    ultimately have ih: "sorted_wrt (apart min_silence merge_gap) ?rest
        \<and> (\<forall>m \<in> set ?rest. framed (fs_start_frame seg) high m)
        \<and> (\<forall>s \<in> set (seg # segs). \<exists>m \<in> set ?rest. within s m)"
      using 2(2) [OF refl False _ _ _ refl] ord 2(3) by auto
    have "apart min_silence merge_gap previous m" if "m \<in> set ?rest" for m
      using that ih ord(1) False by (auto simp: apart_def framed_def)
    moreover have "framed (fs_start_frame previous) high m" if "m \<in> set ?rest" for m
      using that ih ord(1) 2(4) by (force simp: framed_def)
    ultimately show ?thesis using ih 2(4) unfolding ms by (auto simp: within_def)
  qed
qed

lemma merge_close_segments_spec:
  assumes "sorted_wrt (\<lambda>s t. fs_end_frame s < fs_start_frame t) segs"
    and "\<forall>s \<in> set segs. framed 0 high s"
    and "min_silence = frames_for_ms (sc_min_silence_ms c) (sc_frame_duration_ms c)"
    and "merge_gap = frames_for_ms (sc_merge_gap_ms c) (sc_frame_duration_ms c)"
  shows "sorted_wrt (apart min_silence merge_gap) (merge_close_segments segs c)
    \<and> (\<forall>m \<in> set (merge_close_segments segs c). framed 0 high m)
    \<and> (\<forall>s \<in> set segs. \<exists>m \<in> set (merge_close_segments segs c). within s m)"
proof (cases segs)
  case Nil
  then show ?thesis by (simp add: merge_close_segments_def)
next
  case (Cons seg rest)
  have "framed (fs_start_frame seg) high s" if "s \<in> set rest" for s
    using that assms(1,2) Cons by (force simp: framed_def)
  moreover have "framed (fs_start_frame seg) high seg" using assms(2) Cons by (simp add: framed_def)
  ultimately have "sorted_wrt (apart min_silence merge_gap) (merge_into min_silence merge_gap seg rest)
    \<and> (\<forall>m \<in> set (merge_into min_silence merge_gap seg rest). framed (fs_start_frame seg) high m)
    \<and> (\<forall>s \<in> set segs. \<exists>m \<in> set (merge_into min_silence merge_gap seg rest). within s m)"
    using merge_into_spec [OF _ _ _ refl, of seg rest high min_silence merge_gap] assms(1) Cons by simp
  moreover have "framed 0 high m" if "framed (fs_start_frame seg) high m" for m
    using that by (simp add: framed_def)
  ultimately show ?thesis using Cons assms(3,4) by (simp add: merge_close_segments_def Let_def)
qed


definition sample_segmenter :: segmenter_config where
  "sample_segmenter =
     \<lparr>sc_frame_duration_ms = 30, sc_padding_ms = 30, sc_min_speech_ms = 60, sc_min_silence_ms = 60,
      sc_merge_gap_ms = 30\<rparr>"

definition sample_flags :: "bool list" where
  "sample_flags = [False, False, True, True, False, True, True, False, False, False, True, True, True]"


end
