(* ===== verification/Llm_Streams.thy ===== *)
theory Llm_Streams
  imports Prelude Model_Id "HOL-Library.Multiset"
begin

text \<open>
  The resumable token streams of the server, \<^verbatim>\<open>apps/orchion-server/src/api/llm_streams.rs\<close>, with the
  frame numbering of \<^verbatim>\<open>sse.rs\<close> and the cancellation cause of \<^verbatim>\<open>application/llm.rs\<close>: the sessions with
  their retained frames, one owner task per session that reads the producer's body, and any number
  of followers that replay and follow the frames.

  Bytes are characters, instants and durations are nanoseconds, and the text that \<^verbatim>\<open>json!\<close> renders
  for an error is a parameter.  Every function that holds the state lock is one definition; the
  tasks interleave between these.  Frame identifiers are natural numbers: a session would have to
  number \<open>2 ^ 64\<close> frames before the code's counter wraps.
\<close>

section \<open>Data\<close>

datatype stream_protocol = Chat | Completions | Responses

datatype stream_status = Active | Completed | Cancelled | Failed

datatype principal_id = Anonymous | Authenticated

datatype access_error = NotFound | ReplayLost | FollowersExhausted | AccessShuttingDown | InvalidCursor

datatype start_error = Capacity | Entropy | StartShuttingDown

datatype cancellation_cause =
  ClientDisconnect | UserDeleted | ServerShutdown | ResourceExhausted | StreamBufferExceeded

datatype terminal_signal = ProducerPending | ProducerCompleted | ProducerFailed

record streaming_policy =
  sp_max_active :: nat
  sp_max_retained :: nat
  sp_max_events :: nat
  sp_max_bytes :: nat
  sp_max_total :: nat
  sp_max_followers :: nat
  sp_ttl :: nat
  sp_lookup_max :: nat
  sp_keepalive :: nat

type_synonym stored_frame = "nat \<times> string"

record session =
  se_principal :: principal_id
  se_protocol :: stream_protocol
  se_frames :: "stored_frame list"
  se_bytes :: nat
  se_next_id :: nat
  se_followers :: nat
  se_status :: stream_status
  se_owner_active :: bool
  se_terminal_at :: "nat option"
  se_deleted :: bool
  se_revision :: u64
  se_cause :: "cancellation_cause option"
  se_completion :: "string option"

record stream_metrics =
  sm_created :: nat
  sm_terminal :: nat
  sm_attachments :: nat
  sm_evictions :: nat
  sm_truncations :: nat

text \<open>The state under the lock, with the counters of the metrics and the identifiers in the registry
  of chat controls, which its operations update as they go.\<close>

record streams_state =
  ss_sessions :: "(string \<times> session) list"
  ss_total_bytes :: nat
  ss_metrics :: stream_metrics
  ss_controls :: "string list"

record stream_metadata =
  md_stream_id :: string
  md_protocol :: stream_protocol
  md_status :: stream_status
  md_last_event_id :: nat
  md_expires_in_seconds :: nat

record stream_observation =
  so_active :: nat
  so_retained :: nat
  so_followers :: nat
  so_buffered_events :: nat
  so_buffered_bytes :: nat

definition new_streams :: streams_state where
  "new_streams = \<lparr>ss_sessions = [], ss_total_bytes = 0,
     ss_metrics = \<lparr>sm_created = 0, sm_terminal = 0, sm_attachments = 0, sm_evictions = 0, sm_truncations = 0\<rparr>,
     ss_controls = []\<rparr>"

definition min_streaming_events :: nat where "min_streaming_events = 1"
definition min_streaming_error_bytes :: nat where "min_streaming_error_bytes = 512"
definition max_stream_error_code_bytes :: nat where "max_stream_error_code_bytes = 32"
definition max_stream_error_message_bytes :: nat where "max_stream_error_message_bytes = 128"

definition nanos :: nat where "nanos = 1000000000"

text \<open>What the settings accept; the error names the field.\<close>

definition validate_streaming :: "streaming_policy \<Rightarrow> string + unit" where
  "validate_streaming v =
     (if sp_max_active v = 0 then Inl ''max_active_sessions''
      else if sp_max_retained v = 0 then Inl ''max_retained_sessions''
      else if sp_max_events v = 0 then Inl ''max_events_per_session''
      else if sp_max_bytes v = 0 then Inl ''max_bytes_per_session''
      else if sp_max_total v = 0 then Inl ''max_total_bytes''
      else if sp_max_followers v = 0 then Inl ''max_followers_per_session''
      else if sp_lookup_max v = 0 then Inl ''lookup_max_ids''
      else if sp_max_events v < min_streaming_events then Inl ''max_events_per_session''
      else if sp_max_bytes v < min_streaming_error_bytes then Inl ''max_bytes_per_session''
      else if sp_max_total v < min_streaming_error_bytes then Inl ''max_total_bytes''
      else if \<not> (nanos \<le> sp_ttl v \<and> sp_ttl v \<le> 86400 * nanos) then Inl ''session_ttl''
      else if \<not> (nanos \<le> sp_keepalive v \<and> sp_keepalive v \<le> 300 * nanos) then Inl ''keepalive_interval''
      else if sp_max_total v < sp_max_bytes v then Inl ''max_total_bytes''
      else Inr ())"

section \<open>Terminal signal and cancellation\<close>

definition signal_complete :: "terminal_signal \<Rightarrow> terminal_signal" where
  "signal_complete t = (if t = ProducerPending then ProducerCompleted else t)"

definition signal_fail :: "terminal_signal \<Rightarrow> terminal_signal" where
  "signal_fail t = ProducerFailed"

fun signal_outcome :: "terminal_signal \<Rightarrow> stream_status option" where
  "signal_outcome ProducerCompleted = Some Completed"
| "signal_outcome ProducerFailed = Some Failed"
| "signal_outcome ProducerPending = None"

text \<open>Only the first cause is kept.\<close>

definition cancel_with :: "cancellation_cause \<Rightarrow> session \<Rightarrow> session" where
  "cancel_with cause s = (case se_cause s of None \<Rightarrow> s\<lparr>se_cause := Some cause\<rparr> | Some _ \<Rightarrow> s)"

section \<open>Frames\<close>

fun decimal :: "nat \<Rightarrow> string" where
  "decimal n = (if n < 10 then [char_of (48 + n)] else decimal (n div 10) @ [char_of (48 + n mod 10)])"

declare decimal.simps [simp del]

definition newline :: string where "newline = [char_of (10::nat)]"

definition number_frame :: "nat \<Rightarrow> string \<Rightarrow> string" where
  "number_frame i payload = ''id: '' @ decimal i @ newline @ payload"

definition bounded_error_text :: "string \<Rightarrow> nat \<Rightarrow> string" where
  "bounded_error_text value max_bytes =
     map (\<lambda>c. if 32 \<le> (of_char c :: nat) \<and> (of_char c :: nat) < 127 then c else CHR ''?'') (take max_bytes value)"

type_synonym error_json = "stream_protocol \<Rightarrow> nat \<Rightarrow> string \<Rightarrow> string \<Rightarrow> string"

definition stream_error_frame :: "error_json \<Rightarrow> stream_protocol \<Rightarrow> nat \<Rightarrow> string \<Rightarrow> string \<Rightarrow> string" where
  "stream_error_frame json protocol i code message =
     (let code = bounded_error_text code max_stream_error_code_bytes;
          message = bounded_error_text message max_stream_error_message_bytes;
          text = json protocol (i - 1) code message
      in number_frame i
           (case protocol of
              Responses \<Rightarrow> ''event: error'' @ newline @ ''data: '' @ text @ newline @ newline
            | _ \<Rightarrow> ''data: '' @ text @ newline @ newline))"

fun strip_prefix :: "string \<Rightarrow> string \<Rightarrow> string option" where
  "strip_prefix [] s = Some s"
| "strip_prefix (c # cs) [] = None"
| "strip_prefix (c # cs) (x # xs) = (if c = x then strip_prefix cs xs else None)"

definition valid_stream_id :: "string \<Rightarrow> bool" where
  "valid_stream_id value =
     (case strip_prefix ''strm_'' value of
        None \<Rightarrow> False
      | Some encoded \<Rightarrow>
          length encoded = 32
          \<and> list_all (\<lambda>c. is_ascii_alphanumeric c \<or> c \<in> {CHR ''-'', CHR ''_''}) encoded)"

section \<open>Sessions\<close>

definition put_session :: "string \<Rightarrow> session \<Rightarrow> streams_state \<Rightarrow> streams_state" where
  "put_session i s st = st\<lparr>ss_sessions := AList.update i s (ss_sessions st)\<rparr>"

definition bump :: "session \<Rightarrow> session" where
  "bump s = s\<lparr>se_revision := se_revision s + 1\<rparr>"

definition remove_session :: "string \<Rightarrow> streams_state \<Rightarrow> streams_state" where
  "remove_session i st =
     (case map_of (ss_sessions st) i of
        None \<Rightarrow> st
      | Some s \<Rightarrow> st\<lparr>ss_sessions := AList.delete i (ss_sessions st),
                    ss_total_bytes := ss_total_bytes st - se_bytes s\<rparr>)"

definition count_metric :: "(stream_metrics \<Rightarrow> stream_metrics) \<Rightarrow> streams_state \<Rightarrow> streams_state" where
  "count_metric f st = st\<lparr>ss_metrics := f (ss_metrics st)\<rparr>"

definition resumable_created :: "stream_metrics \<Rightarrow> stream_metrics" where
  "resumable_created m = m\<lparr>sm_created := Suc (sm_created m)\<rparr>"
definition resumable_terminal :: "stream_metrics \<Rightarrow> stream_metrics" where
  "resumable_terminal m = m\<lparr>sm_terminal := Suc (sm_terminal m)\<rparr>"
definition resumable_attachment :: "stream_metrics \<Rightarrow> stream_metrics" where
  "resumable_attachment m = m\<lparr>sm_attachments := Suc (sm_attachments m)\<rparr>"
definition resumable_eviction :: "stream_metrics \<Rightarrow> stream_metrics" where
  "resumable_eviction m = m\<lparr>sm_evictions := Suc (sm_evictions m)\<rparr>"
definition resumable_truncation :: "stream_metrics \<Rightarrow> stream_metrics" where
  "resumable_truncation m = m\<lparr>sm_truncations := Suc (sm_truncations m)\<rparr>"

definition evict_session :: "string \<Rightarrow> streams_state \<Rightarrow> streams_state" where
  "evict_session i st = count_metric resumable_eviction (remove_session i st)"

definition sessions_where :: "(session \<Rightarrow> bool) \<Rightarrow> streams_state \<Rightarrow> (string \<times> session) list" where
  "sessions_where P st = filter (\<lambda>(_, s). P s) (ss_sessions st)"

definition active_count :: "streams_state \<Rightarrow> nat" where
  "active_count st = length (sessions_where se_owner_active st)"

definition retained_count :: "streams_state \<Rightarrow> nat" where
  "retained_count st = length (sessions_where (\<lambda>s. \<not> se_owner_active s) st)"

text \<open>\<^verbatim>\<open>Option<Instant>\<close> in its order: none is the least.\<close>

definition terminal_key :: "string \<times> session \<Rightarrow> nat" where
  "terminal_key e = (case se_terminal_at (snd e) of None \<Rightarrow> 0 | Some t \<Rightarrow> Suc t)"

definition oldest_retained :: "streams_state \<Rightarrow> string option" where
  "oldest_retained st =
     map_option fst (min_by_key terminal_key (sessions_where (\<lambda>s. \<not> se_owner_active s) st))"

definition evict_oldest :: "streams_state \<Rightarrow> streams_state" where
  "evict_oldest st = (case oldest_retained st of None \<Rightarrow> st | Some i \<Rightarrow> evict_session i st)"

definition expired :: "streaming_policy \<Rightarrow> nat \<Rightarrow> session \<Rightarrow> bool" where
  "expired p now s \<longleftrightarrow>
     (se_deleted s \<and> \<not> se_owner_active s)
     \<or> (case se_terminal_at s of None \<Rightarrow> False | Some at \<Rightarrow> sp_ttl p \<le> now - at)"

lemma session_removed_less:
  "map_of (ss_sessions st) i = Some s \<Longrightarrow> length (ss_sessions (evict_session i st)) < length (ss_sessions st)"
  by (auto simp: evict_session_def count_metric_def remove_session_def AList.delete_eq
        intro!: length_filter_less dest: map_of_SomeD)

lemma oldest_retained_SomeD:
  assumes "oldest_retained st = Some i"
  shows "\<exists>s. (i, s) \<in> set (ss_sessions st) \<and> \<not> se_owner_active s"
  using assms by (auto simp: oldest_retained_def sessions_where_def dest!: min_by_key_SomeD)

lemma evict_oldest_less:
  assumes "oldest_retained st = Some i"
  shows "length (ss_sessions (evict_oldest st)) < length (ss_sessions st)"
proof -
  from oldest_retained_SomeD [OF assms] obtain s where "map_of (ss_sessions st) i = Some s"
    by (metis domIff imageI dom_map_of_conv_image_fst fst_conv option.exhaust)
  with session_removed_less assms show ?thesis by (simp add: evict_oldest_def)
qed

text \<open>The three loops that remove sessions or frames until a limit holds.\<close>

definition over_retained :: "streaming_policy \<Rightarrow> streams_state \<Rightarrow> bool" where
  "over_retained p st \<longleftrightarrow> sp_max_retained p < retained_count st \<and> oldest_retained st \<noteq> None"

function trim_retained :: "streaming_policy \<Rightarrow> streams_state \<Rightarrow> streams_state" where
  "trim_retained p st = (if over_retained p st then trim_retained p (evict_oldest st) else st)"
  by pat_completeness auto
termination
  by (relation "measure (\<lambda>(_, st). length (ss_sessions st))")
     (auto simp: over_retained_def intro: evict_oldest_less)

declare trim_retained.simps [simp del]

interpretation retained: total_eviction "over_retained p" evict_oldest "trim_retained p"
  "\<lambda>st. length (ss_sessions st)" for p
  by unfold_locales (auto simp: over_retained_def trim_retained.simps [of p s for s] intro: evict_oldest_less)

definition purge_locked :: "streaming_policy \<Rightarrow> nat \<Rightarrow> streams_state \<Rightarrow> streams_state" where
  "purge_locked p now st =
     trim_retained p (fold evict_session (map fst (sessions_where (expired p now) st)) st)"

definition over_total :: "streaming_policy \<Rightarrow> streams_state \<Rightarrow> bool" where
  "over_total p st \<longleftrightarrow> sp_max_total p < ss_total_bytes st \<and> oldest_retained st \<noteq> None"

function evict_retained :: "streaming_policy \<Rightarrow> streams_state \<Rightarrow> streams_state" where
  "evict_retained p st = (if over_total p st then evict_retained p (evict_oldest st) else st)"
  by pat_completeness auto
termination
  by (relation "measure (\<lambda>(_, st). length (ss_sessions st))")
     (auto simp: over_total_def intro: evict_oldest_less)

declare evict_retained.simps [simp del]

interpretation retention: total_eviction "over_total p" evict_oldest "evict_retained p"
  "\<lambda>st. length (ss_sessions st)" for p
  by unfold_locales (auto simp: over_total_def evict_retained.simps [of p s for s] intro: evict_oldest_less)

section \<open>Appending and failing\<close>

text \<open>The front truncation of one session: the session, the bytes removed and the frames removed.  With
  no frame left and a limit still exceeded the code would loop for ever (\<open>None\<close>).\<close>

type_synonym truncation = "session \<times> nat \<times> nat"

definition over_session :: "streaming_policy \<Rightarrow> truncation \<Rightarrow> bool" where
  "over_session p t = (case t of (s, _) \<Rightarrow> sp_max_events p < length (se_frames s) \<or> sp_max_bytes p < se_bytes s)"

definition pop_front :: "truncation \<Rightarrow> truncation option" where
  "pop_front t =
     (case t of (s, removed, n) \<Rightarrow>
        (case se_frames s of
           [] \<Rightarrow> None
         | f # fs \<Rightarrow> Some (s\<lparr>se_frames := fs, se_bytes := se_bytes s - length (snd f)\<rparr>,
                          removed + length (snd f), Suc n)))"

lemma pop_front_less [simp]:
  "pop_front t = Some t' \<Longrightarrow> length (se_frames (fst t')) < length (se_frames (fst t))"
  by (auto simp: pop_front_def split: prod.splits list.splits)

function truncate_session :: "streaming_policy \<Rightarrow> truncation \<Rightarrow> truncation option" where
  "truncate_session p t =
     (if over_session p t then (case pop_front t of None \<Rightarrow> None | Some t' \<Rightarrow> truncate_session p t')
      else Some t)"
  by pat_completeness auto
termination
  by (relation "measure (\<lambda>(_, t). length (se_frames (fst t)))") auto

declare truncate_session.simps [simp del]

datatype append_result = Appended | Refused | FailWith string string

text \<open>The accounting after the truncation of the session, with the eviction of retained sessions.\<close>

definition append_account ::
  "streaming_policy \<Rightarrow> string \<Rightarrow> nat \<Rightarrow> session \<times> nat \<times> nat \<Rightarrow> streams_state \<Rightarrow> streams_state" where
  "append_account p i added t st =
     (case t of (s, removed, k) \<Rightarrow>
        let st1 = put_session i s ((count_metric resumable_truncation ^^ k) st)
        in evict_retained p (st1\<lparr>ss_total_bytes := sat_add (ss_total_bytes st1) added - removed\<rparr>))"

text \<open>The end of \<^verbatim>\<open>append\<close>: with the total still over its limit the new frame is taken back.\<close>

definition append_conclude ::
  "streaming_policy \<Rightarrow> string \<Rightarrow> streams_state \<Rightarrow> (streams_state \<times> append_result) option" where
  "append_conclude p i st =
     (case map_of (ss_sessions st) i of
        None \<Rightarrow> None
      | Some s \<Rightarrow>
          if sp_max_total p < ss_total_bytes st
          then
            let dropped = (if se_frames s = [] then 0 else length (snd (last (se_frames s))));
                s' = cancel_with ResourceExhausted
                       (s\<lparr>se_frames := butlast (se_frames s), se_bytes := se_bytes s - dropped,
                          se_next_id := se_next_id s - 1\<rparr>);
                st' = put_session i s' st
            in Some (st'\<lparr>ss_total_bytes := ss_total_bytes st' - dropped\<rparr>,
                     FailWith ''stream_capacity_exhausted''
                       ''global stream retention capacity exhausted'')
          else Some (put_session i (bump s) st, Appended))"

text \<open>\<^verbatim>\<open>append\<close> up to the release of the lock; on \<open>FailWith\<close> the owner calls \<^verbatim>\<open>fail\<close> next, with the lock
  taken anew.  \<open>None\<close> is a panic of \<^verbatim>\<open>expect\<close> or the endless truncation.\<close>

definition append_frame ::
  "streaming_policy \<Rightarrow> string \<Rightarrow> string \<Rightarrow> streams_state \<Rightarrow> (streams_state \<times> append_result) option" where
  "append_frame p i payload st =
     (case map_of (ss_sessions st) i of
        None \<Rightarrow> Some (st, Refused)
      | Some s \<Rightarrow>
          if se_deleted s \<or> se_status s \<noteq> Active then Some (st, Refused)
          else
            let n = se_next_id s; bytes = number_frame n payload in
            if sp_max_bytes p < length bytes \<or> sp_max_total p < length bytes
            then Some (put_session i (cancel_with StreamBufferExceeded s) st,
                       FailWith ''stream_frame_too_large'' ''stream frame exceeds retention capacity'')
            else
              let s1 = s\<lparr>se_next_id := n + 1, se_bytes := se_bytes s + length bytes,
                         se_frames := se_frames s @ [(n, bytes)]\<rparr>
              in case truncate_session p (s1, 0, 0) of
                   None \<Rightarrow> None
                 | Some t \<Rightarrow> append_conclude p i (append_account p i (length bytes) t st))"

text \<open>The session that \<^verbatim>\<open>fail\<close> takes a frame from to make room for a frame of \<open>n\<close> bytes, if it goes on.\<close>

definition truncation_victim :: "streaming_policy \<Rightarrow> string \<Rightarrow> nat \<Rightarrow> streams_state \<Rightarrow> string option" where
  "truncation_victim p i n st =
     (case map_of (ss_sessions st) i of
        None \<Rightarrow> None
      | Some s \<Rightarrow>
          let session_over = (sp_max_events p \<le> length (se_frames s) \<or> sp_max_bytes p < sat_add (se_bytes s) n);
              global_over = (sp_max_total p < sat_add (ss_total_bytes st) n)
          in if session_over then Some i
             else if global_over
             then map_option fst (max_by_key (\<lambda>e. se_bytes (snd e)) (sessions_where (\<lambda>s. se_frames s \<noteq> []) st))
             else None)"

definition drop_front :: "string \<Rightarrow> streams_state \<Rightarrow> streams_state" where
  "drop_front i st =
     (case map_of (ss_sessions st) i of
        None \<Rightarrow> st
      | Some s \<Rightarrow>
          (case se_frames s of
             [] \<Rightarrow> st
           | f # fs \<Rightarrow>
               let st1 = put_session i (s\<lparr>se_frames := fs, se_bytes := se_bytes s - length (snd f)\<rparr>) st
               in count_metric resumable_truncation
                    (st1\<lparr>ss_total_bytes := ss_total_bytes st1 - length (snd f)\<rparr>)))"

text \<open>The loop of \<^verbatim>\<open>fail\<close>: its guard holds while there is a session to take a frame from, and that
  session has one.\<close>

definition needs_room :: "streaming_policy \<Rightarrow> string \<Rightarrow> nat \<Rightarrow> streams_state \<Rightarrow> bool" where
  "needs_room p i n st =
     (case Option.bind (truncation_victim p i n st) (map_of (ss_sessions st)) of
        None \<Rightarrow> False
      | Some s \<Rightarrow> se_frames s \<noteq> [])"

definition make_room_step :: "streaming_policy \<Rightarrow> string \<Rightarrow> nat \<Rightarrow> streams_state \<Rightarrow> streams_state" where
  "make_room_step p i n st = (case truncation_victim p i n st of None \<Rightarrow> st | Some v \<Rightarrow> drop_front v st)"

definition frame_count :: "streams_state \<Rightarrow> nat" where
  "frame_count st = tally (\<lambda>s. length (se_frames s)) (ss_sessions st)"

lemma drop_front_less:
  assumes "map_of (ss_sessions st) v = Some s" "se_frames s \<noteq> []"
  shows "frame_count (drop_front v st) < frame_count st"
proof -
  from assms(2) obtain f fs where f: "se_frames s = f # fs" by (cases "se_frames s") auto
  define s' where "s' = s\<lparr>se_frames := fs, se_bytes := se_bytes s - length (snd f)\<rparr>"
  have "frame_count (drop_front v st) = tally (\<lambda>s. length (se_frames s)) (AList.update v s' (ss_sessions st))"
    using assms f
    by (simp add: drop_front_def frame_count_def put_session_def count_metric_def s'_def Let_def)
  with tally_update [OF assms(1), of "\<lambda>s. length (se_frames s)" s'] f
  show ?thesis by (simp add: frame_count_def s'_def)
qed

lemma make_room_less: "needs_room p i n st \<Longrightarrow> frame_count (make_room_step p i n st) < frame_count st"
  by (auto simp: needs_room_def make_room_step_def bind_eq_Some_conv drop_front_less split: option.splits)

function make_room :: "streaming_policy \<Rightarrow> string \<Rightarrow> nat \<Rightarrow> streams_state \<Rightarrow> streams_state" where
  "make_room p i n st = (if needs_room p i n st then make_room p i n (make_room_step p i n st) else st)"
  by pat_completeness auto
termination
  by (relation "measure (\<lambda>(_, _, _, st). frame_count st)") (auto intro: make_room_less)

declare make_room.simps [simp del]

interpretation room: total_eviction "needs_room p i n" "make_room_step p i n" "make_room p i n" frame_count
  for p i n
  by unfold_locales (auto simp: make_room.simps [of p i n s for s] intro: make_room_less)

definition fail_stream ::
  "streaming_policy \<Rightarrow> error_json \<Rightarrow> string \<Rightarrow> string \<Rightarrow> string \<Rightarrow> nat \<Rightarrow> streams_state \<Rightarrow> streams_state" where
  "fail_stream p json i code message now st =
     (case map_of (ss_sessions st) i of
        None \<Rightarrow> st
      | Some s \<Rightarrow>
          if se_status s \<noteq> Active then st
          else
            let n = se_next_id s;
                bytes = stream_error_frame json (se_protocol s) n code message;
                st1 = make_room p i (length bytes) st
            in case map_of (ss_sessions st1) i of
                 None \<Rightarrow> st1
               | Some s1 \<Rightarrow>
                   let s2 = bump (s1\<lparr>se_bytes := se_bytes s1 + length bytes, se_frames := se_frames s1 @ [(n, bytes)],
                                    se_next_id := se_next_id s1 + 1, se_status := Failed, se_terminal_at := Some now\<rparr>);
                       st2 = count_metric resumable_terminal (put_session i s2 st1)
                   in st2\<lparr>ss_total_bytes := ss_total_bytes st2 + length bytes\<rparr>)"

section \<open>The other operations\<close>

definition ensure_start_capacity ::
  "streaming_policy \<Rightarrow> bool \<Rightarrow> nat \<Rightarrow> streams_state \<Rightarrow> streams_state \<times> start_error option" where
  "ensure_start_capacity p shutdown now st =
     (if shutdown then (st, Some StartShuttingDown)
      else let st1 = purge_locked p now st in
           (st1, if sp_max_active p \<le> active_count st1 then Some Capacity else None))"

text \<open>The draws of \<^verbatim>\<open>random_stream_id\<close> within one call, each the text of a fresh identifier; the list ends
  where \<^verbatim>\<open>getrandom\<close> fails.\<close>

fun draw_stream_id :: "string list \<Rightarrow> (string \<times> session) list \<Rightarrow> string option" where
  "draw_stream_id [] sessions = None"
| "draw_stream_id (candidate # rest) sessions =
     (if map_of sessions candidate = None then Some candidate else draw_stream_id rest sessions)"

definition new_session :: "principal_id \<Rightarrow> stream_protocol \<Rightarrow> string option \<Rightarrow> session" where
  "new_session who protocol completion =
     \<lparr>se_principal = who, se_protocol = protocol, se_frames = [], se_bytes = 0, se_next_id = 1,
      se_followers = 1, se_status = Active, se_owner_active = True, se_terminal_at = None,
      se_deleted = False, se_revision = 0, se_cause = None, se_completion = completion\<rparr>"

definition start_with_completion ::
  "streaming_policy \<Rightarrow> bool \<Rightarrow> string list \<Rightarrow> principal_id \<Rightarrow> stream_protocol \<Rightarrow> string option \<Rightarrow> nat \<Rightarrow>
   streams_state \<Rightarrow> streams_state \<times> (start_error + string)" where
  "start_with_completion p shutdown draws who protocol completion now st =
     (if shutdown then (st, Inl StartShuttingDown)
      else let st1 = purge_locked p now st in
           if sp_max_active p \<le> active_count st1 then (st1, Inl Capacity)
           else case draw_stream_id draws (ss_sessions st1) of
                  None \<Rightarrow> (st1, Inl Entropy)
                | Some i \<Rightarrow>
                    (count_metric (resumable_attachment \<circ> resumable_created)
                       (put_session i (new_session who protocol completion) st1), Inr i))"

definition first_id :: "session \<Rightarrow> nat" where
  "first_id s = (case se_frames s of [] \<Rightarrow> se_next_id s | f # _ \<Rightarrow> fst f)"

definition attach ::
  "streaming_policy \<Rightarrow> bool \<Rightarrow> string \<Rightarrow> principal_id \<Rightarrow> nat \<Rightarrow> nat \<Rightarrow> streams_state \<Rightarrow>
   streams_state \<times> access_error option" where
  "attach p shutdown i who after now st =
     (if shutdown then (st, Some AccessShuttingDown)
      else let st1 = purge_locked p now st in
           case map_of (ss_sessions st1) i of
             None \<Rightarrow> (st1, Some NotFound)
           | Some s \<Rightarrow>
               if se_deleted s \<or> se_principal s \<noteq> who then (st1, Some NotFound)
               else if sat_add after 1 < first_id s then (st1, Some ReplayLost)
               else if se_next_id s \<le> after then (st1, Some InvalidCursor)
               else if sp_max_followers p \<le> se_followers s then (st1, Some FollowersExhausted)
               else (count_metric resumable_attachment
                       (put_session i (s\<lparr>se_followers := se_followers s + 1\<rparr>) st1), None))"

definition metadata_of :: "streaming_policy \<Rightarrow> nat \<Rightarrow> string \<times> session \<Rightarrow> stream_metadata" where
  "metadata_of p now e =
     \<lparr>md_stream_id = fst e, md_protocol = se_protocol (snd e), md_status = se_status (snd e),
      md_last_event_id = se_next_id (snd e) - 1,
      md_expires_in_seconds =
        (case se_terminal_at (snd e) of
           None \<Rightarrow> sp_ttl p div nanos
         | Some at \<Rightarrow> (sp_ttl p - (now - at)) div nanos)\<rparr>"

definition lookup_streams ::
  "streaming_policy \<Rightarrow> principal_id \<Rightarrow> string list \<Rightarrow> nat \<Rightarrow> streams_state \<Rightarrow>
   streams_state \<times> stream_metadata list" where
  "lookup_streams p who ids now st =
     (let st1 = purge_locked p now st;
          found = List.map_filter (\<lambda>i. map_option (Pair i) (map_of (ss_sessions st1) i)) ids
      in (st1, map (metadata_of p now)
                 (filter (\<lambda>(_, s). \<not> se_deleted s \<and> se_principal s = who) found)))"

definition delete_stream :: "string \<Rightarrow> principal_id \<Rightarrow> nat \<Rightarrow> streams_state \<Rightarrow> streams_state" where
  "delete_stream i who now st =
     (case map_of (ss_sessions st) i of
        None \<Rightarrow> st
      | Some s \<Rightarrow>
          if se_principal s \<noteq> who \<or> se_deleted s then st
          else
            let active = (se_status s = Active);
                s1 = s\<lparr>se_deleted := True\<rparr>;
                s2 = (if active
                      then cancel_with UserDeleted (s1\<lparr>se_status := Cancelled, se_terminal_at := Some now\<rparr>)
                      else s1);
                s3 = s2\<lparr>se_completion := None\<rparr>;
                st1 = put_session i (bump s3) st;
                st2 = (if active then count_metric resumable_terminal st1 else st1)
            in st2\<lparr>ss_controls := (case se_completion s of None \<Rightarrow> ss_controls st2
                                  | Some c \<Rightarrow> filter (\<lambda>x. x \<noteq> c) (ss_controls st2))\<rparr>)"

definition finish_session :: "streaming_policy \<Rightarrow> string \<Rightarrow> stream_status \<Rightarrow> nat \<Rightarrow> streams_state \<Rightarrow>
   streams_state \<times> stream_status option" where
  "finish_session p i outcome now st =
     (case map_of (ss_sessions st) i of
        None \<Rightarrow> (st, None)
      | Some s \<Rightarrow>
          let active = (se_status s = Active);
              s1 = s\<lparr>se_owner_active := False\<rparr>;
              s2 = (if active then s1\<lparr>se_status := outcome, se_terminal_at := Some now\<rparr> else s1);
              st1 = put_session i (bump s2) st;
              st2 = (if active then count_metric resumable_terminal st1 else st1)
          in (purge_locked p now st2, Some (se_status s2)))"

text \<open>The first and the last critical section of \<^verbatim>\<open>cancel_owner\<close> at a shutdown; between them it calls
  \<^verbatim>\<open>fail\<close>.\<close>

definition cancel_cause :: "string \<Rightarrow> cancellation_cause \<Rightarrow> streams_state \<Rightarrow> streams_state" where
  "cancel_cause i cause st =
     (case map_of (ss_sessions st) i of
        None \<Rightarrow> st
      | Some s \<Rightarrow> put_session i (cancel_with cause s) st)"

definition override_cancelled :: "string \<Rightarrow> streams_state \<Rightarrow> streams_state" where
  "override_cancelled i st =
     (case map_of (ss_sessions st) i of
        None \<Rightarrow> st
      | Some s \<Rightarrow> put_session i (s\<lparr>se_status := Cancelled\<rparr>) st)"

definition observation :: "streaming_policy \<Rightarrow> nat \<Rightarrow> streams_state \<Rightarrow> streams_state \<times> stream_observation" where
  "observation p now st =
     (let st1 = purge_locked p now st; each = (\<lambda>f. tally f (ss_sessions st1)) in
      (st1, \<lparr>so_active = active_count st1, so_retained = retained_count st1,
             so_followers = each se_followers, so_buffered_events = each (\<lambda>s. length (se_frames s)),
             so_buffered_bytes = ss_total_bytes st1\<rparr>))"

text \<open>A follower's look at its session, and the end of its guard.\<close>

datatype follower_action = Frame stored_frame | Wait | Lost stream_protocol | EndOfStream

definition follower_next :: "string \<Rightarrow> principal_id \<Rightarrow> nat \<Rightarrow> bool \<Rightarrow> streams_state \<Rightarrow> follower_action" where
  "follower_next i who cursor follow st =
     (case map_of (ss_sessions st) i of
        None \<Rightarrow> EndOfStream
      | Some s \<Rightarrow>
          if se_principal s \<noteq> who \<or> se_deleted s then EndOfStream
          else if sat_add cursor 1 < first_id s then Lost (se_protocol s)
          else case List.find (\<lambda>f. cursor < fst f) (se_frames s) of
                 Some f \<Rightarrow> Frame f
               | None \<Rightarrow> if \<not> follow \<or> se_status s \<noteq> Active then EndOfStream else Wait)"

definition drop_follower :: "string \<Rightarrow> streams_state \<Rightarrow> streams_state" where
  "drop_follower i st =
     (case map_of (ss_sessions st) i of
        None \<Rightarrow> st
      | Some s \<Rightarrow> put_session i (s\<lparr>se_followers := se_followers s - 1\<rparr>) st)"

section \<open>The invariant of the state\<close>

definition frame_bytes :: "stored_frame list \<Rightarrow> nat" where
  "frame_bytes fs = sum_list (map (\<lambda>f. length (snd f)) fs)"

lemma frame_bytes_simps [simp]:
  "frame_bytes [] = 0" "frame_bytes (f # fs) = length (snd f) + frame_bytes fs"
  "frame_bytes (fs @ gs) = frame_bytes fs + frame_bytes gs"
  by (simp_all add: frame_bytes_def)

text \<open>The identifiers of the retained frames are consecutive and end right before the next one.\<close>

definition contiguous :: "nat \<Rightarrow> stored_frame list \<Rightarrow> bool" where
  "contiguous n fs \<longleftrightarrow> length fs < n \<and> map fst fs = [n - length fs..<n]"

lemma contiguous_Nil [simp]: "contiguous n [] \<longleftrightarrow> 0 < n"
  by (simp add: contiguous_def)

lemma contiguous_snoc: "contiguous n fs \<Longrightarrow> contiguous (Suc n) (fs @ [(n, b)])"
  by (auto simp: contiguous_def)

lemma contiguous_tl: "contiguous n (f # fs) \<Longrightarrow> contiguous n fs"
  by (cases fs) (auto simp: contiguous_def upt_conv_Cons Suc_diff_Suc)

lemma contiguous_butlast: "contiguous (Suc n) (fs @ [f]) \<Longrightarrow> contiguous n fs \<and> fst f = n"
  by (auto simp: contiguous_def upt_Suc split: if_splits)

definition session_ok :: "streaming_policy \<Rightarrow> session \<Rightarrow> bool" where
  "session_ok p s \<longleftrightarrow>
     se_bytes s = frame_bytes (se_frames s) \<and> contiguous (se_next_id s) (se_frames s)
     \<and> length (se_frames s) \<le> sp_max_events p \<and> se_bytes s \<le> sp_max_bytes p
     \<and> (se_status s = Active \<longrightarrow> se_owner_active s \<and> se_terminal_at s = None \<and> \<not> se_deleted s)
     \<and> (se_status s \<noteq> Active \<longrightarrow> se_terminal_at s \<noteq> None)
     \<and> se_followers s \<le> sp_max_followers p"

definition count_where :: "(session \<Rightarrow> bool) \<Rightarrow> streams_state \<Rightarrow> nat" where
  "count_where P st = tally (\<lambda>s. if P s then 1 else 0) (ss_sessions st)"

lemma active_count_where: "active_count st = count_where se_owner_active st"
  by (simp add: active_count_def sessions_where_def count_where_def length_filter_tally)

lemma retained_count_where: "retained_count st = count_where (\<lambda>s. \<not> se_owner_active s) st"
  by (simp add: retained_count_def sessions_where_def count_where_def length_filter_tally)

text \<open>Exact byte accounting, and the metrics: every session created is still there or was evicted, and
  every one that is no longer active was counted as terminal once.\<close>

definition streams_core :: "streaming_policy \<Rightarrow> streams_state \<Rightarrow> bool" where
  "streams_core p st \<longleftrightarrow>
     distinct (map fst (ss_sessions st))
     \<and> (\<forall>e \<in> set (ss_sessions st). session_ok p (snd e))
     \<and> ss_total_bytes st = tally se_bytes (ss_sessions st)
     \<and> sm_created (ss_metrics st) = length (ss_sessions st) + sm_evictions (ss_metrics st)
     \<and> sm_terminal (ss_metrics st) + count_where (\<lambda>s. se_status s = Active) st = sm_created (ss_metrics st)"

lemma streams_core_session:
  "streams_core p st \<Longrightarrow> map_of (ss_sessions st) i = Some s \<Longrightarrow> session_ok p s \<and> se_bytes s \<le> ss_total_bytes st"
  using tally_member [of "ss_sessions st" i s se_bytes] by (force simp: streams_core_def dest: map_of_SomeD)

lemma count_where_put:
  "map_of (ss_sessions st) i = Some s \<Longrightarrow> ss_sessions st' = AList.update i s' (ss_sessions st) \<Longrightarrow>
   count_where P st' + (if P s then 1 else 0) = count_where P st + (if P s' then 1 else 0)"
  using tally_update [of "ss_sessions st" i s "\<lambda>s. if P s then 1 else 0" s'] by (simp add: count_where_def)

text \<open>Replacing one session keeps the core when the total follows its bytes and the counter of terminal
  sessions its status.\<close>

lemma replace_core:
  assumes "streams_core p st" "map_of (ss_sessions st) i = Some s" "session_ok p s'"
    and "ss_sessions st' = AList.update i s' (ss_sessions st)"
    and "ss_total_bytes st' + se_bytes s = ss_total_bytes st + se_bytes s'"
    and "sm_created (ss_metrics st') = sm_created (ss_metrics st)"
    and "sm_evictions (ss_metrics st') = sm_evictions (ss_metrics st)"
    and "sm_terminal (ss_metrics st') + (if se_status s' = Active then 1 else 0)
         = sm_terminal (ss_metrics st) + (if se_status s = Active then 1 else 0)"
  shows "streams_core p st'"
proof -
  from count_where_put [OF assms(2,4), of "\<lambda>s. se_status s = Active"]
    tally_update [OF assms(2), of se_bytes s']
  show ?thesis
    using assms unfolding streams_core_def
    by (auto simp: distinct_update length_AList_update dest: set_update_value)
qed

lemma core_extend:
  assumes "streams_core p st" "map_of (ss_sessions st) i = None" "session_ok p s" "se_bytes s = 0"
    "se_status s = Active"
    and "ss_sessions st' = AList.update i s (ss_sessions st)" "ss_total_bytes st' = ss_total_bytes st"
    "sm_created (ss_metrics st') = Suc (sm_created (ss_metrics st))"
    "sm_evictions (ss_metrics st') = sm_evictions (ss_metrics st)"
    "sm_terminal (ss_metrics st') = sm_terminal (ss_metrics st)"
  shows "streams_core p st'"
  using assms tally_insert [OF assms(2), of se_bytes s]
    tally_insert [OF assms(2), of "\<lambda>s. if se_status s = Active then 1 else 0" s]
  unfolding streams_core_def count_where_def
  by (auto simp: distinct_update length_AList_update dest: set_update_value)

text \<open>Removing sessions that are no longer active: the state sheds bytes and sessions, no active session
  is lost and the others are as they were.\<close>

definition sheds :: "streaming_policy \<Rightarrow> streams_state \<Rightarrow> streams_state \<Rightarrow> bool" where
  "sheds p st st' \<longleftrightarrow>
     streams_core p st' \<and> ss_total_bytes st' \<le> ss_total_bytes st \<and> (\<forall>P. count_where P st' \<le> count_where P st)
     \<and> (\<forall>i s. map_of (ss_sessions st') i = Some s \<longrightarrow> map_of (ss_sessions st) i = Some s)
     \<and> (\<forall>i s. map_of (ss_sessions st) i = Some s \<longrightarrow> se_status s = Active \<longrightarrow> map_of (ss_sessions st') i = Some s)
     \<and> ss_controls st' = ss_controls st"

lemma sheds_refl [simp]: "streams_core p st \<Longrightarrow> sheds p st st"
  by (simp add: sheds_def)

lemma shedsD:
  assumes "sheds p st st'"
  shows "streams_core p st'" "ss_total_bytes st' \<le> ss_total_bytes st" "count_where P st' \<le> count_where P st"
    "map_of (ss_sessions st') i = Some s \<Longrightarrow> map_of (ss_sessions st) i = Some s"
    "map_of (ss_sessions st) i = Some s \<Longrightarrow> se_status s = Active \<Longrightarrow> map_of (ss_sessions st') i = Some s"
    "ss_controls st' = ss_controls st"
  using assms unfolding sheds_def by blast+

lemma sheds_trans:
  assumes "sheds p a b" "sheds p b c"
  shows "sheds p a c"
proof -
  note a = shedsD [OF assms(1)] and b = shedsD [OF assms(2)]
  show ?thesis
    unfolding sheds_def
  proof (intro conjI allI impI)
    show "streams_core p c" by (rule b(1))
    show "ss_total_bytes c \<le> ss_total_bytes a" by (rule order_trans [OF b(2) a(2)])
    show "count_where P c \<le> count_where P a" for P by (rule order_trans [OF b(3) a(3)])
    show "map_of (ss_sessions a) i = Some s" if "map_of (ss_sessions c) i = Some s" for i s
      by (rule a(4) [OF b(4) [OF that]])
    show "map_of (ss_sessions c) i = Some s"
      if "map_of (ss_sessions a) i = Some s" "se_status s = Active" for i s
      by (rule b(5) [OF a(5) [OF that] that(2)])
    show "ss_controls c = ss_controls a" by (rule trans [OF b(6) a(6)])
  qed
qed

lemma evict_sheds:
  assumes "streams_core p st" "map_of (ss_sessions st) i = Some s" "se_status s \<noteq> Active"
  shows "sheds p st (evict_session i st)"
proof -
  have d: "distinct (map fst (ss_sessions st))" using assms(1) by (simp add: streams_core_def)
  note t = tally_delete [OF assms(2) d]
  have "count_where P (evict_session i st) \<le> count_where P st" for P
    using assms(2) t [of "\<lambda>s. if P s then 1 else 0"]
    by (simp add: evict_session_def count_metric_def remove_session_def count_where_def)
  moreover have "streams_core p (evict_session i st)"
    using assms t [of se_bytes] t [of "\<lambda>s. if se_status s = Active then 1 else 0"]
      length_AList_delete [OF assms(2) d]
    unfolding streams_core_def count_where_def
    by (auto simp: evict_session_def count_metric_def remove_session_def resumable_eviction_def
          AList.delete_eq distinct_map_filter)
  ultimately show ?thesis
    using assms(2,3)
    by (auto simp: sheds_def evict_session_def count_metric_def remove_session_def AList.delete_conv'
          split: if_splits)
qed

lemma evict_list_sheds:
  "streams_core p st \<Longrightarrow> distinct (map fst es) \<Longrightarrow>
   (\<And>e. e \<in> set es \<Longrightarrow> map_of (ss_sessions st) (fst e) = Some (snd e) \<and> se_status (snd e) \<noteq> Active) \<Longrightarrow>
   sheds p st (fold evict_session (map fst es) st)"
proof (induction es arbitrary: st)
  case (Cons e es)
  let ?st = "evict_session (fst e) st"
  have s: "sheds p st ?st"
    using Cons.prems(1) Cons.prems(3) [of e] by (intro evict_sheds [of p st "fst e" "snd e"]) auto
  have "sheds p ?st (fold evict_session (map fst es) ?st)"
  proof (rule Cons.IH)
    show "streams_core p ?st" using s by (simp add: sheds_def)
    show "distinct (map fst es)" using Cons.prems by simp
    fix e' assume "e' \<in> set es"
    then have "fst e' \<noteq> fst e" "map_of (ss_sessions st) (fst e') = Some (snd e')" "se_status (snd e') \<noteq> Active"
      using Cons.prems(2) Cons.prems(3) [of e'] by (auto simp: image_iff)
    then show "map_of (ss_sessions ?st) (fst e') = Some (snd e') \<and> se_status (snd e') \<noteq> Active"
      using Cons.prems by (simp add: evict_session_def count_metric_def remove_session_def split: option.split)
  qed
  with s show ?case by (auto intro: sheds_trans)
qed simp

lemma expired_not_active: "session_ok p s \<Longrightarrow> expired q now s \<Longrightarrow> se_status s \<noteq> Active"
  by (auto simp: session_ok_def expired_def split: option.splits)

lemma retained_not_active: "session_ok p s \<Longrightarrow> \<not> se_owner_active s \<Longrightarrow> se_status s \<noteq> Active"
  by (auto simp: session_ok_def)

lemma core_lookup:
  "streams_core p st \<Longrightarrow> e \<in> set (ss_sessions st) \<Longrightarrow>
   map_of (ss_sessions st) (fst e) = Some (snd e) \<and> session_ok p (snd e)"
  by (simp add: streams_core_def)

lemma sheds_core: "sheds p a b \<Longrightarrow> streams_core p b"
  by (simp add: sheds_def)

lemma evict_oldest_sheds:
  assumes "streams_core p st"
  shows "sheds p st (evict_oldest st)"
proof (cases "oldest_retained st")
  case (Some i)
  then obtain s where s: "(i, s) \<in> set (ss_sessions st)" "\<not> se_owner_active s"
    using oldest_retained_SomeD by blast
  with core_lookup [OF assms s(1)] have "map_of (ss_sessions st) i = Some s" "se_status s \<noteq> Active"
    by (auto dest: retained_not_active)
  with Some assms show ?thesis by (simp add: evict_oldest_def evict_sheds)
qed (simp add: evict_oldest_def assms)

lemma sheds_oldest: "sheds p st t \<Longrightarrow> sheds p st (evict_oldest t)"
  by (rule sheds_trans [OF _ evict_oldest_sheds]) (auto dest: sheds_core)

lemma trim_sheds: "streams_core p st \<Longrightarrow> sheds p st (trim_retained q st)"
  by (rule retained.total_keeps) (auto intro: sheds_oldest)

lemma evict_retained_sheds: "streams_core p st \<Longrightarrow> sheds p st (evict_retained q st)"
  by (rule retention.total_keeps) (auto intro: sheds_oldest)

lemma oldest_retained_None: "oldest_retained st = None \<longleftrightarrow> retained_count st = 0"
  by (simp add: oldest_retained_def retained_count_def)

lemma trim_retained_bound: "retained_count (trim_retained p st) \<le> sp_max_retained p"
  using retained.total_stops [of p st] by (auto simp: over_retained_def oldest_retained_None)

lemma evict_retained_bound:
  "ss_total_bytes (evict_retained p st) \<le> sp_max_total p \<or> retained_count (evict_retained p st) = 0"
  using retention.total_stops [of p st] by (auto simp: over_total_def oldest_retained_None)

lemma purge_sheds:
  assumes "streams_core p st"
  shows "sheds p st (purge_locked p now st)" "retained_count (purge_locked p now st) \<le> sp_max_retained p"
proof -
  let ?es = "sessions_where (expired p now) st"
  have "distinct (map fst ?es)"
    using assms by (simp add: streams_core_def sessions_where_def distinct_map_filter)
  moreover have "map_of (ss_sessions st) (fst e) = Some (snd e) \<and> se_status (snd e) \<noteq> Active"
    if "e \<in> set ?es" for e
    using that core_lookup [OF assms, of e] by (auto simp: sessions_where_def dest: expired_not_active)
  ultimately have s: "sheds p st (fold evict_session (map fst ?es) st)"
    using assms evict_list_sheds by blast
  then have "streams_core p (fold evict_session (map fst ?es) st)" by (simp add: sheds_def)
  from sheds_trans [OF s trim_sheds [OF this]]
  show "sheds p st (purge_locked p now st)" by (simp add: purge_locked_def)
  show "retained_count (purge_locked p now st) \<le> sp_max_retained p"
    by (simp add: purge_locked_def trim_retained_bound)
qed

section \<open>Sizes of frames\<close>

definition streaming_policy_ok :: "streaming_policy \<Rightarrow> bool" where
  "streaming_policy_ok p \<longleftrightarrow> validate_streaming p = Inr () \<and> 2 * sp_max_total p \<le> usize_max"

lemma policy_facts:
  assumes "streaming_policy_ok p"
  shows "1 \<le> sp_max_events p" "512 \<le> sp_max_bytes p" "sp_max_bytes p \<le> sp_max_total p"
    "1 \<le> sp_max_followers p" "2 * sp_max_total p \<le> usize_max"
  using assms
  by (auto simp: streaming_policy_ok_def validate_streaming_def min_streaming_error_bytes_def split: if_splits)

definition printable :: "string \<Rightarrow> bool" where
  "printable s \<longleftrightarrow> list_all (\<lambda>c. 32 \<le> (of_char c :: nat) \<and> (of_char c :: nat) < 127) s"

text \<open>What the code relies on in the rendering of the error object: compact JSON, in which a printable
  character takes at most two bytes and the keys, the constants and a 64-bit number at most 128.\<close>

definition error_json_ok :: "error_json \<Rightarrow> bool" where
  "error_json_ok json \<longleftrightarrow>
     (\<forall>protocol n code message. n < 2 ^ 64 \<longrightarrow> printable code \<longrightarrow> printable message \<longrightarrow>
        length (json protocol n code message) \<le> 128 + 2 * (length code + length message))"

lemma bounded_error_text_facts: "length (bounded_error_text v m) \<le> m" "printable (bounded_error_text v m)"
  by (auto simp: bounded_error_text_def printable_def list_all_iff)

lemma decimal_length: "n < 10 ^ Suc k \<Longrightarrow> length (decimal n) \<le> Suc k"
proof (induction k arbitrary: n)
  case 0
  then show ?case by (simp add: decimal.simps [of n])
next
  case (Suc k)
  then have "n div 10 < 10 ^ Suc k" by (simp add: less_mult_imp_div_less mult.commute)
  with Suc.IH show ?case by (subst decimal.simps) auto
qed

lemma decimal_length_u64:
  assumes "n < 2 ^ 64"
  shows "length (decimal n) \<le> 20"
  using assms decimal_length [of n 19] by simp

lemma stream_error_frame_length:
  assumes "error_json_ok json" "n < 2 ^ 64"
  shows "length (stream_error_frame json protocol n code message) \<le> min_streaming_error_bytes"
proof -
  let ?c = "bounded_error_text code max_stream_error_code_bytes"
  let ?m = "bounded_error_text message max_stream_error_message_bytes"
  have "n - 1 < 2 ^ 64" using assms(2) by simp
  with assms(1) have "length (json protocol (n - 1) ?c ?m) \<le> 128 + 2 * (length ?c + length ?m)"
    unfolding error_json_ok_def using bounded_error_text_facts(2) by blast
  moreover have "length ?c \<le> 32" "length ?m \<le> 128"
    using bounded_error_text_facts(1) [of code max_stream_error_code_bytes]
      bounded_error_text_facts(1) [of message max_stream_error_message_bytes]
    by (simp_all add: max_stream_error_code_bytes_def max_stream_error_message_bytes_def)
  ultimately have "length (json protocol (n - 1) ?c ?m) \<le> 448" by simp
  with decimal_length_u64 [OF assms(2)] show ?thesis
    by (cases protocol)
       (simp_all add: stream_error_frame_def number_frame_def Let_def newline_def min_streaming_error_bytes_def)
qed

section \<open>What an operation does to the sessions\<close>

text \<open>One session after an operation that published the frames \<open>new\<close> on it: the retained frames are the
  old ones and the new ones, less some from the front; the owner of the session, its protocol and its
  deletion stay, and a session that is no longer active stays so and gets no frames.\<close>

definition advances :: "session \<Rightarrow> session \<Rightarrow> stored_frame list \<Rightarrow> bool" where
  "advances s s' new \<longleftrightarrow>
     se_principal s' = se_principal s \<and> se_protocol s' = se_protocol s \<and> (se_deleted s \<longrightarrow> se_deleted s')
     \<and> (\<exists>k. se_frames s' = drop k (se_frames s @ new)) \<and> se_next_id s' = se_next_id s + length new
     \<and> (se_status s \<noteq> Active \<longrightarrow> se_status s' \<noteq> Active \<and> new = [])
     \<and> (\<not> se_owner_active s \<longrightarrow> \<not> se_owner_active s')"

lemma advances_refl [simp]: "advances s s []"
  by (auto simp: advances_def intro: exI [of _ 0])

lemma drop_drop_append: "\<exists>k. drop m (drop n xs @ ys) = drop k (xs @ ys)"
proof -
  have "drop n xs @ ys = drop (min n (length xs)) (xs @ ys)" by (simp add: min_def)
  then show ?thesis by (metis drop_drop)
qed

lemma advances_trans:
  assumes "advances a b []" "advances b c new"
  shows "advances a c new"
proof -
  from assms(1) obtain n where "se_frames b = drop n (se_frames a @ [])" unfolding advances_def by blast
  moreover from assms(2) obtain m where "se_frames c = drop m (se_frames b @ new)" unfolding advances_def by blast
  ultimately have "se_frames b = drop n (se_frames a)" "se_frames c = drop m (se_frames b @ new)" by simp_all
  with drop_drop_append [of m n "se_frames a" new] have "\<exists>k. se_frames c = drop k (se_frames a @ new)" by simp
  moreover have "se_status a \<noteq> Active \<Longrightarrow> se_status c \<noteq> Active \<and> new = []"
    and "\<not> se_owner_active a \<Longrightarrow> \<not> se_owner_active c"
    using assms unfolding advances_def by blast+
  ultimately show ?thesis using assms by (simp add: advances_def)
qed

lemma advances_frames_same:
  "se_frames s' = se_frames s \<Longrightarrow> se_next_id s' = se_next_id s \<Longrightarrow> se_principal s' = se_principal s \<Longrightarrow>
   se_protocol s' = se_protocol s \<Longrightarrow> (se_deleted s \<Longrightarrow> se_deleted s') \<Longrightarrow>
   (se_status s \<noteq> Active \<Longrightarrow> se_status s' \<noteq> Active) \<Longrightarrow> (\<not> se_owner_active s \<Longrightarrow> \<not> se_owner_active s') \<Longrightarrow>
   advances s s' []"
  by (auto simp: advances_def intro: exI [of _ 0])

definition evolves :: "string \<Rightarrow> stored_frame list \<Rightarrow> streams_state \<Rightarrow> streams_state \<Rightarrow> bool" where
  "evolves i new st st' \<longleftrightarrow>
     (\<forall>j s'. map_of (ss_sessions st') j = Some s' \<longrightarrow>
        (\<exists>s. map_of (ss_sessions st) j = Some s \<and> advances s s' (if j = i then new else [])))"

lemma evolves_refl [simp]: "evolves i [] st st"
  by (simp add: evolves_def)

lemma evolvesD:
  "evolves i new st st' \<Longrightarrow> map_of (ss_sessions st') j = Some s' \<Longrightarrow>
   \<exists>s. map_of (ss_sessions st) j = Some s \<and> advances s s' (if j = i then new else [])"
  by (simp add: evolves_def)

lemma evolves_trans:
  assumes "evolves i [] a b" "evolves i new b c"
  shows "evolves i new a c"
  unfolding evolves_def
proof (intro allI impI)
  fix j s' assume "map_of (ss_sessions c) j = Some s'"
  with evolvesD [OF assms(2)] obtain t where
    t: "map_of (ss_sessions b) j = Some t" "advances t s' (if j = i then new else [])" by blast
  with evolvesD [OF assms(1)] obtain s where "map_of (ss_sessions a) j = Some s" "advances s t []" by fastforce
  with t show "\<exists>s. map_of (ss_sessions a) j = Some s \<and> advances s s' (if j = i then new else [])"
    by (blast intro: advances_trans)
qed

lemma evolves_put:
  "map_of (ss_sessions st) i = Some s \<Longrightarrow> ss_sessions st' = AList.update i s' (ss_sessions st) \<Longrightarrow>
   advances s s' new \<Longrightarrow> evolves i new st st'"
  by (auto simp: evolves_def AList.update_conv)

lemma sheds_evolves: "sheds p st st' \<Longrightarrow> evolves i [] st st'"
  by (auto simp: evolves_def dest: shedsD(4))

lemma evolves_other: "evolves j [] st st' \<longleftrightarrow> evolves i [] st st'"
  by (simp add: evolves_def)

text \<open>The limits of the state as a whole.\<close>

definition within_limits :: "streaming_policy \<Rightarrow> streams_state \<Rightarrow> bool" where
  "within_limits p st \<longleftrightarrow>
     ss_total_bytes st \<le> sp_max_total p \<and> active_count st \<le> sp_max_active p
     \<and> retained_count st \<le> sp_max_retained p"

lemma sheds_limits: "sheds p st st' \<Longrightarrow> within_limits p st \<Longrightarrow> within_limits p st'"
  using shedsD(2) [of p st st'] shedsD(3) [of p st st' se_owner_active]
    shedsD(3) [of p st st' "\<lambda>s. \<not> se_owner_active s"]
  by (auto simp: within_limits_def active_count_where retained_count_where)

lemma put_limits:
  assumes "within_limits p st" "map_of (ss_sessions st) i = Some s"
    "ss_sessions st' = AList.update i s' (ss_sessions st)" "se_owner_active s' = se_owner_active s"
    "ss_total_bytes st' \<le> sp_max_total p"
  shows "within_limits p st'"
  using assms count_where_put [OF assms(2,3), of se_owner_active]
    count_where_put [OF assms(2,3), of "\<lambda>s. \<not> se_owner_active s"]
  by (auto simp: within_limits_def active_count_where retained_count_where)

section \<open>The operations keep the invariant\<close>

text \<open>The front truncation of a session keeps its newest frame.\<close>

definition truncation_inv :: "streaming_policy \<Rightarrow> truncation \<Rightarrow> bool" where
  "truncation_inv p t \<longleftrightarrow>
     (let fs = se_frames (fst t) in
      1 \<le> sp_max_events p \<and> se_bytes (fst t) = frame_bytes fs \<and> fs \<noteq> []
      \<and> length (snd (last fs)) \<le> sp_max_bytes p)"

lemma pop_front_inv:
  assumes "truncation_inv p t" "over_session p t"
  shows "\<exists>t'. pop_front t = Some t' \<and> truncation_inv p t' \<and> length (se_frames (fst t')) < length (se_frames (fst t))"
proof -
  obtain s r n where t: "t = (s, r, n)" by (cases t) auto
  with assms obtain f g fs where "se_frames s = f # g # fs"
    by (cases "se_frames s" rule: remdups_adj.cases)
       (auto simp: truncation_inv_def over_session_def frame_bytes_def)
  with assms t show ?thesis by (auto simp: pop_front_def truncation_inv_def Let_def)
qed

interpretation trunc: eviction_loop "truncation_inv p" "over_session p" pop_front "truncate_session p"
  "\<lambda>t. length (se_frames (fst t))" for p
proof unfold_locales
  show "truncate_session p t =
      (if over_session p t then Option.bind (pop_front t) (truncate_session p) else Some t)" for t
    by (subst truncate_session.simps) (auto split: option.splits)
qed (rule pop_front_inv)

definition truncated :: "session \<Rightarrow> truncation \<Rightarrow> bool" where
  "truncated s t \<longleftrightarrow>
     (\<exists>m b. fst t = s\<lparr>se_frames := drop m (se_frames s), se_bytes := b\<rparr> \<and> fst (snd t) + b = se_bytes s)"

lemma truncated_pop:
  assumes "truncation_inv p t" "truncated s t" "pop_front t = Some t'"
  shows "truncated s t'"
proof -
  from assms(2) obtain m b r n where
    t: "t = (s\<lparr>se_frames := drop m (se_frames s), se_bytes := b\<rparr>, r, n)" "r + b = se_bytes s"
    by (cases t) (auto simp: truncated_def)
  with assms(3) obtain f fs where u: "drop m (se_frames s) = f # fs"
    "t' = (s\<lparr>se_frames := fs, se_bytes := b - length (snd f)\<rparr>, r + length (snd f), Suc n)"
    by (auto simp: pop_front_def split: list.splits)
  then have "fs = drop (Suc m) (se_frames s)" by (metis drop_Suc list.sel(3) tl_drop)
  moreover have "length (snd f) \<le> b" using assms(1) t u by (simp add: truncation_inv_def Let_def)
  ultimately show ?thesis using t u unfolding truncated_def
    by (intro exI [of _ "Suc m"] exI [of _ "b - length (snd f)"]) auto
qed

lemma truncate_session_ok:
  assumes "truncation_inv p (s, 0, 0)"
  shows "\<exists>s' r k. truncate_session p (s, 0, 0) = Some (s', r, k) \<and> truncated s (s', r, k)
           \<and> se_frames s' \<noteq> [] \<and> se_bytes s' = frame_bytes (se_frames s')
           \<and> length (se_frames s') \<le> sp_max_events p \<and> se_bytes s' \<le> sp_max_bytes p"
proof -
  have "truncated s (s, 0, 0)"
    unfolding truncated_def by (intro exI [of _ "0::nat"] exI [of _ "se_bytes s"]) simp
  from trunc.loop_keeps [where P = "truncated s", OF assms this] obtain t where
    "truncate_session p (s, 0, 0) = Some t" "truncation_inv p t" "\<not> over_session p t" "truncated s t"
    using truncated_pop by blast
  then show ?thesis
    by (cases t) (auto simp: truncation_inv_def over_session_def Let_def)
qed

definition step_ok :: "streaming_policy \<Rightarrow> string \<Rightarrow> stored_frame list \<Rightarrow> streams_state \<Rightarrow> streams_state \<Rightarrow> bool" where
  "step_ok p i new st st' \<longleftrightarrow> streams_core p st' \<and> within_limits p st' \<and> evolves i new st st'"

lemma step_ok_refl: "streams_core p st \<Longrightarrow> within_limits p st \<Longrightarrow> step_ok p i [] st st"
  by (simp add: step_ok_def)

lemma sheds_step: "sheds p st st' \<Longrightarrow> within_limits p st \<Longrightarrow> step_ok p i [] st st'"
  by (simp add: step_ok_def sheds_limits sheds_evolves shedsD)

lemma step_ok_trans: "step_ok p i [] a b \<Longrightarrow> step_ok p i new b c \<Longrightarrow> step_ok p i new a c"
  by (auto simp: step_ok_def intro: evolves_trans)

lemma step_ok_other: "step_ok p i [] a b \<Longrightarrow> step_ok p j [] a b"
  by (auto simp: step_ok_def evolves_def)

text \<open>Replacing a session by one with the same frames and bytes.\<close>

lemma replace_step:
  assumes "streams_core p st" "within_limits p st" "map_of (ss_sessions st) i = Some s"
    and "session_ok p s'" "advances s s' []" "se_bytes s' = se_bytes s"
    and "se_owner_active s' = se_owner_active s"
    and "ss_sessions st' = AList.update i s' (ss_sessions st)" "ss_total_bytes st' = ss_total_bytes st"
    and "sm_created (ss_metrics st') = sm_created (ss_metrics st)"
    and "sm_evictions (ss_metrics st') = sm_evictions (ss_metrics st)"
    and "sm_terminal (ss_metrics st') + (if se_status s' = Active then 1 else 0)
         = sm_terminal (ss_metrics st) + (if se_status s = Active then 1 else 0)"
  shows "step_ok p i [] st st'"
  unfolding step_ok_def
proof (intro conjI)
  show "streams_core p st'" using replace_core [OF assms(1,3,4,8)] assms by simp
  show "within_limits p st'" using put_limits [OF assms(2,3,8,7)] assms by (simp add: within_limits_def)
  show "evolves i [] st st'" using evolves_put [OF assms(3,8,5)] .
qed

lemma cancel_with_fields [simp]:
  "se_frames (cancel_with c s) = se_frames s" "se_bytes (cancel_with c s) = se_bytes s"
  "se_next_id (cancel_with c s) = se_next_id s" "se_followers (cancel_with c s) = se_followers s"
  "se_status (cancel_with c s) = se_status s" "se_owner_active (cancel_with c s) = se_owner_active s"
  "se_terminal_at (cancel_with c s) = se_terminal_at s" "se_deleted (cancel_with c s) = se_deleted s"
  "se_principal (cancel_with c s) = se_principal s" "se_protocol (cancel_with c s) = se_protocol s"
  by (simp_all add: cancel_with_def split: option.splits)

lemma bump_fields [simp]:
  "se_frames (bump s) = se_frames s" "se_bytes (bump s) = se_bytes s"
  "se_next_id (bump s) = se_next_id s" "se_followers (bump s) = se_followers s"
  "se_status (bump s) = se_status s" "se_owner_active (bump s) = se_owner_active s"
  "se_terminal_at (bump s) = se_terminal_at s" "se_deleted (bump s) = se_deleted s"
  "se_principal (bump s) = se_principal s" "se_protocol (bump s) = se_protocol s"
  by (simp_all add: bump_def)

lemma session_ok_bump [simp]: "session_ok p (bump s) = session_ok p s"
  and session_ok_cancel [simp]: "session_ok p (cancel_with c s) = session_ok p s"
  by (simp_all add: session_ok_def)

lemma put_session_sel [simp]:
  "ss_sessions (put_session i s st) = AList.update i s (ss_sessions st)"
  "ss_total_bytes (put_session i s st) = ss_total_bytes st" "ss_metrics (put_session i s st) = ss_metrics st"
  "ss_controls (put_session i s st) = ss_controls st"
  by (simp_all add: put_session_def)

lemma count_metric_sel [simp]:
  "ss_sessions (count_metric f st) = ss_sessions st" "ss_total_bytes (count_metric f st) = ss_total_bytes st"
  "ss_metrics (count_metric f st) = f (ss_metrics st)" "ss_controls (count_metric f st) = ss_controls st"
  by (simp_all add: count_metric_def)

lemma metric_sel [simp]:
  "sm_created (resumable_truncation m) = sm_created m" "sm_terminal (resumable_truncation m) = sm_terminal m"
  "sm_evictions (resumable_truncation m) = sm_evictions m"
  "sm_created (resumable_terminal m) = sm_created m" "sm_terminal (resumable_terminal m) = Suc (sm_terminal m)"
  "sm_evictions (resumable_terminal m) = sm_evictions m"
  "sm_created (resumable_attachment m) = sm_created m" "sm_terminal (resumable_attachment m) = sm_terminal m"
  "sm_evictions (resumable_attachment m) = sm_evictions m"
  "sm_created (resumable_created m) = Suc (sm_created m)" "sm_terminal (resumable_created m) = sm_terminal m"
  "sm_evictions (resumable_created m) = sm_evictions m"
  by (simp_all add: resumable_truncation_def resumable_terminal_def resumable_attachment_def resumable_created_def)

lemma truncations_sel [simp]:
  "ss_sessions ((count_metric resumable_truncation ^^ k) st) = ss_sessions st"
  "ss_total_bytes ((count_metric resumable_truncation ^^ k) st) = ss_total_bytes st"
  "ss_controls ((count_metric resumable_truncation ^^ k) st) = ss_controls st"
  "sm_created (ss_metrics ((count_metric resumable_truncation ^^ k) st)) = sm_created (ss_metrics st)"
  "sm_terminal (ss_metrics ((count_metric resumable_truncation ^^ k) st)) = sm_terminal (ss_metrics st)"
  "sm_evictions (ss_metrics ((count_metric resumable_truncation ^^ k) st)) = sm_evictions (ss_metrics st)"
  by (induction k) simp_all

lemma contiguous_drop: "contiguous n fs \<Longrightarrow> contiguous n (drop k fs)"
proof (induction k arbitrary: fs)
  case (Suc k)
  then show ?case by (cases fs) (auto dest: contiguous_tl)
qed simp

text \<open>The state of \<^verbatim>\<open>append\<close> after the new frame is in and the old sessions are out, and what it does next:
  the three ways it can end.\<close>

lemma append_frame_cases:
  assumes p: "streaming_policy_ok p" and st: "streams_core p st" "within_limits p st"
    and s: "map_of (ss_sessions st) i = Some s" "se_status s = Active"
    and n: "n = se_next_id s" "bytes = number_frame n payload" "length bytes \<le> sp_max_bytes p"
  obtains st3 s2 m where
    "streams_core p st3" "map_of (ss_sessions st3) i = Some s2" "session_ok p s2" "se_status s2 = Active"
    "m \<le> length (se_frames s)" "se_frames s2 = drop m (se_frames s) @ [(n, bytes)]" "se_next_id s2 = n + 1"
    "se_principal s2 = se_principal s" "se_protocol s2 = se_protocol s"
    "\<forall>j u. map_of (ss_sessions st3) j = Some u \<longrightarrow> j \<noteq> i \<longrightarrow> map_of (ss_sessions st) j = Some u"
    "\<forall>P. P s = P s2 \<longrightarrow> count_where P st3 \<le> count_where P st"
    "ss_total_bytes st3 \<le> ss_total_bytes st + length bytes"
    "append_frame p i payload st =
          Some (if sp_max_total p < ss_total_bytes st3
                then ((put_session i (cancel_with ResourceExhausted
                         (s2\<lparr>se_frames := butlast (se_frames s2), se_bytes := se_bytes s2 - length bytes, se_next_id := n\<rparr>))
                         st3)\<lparr>ss_total_bytes := ss_total_bytes st3 - length bytes\<rparr>,
                      FailWith ''stream_capacity_exhausted'' ''global stream retention capacity exhausted'')
                else (put_session i (bump s2) st3, Appended))"
proof -
  note pf = policy_facts [OF p]
  from streams_core_session [OF st(1) s(1)] have sok: "session_ok p s" "se_bytes s \<le> ss_total_bytes st" by auto
  define s1 where "s1 = s\<lparr>se_next_id := n + 1, se_bytes := se_bytes s + length bytes,
                          se_frames := se_frames s @ [(n, bytes)]\<rparr>"
  have "truncation_inv p (s1, 0, 0)"
    using pf sok n(3) by (simp add: truncation_inv_def s1_def Let_def session_ok_def)
  from truncate_session_ok [OF this] obtain s2 r k where
    t: "truncate_session p (s1, 0, 0) = Some (s2, r, k)" "truncated s1 (s2, r, k)" "se_frames s2 \<noteq> []"
    "se_bytes s2 = frame_bytes (se_frames s2)" "length (se_frames s2) \<le> sp_max_events p" "se_bytes s2 \<le> sp_max_bytes p"
    by blast
  from t(2) obtain m b where
    m: "s2 = s1\<lparr>se_frames := drop m (se_frames s1), se_bytes := b\<rparr>" "r + b = se_bytes s1"
    by (auto simp: truncated_def)
  have ml: "m \<le> length (se_frames s)" using t(3) m(1) by (cases "m \<le> length (se_frames s)") (auto simp: s1_def)
  have fr: "se_frames s2 = drop m (se_frames s) @ [(n, bytes)]" using m(1) ml by (simp add: s1_def)
  have c: "contiguous (n + 1) (se_frames s2)"
    using contiguous_snoc [OF contiguous_drop, of n "se_frames s" m bytes] sok(1) fr n(1)
    by (simp add: session_ok_def)
  have s2: "session_ok p s2" "se_status s2 = Active"
    using sok(1) s(2) m(1) t(4,5,6) c by (simp_all add: session_ok_def s1_def)
  define st1 where "st1 = put_session i s2 ((count_metric resumable_truncation ^^ k) st)"
  define st2 where "st2 = st1\<lparr>ss_total_bytes := sat_add (ss_total_bytes st1) (length bytes) - r\<rparr>"
  have acc: "append_account p i (length bytes) (s2, r, k) st = evict_retained p st2"
    by (simp add: append_account_def st2_def st1_def Let_def)
  have sess2: "ss_sessions st2 = AList.update i s2 (ss_sessions st)" by (simp add: st2_def st1_def)
  have "ss_total_bytes st + length bytes \<le> usize_max"
    using st(2) n(3) pf by (simp add: within_limits_def)
  then have tot: "ss_total_bytes st2 = ss_total_bytes st + length bytes - r"
    by (simp add: st2_def st1_def sat_add_exact)
  have b: "se_bytes s2 = b" "r + b = se_bytes s + length bytes" using m by (simp_all add: s1_def)
  have core2: "streams_core p st2"
    by (rule replace_core [OF st(1) s(1) s2(1) sess2])
       (use tot b sok(2) s2(2) s(2) in \<open>simp_all add: st2_def st1_def\<close>)
  define st3 where "st3 = evict_retained p st2"
  have sh: "sheds p st2 st3" unfolding st3_def by (rule evict_retained_sheds [OF core2])
  have "map_of (ss_sessions st2) i = Some s2" by (simp add: sess2 AList.update_conv)
  from shedsD(5) [OF sh this s2(2)] have s3: "map_of (ss_sessions st3) i = Some s2" .
  have other: "map_of (ss_sessions st) j = Some u" if "map_of (ss_sessions st3) j = Some u" "j \<noteq> i" for j u
    using shedsD(4) [OF sh that(1)] that(2) by (simp add: sess2 AList.update_conv)
  have cnt: "count_where P st3 \<le> count_where P st" if "P s = P s2" for P
    using count_where_put [OF s(1) sess2, of P] shedsD(3) [OF sh, of P] that by (auto split: if_splits)
  have app: "append_frame p i payload st =
          Some (if sp_max_total p < ss_total_bytes st3
                then ((put_session i (cancel_with ResourceExhausted
                         (s2\<lparr>se_frames := butlast (se_frames s2), se_bytes := se_bytes s2 - length bytes, se_next_id := n\<rparr>))
                         st3)\<lparr>ss_total_bytes := ss_total_bytes st3 - length bytes\<rparr>,
                      FailWith ''stream_capacity_exhausted'' ''global stream retention capacity exhausted'')
                else (put_session i (bump s2) st3, Appended))"
  proof -
    have "\<not> se_deleted s" using sok(1) s(2) by (simp add: session_ok_def)
    then have "append_frame p i payload st =
        (case truncate_session p (s1, 0, 0) of None \<Rightarrow> None
         | Some t \<Rightarrow> append_conclude p i (append_account p i (length bytes) t st))"
      using s n pf(3) by (simp add: append_frame_def s1_def Let_def cong: option.case_cong)
    then have "append_frame p i payload st = append_conclude p i st3" by (simp add: t(1) acc st3_def)
    moreover have "se_next_id s2 - 1 = n" "snd (last (se_frames s2)) = bytes"
      using m(1) fr by (simp_all add: s1_def)
    ultimately show ?thesis using s3 t(3) by (simp add: append_conclude_def Let_def)
  qed
  have keep: "se_next_id s2 = n + 1" "se_principal s2 = se_principal s" "se_protocol s2 = se_protocol s"
    using m(1) by (simp_all add: s1_def)
  have "ss_total_bytes st3 \<le> ss_total_bytes st + length bytes" using shedsD(2) [OF sh] tot by simp
  from that [OF shedsD(1) [OF sh] s3 s2 ml fr keep _ _ this app] other cnt show ?thesis by blast
qed

definition published :: "string \<Rightarrow> string \<Rightarrow> streams_state \<Rightarrow> append_result \<Rightarrow> stored_frame list" where
  "published i payload st r =
     (case (map_of (ss_sessions st) i, r) of
        (Some s, Appended) \<Rightarrow> [(se_next_id s, number_frame (se_next_id s) payload)]
      | _ \<Rightarrow> [])"

lemma evolves_direct:
  assumes "map_of (ss_sessions st) i = Some s" "advances s s' new"
    and "\<And>j u. map_of (ss_sessions st') j = Some u \<Longrightarrow> if j = i then u = s' else map_of (ss_sessions st) j = Some u"
  shows "evolves i new st st'"
  unfolding evolves_def
proof (intro allI impI)
  fix j u assume "map_of (ss_sessions st') j = Some u"
  from assms(3) [OF this] assms(1,2)
  show "\<exists>s. map_of (ss_sessions st) j = Some s \<and> advances s u (if j = i then new else [])"
    by (cases "j = i") auto
qed

lemma active_facts: "session_ok p s \<Longrightarrow> se_status s = Active \<Longrightarrow> se_owner_active s \<and> \<not> se_deleted s \<and> se_terminal_at s = None"
  by (simp add: session_ok_def)

lemma append_ok_active:
  assumes p: "streaming_policy_ok p" and st: "streams_core p st" "within_limits p st"
    and s: "map_of (ss_sessions st) i = Some s" "se_status s = Active"
    and fits: "length (number_frame (se_next_id s) payload) \<le> sp_max_bytes p"
  shows "\<exists>st' r. append_frame p i payload st = Some (st', r) \<and> step_ok p i (published i payload st r) st st'"
proof -
  define n where "n = se_next_id s"
  define bytes where "bytes = number_frame n payload"
  have sok: "session_ok p s" using streams_core_session [OF st(1) s(1)] by simp
  have "length bytes \<le> sp_max_bytes p" using fits by (simp add: bytes_def n_def)
  with p st s n_def bytes_def obtain st3 s2 m where
    c: "streams_core p st3" "map_of (ss_sessions st3) i = Some s2" "session_ok p s2" "se_status s2 = Active"
      "m \<le> length (se_frames s)" "se_frames s2 = drop m (se_frames s) @ [(n, bytes)]" "se_next_id s2 = n + 1"
      "se_principal s2 = se_principal s" "se_protocol s2 = se_protocol s"
    and other: "\<forall>j u. map_of (ss_sessions st3) j = Some u \<longrightarrow> j \<noteq> i \<longrightarrow> map_of (ss_sessions st) j = Some u"
    and cnt: "\<forall>P. P s = P s2 \<longrightarrow> count_where P st3 \<le> count_where P st"
    and tot: "ss_total_bytes st3 \<le> ss_total_bytes st + length bytes"
    and app: "append_frame p i payload st =
          Some (if sp_max_total p < ss_total_bytes st3
                then ((put_session i (cancel_with ResourceExhausted
                         (s2\<lparr>se_frames := butlast (se_frames s2), se_bytes := se_bytes s2 - length bytes, se_next_id := n\<rparr>))
                         st3)\<lparr>ss_total_bytes := ss_total_bytes st3 - length bytes\<rparr>,
                      FailWith ''stream_capacity_exhausted'' ''global stream retention capacity exhausted'')
                else (put_session i (bump s2) st3, Appended))"
    by (rule append_frame_cases)
  note as = active_facts [OF sok s(2)] and as2 = active_facts [OF c(3,4)]
  have lim3: "active_count st3 \<le> sp_max_active p" "retained_count st3 \<le> sp_max_retained p"
  proof -
    have "count_where se_owner_active st3 \<le> count_where se_owner_active st"
      "count_where (\<lambda>s. \<not> se_owner_active s) st3 \<le> count_where (\<lambda>s. \<not> se_owner_active s) st"
      using cnt as as2 by simp_all
    then show "active_count st3 \<le> sp_max_active p" "retained_count st3 \<le> sp_max_retained p"
      using st(2) by (simp_all add: within_limits_def active_count_where retained_count_where)
  qed
  show ?thesis
  proof (cases "sp_max_total p < ss_total_bytes st3")
    case False
    let ?st = "put_session i (bump s2) st3"
    have "streams_core p ?st" by (rule replace_core [OF c(1,2), where s' = "bump s2"]) (use c(3) in simp_all)
    moreover have "within_limits p ?st"
      by (rule put_limits [OF _ c(2), where s' = "bump s2"]) (use lim3 False in \<open>simp_all add: within_limits_def\<close>)
    moreover have "evolves i [(n, bytes)] st ?st"
    proof (rule evolves_direct [OF s(1)])
      show "advances s (bump s2) [(n, bytes)]"
        using c as s(2) by (auto simp: advances_def n_def intro!: exI [of _ m])
      show "if j = i then u = bump s2 else map_of (ss_sessions st) j = Some u"
        if "map_of (ss_sessions ?st) j = Some u" for j u
        using that other by (auto simp: AList.update_conv split: if_splits)
    qed
    ultimately show ?thesis
      using False app s(1) by (auto simp: step_ok_def published_def n_def bytes_def)
  next
    case True
    define s4 where "s4 = s2\<lparr>se_frames := drop m (se_frames s), se_bytes := se_bytes s2 - length bytes, se_next_id := n\<rparr>"
    let ?st = "(put_session i (cancel_with ResourceExhausted s4) st3)\<lparr>ss_total_bytes := ss_total_bytes st3 - length bytes\<rparr>"
    have b: "se_bytes s2 = frame_bytes (drop m (se_frames s)) + length bytes"
      using c(3,6) by (simp add: session_ok_def)
    have s4: "session_ok p s4" "se_status s4 = Active" "se_bytes s4 + length bytes = se_bytes s2"
      using c(3,4) sok b contiguous_drop [of n "se_frames s" m]
      by (auto simp: s4_def session_ok_def n_def)
    have le: "se_bytes s2 \<le> ss_total_bytes st3" using streams_core_session [OF c(1,2)] by simp
    have "streams_core p ?st"
      by (rule replace_core [OF c(1,2), where s' = "cancel_with ResourceExhausted s4"]) (use s4 c(4) le in auto)
    moreover have "within_limits p ?st"
      using put_limits [of p "st3\<lparr>ss_total_bytes := 0\<rparr>" i s2 ?st "cancel_with ResourceExhausted s4"] lim3 c(2) tot st(2) True
      by (auto simp: within_limits_def s4_def active_count_where retained_count_where count_where_def)
    moreover have "evolves i [] st ?st"
    proof (rule evolves_direct [OF s(1)])
      show "advances s (cancel_with ResourceExhausted s4) []"
        using c as s(2) by (auto simp: advances_def s4_def n_def)
      show "if j = i then u = cancel_with ResourceExhausted s4 else map_of (ss_sessions st) j = Some u"
        if "map_of (ss_sessions ?st) j = Some u" for j u
        using that other by (auto simp: AList.update_conv split: if_splits)
    qed
    moreover have "append_frame p i payload st =
        Some (?st, FailWith ''stream_capacity_exhausted'' ''global stream retention capacity exhausted'')"
      using True app c(6) by (simp add: s4_def)
    ultimately show ?thesis using s(1) by (auto simp: step_ok_def published_def)
  qed
qed

lemma append_ok:
  assumes p: "streaming_policy_ok p" and st: "streams_core p st" "within_limits p st"
  shows "\<exists>st' r. append_frame p i payload st = Some (st', r) \<and> step_ok p i (published i payload st r) st st'"
proof (cases "map_of (ss_sessions st) i")
  case None
  with st show ?thesis by (simp add: append_frame_def published_def step_ok_refl)
next
  case (Some s)
  then have sok: "session_ok p s" using streams_core_session [OF st(1)] by simp
  consider "se_deleted s \<or> se_status s \<noteq> Active"
    | "se_status s = Active" "\<not> se_deleted s" "sp_max_bytes p < length (number_frame (se_next_id s) payload)"
    | "se_status s = Active" "length (number_frame (se_next_id s) payload) \<le> sp_max_bytes p"
    by linarith
  then show ?thesis
  proof cases
    case 1
    with Some st show ?thesis by (simp add: append_frame_def published_def step_ok_refl)
  next
    case 2
    have "step_ok p i [] st (put_session i (cancel_with StreamBufferExceeded s) st)"
      by (rule replace_step [OF st Some, where s' = "cancel_with StreamBufferExceeded s"])
         (use sok in \<open>auto intro: advances_frames_same\<close>)
    with 2 Some show ?thesis by (simp add: append_frame_def published_def Let_def)
  next
    case 3
    with append_ok_active [OF p st Some] show ?thesis by blast
  qed
qed

text \<open>Making room.\<close>

lemma drop_front_step:
  assumes "streams_core p st" "within_limits p st"
  shows "step_ok p i [] st (drop_front v st)"
proof (cases "Option.bind (map_of (ss_sessions st) v) (\<lambda>s. if se_frames s = [] then None else Some s)")
  case None
  then have "drop_front v st = st" by (auto simp: drop_front_def bind_eq_None_conv split: option.splits list.splits)
  with assms show ?thesis by (simp add: step_ok_refl)
next
  case (Some s)
  then obtain f fs where s: "map_of (ss_sessions st) v = Some s" "se_frames s = f # fs"
    by (cases "se_frames s") (auto simp: bind_eq_Some_conv split: if_splits)
  define s' where "s' = s\<lparr>se_frames := fs, se_bytes := se_bytes s - length (snd f)\<rparr>"
  have d: "drop_front v st = count_metric resumable_truncation
      ((put_session v s' st)\<lparr>ss_total_bytes := ss_total_bytes st - length (snd f)\<rparr>)" (is "_ = ?st")
    using s by (simp add: drop_front_def s'_def Let_def)
  have sok: "session_ok p s" "se_bytes s \<le> ss_total_bytes st" using streams_core_session [OF assms(1) s(1)] by auto
  have s': "session_ok p s'" "se_bytes s' + length (snd f) = se_bytes s"
    using sok s(2) by (auto simp: session_ok_def s'_def dest: contiguous_tl)
  have "streams_core p ?st"
    by (rule replace_core [OF assms(1) s(1), where s' = s']) (use s' sok in \<open>auto simp: s'_def\<close>)
  moreover have "within_limits p ?st"
    by (rule put_limits [OF assms(2) s(1), where s' = s']) (use assms(2) in \<open>auto simp: s'_def within_limits_def\<close>)
  moreover have "evolves i [] st ?st"
    unfolding evolves_other [of i st ?st v]
    by (rule evolves_put [OF s(1), where s' = s'])
       (use s(2) in \<open>auto simp: s'_def advances_def intro!: exI [of _ "1::nat"]\<close>)
  ultimately show ?thesis by (simp add: d step_ok_def)
qed

lemma drop_front_lookup:
  "map_of (ss_sessions (drop_front v st)) j =
     map_option (\<lambda>s. if j = v then s\<lparr>se_frames := tl (se_frames s),
        se_bytes := se_bytes s - (if se_frames s = [] then 0 else length (snd (hd (se_frames s))))\<rparr> else s)
       (map_of (ss_sessions st) j)"
  by (cases "map_of (ss_sessions st) j"; cases "map_of (ss_sessions st) v")
     (auto simp: drop_front_def Let_def AList.update_conv split: list.splits)

lemma needs_room_complete:
  assumes p: "streaming_policy_ok p" and st: "streams_core p st"
    and s: "map_of (ss_sessions st) i = Some s" and n: "n \<le> 512" and stop: "\<not> needs_room p i n st"
  shows "length (se_frames s) < sp_max_events p \<and> se_bytes s + n \<le> sp_max_bytes p
         \<and> ss_total_bytes st + n \<le> sp_max_total p"
proof -
  note pf = policy_facts [OF p]
  have sok: "session_ok p s" using streams_core_session [OF st s] by simp
  have exact: "sat_add a n \<le> b \<Longrightarrow> b \<le> sp_max_total p \<Longrightarrow> a + n \<le> b" for a b
    using pf sat_add_less_max [of a n] by (metis add_leD2 le_less_trans less_add_same_cancel1 mult_2 not_less
        order_less_le_trans sat_add_bound zero_less_numeral order_trans le_neq_implies_less)
  let ?over = "sp_max_events p \<le> length (se_frames s) \<or> sp_max_bytes p < sat_add (se_bytes s) n"
  have a: "\<not> ?over"
  proof
    assume o: ?over
    with s stop have "se_frames s = []" by (auto simp: needs_room_def truncation_victim_def Let_def)
    with sok o pf(1,2) n sat_add_le [of 0 n] show False
      by (auto simp: session_ok_def)
  qed
  have b: "\<not> sp_max_total p < sat_add (ss_total_bytes st) n"
  proof
    assume o: "sp_max_total p < sat_add (ss_total_bytes st) n"
    let ?L = "sessions_where (\<lambda>s. se_frames s \<noteq> []) st"
    show False
    proof (cases "?L = []")
      case True
      then have "\<forall>e \<in> set (ss_sessions st). se_bytes (snd e) = 0"
        using st by (auto simp: sessions_where_def filter_empty_conv streams_core_def session_ok_def)
      then have "tally se_bytes (ss_sessions st) = tally (\<lambda>_. 0) (ss_sessions st)" by (intro tally_cong) auto
      then have "ss_total_bytes st = 0" using st by (simp add: streams_core_def tally_def)
      with o pf n sat_add_le [of 0 n] show False by simp
    next
      case False
      then obtain e where e: "max_by_key (\<lambda>e. se_bytes (snd e)) ?L = Some e" using max_by_key_ex by blast
      then have "e \<in> set (ss_sessions st)" "se_frames (snd e) \<noteq> []"
        by (auto simp: sessions_where_def dest!: max_by_key_SomeD)
      with core_lookup [OF st] have "map_of (ss_sessions st) (fst e) = Some (snd e)" by blast
      with \<open>se_frames (snd e) \<noteq> []\<close> e a o s have "needs_room p i n st"
        by (simp add: needs_room_def truncation_victim_def Let_def)
      with stop show False by simp
    qed
  qed
  from a b exact pf(3) show ?thesis by (auto simp: not_less)
qed

lemma make_room_ok:
  assumes p: "streaming_policy_ok p" and st: "streams_core p st" "within_limits p st"
    and s: "map_of (ss_sessions st) i = Some s" and n: "n \<le> 512"
  shows "\<exists>s'. step_ok p i [] st (make_room p i n st) \<and> map_of (ss_sessions (make_room p i n st)) i = Some s'
     \<and> se_status s' = se_status s \<and> se_owner_active s' = se_owner_active s \<and> se_followers s' = se_followers s
     \<and> se_deleted s' = se_deleted s
     \<and> length (se_frames s') < sp_max_events p \<and> se_bytes s' + n \<le> sp_max_bytes p
     \<and> ss_total_bytes (make_room p i n st) + n \<le> sp_max_total p"
proof -
  let ?P = "\<lambda>t. step_ok p i [] st t \<and> (\<exists>s'. map_of (ss_sessions t) i = Some s' \<and> se_status s' = se_status s
      \<and> se_owner_active s' = se_owner_active s \<and> se_followers s' = se_followers s \<and> se_deleted s' = se_deleted s)"
  have "?P (make_room p i n st)"
  proof (rule room.total_keeps [where P = ?P])
    show "?P st" using st s by (simp add: step_ok_refl)
    fix t assume "needs_room p i n t" "?P t"
    then obtain v where v: "make_room_step p i n t = drop_front v t"
      by (auto simp: needs_room_def make_room_step_def bind_eq_Some_conv split: option.splits)
    have "step_ok p i [] t (drop_front v t)"
      using \<open>?P t\<close> by (intro drop_front_step) (auto simp: step_ok_def)
    with \<open>?P t\<close> show "?P (make_room_step p i n t)"
      unfolding v using step_ok_trans by (fastforce simp: drop_front_lookup)
  qed
  then obtain s' where s': "step_ok p i [] st (make_room p i n st)" "map_of (ss_sessions (make_room p i n st)) i = Some s'"
    "se_status s' = se_status s" "se_owner_active s' = se_owner_active s" "se_followers s' = se_followers s"
    "se_deleted s' = se_deleted s" by blast
  moreover from s'(1) have "streams_core p (make_room p i n st)" by (simp add: step_ok_def)
  from needs_room_complete [OF p this s'(2) n room.total_stops]
  have "length (se_frames s') < sp_max_events p \<and> se_bytes s' + n \<le> sp_max_bytes p
     \<and> ss_total_bytes (make_room p i n st) + n \<le> sp_max_total p" .
  ultimately show ?thesis by blast
qed

text \<open>Failing stores the error frame, always.\<close>

definition failed_frames :: "error_json \<Rightarrow> string \<Rightarrow> string \<Rightarrow> string \<Rightarrow> streams_state \<Rightarrow> stored_frame list" where
  "failed_frames json i code message st =
     (case map_of (ss_sessions st) i of
        None \<Rightarrow> []
      | Some s \<Rightarrow> if se_status s = Active
                then [(se_next_id s, stream_error_frame json (se_protocol s) (se_next_id s) code message)] else [])"

lemma fail_ok_active:
  assumes p: "streaming_policy_ok p" "error_json_ok json" and st: "streams_core p st" "within_limits p st"
    and s: "map_of (ss_sessions st) i = Some s" "se_status s = Active" "se_next_id s < 2 ^ 64"
  shows "step_ok p i (failed_frames json i code message st) st (fail_stream p json i code message now st)"
    "\<exists>s'. map_of (ss_sessions (fail_stream p json i code message now st)) i = Some s' \<and> se_status s' = Failed
      \<and> se_frames s' \<noteq> [] \<and> [last (se_frames s')] = failed_frames json i code message st"
proof -
  define n where "n = se_next_id s"
  define bytes where "bytes = stream_error_frame json (se_protocol s) n code message"
  have fits: "length bytes \<le> 512"
    using stream_error_frame_length [OF p(2) s(3)] by (simp add: bytes_def n_def min_streaming_error_bytes_def)
  define st1 where "st1 = make_room p i (length bytes) st"
  from make_room_ok [OF p(1) st s(1) fits] obtain s1 where
    r: "step_ok p i [] st st1" "map_of (ss_sessions st1) i = Some s1" "se_status s1 = Active"
      "se_owner_active s1 = se_owner_active s" "length (se_frames s1) < sp_max_events p"
      "se_bytes s1 + length bytes \<le> sp_max_bytes p" "ss_total_bytes st1 + length bytes \<le> sp_max_total p"
    using s(2) by (auto simp: st1_def)
  from r(1) have core1: "streams_core p st1" "within_limits p st1" "evolves i [] st st1" by (simp_all add: step_ok_def)
  have sok: "session_ok p s1" using streams_core_session [OF core1(1) r(2)] by simp
  from evolvesD [OF core1(3) r(2)] s(1) have adv: "advances s s1 []" by simp
  then have nx: "se_next_id s1 = n" "se_principal s1 = se_principal s" "se_protocol s1 = se_protocol s"
    by (simp_all add: advances_def n_def)
  define s2 where "s2 = bump (s1\<lparr>se_bytes := se_bytes s1 + length bytes, se_frames := se_frames s1 @ [(n, bytes)],
                            se_next_id := se_next_id s1 + 1, se_status := Failed, se_terminal_at := Some now\<rparr>)"
  have f: "fail_stream p json i code message now st =
      (count_metric resumable_terminal (put_session i s2 st1))\<lparr>ss_total_bytes := ss_total_bytes st1 + length bytes\<rparr>"
    (is "_ = ?st")
    using s r(2) nx by (simp add: fail_stream_def Let_def st1_def bytes_def n_def s2_def)
  have s2: "session_ok p s2" "se_status s2 = Failed" "se_owner_active s2 = se_owner_active s1"
    "se_bytes s2 = se_bytes s1 + length bytes"
    using sok r contiguous_snoc [of n "se_frames s1" bytes] nx by (auto simp: s2_def session_ok_def)
  have core: "streams_core p ?st"
    by (rule replace_core [OF core1(1) r(2), where s' = s2]) (use s2 r(3) in auto)
  have lim: "within_limits p ?st"
    by (rule put_limits [OF core1(2) r(2), where s' = s2]) (use s2 r(7) in auto)
  have "evolves i [(n, bytes)] st1 ?st"
    by (rule evolves_put [OF r(2), where s' = s2])
       (use r nx active_facts [OF sok r(3)] in \<open>auto simp: s2_def advances_def intro!: exI [of _ "0::nat"]\<close>)
  with core1(3) have "evolves i [(n, bytes)] st ?st" by (rule evolves_trans)
  with core lim show "step_ok p i (failed_frames json i code message st) st (fail_stream p json i code message now st)"
    using s by (simp add: f step_ok_def failed_frames_def n_def bytes_def)
  have "map_of (ss_sessions ?st) i = Some s2" by (simp add: AList.update_conv)
  then show "\<exists>s'. map_of (ss_sessions (fail_stream p json i code message now st)) i = Some s' \<and> se_status s' = Failed
      \<and> se_frames s' \<noteq> [] \<and> [last (se_frames s')] = failed_frames json i code message st"
    using s s2 by (auto simp: f failed_frames_def n_def bytes_def s2_def)
qed

text \<open>Identifiers below a bound, which the number of operations raises by one each.\<close>

definition ids_below :: "nat \<Rightarrow> streams_state \<Rightarrow> bool" where
  "ids_below n st \<longleftrightarrow> (\<forall>i s. map_of (ss_sessions st) i = Some s \<longrightarrow> se_next_id s \<le> n)"

lemma ids_below_evolves:
  assumes "ids_below n st" "evolves i new st st'"
  shows "ids_below (n + length new) st'"
  unfolding ids_below_def
proof (intro allI impI)
  fix j s' assume "map_of (ss_sessions st') j = Some s'"
  with evolvesD [OF assms(2)] obtain s where
    "map_of (ss_sessions st) j = Some s" "advances s s' (if j = i then new else [])" by blast
  with assms(1) show "se_next_id s' \<le> n + length new"
    by (fastforce simp: ids_below_def advances_def)
qed

lemma fail_ok:
  assumes "streaming_policy_ok p" "error_json_ok json" "streams_core p st" "within_limits p st"
    "ids_below n st" "n < 2 ^ 64"
  shows "step_ok p i (failed_frames json i code message st) st (fail_stream p json i code message now st)"
proof (cases "\<exists>s. map_of (ss_sessions st) i = Some s \<and> se_status s = Active")
  case True
  then obtain s where "map_of (ss_sessions st) i = Some s" "se_status s = Active" by blast
  moreover from this assms(5,6) have "se_next_id s < 2 ^ 64" by (auto simp: ids_below_def dest: le_less_trans)
  ultimately show ?thesis using fail_ok_active(1) assms by blast
next
  case False
  then show ?thesis
    using assms by (auto simp: fail_stream_def failed_frames_def step_ok_refl split: option.splits)
qed

text \<open>The operations that touch one session only in its flags.\<close>

lemma purge_step:
  "streams_core p st \<Longrightarrow> within_limits p st \<Longrightarrow> step_ok p i [] st (purge_locked p now st)"
  by (simp add: sheds_step purge_sheds)

lemma cancel_cause_step:
  assumes "streams_core p st" "within_limits p st"
  shows "step_ok p i [] st (cancel_cause i cause st)"
proof (cases "map_of (ss_sessions st) i")
  case (Some s)
  have "session_ok p s" using streams_core_session [OF assms(1) Some] by simp
  with assms Some show ?thesis
    by (auto simp: cancel_cause_def
          intro!: replace_step [OF assms Some, where s' = "cancel_with cause s"] advances_frames_same)
qed (use assms in \<open>simp add: cancel_cause_def step_ok_refl\<close>)

lemma drop_follower_step:
  assumes "streams_core p st" "within_limits p st"
  shows "step_ok p i [] st (drop_follower i st)"
proof (cases "map_of (ss_sessions st) i")
  case (Some s)
  have "session_ok p s" using streams_core_session [OF assms(1) Some] by simp
  then have "session_ok p (s\<lparr>se_followers := se_followers s - 1\<rparr>)" by (auto simp: session_ok_def)
  with Some show ?thesis
    by (auto simp: drop_follower_def
          intro!: replace_step [OF assms Some, where s' = "s\<lparr>se_followers := se_followers s - 1\<rparr>"] advances_frames_same)
qed (use assms in \<open>simp add: drop_follower_def step_ok_refl\<close>)

lemma override_step:
  assumes "streams_core p st" "within_limits p st"
    and na: "\<And>s. map_of (ss_sessions st) i = Some s \<Longrightarrow> se_status s \<noteq> Active"
  shows "step_ok p i [] st (override_cancelled i st)"
proof (cases "map_of (ss_sessions st) i")
  case (Some s)
  have "session_ok p s" "se_status s \<noteq> Active" using streams_core_session [OF assms(1) Some] na [OF Some] by auto
  then have "session_ok p (s\<lparr>se_status := Cancelled\<rparr>)" by (auto simp: session_ok_def)
  with Some \<open>se_status s \<noteq> Active\<close> show ?thesis
    by (auto simp: override_cancelled_def
          intro!: replace_step [OF assms(1,2) Some, where s' = "s\<lparr>se_status := Cancelled\<rparr>"] advances_frames_same)
qed (use assms in \<open>simp add: override_cancelled_def step_ok_refl\<close>)

lemma attach_step:
  assumes "streams_core p st" "within_limits p st"
  shows "step_ok p i [] st (fst (attach p shutdown i who after now st))"
proof -
  let ?st = "purge_locked p now st"
  note pu = purge_step [OF assms, of i now]
  then have c: "streams_core p ?st" "within_limits p ?st" by (simp_all add: step_ok_def)
  have "step_ok p i [] ?st (count_metric resumable_attachment (put_session i (s\<lparr>se_followers := se_followers s + 1\<rparr>) ?st))"
    if "map_of (ss_sessions ?st) i = Some s" "\<not> sp_max_followers p \<le> se_followers s" for s
  proof -
    have "session_ok p (s\<lparr>se_followers := se_followers s + 1\<rparr>)"
      using streams_core_session [OF c(1) that(1)] that(2) by (auto simp: session_ok_def)
    then show ?thesis
      by (intro replace_step [OF c that(1), where s' = "s\<lparr>se_followers := se_followers s + 1\<rparr>"])
         (auto intro: advances_frames_same)
  qed
  with pu assms show ?thesis
    by (auto simp: attach_def Let_def step_ok_refl intro: step_ok_trans split: option.splits)
qed

lemma delete_step:
  assumes "streams_core p st" "within_limits p st"
  shows "step_ok p i [] st (delete_stream i who now st)"
proof (cases "map_of (ss_sessions st) i")
  case (Some s)
  have sok: "session_ok p s" using streams_core_session [OF assms(1) Some] by simp
  show ?thesis
  proof (cases "se_principal s \<noteq> who \<or> se_deleted s")
    case True
    with Some assms show ?thesis by (auto simp: delete_stream_def step_ok_refl)
  next
    case False
    define s' where "s' = bump ((if se_status s = Active
        then cancel_with UserDeleted (s\<lparr>se_deleted := True, se_status := Cancelled, se_terminal_at := Some now\<rparr>)
        else s\<lparr>se_deleted := True\<rparr>)\<lparr>se_completion := None\<rparr>)"
    have "session_ok p s'" using sok by (auto simp: s'_def session_ok_def)
    then show ?thesis
      by (intro replace_step [OF assms Some, where s' = s'])
         (use Some False in \<open>auto simp: delete_stream_def Let_def s'_def intro!: advances_frames_same\<close>)
  qed
qed (use assms in \<open>simp add: delete_stream_def step_ok_refl\<close>)

lemma finish_step:
  assumes "streams_core p st" "within_limits p st" "outcome \<noteq> Active"
  shows "step_ok p i [] st (fst (finish_session p i outcome now st))"
proof (cases "map_of (ss_sessions st) i")
  case (Some s)
  have sok: "session_ok p s" using streams_core_session [OF assms(1) Some] by simp
  define s' where "s' = bump (if se_status s = Active
      then s\<lparr>se_owner_active := False, se_status := outcome, se_terminal_at := Some now\<rparr>
      else s\<lparr>se_owner_active := False\<rparr>)"
  let ?st = "(if se_status s = Active then count_metric resumable_terminal (put_session i s' st) else put_session i s' st)"
  have s': "session_ok p s'" "\<not> se_owner_active s'" "se_bytes s' = se_bytes s" "se_status s' \<noteq> Active"
    using sok assms(3) by (auto simp: s'_def session_ok_def)
  have core: "streams_core p ?st"
    by (rule replace_core [OF assms(1) Some s'(1)]) (use s' in auto)
  have "evolves i [] st ?st"
    by (rule evolves_put [OF Some, where s' = s']) (use assms(3) in \<open>auto simp: s'_def intro!: advances_frames_same\<close>)
  moreover from purge_sheds [OF core] have pu: "sheds p ?st (purge_locked p now ?st)"
    "retained_count (purge_locked p now ?st) \<le> sp_max_retained p" by auto
  moreover have "active_count ?st \<le> active_count st"
    using count_where_put [OF Some, of ?st s' se_owner_active] s'(2) by (auto simp: active_count_where)
  ultimately have "step_ok p i [] st (purge_locked p now ?st)"
    using assms(2) shedsD(1,2) [OF pu(1)] shedsD(3) [OF pu(1), of se_owner_active] evolves_trans
      sheds_evolves [OF pu(1)]
    by (auto simp: step_ok_def within_limits_def active_count_where)
  moreover have "fst (finish_session p i outcome now st) = purge_locked p now ?st"
    using Some by (simp add: finish_session_def s'_def Let_def)
  ultimately show ?thesis by simp
qed (use assms in \<open>simp add: finish_session_def step_ok_refl\<close>)

lemma lookup_step: "streams_core p st \<Longrightarrow> within_limits p st \<Longrightarrow> step_ok p i [] st (fst (lookup_streams p who ids now st))"
  by (simp add: lookup_streams_def Let_def purge_step)

lemma observation_step: "streams_core p st \<Longrightarrow> within_limits p st \<Longrightarrow> step_ok p i [] st (fst (observation p now st))"
  by (simp add: observation_def Let_def purge_step)

lemma capacity_step:
  "streams_core p st \<Longrightarrow> within_limits p st \<Longrightarrow> step_ok p i [] st (fst (ensure_start_capacity p shutdown now st))"
  by (simp add: ensure_start_capacity_def Let_def purge_step step_ok_refl)

lemma draw_unused: "draw_stream_id draws xs = Some i \<Longrightarrow> map_of xs i = None \<and> i \<in> set draws"
  by (induction draws) (auto split: if_splits)

text \<open>Starting adds one session; the others only lose what the purge takes.\<close>

lemma start_step:
  assumes p: "streaming_policy_ok p" and st: "streams_core p st" "within_limits p st"
    and r: "start_with_completion p shutdown draws who protocol completion now st = (st', r)"
  shows "streams_core p st' \<and> within_limits p st'
    \<and> (case r of
         Inl _ \<Rightarrow> evolves i [] st st'
       | Inr k \<Rightarrow> k \<in> set draws \<and> map_of (ss_sessions st') k = Some (new_session who protocol completion)
           \<and> (\<forall>j. j \<noteq> k \<longrightarrow> map_of (ss_sessions st') j = map_of (ss_sessions (purge_locked p now st)) j))"
proof -
  let ?st = "purge_locked p now st"
  note pu = purge_step [OF st, of i now]
  then have c: "streams_core p ?st" "within_limits p ?st" "evolves i [] st ?st" by (simp_all add: step_ok_def)
  show ?thesis
  proof (cases r)
    case (Inl e)
    with r c st show ?thesis
      by (auto simp: start_with_completion_def Let_def split: if_splits option.splits)
  next
    case (Inr k)
    let ?n = "new_session who protocol completion"
    from Inr r have k: "active_count ?st < sp_max_active p" "draw_stream_id draws (ss_sessions ?st) = Some k"
      "st' = count_metric (resumable_attachment \<circ> resumable_created) (put_session k ?n ?st)"
      by (auto simp: start_with_completion_def Let_def split: if_splits option.splits)
    note u = draw_unused [OF k(2)]
    then have u1: "map_of (ss_sessions ?st) k = None" by simp
    have "session_ok p ?n" using policy_facts(4) [OF p] by (simp add: new_session_def session_ok_def)
    then have "streams_core p st'"
      by (rule core_extend [OF c(1) u1]) (simp_all add: k(3) new_session_def)
    moreover have "within_limits p st'"
      using c(2) k(1) tally_insert [OF u1, of "\<lambda>s. if se_owner_active s then 1 else 0" ?n]
        tally_insert [OF u1, of "\<lambda>s. if \<not> se_owner_active s then 1 else 0" ?n]
      by (simp add: within_limits_def k(3) active_count_where retained_count_where count_where_def new_session_def)
    ultimately show ?thesis using Inr u by (simp add: k(3) AList.update_conv)
  qed
qed

end
