(* ===== verification/Stream_System.thy ===== *)
theory Stream_System
  imports Llm_Streams "HOL-Library.Code_Target_Nat"
begin

text \<open>
  The tasks around the resumable streams: the owner of each session (\<^verbatim>\<open>run_owner\<close>), its followers
  (\<^verbatim>\<open>follower_body\<close>) and the clients, interleaved at the critical sections of the state lock, and the
  properties of every run of the whole.
\<close>

section \<open>Owners, followers and the system\<close>

text \<open>The owner task of a session, \<^verbatim>\<open>run_owner\<close>, at its points between two critical sections: reading the
  producer's body (with the flag \<^verbatim>\<open>cancelled\<close>), about to call \<^verbatim>\<open>fail\<close>, about to override the status at a
  shutdown, past the end of the body, about to finish, and done with the status it reports.\<close>

datatype owner_phase =
  Reading bool
| Failing string string owner_phase
| Overriding owner_phase
| Ending bool
| Finishing stream_status
| Done "stream_status option"

datatype source_item = Data string | Trailers | TransportError | EndOfSource

record owner =
  ow_phase :: owner_phase
  ow_signal :: terminal_signal

datatype activity_report = ReportCancelled | ReportFailure | ReportSuccess

fun owner_report :: "stream_status option \<Rightarrow> activity_report option" where
  "owner_report (Some Cancelled) = Some ReportCancelled"
| "owner_report (Some Failed) = Some ReportFailure"
| "owner_report (Some Completed) = Some ReportSuccess"
| "owner_report _ = None"

definition end_phase :: "bool \<Rightarrow> terminal_signal \<Rightarrow> owner_phase" where
  "end_phase cancelled signal =
     (case signal_outcome signal of
        Some status \<Rightarrow> Finishing status
      | None \<Rightarrow>
          if cancelled then Finishing Cancelled
          else Failing ''stream_terminal_missing'' ''stream ended before a protocol terminal event''
                 (Finishing Failed))"

text \<open>A step of the owner that reads an item, and one that goes on without reading: the new state, phase and
  the frames published.\<close>

definition owner_read ::
  "streaming_policy \<Rightarrow> string \<Rightarrow> source_item \<Rightarrow> bool \<Rightarrow> streams_state \<Rightarrow>
   (streams_state \<times> owner_phase \<times> stored_frame list) option" where
  "owner_read p i item cancelled st =
     (case item of
        Data payload \<Rightarrow>
          (case append_frame p i payload st of
             None \<Rightarrow> None
           | Some (st', r) \<Rightarrow>
               Some (st',
                 (case r of
                    Appended \<Rightarrow> Reading cancelled
                  | Refused \<Rightarrow> Reading True
                  | FailWith code message \<Rightarrow> Failing code message (Reading True)),
                 published i payload st r))
      | Trailers \<Rightarrow> Some (st, Reading cancelled, [])
      | TransportError \<Rightarrow>
          Some (st, Failing ''stream_transport_error'' ''stream transport failed'' (Ending cancelled), [])
      | EndOfSource \<Rightarrow> Some (st, Ending cancelled, []))"

fun owner_proceed ::
  "streaming_policy \<Rightarrow> error_json \<Rightarrow> string \<Rightarrow> terminal_signal \<Rightarrow> nat \<Rightarrow> owner_phase \<Rightarrow> streams_state \<Rightarrow>
   streams_state \<times> owner_phase \<times> stored_frame list" where
  "owner_proceed p json i signal now (Failing code message next_phase) st =
     (fail_stream p json i code message now st, next_phase, failed_frames json i code message st)"
| "owner_proceed p json i signal now (Overriding next_phase) st = (override_cancelled i st, next_phase, [])"
| "owner_proceed p json i signal now (Ending cancelled) st = (st, end_phase cancelled signal, [])"
| "owner_proceed p json i signal now (Finishing status) st =
     (let (st', r) = finish_session p i status now st in (st', Done r, []))"
| "owner_proceed p json i signal now phase st = (st, phase, [])"

definition shutdown_phase :: owner_phase where
  "shutdown_phase = Failing ''server_shutdown'' ''server is shutting down'' (Overriding (Reading True))"

record follower =
  fw_stream :: string
  fw_who :: principal_id
  fw_after :: nat
  fw_cursor :: nat
  fw_follow :: bool
  fw_output :: "stored_frame list"
  fw_error :: "string option"
  fw_ended :: bool
  fw_live :: bool

definition new_follower :: "string \<Rightarrow> principal_id \<Rightarrow> nat \<Rightarrow> bool \<Rightarrow> follower" where
  "new_follower i who after follow =
     \<lparr>fw_stream = i, fw_who = who, fw_after = after, fw_cursor = after, fw_follow = follow, fw_output = [],
      fw_error = None, fw_ended = False, fw_live = True\<rparr>"

definition poll_follower :: "error_json \<Rightarrow> streams_state \<Rightarrow> follower \<Rightarrow> follower" where
  "poll_follower json st f =
     (if \<not> fw_live f \<or> fw_ended f then f
      else case follower_next (fw_stream f) (fw_who f) (fw_cursor f) (fw_follow f) st of
             Frame fr \<Rightarrow> f\<lparr>fw_cursor := fst fr, fw_output := fw_output f @ [fr]\<rparr>
           | Wait \<Rightarrow> f
           | Lost protocol \<Rightarrow>
               f\<lparr>fw_error := Some (stream_error_frame json protocol (sat_add (fw_cursor f) 1) ''replay_lost''
                                    ''requested events are no longer retained''),
                 fw_ended := True\<rparr>
           | EndOfStream \<Rightarrow> f\<lparr>fw_ended := True\<rparr>)"

text \<open>The whole: the state, every owner and follower there ever was, and, for the statements only, the
  frames that each owner published.\<close>

record streams_system =
  sy_state :: streams_state
  sy_followers :: "follower list"
  sy_owners :: "(string \<times> owner) list"
  sy_shutdown :: bool
  sy_now :: nat
  sy_published :: "string \<Rightarrow> stored_frame list"

definition initial_streams :: streams_system where
  "initial_streams = \<lparr>sy_state = new_streams, sy_followers = [], sy_owners = [], sy_shutdown = False,
                      sy_now = 0, sy_published = \<lambda>_. []\<rparr>"

text \<open>What can happen, one critical section at a time; \<open>Reorder\<close> is the iteration order of the hash map, which
  may be any at every operation.\<close>

datatype stream_action =
  Start "string list" principal_id stream_protocol "string option"
| Attach string principal_id nat bool
| PollFollower nat
| DropFollower nat
| Lookup principal_id "string list"
| DeleteStream string principal_id
| Observe
| EnsureCapacity
| TriggerShutdown
| OwnerReads string source_item
| OwnerNoticesShutdown string
| OwnerProceeds string
| ProducerCompletes string
| ProducerFails string
| Elapse nat
| Reorder "(string \<times> session) list"

definition set_owner :: "string \<Rightarrow> owner \<Rightarrow> streams_system \<Rightarrow> streams_system" where
  "set_owner i w sys = sys\<lparr>sy_owners := AList.update i w (sy_owners sys)\<rparr>"

definition publish_frames :: "string \<Rightarrow> stored_frame list \<Rightarrow> streams_system \<Rightarrow> streams_system" where
  "publish_frames i new sys = sys\<lparr>sy_published := (sy_published sys)(i := sy_published sys i @ new)\<rparr>"

fun streams_step :: "streaming_policy \<Rightarrow> error_json \<Rightarrow> stream_action \<Rightarrow> streams_system \<Rightarrow> streams_system option" where
  "streams_step p json (Start draws who protocol completion) sys =
     (let (st, r) = start_with_completion p (sy_shutdown sys) draws who protocol completion (sy_now sys) (sy_state sys)
      in case r of
           Inl _ \<Rightarrow> Some (sys\<lparr>sy_state := st\<rparr>)
         | Inr i \<Rightarrow> Some (set_owner i \<lparr>ow_phase = Reading False, ow_signal = ProducerPending\<rparr>
                      (sys\<lparr>sy_state := st, sy_followers := sy_followers sys @ [new_follower i who 0 True]\<rparr>)))"
| "streams_step p json (Attach i who after follow) sys =
     (let (st, r) = attach p (sy_shutdown sys) i who after (sy_now sys) (sy_state sys)
      in case r of
           Some _ \<Rightarrow> Some (sys\<lparr>sy_state := st\<rparr>)
         | None \<Rightarrow> Some (sys\<lparr>sy_state := st, sy_followers := sy_followers sys @ [new_follower i who after follow]\<rparr>))"
| "streams_step p json (PollFollower k) sys =
     Some (if k < length (sy_followers sys)
           then sys\<lparr>sy_followers := (sy_followers sys)[k := poll_follower json (sy_state sys) (sy_followers sys ! k)]\<rparr>
           else sys)"
| "streams_step p json (DropFollower k) sys =
     Some (if k < length (sy_followers sys) \<and> fw_live (sy_followers sys ! k)
           then let f = sy_followers sys ! k in
                sys\<lparr>sy_state := drop_follower (fw_stream f) (sy_state sys),
                    sy_followers := (sy_followers sys)[k := f\<lparr>fw_live := False\<rparr>]\<rparr>
           else sys)"
| "streams_step p json (Lookup who ids) sys =
     Some (sys\<lparr>sy_state := fst (lookup_streams p who ids (sy_now sys) (sy_state sys))\<rparr>)"
| "streams_step p json (DeleteStream i who) sys =
     Some (sys\<lparr>sy_state := delete_stream i who (sy_now sys) (sy_state sys)\<rparr>)"
| "streams_step p json Observe sys = Some (sys\<lparr>sy_state := fst (observation p (sy_now sys) (sy_state sys))\<rparr>)"
| "streams_step p json EnsureCapacity sys =
     Some (sys\<lparr>sy_state := fst (ensure_start_capacity p (sy_shutdown sys) (sy_now sys) (sy_state sys))\<rparr>)"
| "streams_step p json TriggerShutdown sys = Some (sys\<lparr>sy_shutdown := True\<rparr>)"
| "streams_step p json (OwnerReads i item) sys =
     (case map_of (sy_owners sys) i of
        None \<Rightarrow> Some sys
      | Some w \<Rightarrow>
          (case ow_phase w of
             Reading cancelled \<Rightarrow>
               (case owner_read p i item cancelled (sy_state sys) of
                  None \<Rightarrow> None
                | Some (st, phase, new) \<Rightarrow>
                    Some (publish_frames i new (set_owner i (w\<lparr>ow_phase := phase\<rparr>) (sys\<lparr>sy_state := st\<rparr>))))
           | _ \<Rightarrow> Some sys))"
| "streams_step p json (OwnerNoticesShutdown i) sys =
     (case map_of (sy_owners sys) i of
        None \<Rightarrow> Some sys
      | Some w \<Rightarrow>
          if sy_shutdown sys \<and> ow_phase w = Reading False
          then Some (set_owner i (w\<lparr>ow_phase := shutdown_phase\<rparr>)
                      (sys\<lparr>sy_state := cancel_cause i ServerShutdown (sy_state sys)\<rparr>))
          else Some sys)"
| "streams_step p json (OwnerProceeds i) sys =
     (case map_of (sy_owners sys) i of
        None \<Rightarrow> Some sys
      | Some w \<Rightarrow>
          let (st, phase, new) = owner_proceed p json i (ow_signal w) (sy_now sys) (ow_phase w) (sy_state sys)
          in Some (publish_frames i new (set_owner i (w\<lparr>ow_phase := phase\<rparr>) (sys\<lparr>sy_state := st\<rparr>))))"
| "streams_step p json (ProducerCompletes i) sys =
     (case map_of (sy_owners sys) i of
        None \<Rightarrow> Some sys
      | Some w \<Rightarrow> Some (set_owner i (w\<lparr>ow_signal := signal_complete (ow_signal w)\<rparr>) sys))"
| "streams_step p json (ProducerFails i) sys =
     (case map_of (sy_owners sys) i of
        None \<Rightarrow> Some sys
      | Some w \<Rightarrow> Some (set_owner i (w\<lparr>ow_signal := signal_fail (ow_signal w)\<rparr>) sys))"
| "streams_step p json (Elapse n) sys = Some (sys\<lparr>sy_now := sy_now sys + n\<rparr>)"
| "streams_step p json (Reorder order) sys =
     Some (if mset order = mset (ss_sessions (sy_state sys))
           then sys\<lparr>sy_state := (sy_state sys)\<lparr>ss_sessions := order\<rparr>\<rparr> else sys)"

fun streams_run :: "streaming_policy \<Rightarrow> error_json \<Rightarrow> stream_action list \<Rightarrow> streams_system \<Rightarrow> streams_system option" where
  "streams_run p json [] sys = Some sys"
| "streams_run p json (a # as) sys =
     (case streams_step p json a sys of None \<Rightarrow> None | Some sys' \<Rightarrow> streams_run p json as sys')"

text \<open>The identifiers drawn in a run; drawn at random from 192 bits, no two are the same.\<close>

fun draws_of :: "stream_action \<Rightarrow> string list" where
  "draws_of (Start draws _ _ _) = draws"
| "draws_of _ = []"

definition fresh_draws :: "stream_action list \<Rightarrow> bool" where
  "fresh_draws as \<longleftrightarrow> distinct (concat (map draws_of as))"

section \<open>The invariant of the system\<close>

fun phase_ok :: "owner_phase \<Rightarrow> bool" where
  "phase_ok (Failing _ _ next_phase) \<longleftrightarrow>
     (case next_phase of
        Reading c \<Rightarrow> c
      | Ending _ \<Rightarrow> True
      | Overriding q \<Rightarrow> q = Reading True
      | Finishing status \<Rightarrow> status \<noteq> Active
      | _ \<Rightarrow> False)"
| "phase_ok (Overriding q) \<longleftrightarrow> q = Reading True"
| "phase_ok (Finishing status) \<longleftrightarrow> status \<noteq> Active"
| "phase_ok _ \<longleftrightarrow> True"

definition is_done :: "owner_phase \<Rightarrow> bool" where
  "is_done q = (case q of Done _ \<Rightarrow> True | _ \<Rightarrow> False)"

definition is_overriding :: "owner_phase \<Rightarrow> bool" where
  "is_overriding q = (case q of Overriding _ \<Rightarrow> True | _ \<Rightarrow> False)"

lemma phase_flags [simp]:
  "is_done (Done r)" "\<not> is_done (Reading c)" "\<not> is_done (Failing a b q)" "\<not> is_done (Overriding q)"
  "\<not> is_done (Ending c)" "\<not> is_done (Finishing x)"
  "is_overriding (Overriding q)" "\<not> is_overriding (Done r)" "\<not> is_overriding (Reading c)"
  "\<not> is_overriding (Failing a b q)" "\<not> is_overriding (Ending c)" "\<not> is_overriding (Finishing x)"
  by (simp_all add: is_done_def is_overriding_def)

text \<open>An owner and its session, where that is still there.\<close>

definition linked :: "owner_phase \<Rightarrow> session \<Rightarrow> bool" where
  "linked q s \<longleftrightarrow> (is_done q \<or> is_overriding q \<longrightarrow> se_status s \<noteq> Active) \<and> (is_done q \<longrightarrow> \<not> se_owner_active s)"

definition owners_ok :: "(string \<times> owner) list \<Rightarrow> streams_state \<Rightarrow> bool" where
  "owners_ok ows st \<longleftrightarrow>
     (\<forall>i w. map_of ows i = Some w \<longrightarrow>
        phase_ok (ow_phase w) \<and> (\<forall>s. map_of (ss_sessions st) i = Some s \<longrightarrow> linked (ow_phase w) s))
     \<and> (\<forall>i s. map_of (ss_sessions st) i = Some s \<longrightarrow> map_of ows i \<noteq> None)"

text \<open>The retained frames are the last ones published, numbered from one.\<close>

definition replays :: "stored_frame list \<Rightarrow> session \<Rightarrow> bool" where
  "replays L s \<longleftrightarrow> (\<exists>k. se_frames s = drop k L) \<and> se_next_id s = Suc (length L)"

definition frames_numbered :: "stored_frame list \<Rightarrow> bool" where
  "frames_numbered L \<longleftrightarrow> map fst L = [1..<Suc (length L)]"

text \<open>A follower has shown the frames after its starting point up to its cursor, each once, in order.\<close>

definition follower_ok :: "stored_frame list \<Rightarrow> follower \<Rightarrow> bool" where
  "follower_ok L f \<longleftrightarrow>
     fw_after f \<le> fw_cursor f \<and> fw_cursor f \<le> length L
     \<and> fw_output f = take (fw_cursor f - fw_after f) (drop (fw_after f) L)"

definition system_ok :: "streaming_policy \<Rightarrow> nat \<Rightarrow> string set \<Rightarrow> streams_system \<Rightarrow> bool" where
  "system_ok p n U sys \<longleftrightarrow>
     streams_core p (sy_state sys) \<and> within_limits p (sy_state sys) \<and> ids_below n (sy_state sys)
     \<and> owners_ok (sy_owners sys) (sy_state sys)
     \<and> (\<forall>i s. map_of (ss_sessions (sy_state sys)) i = Some s \<longrightarrow> replays (sy_published sys i) s)
     \<and> (\<forall>i. frames_numbered (sy_published sys i))
     \<and> (\<forall>f \<in> set (sy_followers sys). follower_ok (sy_published sys (fw_stream f)) f)
     \<and> (\<forall>i. i \<notin> U \<longrightarrow> map_of (sy_owners sys) i = None \<and> sy_published sys i = [])"

lemma system_okD:
  assumes "system_ok p n U sys"
  shows "streams_core p (sy_state sys)" "within_limits p (sy_state sys)" "ids_below n (sy_state sys)"
    "owners_ok (sy_owners sys) (sy_state sys)"
    "map_of (ss_sessions (sy_state sys)) i = Some s \<Longrightarrow> replays (sy_published sys i) s"
    "frames_numbered (sy_published sys i)"
    "f \<in> set (sy_followers sys) \<Longrightarrow> follower_ok (sy_published sys (fw_stream f)) f"
    "i \<notin> U \<Longrightarrow> map_of (sy_owners sys) i = None \<and> sy_published sys i = []"
  using assms unfolding system_ok_def by blast+

lemma owners_okD:
  assumes "owners_ok ows st"
  shows "map_of ows i = Some w \<Longrightarrow> phase_ok (ow_phase w)"
    "map_of ows i = Some w \<Longrightarrow> map_of (ss_sessions st) i = Some s \<Longrightarrow> linked (ow_phase w) s"
    "map_of (ss_sessions st) i = Some s \<Longrightarrow> map_of ows i \<noteq> None"
  using assms unfolding owners_ok_def by blast+

lemma linked_advances: "linked q s \<Longrightarrow> advances s s' new \<Longrightarrow> linked q s'"
  unfolding linked_def advances_def by blast

lemma owners_ok_evolves:
  assumes "owners_ok ows st" "evolves i new st st'"
  shows "owners_ok ows st'"
  unfolding owners_ok_def
proof (intro conjI allI impI)
  fix j w assume w: "map_of ows j = Some w"
  show "phase_ok (ow_phase w)" by (rule owners_okD(1) [OF assms(1) w])
  fix s' assume "map_of (ss_sessions st') j = Some s'"
  with evolvesD [OF assms(2)] obtain s where
    "map_of (ss_sessions st) j = Some s" "advances s s' (if j = i then new else [])" by blast
  with owners_okD(2) [OF assms(1) w] show "linked (ow_phase w) s'" by (blast intro: linked_advances)
next
  fix j s' assume "map_of (ss_sessions st') j = Some s'"
  with evolvesD [OF assms(2)] obtain s where "map_of (ss_sessions st) j = Some s" by blast
  with owners_okD(3) [OF assms(1)] show "map_of ows j \<noteq> None" by blast
qed

lemma owners_ok_set:
  assumes "owners_ok ows st" "phase_ok (ow_phase w)"
    and "\<And>s. map_of (ss_sessions st) i = Some s \<Longrightarrow> linked (ow_phase w) s"
  shows "owners_ok (AList.update i w ows) st"
  using assms by (auto simp: owners_ok_def AList.update_conv)

lemma replays_advances:
  assumes "replays L s" "advances s s' new"
  shows "replays (L @ new) s'"
proof -
  from assms(1) obtain k where k: "se_frames s = drop k L" unfolding replays_def by blast
  from assms(2) obtain m where "se_frames s' = drop m (se_frames s @ new)" unfolding advances_def by blast
  with k drop_drop_append [of m k L new] have "\<exists>k. se_frames s' = drop k (L @ new)" by simp
  then show ?thesis using assms by (simp add: replays_def advances_def)
qed

lemma follower_ok_append: "follower_ok L f \<Longrightarrow> follower_ok (L @ new) f"
  by (auto simp: follower_ok_def)

text \<open>The frames that one step publishes carry on the numbering.\<close>

definition carries_on :: "streams_state \<Rightarrow> string \<Rightarrow> stored_frame list \<Rightarrow> bool" where
  "carries_on st i new \<longleftrightarrow> new = [] \<or> (\<exists>s b. map_of (ss_sessions st) i = Some s \<and> new = [(se_next_id s, b)])"

lemma carries_on_published: "carries_on st i (published i payload st r)"
  by (auto simp: carries_on_def published_def split: option.splits append_result.splits)

lemma carries_on_failed: "carries_on st i (failed_frames json i code message st)"
  by (auto simp: carries_on_def failed_frames_def split: option.splits)

lemma numbered_carries_on:
  assumes "frames_numbered L" "carries_on st i new" "\<And>s. map_of (ss_sessions st) i = Some s \<Longrightarrow> replays L s"
  shows "frames_numbered (L @ new)"
  using assms by (auto simp: carries_on_def frames_numbered_def replays_def)

text \<open>A step of an owner: its operation, what it published and its new phase.\<close>

lemma owner_step_ok:
  assumes ok: "system_ok p n U sys" and w: "map_of (sy_owners sys) i = Some w"
    and st: "step_ok p i new (sy_state sys) st" and new: "carries_on (sy_state sys) i new"
    and w': "phase_ok (ow_phase w')" "\<And>s. map_of (ss_sessions st) i = Some s \<Longrightarrow> linked (ow_phase w') s"
  shows "system_ok p (Suc n) U (publish_frames i new (set_owner i w' (sys\<lparr>sy_state := st\<rparr>)))"
proof -
  note D = system_okD [OF ok]
  from st have e: "streams_core p st" "within_limits p st" "evolves i new (sy_state sys) st" by (simp_all add: step_ok_def)
  have len: "length new \<le> 1" using new by (auto simp: carries_on_def)
  have "ids_below (Suc n) st"
    using ids_below_evolves [OF D(3) e(3)] len by (fastforce simp: ids_below_def)
  moreover have "owners_ok (AList.update i w' (sy_owners sys)) st"
    by (rule owners_ok_set [OF owners_ok_evolves [OF D(4) e(3)] w'])
  moreover have "replays (((sy_published sys)(i := sy_published sys i @ new)) j) s'"
    if j: "map_of (ss_sessions st) j = Some s'" for j s'
  proof -
    from evolvesD [OF e(3) j] obtain s where
      "map_of (ss_sessions (sy_state sys)) j = Some s" "advances s s' (if j = i then new else [])" by blast
    with D(5) replays_advances show ?thesis by (cases "j = i") fastforce+
  qed
  moreover have "frames_numbered (((sy_published sys)(i := sy_published sys i @ new)) j)" for j
    using D(6) numbered_carries_on [OF D(6) [of i] new] D(5) by simp
  moreover have "follower_ok (((sy_published sys)(i := sy_published sys i @ new)) (fw_stream f)) f"
    if "f \<in> set (sy_followers sys)" for f
    using D(7) [OF that] by (cases "fw_stream f = i") (auto intro: follower_ok_append)
  moreover have "i \<in> U" using D(8) [of i] w by auto
  ultimately show ?thesis
    using e(1,2) D(8) unfolding system_ok_def
    by (auto simp: publish_frames_def set_owner_def AList.update_conv)
qed

text \<open>A step of a client, which changes only the state.\<close>

lemma client_step_ok:
  assumes ok: "system_ok p n U sys" and st: "step_ok p i [] (sy_state sys) st"
  shows "system_ok p (Suc n) U (sys\<lparr>sy_state := st\<rparr>)"
proof -
  note D = system_okD [OF ok]
  from st have e: "streams_core p st" "within_limits p st" "evolves i [] (sy_state sys) st" by (simp_all add: step_ok_def)
  have "ids_below (Suc n) st"
    using ids_below_evolves [OF D(3) e(3)] by (fastforce simp: ids_below_def)
  moreover have "owners_ok (sy_owners sys) st" by (rule owners_ok_evolves [OF D(4) e(3)])
  moreover have "replays (sy_published sys j) s'" if j: "map_of (ss_sessions st) j = Some s'" for j s'
  proof -
    from evolvesD [OF e(3) j] obtain s where
      "map_of (ss_sessions (sy_state sys)) j = Some s" "advances s s' []" by fastforce
    with D(5) replays_advances show ?thesis by fastforce
  qed
  ultimately show ?thesis
    using e(1,2) D(6-8) unfolding system_ok_def by auto
qed

lemma system_ok_mono:
  assumes "system_ok p n U sys" "n \<le> m" "U \<subseteq> V"
  shows "system_ok p m V sys"
  using assms unfolding system_ok_def ids_below_def by (fastforce intro: order_trans)

text \<open>What a follower reads next is the frame after its cursor.\<close>

lemma numbered_nth: "frames_numbered L \<Longrightarrow> m < length L \<Longrightarrow> fst (L ! m) = Suc m"
  unfolding frames_numbered_def by (metis add_0 diff_Suc_1 length_map less_Suc_eq_le nth_map nth_upt plus_1_eq_Suc Suc_less_eq)

lemma next_frame:
  assumes L: "frames_numbered L" "replays L s" and first: "first_id s \<le> Suc c"
    and fr: "List.find (\<lambda>f. c < fst f) (se_frames s) = Some fr"
  shows "c < length L \<and> fr = L ! c \<and> fst fr = Suc c"
proof -
  from L(2) obtain k where k: "se_frames s = drop k L" by (auto simp: replays_def)
  with fr obtain i where i: "i < length (drop k L)" "c < fst (drop k L ! i)" "fr = drop k L ! i"
    "\<forall>j<i. \<not> c < fst (drop k L ! j)" by (auto simp: find_Some_iff)
  have id: "fst (drop k L ! j) = Suc (k + j)" if "j < length (drop k L)" for j
    using that numbered_nth [OF L(1), of "k + j"] by simp
  have "k + i = c"
  proof (cases i)
    case 0
    with k i(1) have "first_id s = Suc k"
      using id [of 0] by (cases "drop k L") (auto simp: first_id_def)
    with first i(2) id [OF i(1)] 0 show ?thesis by simp
  next
    case (Suc j)
    then have "\<not> c < fst (drop k L ! j)" using i(4) by simp
    with Suc i(1,2) id [of j] id [OF i(1)] show ?thesis by simp
  qed
  with i(1,3) id [OF i(1)] show ?thesis by auto
qed

lemma poll_follower_ok:
  assumes f: "follower_ok L f" and L: "frames_numbered L"
    and s: "\<And>s. map_of (ss_sessions st) (fw_stream f) = Some s \<Longrightarrow> replays L s"
  shows "follower_ok L (poll_follower json st f)"
proof (cases "\<exists>fr. fw_live f \<and> \<not> fw_ended f
    \<and> follower_next (fw_stream f) (fw_who f) (fw_cursor f) (fw_follow f) st = Frame fr")
  case True
  then obtain fr where a: "fw_live f" "\<not> fw_ended f"
    "follower_next (fw_stream f) (fw_who f) (fw_cursor f) (fw_follow f) st = Frame fr" by blast
  then obtain s' where "map_of (ss_sessions st) (fw_stream f) = Some s'" "first_id s' \<le> sat_add (fw_cursor f) 1"
    "List.find (\<lambda>x. fw_cursor f < fst x) (se_frames s') = Some fr"
    by (auto simp: follower_next_def split: option.splits if_splits)
  moreover have "sat_add (fw_cursor f) 1 \<le> Suc (fw_cursor f)" using sat_add_le [of "fw_cursor f" 1] by simp
  ultimately have n: "fw_cursor f < length L" "fr = L ! fw_cursor f" "fst fr = Suc (fw_cursor f)"
    using next_frame [OF L s] by (meson order_trans)+
  with f have le: "fw_after f \<le> fw_cursor f" "fw_output f = take (fw_cursor f - fw_after f) (drop (fw_after f) L)"
    by (simp_all add: follower_ok_def)
  have "take (Suc (fw_cursor f) - fw_after f) (drop (fw_after f) L)
      = take (fw_cursor f - fw_after f) (drop (fw_after f) L) @ [L ! fw_cursor f]"
    using le(1) n(1) by (simp add: Suc_diff_le take_Suc_conv_app_nth)
  with a n le show ?thesis by (simp add: poll_follower_def follower_ok_def)
next
  case False
  with f show ?thesis
    by (auto simp: poll_follower_def follower_ok_def split: follower_action.splits)
qed

lemma followers_change_ok:
  assumes "system_ok p n U sys"
    and "\<And>f. f \<in> set fs \<Longrightarrow> follower_ok (sy_published sys (fw_stream f)) f"
  shows "system_ok p n U (sys\<lparr>sy_followers := fs\<rparr>)"
  using assms unfolding system_ok_def by simp

lemma new_follower_ok: "after \<le> length L \<Longrightarrow> follower_ok L (new_follower i who after follow)"
  by (simp add: follower_ok_def new_follower_def)

lemma new_follower_stream [simp]: "fw_stream (new_follower i who after follow) = i"
  by (simp add: new_follower_def)

lemma attached:
  assumes "attach p shutdown i who after now st = (st', None)"
  shows "\<exists>s. map_of (ss_sessions st') i = Some s \<and> after < se_next_id s"
  using assms by (auto simp: attach_def Let_def AList.update_conv not_le split: if_splits option.splits)

text \<open>Failing leaves no session active, whatever the owner does next.\<close>

lemma fail_not_active:
  assumes ok: "streaming_policy_ok p" "error_json_ok json" "streams_core p st" "within_limits p st"
    "ids_below n st" "n < 2 ^ 64"
    and s': "map_of (ss_sessions (fail_stream p json i code message now st)) i = Some s'"
  shows "se_status s' \<noteq> Active"
proof (cases "\<exists>s. map_of (ss_sessions st) i = Some s \<and> se_status s = Active")
  case True
  then obtain s where s: "map_of (ss_sessions st) i = Some s" "se_status s = Active" by blast
  then have "se_next_id s < 2 ^ 64" using ok(5,6) by (auto simp: ids_below_def dest: le_less_trans)
  with fail_ok_active(2) [OF ok(1-4) s, of code message now] s' show ?thesis by auto
next
  case False
  then have "fail_stream p json i code message now st = st" by (auto simp: fail_stream_def split: option.splits)
  with False s' show ?thesis by simp
qed

lemma finish_not_owned:
  assumes "streams_core p st" "within_limits p st" "outcome \<noteq> Active"
    and "map_of (ss_sessions (fst (finish_session p i outcome now st))) i = Some s'"
  shows "\<not> se_owner_active s' \<and> se_status s' \<noteq> Active"
proof (cases "map_of (ss_sessions st) i")
  case (Some s)
  let ?s = "bump (if se_status s = Active
      then s\<lparr>se_owner_active := False, se_status := outcome, se_terminal_at := Some now\<rparr>
      else s\<lparr>se_owner_active := False\<rparr>)"
  let ?st = "(if se_status s = Active then count_metric resumable_terminal (put_session i ?s st) else put_session i ?s st)"
  have f: "fst (finish_session p i outcome now st) = purge_locked p now ?st"
    using Some by (simp add: finish_session_def Let_def)
  have "session_ok p s" using streams_core_session [OF assms(1) Some] by simp
  then have "session_ok p ?s" using assms(3) by (auto simp: session_ok_def)
  then have "streams_core p ?st"
    by (rule replace_core [OF assms(1) Some]) (use assms(3) in auto)
  from shedsD(4) [OF purge_sheds(1) [OF this]] assms(4) f
  have "map_of (ss_sessions ?st) i = Some s'" by simp
  with assms(3) show ?thesis by (auto simp: AList.update_conv split: if_splits)
qed (use assms(4) in \<open>simp add: finish_session_def\<close>)

section \<open>Every action keeps the invariant\<close>

lemma start_action_ok:
  assumes p: "streaming_policy_ok p" and ok: "system_ok p n U sys" and fresh: "set draws \<inter> U = {}"
    and r: "start_with_completion p (sy_shutdown sys) draws who protocol completion (sy_now sys) (sy_state sys) = (st, Inr k)"
  shows "system_ok p (Suc n) (U \<union> set draws)
           (set_owner k \<lparr>ow_phase = Reading False, ow_signal = ProducerPending\<rparr>
             (sys\<lparr>sy_state := st, sy_followers := sy_followers sys @ [new_follower k who 0 True]\<rparr>))"
proof -
  note D = system_okD [OF ok]
  let ?w = "\<lparr>ow_phase = Reading False, ow_signal = ProducerPending\<rparr>"
  let ?pu = "purge_locked p (sy_now sys) (sy_state sys)"
  from start_step [OF p D(1,2) r] have st: "streams_core p st" "within_limits p st" "k \<in> set draws"
    "map_of (ss_sessions st) k = Some (new_session who protocol completion)"
    "\<And>j. j \<noteq> k \<Longrightarrow> map_of (ss_sessions st) j = map_of (ss_sessions ?pu) j" by auto
  from fresh st(3) have k: "k \<notin> U" by blast
  note sub = shedsD(4) [OF purge_sheds(1) [OF D(1)]]
  have old: "map_of (ss_sessions (sy_state sys)) j = Some s" if "map_of (ss_sessions st) j = Some s" "j \<noteq> k" for j s
    using sub st(5) that by metis
  have "ids_below (Suc n) st"
    unfolding ids_below_def
  proof (intro allI impI)
    fix j s assume "map_of (ss_sessions st) j = Some s"
    with old [of j s] D(3) st(4) show "se_next_id s \<le> Suc n"
      by (cases "j = k") (auto simp: new_session_def ids_below_def le_SucI)
  qed
  moreover have "owners_ok (AList.update k ?w (sy_owners sys)) st"
    unfolding owners_ok_def
  proof (intro conjI allI impI)
    fix j w assume "map_of (AList.update k ?w (sy_owners sys)) j = Some w"
    then have w: "w = ?w \<and> j = k \<or> j \<noteq> k \<and> map_of (sy_owners sys) j = Some w"
      by (auto simp: AList.update_conv split: if_splits)
    with owners_okD(1) [OF D(4)] show "phase_ok (ow_phase w)" by auto
    fix s assume s: "map_of (ss_sessions st) j = Some s"
    show "linked (ow_phase w) s"
    proof (cases "j = k")
      case True
      with w show ?thesis by (simp add: linked_def)
    next
      case False
      with w owners_okD(2) [OF D(4) _ old [OF s False], of w] show ?thesis by simp
    qed
  next
    fix j s assume "map_of (ss_sessions st) j = Some s"
    then show "map_of (AList.update k ?w (sy_owners sys)) j \<noteq> None"
      using owners_okD(3) [OF D(4) old] by (cases "j = k") (simp_all add: AList.update_conv)
  qed
  moreover have "replays (sy_published sys j) s" if "map_of (ss_sessions st) j = Some s" for j s
  proof (cases "j = k")
    case True
    with that st(4) D(8) [OF k] show ?thesis by (auto simp: replays_def new_session_def)
  next
    case False
    with that old D(5) show ?thesis by blast
  qed
  moreover have "follower_ok (sy_published sys (fw_stream f)) f"
    if "f \<in> set (sy_followers sys @ [new_follower k who 0 True])" for f
    using that D(7) by (auto simp: new_follower_ok)
  ultimately show ?thesis
    using st(1-3) D(6) D(8) k unfolding system_ok_def
    by (auto simp: set_owner_def AList.update_conv)
qed

lemma owner_proceed_ok:
  assumes p: "streaming_policy_ok p" "error_json_ok json" and ok: "system_ok p n U sys" and n: "n < 2 ^ 64"
    and w: "map_of (sy_owners sys) i = Some w"
    and r: "owner_proceed p json i (ow_signal w) (sy_now sys) (ow_phase w) (sy_state sys) = (st, phase, new)"
  shows "system_ok p (Suc n) U (publish_frames i new (set_owner i (w\<lparr>ow_phase := phase\<rparr>) (sys\<lparr>sy_state := st\<rparr>)))"
proof -
  note D = system_okD [OF ok]
  note po = owners_okD(1) [OF D(4) w] and li = owners_okD(2) [OF D(4) w]
  have idle: "system_ok p (Suc n) U
      (publish_frames i [] (set_owner i (w\<lparr>ow_phase := phase\<rparr>) (sys\<lparr>sy_state := sy_state sys\<rparr>)))"
    if "phase_ok phase" "\<And>s. map_of (ss_sessions (sy_state sys)) i = Some s \<Longrightarrow> linked phase s" for phase
    by (rule owner_step_ok [OF ok w step_ok_refl [OF D(1,2)]]) (use that in \<open>auto simp: carries_on_def\<close>)
  show ?thesis
  proof (cases "ow_phase w")
    case (Reading c)
    with r idle [of "Reading c"] po li show ?thesis by auto
  next
    case (Failing code message q)
    with r have e: "st = fail_stream p json i code message (sy_now sys) (sy_state sys)" "phase = q"
      "new = failed_frames json i code message (sy_state sys)" by auto
    have "phase_ok q" using po Failing by (auto split: owner_phase.splits)
    moreover have "linked q s" if "map_of (ss_sessions st) i = Some s" for s
      using fail_not_active [OF p D(1,2,3) n, of i code message "sy_now sys" s] that po Failing
      by (auto simp: e(1) linked_def split: owner_phase.splits)
    ultimately show ?thesis
      unfolding e(2)
      by (intro owner_step_ok [OF ok w])
         (auto simp: e(1,3) carries_on_failed intro: fail_ok [OF p D(1,2,3) n])
  next
    case (Overriding q)
    with r have e: "st = override_cancelled i (sy_state sys)" "phase = q" "new = []" by auto
    have "step_ok p i [] (sy_state sys) st"
      unfolding e(1) using li Overriding by (intro override_step [OF D(1,2)]) (auto simp: linked_def)
    moreover have "q = Reading True" using po Overriding by simp
    ultimately show ?thesis
      unfolding e(2,3) by (intro owner_step_ok [OF ok w]) (auto simp: carries_on_def linked_def)
  next
    case (Ending c)
    with r have e: "st = sy_state sys" "phase = end_phase c (ow_signal w)" "new = []" by auto
    have "phase_ok phase" "\<not> is_done phase" "\<not> is_overriding phase"
      by (cases "ow_signal w"; simp add: e end_phase_def)+
    with idle [of phase] show ?thesis by (simp add: e linked_def)
  next
    case (Finishing status)
    with r have e: "st = fst (finish_session p i status (sy_now sys) (sy_state sys))" "\<exists>x. phase = Done x" "new = []"
      by (auto split: prod.splits)
    have na: "status \<noteq> Active" using po Finishing by simp
    have "linked phase s" if "map_of (ss_sessions st) i = Some s" for s
      using finish_not_owned [OF D(1,2) na, of i "sy_now sys" s] that by (auto simp: e(1) linked_def)
    moreover have "phase_ok phase" using e(2) by auto
    ultimately show ?thesis
      unfolding e(3)
      by (intro owner_step_ok [OF ok w]) (auto simp: e(1) carries_on_def intro: finish_step [OF D(1,2) na])
  next
    case (Done x)
    with r idle [of "Done x"] po li show ?thesis by auto
  qed
qed

lemma owner_read_ok:
  assumes p: "streaming_policy_ok p" and ok: "system_ok p n U sys"
    and w: "map_of (sy_owners sys) i = Some w" "ow_phase w = Reading c"
  shows "\<exists>st phase new. owner_read p i item c (sy_state sys) = Some (st, phase, new)
    \<and> system_ok p (Suc n) U (publish_frames i new (set_owner i (w\<lparr>ow_phase := phase\<rparr>) (sys\<lparr>sy_state := st\<rparr>)))"
proof -
  note D = system_okD [OF ok]
  have idle: "system_ok p (Suc n) U
      (publish_frames i [] (set_owner i (w\<lparr>ow_phase := phase\<rparr>) (sys\<lparr>sy_state := sy_state sys\<rparr>)))"
    if "phase_ok phase" "\<not> is_done phase" "\<not> is_overriding phase" for phase
    by (rule owner_step_ok [OF ok w(1) step_ok_refl [OF D(1,2)]])
       (use that in \<open>auto simp: carries_on_def linked_def\<close>)
  show ?thesis
  proof (cases item)
    case (Data payload)
    from append_ok [OF p D(1,2), of i payload] obtain st r where
      a: "append_frame p i payload (sy_state sys) = Some (st, r)"
      "step_ok p i (published i payload (sy_state sys) r) (sy_state sys) st" by blast
    define phase where "phase = (case r of
        Appended \<Rightarrow> Reading c | Refused \<Rightarrow> Reading True | FailWith code message \<Rightarrow> Failing code message (Reading True))"
    have "phase_ok phase" "\<not> is_done phase" "\<not> is_overriding phase" by (cases r; simp add: phase_def)+
    then have "system_ok p (Suc n) U (publish_frames i (published i payload (sy_state sys) r)
        (set_owner i (w\<lparr>ow_phase := phase\<rparr>) (sys\<lparr>sy_state := st\<rparr>)))"
      by (intro owner_step_ok [OF ok w(1) a(2) carries_on_published]) (auto simp: linked_def)
    with a(1) Data show ?thesis by (simp add: owner_read_def phase_def)
  qed (use idle [of "Reading c"] idle [of "Ending c"]
        idle [of "Failing ''stream_transport_error'' ''stream transport failed'' (Ending c)"] in
        \<open>simp_all add: owner_read_def\<close>)
qed

lemma tally_mset: "tally f xs = sum_mset (image_mset (\<lambda>e. f (snd e)) (mset xs))"
  by (induction xs) simp_all

lemma reorder_ok:
  assumes ok: "system_ok p n U sys" and m: "mset order = mset (ss_sessions (sy_state sys))"
  shows "system_ok p n U (sys\<lparr>sy_state := (sy_state sys)\<lparr>ss_sessions := order\<rparr>\<rparr>)"
proof -
  let ?xs = "ss_sessions (sy_state sys)" and ?st = "(sy_state sys)\<lparr>ss_sessions := order\<rparr>"
  note D = system_okD [OF ok]
  have "mset (map fst order) = mset (map fst ?xs)" by (simp add: m)
  then have d: "distinct (map fst order)"
    using D(1) mset_eq_imp_distinct_iff unfolding streams_core_def by blast
  have se: "set order = set ?xs" using m mset_eq_setD by blast
  have mo: "map_of order = map_of ?xs"
    using map_of_inject_set [OF d] D(1) se unfolding streams_core_def by blast
  have t: "tally f order = tally f ?xs" for f :: "session \<Rightarrow> nat"
    by (simp only: tally_mset m)
  have len: "length order = length ?xs" using m mset_eq_length by blast
  have c: "count_where P ?st = count_where P (sy_state sys)" for P by (simp add: count_where_def t)
  have "streams_core p ?st"
    using D(1) d se t [of se_bytes] len c unfolding streams_core_def by simp
  moreover have "within_limits p ?st"
    using D(2) c by (simp add: within_limits_def active_count_where retained_count_where)
  ultimately show ?thesis
    using ok mo unfolding system_ok_def ids_below_def owners_ok_def by simp
qed

theorem streams_step_ok:
  assumes p: "streaming_policy_ok p" "error_json_ok json" and ok: "system_ok p n U sys" and n: "n < 2 ^ 64"
    and fresh: "set (draws_of a) \<inter> U = {}"
  shows "\<exists>sys'. streams_step p json a sys = Some sys' \<and> system_ok p (Suc n) (U \<union> set (draws_of a)) sys'"
proof -
  note D = system_okD [OF ok]
  have same: "system_ok p (Suc n) U sys" by (rule system_ok_mono [OF ok]) auto
  have flw: "system_ok p (Suc n) U (sys\<lparr>sy_followers := fs\<rparr>)"
    if "\<And>f. f \<in> set fs \<Longrightarrow> follower_ok (sy_published sys (fw_stream f)) f" for fs
    by (rule followers_change_ok [OF same that])
  show ?thesis
  proof (cases a)
    case (Start draws who protocol completion)
    obtain st r where r: "start_with_completion p (sy_shutdown sys) draws who protocol completion (sy_now sys) (sy_state sys) = (st, r)"
      by (rule prod.exhaust)
    show ?thesis
    proof (cases r)
      case (Inl e)
      then have "step_ok p [] [] (sy_state sys) st"
        using start_step [OF p(1) D(1,2) r] by (simp add: step_ok_def evolves_def)
      from client_step_ok [OF ok this] have "system_ok p (Suc n) (U \<union> set draws) (sys\<lparr>sy_state := st\<rparr>)"
        by (rule system_ok_mono) auto
      with Start r Inl show ?thesis by simp
    next
      case (Inr k)
      with r have r': "start_with_completion p (sy_shutdown sys) draws who protocol completion (sy_now sys) (sy_state sys) = (st, Inr k)"
        by simp
      have "set draws \<inter> U = {}" using fresh Start by simp
      from start_action_ok [OF p(1) ok this r'] Start r' show ?thesis by simp
    qed
  next
    case (Attach i who after follow)
    obtain st r where r: "attach p (sy_shutdown sys) i who after (sy_now sys) (sy_state sys) = (st, r)"
      by (rule prod.exhaust)
    with attach_step [OF D(1,2), of i "sy_shutdown sys" who after "sy_now sys"]
    have cl: "system_ok p (Suc n) U (sys\<lparr>sy_state := st\<rparr>)" by (intro client_step_ok [OF ok]) simp
    show ?thesis
    proof (cases r)
      case None
      with r attached obtain s where s: "map_of (ss_sessions st) i = Some s" "after < se_next_id s" by blast
      with system_okD(5) [OF cl, of i s] have "after \<le> length (sy_published sys i)" by (auto simp: replays_def)
      then have "follower_ok (sy_published sys (fw_stream f)) f"
        if "f \<in> set (sy_followers sys @ [new_follower i who after follow])" for f
        using that D(7) by (auto simp: new_follower_ok)
      with followers_change_ok [OF cl, of "sy_followers sys @ [new_follower i who after follow]"] None Attach r
      show ?thesis by simp
    qed (use cl Attach r in simp)
  next
    case (PollFollower k)
    have "follower_ok (sy_published sys (fw_stream f)) f"
      if "f \<in> set ((sy_followers sys)[k := poll_follower json (sy_state sys) (sy_followers sys ! k)])"
        "k < length (sy_followers sys)" for f
    proof -
      have s: "fw_stream (poll_follower json st g) = fw_stream g" for st g
        by (simp add: poll_follower_def split: follower_action.splits)
      from that(1) have "f \<in> set (sy_followers sys) \<or> f = poll_follower json (sy_state sys) (sy_followers sys ! k)"
        using set_update_subset_insert by fast
      with D(5,6,7) that(2) show ?thesis by (auto simp: s intro!: poll_follower_ok)
    qed
    with flw same PollFollower show ?thesis by simp
  next
    case (DropFollower k)
    show ?thesis
    proof (cases "k < length (sy_followers sys) \<and> fw_live (sy_followers sys ! k)")
      case True
      let ?f = "sy_followers sys ! k"
      have cl: "system_ok p (Suc n) U (sys\<lparr>sy_state := drop_follower (fw_stream ?f) (sy_state sys)\<rparr>)"
        by (rule client_step_ok [OF ok drop_follower_step [OF D(1,2)]])
      have "follower_ok (sy_published sys (fw_stream f)) f"
        if "f \<in> set ((sy_followers sys)[k := ?f\<lparr>fw_live := False\<rparr>])" for f
      proof -
        from that have "f \<in> set (sy_followers sys) \<or> f = ?f\<lparr>fw_live := False\<rparr>"
          using set_update_subset_insert by fast
        with D(7) True show ?thesis by (force simp: follower_ok_def)
      qed
      with followers_change_ok [OF cl] True DropFollower show ?thesis by (simp add: Let_def)
    qed (use same DropFollower in \<open>auto simp: Let_def\<close>)
  next
    case (OwnerReads i item)
    show ?thesis
    proof (cases "map_of (sy_owners sys) i")
      case (Some w)
      with owner_read_ok [OF p(1) ok Some, of _ item] same OwnerReads show ?thesis
        by (fastforce split: owner_phase.splits)
    qed (use same OwnerReads in simp)
  next
    case (OwnerNoticesShutdown i)
    show ?thesis
    proof (cases "map_of (sy_owners sys) i")
      case (Some w)
      have "system_ok p (Suc n) U (publish_frames i [] (set_owner i (w\<lparr>ow_phase := shutdown_phase\<rparr>)
          (sys\<lparr>sy_state := cancel_cause i ServerShutdown (sy_state sys)\<rparr>)))"
        by (rule owner_step_ok [OF ok Some cancel_cause_step [OF D(1,2)]])
           (auto simp: carries_on_def shutdown_phase_def linked_def)
      with same Some OwnerNoticesShutdown show ?thesis by (simp add: publish_frames_def set_owner_def)
    qed (use same OwnerNoticesShutdown in simp)
  next
    case (OwnerProceeds i)
    show ?thesis
    proof (cases "map_of (sy_owners sys) i")
      case (Some w)
      obtain st phase new where
        r: "owner_proceed p json i (ow_signal w) (sy_now sys) (ow_phase w) (sy_state sys) = (st, phase, new)"
        by (rule prod_cases3)
      from owner_proceed_ok [OF p ok n Some r] Some r OwnerProceeds show ?thesis by simp
    qed (use same OwnerProceeds in simp)
  next
    case (ProducerCompletes i)
    show ?thesis
    proof (cases "map_of (sy_owners sys) i")
      case (Some w)
      have "system_ok p (Suc n) U (publish_frames i [] (set_owner i (w\<lparr>ow_signal := signal_complete (ow_signal w)\<rparr>)
          (sys\<lparr>sy_state := sy_state sys\<rparr>)))"
        by (rule owner_step_ok [OF ok Some step_ok_refl [OF D(1,2)]])
           (use owners_okD(1,2) [OF D(4) Some] in \<open>auto simp: carries_on_def\<close>)
      with Some ProducerCompletes show ?thesis by (simp add: publish_frames_def set_owner_def)
    qed (use same ProducerCompletes in simp)
  next
    case (ProducerFails i)
    show ?thesis
    proof (cases "map_of (sy_owners sys) i")
      case (Some w)
      have "system_ok p (Suc n) U (publish_frames i [] (set_owner i (w\<lparr>ow_signal := signal_fail (ow_signal w)\<rparr>)
          (sys\<lparr>sy_state := sy_state sys\<rparr>)))"
        by (rule owner_step_ok [OF ok Some step_ok_refl [OF D(1,2)]])
           (use owners_okD(1,2) [OF D(4) Some] in \<open>auto simp: carries_on_def\<close>)
      with Some ProducerFails show ?thesis by (simp add: publish_frames_def set_owner_def)
    qed (use same ProducerFails in simp)
  next
    case (Reorder order)
    with reorder_ok [OF same] same show ?thesis by simp
  qed (use same client_step_ok [OF ok lookup_step [OF D(1,2)]] client_step_ok [OF ok delete_step [OF D(1,2)]]
        client_step_ok [OF ok observation_step [OF D(1,2)]] client_step_ok [OF ok capacity_step [OF D(1,2)]] in
        \<open>auto simp: system_ok_def\<close>)
qed

lemma initial_streams_ok: "system_ok p 0 {} initial_streams"
  by (simp add: system_ok_def initial_streams_def new_streams_def streams_core_def within_limits_def
        active_count_def retained_count_def sessions_where_def count_where_def ids_below_def owners_ok_def frames_numbered_def)

lemma streams_run_ok:
  "streaming_policy_ok p \<Longrightarrow> error_json_ok json \<Longrightarrow> system_ok p n U sys \<Longrightarrow> n + length as < 2 ^ 64 \<Longrightarrow>
   fresh_draws as \<Longrightarrow> set (concat (map draws_of as)) \<inter> U = {} \<Longrightarrow>
   \<exists>sys'. streams_run p json as sys = Some sys' \<and> system_ok p (n + length as) (U \<union> set (concat (map draws_of as))) sys'"
proof (induction as arbitrary: n U sys)
  case (Cons a as)
  have "n < 2 ^ 64" "set (draws_of a) \<inter> U = {}" using Cons.prems by auto
  from streams_step_ok [OF Cons.prems(1-3) this] obtain t where
    t: "streams_step p json a sys = Some t" "system_ok p (Suc n) (U \<union> set (draws_of a)) t" by blast
  have "\<exists>sys'. streams_run p json as t = Some sys'
      \<and> system_ok p (Suc n + length as) (U \<union> set (draws_of a) \<union> set (concat (map draws_of as))) sys'"
    by (rule Cons.IH [OF Cons.prems(1,2) t(2)]) (use Cons.prems in \<open>auto simp: fresh_draws_def\<close>)
  with t(1) show ?case by (simp add: Un_assoc)
qed simp

section \<open>Properties of the resumable streams\<close>

text \<open>C22. Whatever clients, producers and owners do and in whatever order, with the hash map iterated in
  any order, the streams never panic, and after every run: the byte counter is exactly the bytes of all
  retained frames and within the limit; no session retains more frames or bytes or has more followers than
  its limits allow; no more owners are active and no more finished sessions retained than allowed; and the
  metrics balance: every session created is still there or was counted as evicted, and every one that is
  not active any more was counted as terminal once.\<close>

theorem streams_keep_their_limits:
  assumes "streaming_policy_ok p" "error_json_ok json" "fresh_draws as" "length as < 2 ^ 64"
  shows "\<exists>sys. streams_run p json as initial_streams = Some sys
     \<and> ss_total_bytes (sy_state sys) = tally (\<lambda>s. frame_bytes (se_frames s)) (ss_sessions (sy_state sys))
     \<and> ss_total_bytes (sy_state sys) \<le> sp_max_total p
     \<and> list_all (\<lambda>(_, s). length (se_frames s) \<le> sp_max_events p
          \<and> frame_bytes (se_frames s) \<le> sp_max_bytes p \<and> se_followers s \<le> sp_max_followers p)
        (ss_sessions (sy_state sys))
     \<and> active_count (sy_state sys) \<le> sp_max_active p \<and> retained_count (sy_state sys) \<le> sp_max_retained p
     \<and> sm_created (ss_metrics (sy_state sys))
        = length (ss_sessions (sy_state sys)) + sm_evictions (ss_metrics (sy_state sys))
     \<and> sm_created (ss_metrics (sy_state sys))
        = sm_terminal (ss_metrics (sy_state sys)) + count_where (\<lambda>s. se_status s = Active) (sy_state sys)"
proof -
  from streams_run_ok [OF assms(1,2) initial_streams_ok, of as] assms(3,4) obtain sys where
    r: "streams_run p json as initial_streams = Some sys"
    "system_ok p (length as) (set (concat (map draws_of as))) sys" by auto
  from system_okD(1,2) [OF r(2)] have c: "streams_core p (sy_state sys)" "within_limits p (sy_state sys)" .
  have "tally se_bytes (ss_sessions (sy_state sys)) = tally (\<lambda>s. frame_bytes (se_frames s)) (ss_sessions (sy_state sys))"
    using c(1) by (intro tally_cong) (simp add: streams_core_def session_ok_def)
  moreover have "list_all (\<lambda>(_, s). length (se_frames s) \<le> sp_max_events p
      \<and> frame_bytes (se_frames s) \<le> sp_max_bytes p \<and> se_followers s \<le> sp_max_followers p) (ss_sessions (sy_state sys))"
    using c(1) by (auto simp: list_all_iff streams_core_def session_ok_def)
  ultimately show ?thesis
    using r(1) c by (auto simp: streams_core_def within_limits_def)
qed

lemma published_step:
  "streams_step p json a sys = Some sys' \<Longrightarrow> \<exists>new. sy_published sys' i = sy_published sys i @ new"
  by (cases a) (auto simp: set_owner_def publish_frames_def Let_def split: option.splits prod.splits sum.splits
      owner_phase.splits if_splits)

lemma published_run:
  "streams_run p json as sys = Some sys' \<Longrightarrow> \<exists>new. sy_published sys' i = sy_published sys i @ new"
proof (induction as arbitrary: sys)
  case (Cons a as)
  then obtain t where t: "streams_step p json a sys = Some t" "streams_run p json as t = Some sys'"
    by (auto split: option.splits)
  from published_step [OF t(1), of i] Cons.IH [OF t(2)] show ?case by auto
qed simp

lemma streams_run_append:
  "streams_run p json (as @ bs) sys = Option.bind (streams_run p json as sys) (streams_run p json bs)"
  by (induction as arbitrary: sys) (auto split: option.splits)

text \<open>C23. Replay is faithful.  After every run, every follower, attached at whatever cursor and at whatever
  time, has shown exactly the frames that the owner of its stream published after that cursor, each once,
  in order, with consecutive identifiers, up to its own cursor; and what was published never changes
  afterwards, so that all followers of a stream agree.\<close>

theorem followers_read_what_was_published:
  assumes "streaming_policy_ok p" "error_json_ok json" "fresh_draws (as @ bs)" "length (as @ bs) < 2 ^ 64"
    and "streams_run p json as initial_streams = Some sys" "streams_run p json bs sys = Some later"
    and "f \<in> set (sy_followers sys)"
  shows "fw_output f = take (fw_cursor f - fw_after f) (drop (fw_after f) (sy_published sys (fw_stream f)))
    \<and> map fst (fw_output f) = [Suc (fw_after f)..<Suc (fw_cursor f)]
    \<and> take (length (sy_published sys i)) (sy_published later i) = sy_published sys i"
proof -
  from assms(3) have "fresh_draws as" by (simp add: fresh_draws_def)
  with streams_run_ok [OF assms(1,2) initial_streams_ok, of as] assms(4,5)
  have ok: "system_ok p (length as) (set (concat (map draws_of as))) sys" by auto
  let ?L = "sy_published sys (fw_stream f)"
  from system_okD(7) [OF ok assms(7)] have f: "fw_after f \<le> fw_cursor f" "fw_cursor f \<le> length ?L"
    "fw_output f = take (fw_cursor f - fw_after f) (drop (fw_after f) ?L)" by (simp_all add: follower_ok_def)
  have "map fst ?L = [1..<Suc (length ?L)]" using system_okD(6) [OF ok] by (simp add: frames_numbered_def)
  then have "map fst (fw_output f) = [Suc (fw_after f)..<Suc (fw_cursor f)]"
    using f by (simp add: take_map [symmetric] drop_map [symmetric] del: upt_Suc)
  moreover from published_run [OF assms(6), of i]
  have "take (length (sy_published sys i)) (sy_published later i) = sy_published sys i" by auto
  ultimately show ?thesis using f(3) by simp
qed

text \<open>What an owner finds of its session, and what it reports once the body has ended.\<close>

definition session_status :: "string \<Rightarrow> streams_system \<Rightarrow> stream_status option" where
  "session_status i sys = map_option se_status (map_of (ss_sessions (sy_state sys)) i)"

definition reported :: "bool \<Rightarrow> terminal_signal \<Rightarrow> stream_status option \<Rightarrow> stream_status option" where
  "reported cancelled signal found =
     map_option (\<lambda>status.
       if status \<noteq> Active then status
       else case signal_outcome signal of Some x \<Rightarrow> x | None \<Rightarrow> if cancelled then Cancelled else Failed) found"

lemma finish_result:
  "snd (finish_session p i outcome now st) =
     map_option (\<lambda>s. if se_status s = Active then outcome else se_status s) (map_of (ss_sessions st) i)"
  by (auto simp: finish_session_def Let_def split: option.splits)

lemma fail_status:
  assumes ok: "streaming_policy_ok p" "error_json_ok json" "streams_core p st" "within_limits p st"
    "ids_below n st" "n < 2 ^ 64"
  shows "map_option se_status (map_of (ss_sessions (fail_stream p json i code message now st)) i) =
     map_option (\<lambda>s. if se_status s = Active then Failed else se_status s) (map_of (ss_sessions st) i)"
proof (cases "\<exists>s. map_of (ss_sessions st) i = Some s \<and> se_status s = Active")
  case True
  then obtain s where s: "map_of (ss_sessions st) i = Some s" "se_status s = Active" by blast
  then have "se_next_id s < 2 ^ 64" using ok(5,6) by (auto simp: ids_below_def dest: le_less_trans)
  with fail_ok_active(2) [OF ok(1-4) s, of code message now] s show ?thesis by auto
next
  case False
  then have "fail_stream p json i code message now st = st" by (auto simp: fail_stream_def split: option.splits)
  with False show ?thesis by (cases "map_of (ss_sessions st) i") auto
qed

lemma proceed_step:
  assumes "map_of (sy_owners sys) i = Some w"
    and "owner_proceed p json i (ow_signal w) (sy_now sys) (ow_phase w) (sy_state sys) = (st, phase, new)"
  shows "\<exists>sys'. streams_step p json (OwnerProceeds i) sys = Some sys' \<and> sy_state sys' = st
     \<and> map_of (sy_owners sys') i = Some (w\<lparr>ow_phase := phase\<rparr>)"
  using assms by (simp add: publish_frames_def set_owner_def AList.update_conv)

text \<open>An owner whose body has ended is done after at most three more steps of its own, and reports: nothing
  if its session has been purged; the status the session already had if that was terminal; otherwise what
  the producer signalled, or, where it signalled nothing, that the stream was cancelled if the owner had
  been refused, and failed if not. Its session is then no longer active and no longer owned.\<close>

theorem ended_owner_reports:
  assumes "streaming_policy_ok p" "error_json_ok json" "fresh_draws as" "length as + 3 < 2 ^ 64"
    and run: "streams_run p json as initial_streams = Some sys"
    and w: "map_of (sy_owners sys) i = Some w" "ow_phase w = Ending cancelled"
  shows "\<exists>k \<le> 3. \<exists>sys' w'. streams_run p json (replicate k (OwnerProceeds i)) sys = Some sys'
     \<and> map_of (sy_owners sys') i = Some w'
     \<and> ow_phase w' = Done (reported cancelled (ow_signal w) (session_status i sys))
     \<and> (\<forall>s. map_of (ss_sessions (sy_state sys')) i = Some s \<longrightarrow> se_status s \<noteq> Active \<and> \<not> se_owner_active s)"
proof -
  let ?U = "set (concat (map draws_of as))"
  let ?go = "\<lambda>n. replicate n (OwnerProceeds i)"
  from streams_run_ok [OF assms(1,2) initial_streams_ok, of as] assms(3,4) run
  have ok: "system_ok p (length as) ?U sys" by auto
  have fin: "\<exists>sys' w'. streams_run p json (?go 1) t = Some sys' \<and> map_of (sy_owners sys') i = Some w'
      \<and> ow_phase w' = Done (map_option (\<lambda>x. if x = Active then status else x) (session_status i t))
      \<and> (\<forall>s. map_of (ss_sessions (sy_state sys')) i = Some s \<longrightarrow> se_status s \<noteq> Active \<and> \<not> se_owner_active s)"
    if t: "system_ok p n U t" "map_of (sy_owners t) i = Some v" "ow_phase v = Finishing status" for n U t v status
  proof -
    note D = system_okD [OF t(1)]
    have na: "status \<noteq> Active" using owners_okD(1) [OF D(4) t(2)] t(3) by simp
    obtain st r where f: "finish_session p i status (sy_now t) (sy_state t) = (st, r)" by (rule prod.exhaust)
    with proceed_step [OF t(2), of p json st "Done r" "[]"] t(3) obtain t' where
      t': "streams_step p json (OwnerProceeds i) t = Some t'" "sy_state t' = st"
      "map_of (sy_owners t') i = Some (v\<lparr>ow_phase := Done r\<rparr>)" by auto
    have "r = map_option (\<lambda>x. if x = Active then status else x) (session_status i t)"
      using finish_result [of p i status "sy_now t" "sy_state t"] f
      by (simp add: session_status_def option.map_comp comp_def)
    moreover have "\<forall>s. map_of (ss_sessions st) i = Some s \<longrightarrow> se_status s \<noteq> Active \<and> \<not> se_owner_active s"
      using finish_not_owned [OF D(1,2) na, of i "sy_now t"] f by auto
    ultimately show ?thesis using t' by simp
  qed
  obtain t v where t: "streams_step p json (OwnerProceeds i) sys = Some t" "sy_state t = sy_state sys"
    "map_of (sy_owners t) i = Some v" "ow_phase v = end_phase cancelled (ow_signal w)"
    using proceed_step [OF w(1), of p json "sy_state sys" "end_phase cancelled (ow_signal w)" "[]"] w(2) by auto
  from streams_step_ok [OF assms(1,2) ok, of "OwnerProceeds i"] assms(4) t(1)
  have tok: "system_ok p (Suc (length as)) ?U t" by auto
  note DT = system_okD [OF tok]
  have st: "session_status i t = session_status i sys" using t(2) by (simp add: session_status_def)
  show ?thesis
  proof (cases "\<exists>x. end_phase cancelled (ow_signal w) = Finishing x")
    case True
    then obtain x where x: "end_phase cancelled (ow_signal w) = Finishing x" by blast
    then have rep: "reported cancelled (ow_signal w) (session_status i sys)
        = map_option (\<lambda>y. if y = Active then x else y) (session_status i t)"
      by (cases "session_status i sys"; cases "ow_signal w")
         (auto simp: reported_def st end_phase_def split: if_splits)
    from fin [OF tok t(3)] x t(4) rep t(1) show ?thesis
      by (intro exI [of _ "2::nat"]) (auto simp: numeral_2_eq_2)
  next
    case False
    then have e: "end_phase cancelled (ow_signal w) =
        Failing ''stream_terminal_missing'' ''stream ended before a protocol terminal event'' (Finishing Failed)"
      and sg: "signal_outcome (ow_signal w) = None" "\<not> cancelled"
      by (auto simp: end_phase_def split: option.splits if_splits)
    let ?f = "fail_stream p json i ''stream_terminal_missing'' ''stream ended before a protocol terminal event''
        (sy_now t) (sy_state t)"
    obtain u v' where u: "streams_step p json (OwnerProceeds i) t = Some u" "sy_state u = ?f"
      "map_of (sy_owners u) i = Some v'" "ow_phase v' = Finishing Failed"
      using proceed_step [OF t(3), of p json ?f "Finishing Failed" "failed_frames json i ''stream_terminal_missing''
          ''stream ended before a protocol terminal event'' (sy_state t)"] t(4) e by auto
    have uok: "system_ok p (Suc (Suc (length as))) ?U u"
      using streams_step_ok [OF assms(1,2) tok, of "OwnerProceeds i"] assms(4) u(1) by auto
    have "Suc (length as) < 2 ^ 64" using assms(4) by simp
    from fail_status [OF assms(1,2) DT(1,2,3) this, of i "''stream_terminal_missing''"
        "''stream ended before a protocol terminal event''" "sy_now t"]
    have "session_status i u = map_option (\<lambda>x. if x = Active then Failed else x) (session_status i sys)"
      using u(2) t(2) by (simp add: session_status_def option.map_comp comp_def)
    then have "reported cancelled (ow_signal w) (session_status i sys)
        = map_option (\<lambda>y. if y = Active then Failed else y) (session_status i u)"
      using sg by (cases "session_status i sys") (auto simp: reported_def)
    with fin [OF uok u(3,4)] t(1) u(1) show ?thesis
      by (intro exI [of _ "3::nat"]) (auto simp: numeral_3_eq_3)
  qed
qed

lemma first_id_replays:
  assumes "frames_numbered L" "replays L s"
  shows "\<exists>k \<le> length L. se_frames s = drop k L \<and> first_id s = Suc k"
proof -
  from assms(2) obtain k where k: "se_frames s = drop k L" "se_next_id s = Suc (length L)" by (auto simp: replays_def)
  show ?thesis
  proof (cases "k < length L")
    case True
    then have "drop k L = L ! k # drop (Suc k) L" by (simp add: Cons_nth_drop_Suc)
    with k numbered_nth [OF assms(1) True] True show ?thesis
      by (intro exI [of _ k]) (simp add: first_id_def)
  next
    case False
    with k show ?thesis by (intro exI [of _ "length L"]) (simp add: first_id_def)
  qed
qed

lemma poll_frame_read:
  assumes "fw_live f" "\<not> fw_ended f" and s: "map_of (ss_sessions st) (fw_stream f) = Some s"
    "se_principal s = fw_who f" "\<not> se_deleted s" "first_id s \<le> sat_add (fw_cursor f) 1"
    and L: "frames_numbered L" "replays L s" "fw_cursor f < length L"
  shows "poll_follower json st f = f\<lparr>fw_cursor := Suc (fw_cursor f), fw_output := fw_output f @ [L ! fw_cursor f]\<rparr>"
proof -
  have le: "first_id s \<le> Suc (fw_cursor f)" using s(4) sat_add_le [of "fw_cursor f" 1] by simp
  from first_id_replays [OF L(1,2)] obtain k where k: "se_frames s = drop k L" "first_id s = Suc k" by blast
  with le have "k \<le> fw_cursor f" by simp
  with L(3) have "drop k L ! (fw_cursor f - k) = L ! fw_cursor f" "fw_cursor f - k < length (drop k L)"
    by simp_all
  then have "L ! fw_cursor f \<in> set (drop k L)" by (metis nth_mem)
  moreover have "fw_cursor f < fst (L ! fw_cursor f)" using numbered_nth [OF L(1,3)] by simp
  ultimately obtain fr where fr: "List.find (\<lambda>x. fw_cursor f < fst x) (se_frames s) = Some fr"
    using k(1) by (metis find_None_iff not_None_eq)
  with next_frame [OF L(1,2) le] have "fr = L ! fw_cursor f" "fst fr = Suc (fw_cursor f)" by auto
  with assms(1-6) fr show ?thesis by (simp add: poll_follower_def follower_next_def)
qed

text \<open>The end of a stream: nothing left to show.\<close>

lemma poll_end:
  assumes "fw_live f" "\<not> fw_ended f" and s: "map_of (ss_sessions st) (fw_stream f) = Some s"
    "se_principal s = fw_who f" "\<not> se_deleted s" "first_id s \<le> sat_add (fw_cursor f) 1"
    and L: "frames_numbered L" "replays L s" "fw_cursor f = length L"
    and e: "fw_follow f \<longrightarrow> se_status s \<noteq> Active"
  shows "poll_follower json st f = f\<lparr>fw_ended := True\<rparr>"
proof -
  have "List.find (\<lambda>x. fw_cursor f < fst x) (se_frames s) = None"
  proof (rule ccontr)
    assume "List.find (\<lambda>x. fw_cursor f < fst x) (se_frames s) \<noteq> None"
    then obtain fr where "List.find (\<lambda>x. fw_cursor f < fst x) (se_frames s) = Some fr" by blast
    from next_frame [OF L(1,2) _ this] s(4) sat_add_le [of "fw_cursor f" 1] L(3) show False by simp
  qed
  with assms show ?thesis by (auto simp: poll_follower_def follower_next_def)
qed

fun poll_times :: "error_json \<Rightarrow> streams_state \<Rightarrow> nat \<Rightarrow> follower \<Rightarrow> follower" where
  "poll_times json st 0 f = f"
| "poll_times json st (Suc n) f = poll_times json st n (poll_follower json st f)"

lemma poll_run:
  "k < length (sy_followers sys) \<Longrightarrow>
   streams_run p json (replicate n (PollFollower k)) sys =
     Some (sys\<lparr>sy_followers := (sy_followers sys)[k := poll_times json (sy_state sys) n (sy_followers sys ! k)]\<rparr>)"
  by (induction n arbitrary: sys) simp_all

lemma poll_times_end:
  assumes s: "map_of (ss_sessions st) i = Some s" "se_principal s = who" "\<not> se_deleted s"
    and L: "frames_numbered L" "replays L s" "length L < usize_max" and e: "follow \<longrightarrow> se_status s \<noteq> Active"
  shows "fw_live f \<Longrightarrow> \<not> fw_ended f \<Longrightarrow> fw_stream f = i \<Longrightarrow> fw_who f = who \<Longrightarrow> fw_follow f = follow \<Longrightarrow>
    fw_cursor f \<le> length L \<Longrightarrow> first_id s \<le> Suc (fw_cursor f) \<Longrightarrow> n = length L - fw_cursor f \<Longrightarrow>
    poll_times json st (Suc n) f =
      f\<lparr>fw_cursor := length L, fw_output := fw_output f @ drop (fw_cursor f) L, fw_ended := True\<rparr>"
proof (induction n arbitrary: f)
  case 0
  then have c: "fw_cursor f = length L" by simp
  then have "sat_add (fw_cursor f) 1 = Suc (fw_cursor f)" using L(3) by (simp add: sat_add_exact)
  with poll_end [of f st s L json] 0 s L e c show ?case by simp
next
  case (Suc n)
  then have c: "fw_cursor f < length L" by simp
  then have "sat_add (fw_cursor f) 1 = Suc (fw_cursor f)" using L(3) by (simp add: sat_add_exact)
  with poll_frame_read [of f st s L json] Suc.prems s L c
  have p: "poll_follower json st f = f\<lparr>fw_cursor := Suc (fw_cursor f), fw_output := fw_output f @ [L ! fw_cursor f]\<rparr>"
    by simp
  have "drop (fw_cursor f) L = L ! fw_cursor f # drop (Suc (fw_cursor f)) L" using c by (simp add: Cons_nth_drop_Suc)
  moreover have "n = length L - Suc (fw_cursor f)" using Suc.prems(8) by simp
  ultimately have "poll_times json st (Suc n) (poll_follower json st f) =
      f\<lparr>fw_cursor := length L, fw_output := fw_output f @ drop (fw_cursor f) L, fw_ended := True\<rparr>"
    using Suc.IH [of "poll_follower json st f"] Suc.prems p c by (simp del: poll_times.simps)
  then show ?case unfolding poll_times.simps(2) [of json st "Suc n" f] .
qed

text \<open>C24. A follower that has not fallen behind reads a finished stream to its end: polled once for every frame
  it has not shown and once more, it has shown all that was published after its starting point and ends
  without an error; so does one that does not follow, on a stream that still goes on.\<close>

theorem finished_stream_is_read_to_its_end:
  assumes "streaming_policy_ok p" "error_json_ok json" "fresh_draws as" "length as < 2 ^ 62"
    and run: "streams_run p json as initial_streams = Some sys"
    and f: "k < length (sy_followers sys)" "f = sy_followers sys ! k" "fw_live f" "\<not> fw_ended f"
    and s: "map_of (ss_sessions (sy_state sys)) (fw_stream f) = Some s" "se_principal s = fw_who f" "\<not> se_deleted s"
      "first_id s \<le> Suc (fw_cursor f)" "fw_follow f \<longrightarrow> se_status s \<noteq> Active"
  shows "\<exists>sys'. streams_run p json
        (replicate (Suc (length (sy_published sys (fw_stream f)) - fw_cursor f)) (PollFollower k)) sys = Some sys'
     \<and> sy_state sys' = sy_state sys
     \<and> fw_ended (sy_followers sys' ! k) \<and> fw_error (sy_followers sys' ! k) = fw_error f
     \<and> fw_output (sy_followers sys' ! k) = drop (fw_after f) (sy_published sys (fw_stream f))"
proof -
  let ?L = "sy_published sys (fw_stream f)"
  from streams_run_ok [OF assms(1,2) initial_streams_ok, of as] assms(3,4) run
  have ok: "system_ok p (length as) (set (concat (map draws_of as))) sys" by auto
  note D = system_okD [OF ok]
  have fo: "follower_ok ?L f" using D(7) [of f] f(1,2) by simp
  have L: "frames_numbered ?L" "replays ?L s" using D(5) [OF s(1)] D(6) by auto
  have "se_next_id s \<le> length as" using D(3) s(1) by (auto simp: ids_below_def)
  then have "length ?L < usize_max" using L(2) assms(4) by (simp add: replays_def usize_max_def)
  from poll_times_end [OF s(1,2,3) L this s(5) f(3,4) refl refl refl _ s(4) refl] fo
  have "poll_times json (sy_state sys) (Suc (length ?L - fw_cursor f)) f =
      f\<lparr>fw_cursor := length ?L, fw_output := fw_output f @ drop (fw_cursor f) ?L, fw_ended := True\<rparr>"
    by (simp add: follower_ok_def)
  moreover have "fw_output f @ drop (fw_cursor f) ?L = drop (fw_after f) ?L"
    using fo append_take_drop_id [of "fw_cursor f - fw_after f" "drop (fw_after f) ?L"]
    by (simp add: follower_ok_def)
  ultimately show ?thesis
    using poll_run [OF f(1), of p json "Suc (length ?L - fw_cursor f)"] f(1,2)
    by (simp del: replicate_Suc streams_run.simps poll_times.simps)
qed

section \<open>Access\<close>

lemma evict_lookup: "map_of (ss_sessions (evict_session k st)) j = (if j = k then None else map_of (ss_sessions st) j)"
  by (auto simp: evict_session_def remove_session_def AList.delete_conv' split: option.split)

lemma evict_list_lookup:
  "map_of (ss_sessions (fold evict_session ks st)) j = (if j \<in> set ks then None else map_of (ss_sessions st) j)"
  by (induction ks arbitrary: st) (auto simp: evict_lookup)

lemma purged_not_expired:
  assumes "streams_core p st" "map_of (ss_sessions (purge_locked p now st)) i = Some s"
  shows "\<not> expired p now s"
proof
  assume x: "expired p now s"
  let ?es = "sessions_where (expired p now) st"
  let ?f = "fold evict_session (map fst ?es) st"
  have "distinct (map fst ?es)"
    using assms(1) by (simp add: streams_core_def sessions_where_def distinct_map_filter)
  moreover have "map_of (ss_sessions st) (fst e) = Some (snd e) \<and> se_status (snd e) \<noteq> Active" if "e \<in> set ?es" for e
    using that core_lookup [OF assms(1), of e] by (auto simp: sessions_where_def dest: expired_not_active)
  ultimately have core: "streams_core p ?f"
    using evict_list_sheds [OF assms(1), of ?es] sheds_core by blast
  from assms(2) shedsD(4) [OF trim_sheds [OF core]] have "map_of (ss_sessions ?f) i = Some s"
    by (simp add: purge_locked_def)
  then have "map_of (ss_sessions st) i = Some s" "i \<notin> set (map fst ?es)"
    unfolding evict_list_lookup by (auto split: if_splits)
  then have "(i, s) \<in> set (ss_sessions st)" "i \<notin> fst ` set ?es" by (auto dest: map_of_SomeD)
  with x show False by (force simp: sessions_where_def)
qed

lemma purge_settled:
  assumes "\<And>e. e \<in> set (ss_sessions st) \<Longrightarrow> \<not> expired p now (snd e)" "retained_count st \<le> sp_max_retained p"
  shows "purge_locked p now st = st"
proof -
  have "sessions_where (expired p now) st = []"
    using assms(1) by (auto simp: sessions_where_def filter_empty_conv)
  then show ?thesis using assms(2) by (simp add: purge_locked_def retained.total_idle over_retained_def)
qed

text \<open>The state as if the sessions of the others and the deleted ones were not there.\<close>

definition visible :: "principal_id \<Rightarrow> session \<Rightarrow> bool" where
  "visible who s \<longleftrightarrow> se_principal s = who \<and> \<not> se_deleted s"

definition hide_foreign :: "principal_id \<Rightarrow> streams_state \<Rightarrow> streams_state" where
  "hide_foreign who st = st\<lparr>ss_sessions := sessions_where (visible who) st\<rparr>"

lemma hide_lookup:
  "distinct (map fst (ss_sessions st)) \<Longrightarrow>
   map_of (ss_sessions (hide_foreign who st)) i =
     Option.bind (map_of (ss_sessions st) i) (\<lambda>s. if visible who s then Some s else None)"
  by (simp add: hide_foreign_def sessions_where_def map_of_filter_value)

lemma purge_hidden:
  assumes "streams_core p st"
  shows "purge_locked p now (hide_foreign who (purge_locked p now st)) = hide_foreign who (purge_locked p now st)"
proof (rule purge_settled)
  let ?st = "purge_locked p now st"
  note sh = purge_sheds [OF assms, of now]
  note core = sheds_core [OF sh(1)]
  show "\<not> expired p now (snd e)" if "e \<in> set (ss_sessions (hide_foreign who ?st))" for e
  proof -
    have "e \<in> set (ss_sessions ?st)" using that by (auto simp: hide_foreign_def sessions_where_def)
    from core_lookup [OF core this] purged_not_expired [OF assms] show ?thesis by blast
  qed
  have "retained_count (hide_foreign who ?st) \<le> retained_count ?st"
    unfolding retained_count_where count_where_def hide_foreign_def sessions_where_def
    by (simp add: tally_filter)
  with sh(2) show "retained_count (hide_foreign who ?st) \<le> sp_max_retained p" by simp
qed

text \<open>C25. A session of the other principal, or one that was deleted, cannot be told from one that does not
  exist.  Whatever state the streams are in, every answer of attaching, of a lookup and of a follower's poll is
  the answer in the state without those sessions, and a deletion leaves the sessions of the other principal,
  their frames and the registered controls untouched.\<close>

theorem foreign_streams_look_absent:
  assumes "streams_core p st"
  shows "snd (attach p shutdown i who after now st)
           = snd (attach p shutdown i who after now (hide_foreign who (purge_locked p now st)))
    \<and> snd (lookup_streams p who ids now st)
           = snd (lookup_streams p who ids now (hide_foreign who (purge_locked p now st)))
    \<and> follower_next i who cursor follow st = follower_next i who cursor follow (hide_foreign who st)
    \<and> (\<forall>j s. map_of (ss_sessions st) j = Some s \<longrightarrow> \<not> visible who s \<longrightarrow>
          map_of (ss_sessions (delete_stream i who now st)) j = Some s
          \<and> (j = i \<longrightarrow> delete_stream i who now st = st))"
proof (intro conjI)
  let ?pu = "purge_locked p now st"
  have core: "streams_core p ?pu" using purge_sheds(1) [OF assms] sheds_core by blast
  then have d: "distinct (map fst (ss_sessions ?pu))" by (simp add: streams_core_def)
  note h = hide_lookup [OF d, of who]
  have ph: "purge_locked p now (hide_foreign who ?pu) = hide_foreign who ?pu" by (rule purge_hidden [OF assms])
  show "snd (attach p shutdown i who after now st) = snd (attach p shutdown i who after now (hide_foreign who ?pu))"
    by (cases "map_of (ss_sessions ?pu) i") (auto simp: attach_def ph h visible_def Let_def)
  show "snd (lookup_streams p who ids now st) = snd (lookup_streams p who ids now (hide_foreign who ?pu))"
    by (induction ids)
       (auto simp: lookup_streams_def ph h visible_def Let_def List.map_filter_simps split: option.splits)
  have "distinct (map fst (ss_sessions st))" using assms by (simp add: streams_core_def)
  then show "follower_next i who cursor follow st = follower_next i who cursor follow (hide_foreign who st)"
    by (cases "map_of (ss_sessions st) i") (auto simp: follower_next_def hide_lookup visible_def)
  show "\<forall>j s. map_of (ss_sessions st) j = Some s \<longrightarrow> \<not> visible who s \<longrightarrow>
          map_of (ss_sessions (delete_stream i who now st)) j = Some s
          \<and> (j = i \<longrightarrow> delete_stream i who now st = st)"
    by (auto simp: delete_stream_def visible_def AList.update_conv Let_def split: option.splits)
qed

section \<open>Samples\<close>

definition sample_streams_policy :: streaming_policy where
  "sample_streams_policy = \<lparr>sp_max_active = 1, sp_max_retained = 2, sp_max_events = 2, sp_max_bytes = 512,
     sp_max_total = 1024, sp_max_followers = 2, sp_ttl = nanos, sp_lookup_max = 10, sp_keepalive = nanos\<rparr>"

definition sample_json :: error_json where "sample_json protocol n code message = ''{}''"

definition sample_stream :: "stream_action list" where
  "sample_stream = [Start [''a''] Anonymous Chat None, OwnerReads ''a'' (Data ''x''), PollFollower 0,
     OwnerReads ''a'' (Data ''y''), OwnerReads ''a'' (Data ''z''), Attach ''a'' Anonymous 1 True, PollFollower 1,
     ProducerCompletes ''a'', OwnerReads ''a'' EndOfSource]"

definition sample_streams :: streams_system where
  "sample_streams = the (streams_run sample_streams_policy sample_json sample_stream initial_streams)"

lemma sample_policy_ok: "streaming_policy_ok sample_streams_policy"
  by (simp add: streaming_policy_ok_def validate_streaming_def sample_streams_policy_def nanos_def
        min_streaming_events_def min_streaming_error_bytes_def usize_max_def)

lemma sample_json_ok: "error_json_ok sample_json"
  by (simp add: error_json_ok_def sample_json_def)

lemma sample_fresh: "fresh_draws sample_stream" "length sample_stream < 2 ^ 60"
  by (simp_all add: fresh_draws_def sample_stream_def)

lemma sample_run: "streams_run sample_streams_policy sample_json sample_stream initial_streams = Some sample_streams"
proof -
  from streams_run_ok [OF sample_policy_ok sample_json_ok initial_streams_ok, of sample_stream] sample_fresh
  have "\<exists>sys. streams_run sample_streams_policy sample_json sample_stream initial_streams = Some sys" by auto
  then show ?thesis by (auto simp: sample_streams_def)
qed

definition sample_end :: "stream_action list" where
  "sample_end = sample_stream @ [OwnerProceeds ''a'', OwnerProceeds ''a'']"

definition sample_ended :: streams_system where
  "sample_ended = the (streams_run sample_streams_policy sample_json sample_end initial_streams)"

lemma sample_end_fresh: "fresh_draws sample_end" "length sample_end < 2 ^ 60"
  by (simp_all add: fresh_draws_def sample_end_def sample_stream_def)

lemma sample_end_run:
  "streams_run sample_streams_policy sample_json sample_end initial_streams = Some sample_ended"
proof -
  from streams_run_ok [OF sample_policy_ok sample_json_ok initial_streams_ok, of sample_end] sample_end_fresh
  have "\<exists>sys. streams_run sample_streams_policy sample_json sample_end initial_streams = Some sys" by auto
  then show ?thesis by (auto simp: sample_ended_def)
qed

definition sample_reader :: follower where
  "sample_reader = (new_follower ''a'' Anonymous 0 True)\<lparr>fw_cursor := 1, fw_output := [(1, number_frame 1 ''x'')]\<rparr>"

lemma sample_facts:
  "sy_followers sample_streams ! 0 = sample_reader" "length (sy_followers sample_streams) = 2"
  "map_of (sy_owners sample_streams) ''a'' = Some \<lparr>ow_phase = Ending False, ow_signal = ProducerCompleted\<rparr>"
  "session_status ''a'' sample_streams = Some Active"
  by code_simp+

lemma sample_ended_facts:
  "sy_followers sample_ended ! 0 = sample_reader" "length (sy_followers sample_ended) = 2"
  "sy_published sample_ended ''a'' = [(1, number_frame 1 ''x''), (2, number_frame 2 ''y''), (3, number_frame 3 ''z'')]"
  "map_option (\<lambda>s. (se_principal s, se_deleted s, first_id s, se_status s)) (map_of (ss_sessions (sy_state sample_ended)) ''a'')
     = Some (Anonymous, False, 2, Completed)"
  by code_simp+

theorem streams_keep_their_limits_witness:
  "\<exists>sys. streams_run sample_streams_policy sample_json sample_stream initial_streams = Some sys
     \<and> ss_total_bytes (sy_state sys) \<le> 1024 \<and> active_count (sy_state sys) \<le> 1"
  using streams_keep_their_limits [OF sample_policy_ok sample_json_ok sample_fresh(1)] sample_fresh(2)
  by (auto simp: sample_streams_policy_def)

theorem followers_read_what_was_published_witness:
  "map fst (fw_output sample_reader) = [Suc 0..<Suc 1]
   \<and> take (length (sy_published sample_streams ''a'')) (sy_published sample_ended ''a'') = sy_published sample_streams ''a''"
proof -
  have "streams_run sample_streams_policy sample_json [OwnerProceeds ''a'', OwnerProceeds ''a''] sample_streams
      = Some sample_ended"
    using sample_end_run streams_run_append [of sample_streams_policy sample_json sample_stream _ initial_streams]
    by (simp add: sample_end_def sample_run del: streams_run.simps)
  moreover have "sample_reader \<in> set (sy_followers sample_streams)"
    using sample_facts(1,2) nth_mem [of 0 "sy_followers sample_streams"] by simp
  moreover have "fresh_draws (sample_stream @ [OwnerProceeds ''a'', OwnerProceeds ''a''])"
    "length (sample_stream @ [OwnerProceeds ''a'', OwnerProceeds ''a'']) < 2 ^ 64"
    using sample_end_fresh by (simp_all add: sample_end_def)
  ultimately have "map fst (fw_output sample_reader) = [Suc (fw_after sample_reader)..<Suc (fw_cursor sample_reader)]
      \<and> take (length (sy_published sample_streams ''a'')) (sy_published sample_ended ''a'') = sy_published sample_streams ''a''"
    using followers_read_what_was_published [OF sample_policy_ok sample_json_ok _ _ sample_run,
        of "[OwnerProceeds ''a'', OwnerProceeds ''a'']" sample_ended sample_reader "''a''"] by blast
  moreover have "fw_after sample_reader = 0" "fw_cursor sample_reader = 1"
    by (simp_all add: sample_reader_def new_follower_def)
  ultimately show ?thesis by simp
qed

theorem ended_owner_reports_witness:
  "\<exists>k \<le> 3. \<exists>sys' w'.
     streams_run sample_streams_policy sample_json (replicate k (OwnerProceeds ''a'')) sample_streams = Some sys'
     \<and> map_of (sy_owners sys') ''a'' = Some w' \<and> ow_phase w' = Done (Some Completed)"
proof -
  have "length sample_stream + 3 < 2 ^ 64" by (simp add: sample_stream_def)
  from ended_owner_reports [OF sample_policy_ok sample_json_ok sample_fresh(1) this sample_run sample_facts(3)]
  have "\<exists>k \<le> 3. \<exists>sys' w'.
     streams_run sample_streams_policy sample_json (replicate k (OwnerProceeds ''a'')) sample_streams = Some sys'
     \<and> map_of (sy_owners sys') ''a'' = Some w'
     \<and> ow_phase w' = Done (reported False ProducerCompleted (session_status ''a'' sample_streams))"
    by fastforce
  then show ?thesis by (simp add: sample_facts(4) reported_def)
qed

theorem finished_stream_is_read_to_its_end_witness:
  "\<exists>sys'. streams_run sample_streams_policy sample_json (replicate 3 (PollFollower 0)) sample_ended = Some sys'
     \<and> fw_ended (sy_followers sys' ! 0)
     \<and> map fst (fw_output (sy_followers sys' ! 0)) = [1, 2, 3]"
proof -
  obtain s where s: "map_of (ss_sessions (sy_state sample_ended)) ''a'' = Some s" "se_principal s = Anonymous"
    "\<not> se_deleted s" "first_id s = 2" "se_status s = Completed"
    using sample_ended_facts(4) by auto
  have "length sample_end < 2 ^ 62" by (simp add: sample_end_def sample_stream_def)
  from finished_stream_is_read_to_its_end [OF sample_policy_ok sample_json_ok sample_end_fresh(1) this sample_end_run,
      of 0 sample_reader s]
  show ?thesis
    using s sample_ended_facts(1-3)
    by (simp add: sample_reader_def new_follower_def numeral_3_eq_3 numeral_2_eq_2
          del: streams_run.simps replicate_Suc) auto
qed

theorem foreign_streams_look_absent_witness:
  "snd (attach sample_streams_policy False ''a'' Authenticated 0 0 (sy_state sample_streams)) = Some NotFound"
proof -
  from streams_run_ok [OF sample_policy_ok sample_json_ok initial_streams_ok, of sample_stream] sample_fresh sample_run
  have "streams_core sample_streams_policy (sy_state sample_streams)" by (auto dest: system_okD(1))
  from foreign_streams_look_absent [OF this, of False "''a''" Authenticated 0 0 "[]" 0 True]
  have "snd (attach sample_streams_policy False ''a'' Authenticated 0 0 (sy_state sample_streams))
      = snd (attach sample_streams_policy False ''a'' Authenticated 0 0
          (hide_foreign Authenticated (purge_locked sample_streams_policy 0 (sy_state sample_streams))))" by (rule conjunct1)
  also have "\<dots> = Some NotFound" by code_simp
  finally show ?thesis .
qed

text \<open>C26. The limit on active sessions counts sessions, not owners: a session that was deleted, or failed, and
  whose owner is still reading from its producer is purged once its time to live is over, and then another
  stream may start.  With a limit of one, two owners run.\<close>

theorem purge_uncounts_running_owners:
  "\<exists>as sys. fresh_draws as \<and> sp_max_active sample_streams_policy = 1
     \<and> streams_run sample_streams_policy sample_json as initial_streams = Some sys
     \<and> map (\<lambda>(i, w). (i, ow_phase w)) (sy_owners sys) = [(''a'', Reading False), (''b'', Reading False)]
     \<and> map fst (ss_sessions (sy_state sys)) = [''b'']"
proof -
  let ?as = "[Start [''a''] Anonymous Chat None, DeleteStream ''a'' Anonymous, Elapse nanos,
              Start [''b''] Anonymous Chat None]"
  have "map_option (\<lambda>sys. (map (\<lambda>(i, w). (i, ow_phase w)) (sy_owners sys), map fst (ss_sessions (sy_state sys))))
      (streams_run sample_streams_policy sample_json ?as initial_streams)
    = Some ([(''a'', Reading False), (''b'', Reading False)], [''b''])"
    by code_simp
  then obtain sys where "streams_run sample_streams_policy sample_json ?as initial_streams = Some sys"
    "map (\<lambda>(i, w). (i, ow_phase w)) (sy_owners sys) = [(''a'', Reading False), (''b'', Reading False)]"
    "map fst (ss_sessions (sy_state sys)) = [''b'']" by auto
  moreover have "fresh_draws ?as" by (simp add: fresh_draws_def)
  ultimately show ?thesis by (intro exI [of _ ?as] exI [of _ sys]) (simp add: sample_streams_policy_def)
qed

end
