(* ===== verification/Model_Cache.thy ===== *)
theory Model_Cache
  imports Prelude "HOL-Library.Multiset"
begin

text \<open>
  The cache of loaded models, \<^verbatim>\<open>apps/orchion-server/src/application/model_cache.rs\<close>: one cache's state
  under its lock, with every critical section of loading, unloading, retiring and leasing as one
  function.  An engine is known by its model and the number of the load that made it; paths and engines
  themselves are the business of the provisioner and the loader, which are not under the lock.

  The sets of the code are lists without repetition, instants and durations are nanoseconds.
\<close>

section \<open>State\<close>

datatype residency_status = Unloaded | Loading | Loaded | Unloading

datatype load_failure_phase = Provision | Load

record loaded_model =
  lm_epoch :: nat
  lm_last_used :: nat
  lm_leases :: nat

record 'm cache_state =
  ca_available :: "'m list"
  ca_loaded :: "('m \<times> loaded_model) list"
  ca_draining :: "'m list"
  ca_retiring :: "'m list"
  ca_pending :: "'m list"
  ca_provisioned :: "('m \<times> string) list"
  ca_epochs :: "('m \<times> nat) list"
  ca_failures :: "('m \<times> load_failure_phase) list"
  ca_idle_timeout :: nat
  ca_max_loaded :: nat

record cache_snapshot =
  cs_residency :: residency_status
  cs_load_epoch :: nat
  cs_worker_healthy :: bool
  cs_active_leases :: nat
  cs_last_load_failure :: "load_failure_phase option"

definition new_model_cache :: "'m list \<Rightarrow> nat \<Rightarrow> nat \<Rightarrow> 'm cache_state" where
  "new_model_cache available idle_timeout max_loaded =
     \<lparr>ca_available = available, ca_loaded = [], ca_draining = [], ca_retiring = [], ca_pending = [],
      ca_provisioned = [], ca_epochs = [], ca_failures = [], ca_idle_timeout = idle_timeout,
      ca_max_loaded = max_loaded\<rparr>"

definition is_active :: "loaded_model \<Rightarrow> bool" where
  "is_active l \<longleftrightarrow> 0 < lm_leases l"

definition resident_len :: "'m cache_state \<Rightarrow> nat" where
  "resident_len st = length (ca_loaded st) + length (ca_retiring st)"

text \<open>A new lease of a loaded model, with and without touching it.\<close>

definition new_lease :: "loaded_model \<Rightarrow> loaded_model" where
  "new_lease l = l\<lparr>lm_leases := lm_leases l + 1\<rparr>"

definition touch_model :: "nat \<Rightarrow> loaded_model \<Rightarrow> loaded_model" where
  "touch_model now l = l\<lparr>lm_last_used := now\<rparr>"

text \<open>\<^verbatim>\<open>Drop for ModelLease\<close>: \<open>None\<close> if the count would underflow; whether the domain is notified.\<close>

definition drop_lease :: "nat \<Rightarrow> loaded_model \<Rightarrow> (loaded_model \<times> bool) option" where
  "drop_lease now l =
     (if lm_leases l = 0 then None
      else Some (l\<lparr>lm_last_used := now, lm_leases := lm_leases l - 1\<rparr>, lm_leases l = 1))"

section \<open>Retiring\<close>

definition retire :: "'m \<Rightarrow> 'm cache_state \<Rightarrow> 'm cache_state \<times> loaded_model option" where
  "retire m st =
     (case map_of (ca_loaded st) m of
        None \<Rightarrow> (st, None)
      | Some l \<Rightarrow> (st\<lparr>ca_loaded := AList.delete m (ca_loaded st), ca_retiring := List.insert m (ca_retiring st)\<rparr>, Some l))"

definition retirable :: "'m cache_state \<Rightarrow> 'm \<times> loaded_model \<Rightarrow> bool" where
  "retirable st e \<longleftrightarrow> fst e \<notin> set (ca_draining st) \<and> \<not> is_active (snd e)"

fun retire_all :: "'m list \<Rightarrow> 'm cache_state \<Rightarrow> 'm cache_state \<times> 'm list" where
  "retire_all [] st = (st, [])"
| "retire_all (m # ms) st =
     (let (st', l) = retire m st; (st'', out) = retire_all ms st' in
      (st'', (case l of None \<Rightarrow> out | Some _ \<Rightarrow> m # out)))"

definition retire_idle :: "nat \<Rightarrow> 'm cache_state \<Rightarrow> 'm cache_state \<times> 'm list" where
  "retire_idle now st =
     retire_all
       (map fst (filter (\<lambda>e. retirable st e \<and> ca_idle_timeout st \<le> now - lm_last_used (snd e)) (ca_loaded st))) st"

definition lru_entry :: "'m cache_state \<Rightarrow> ('m \<times> nat) option" where
  "lru_entry st =
     map_option (\<lambda>e. (fst e, lm_last_used (snd e)))
       (min_by_key (\<lambda>e. lm_last_used (snd e)) (filter (retirable st) (ca_loaded st)))"

definition retire_lru :: "'m cache_state \<Rightarrow> 'm cache_state \<times> 'm list" where
  "retire_lru st =
     (if resident_len st < ca_max_loaded st then (st, [])
      else case lru_entry st of
             None \<Rightarrow> (st, [])
           | Some (m, _) \<Rightarrow> retire_all [m] st)"

definition evict_tracked :: "'m \<Rightarrow> 'm cache_state \<Rightarrow> 'm cache_state \<times> bool" where
  "evict_tracked m st =
     (case map_of (ca_loaded st) m of
        None \<Rightarrow> (st, False)
      | Some l \<Rightarrow> if m \<in> set (ca_draining st) \<or> is_active l then (st, False) else (fst (retire m st), True))"

text \<open>The end of \<^verbatim>\<open>destroy_retired\<close>, for one model.\<close>

definition finish_retirement :: "'m \<Rightarrow> 'm cache_state \<Rightarrow> 'm cache_state" where
  "finish_retirement m st = st\<lparr>ca_retiring := removeAll m (ca_retiring st)\<rparr>"

section \<open>Loading\<close>

text \<open>One pass of \<^verbatim>\<open>get_or_load_after\<close> after the idle models are retired, from the check under the state lock
  to the reservation: what the pass ends with.\<close>

datatype 'm load_admission =
  NotAvailable
| WaitForChange
| Leased nat
| Retiring "'m list"
| Reserved

definition lease_loaded :: "nat \<Rightarrow> 'm \<Rightarrow> loaded_model \<Rightarrow> 'm cache_state \<Rightarrow> 'm cache_state" where
  "lease_loaded now m l st = st\<lparr>ca_loaded := AList.update m (new_lease (touch_model now l)) (ca_loaded st)\<rparr>"

text \<open>The check that \<^verbatim>\<open>get_loaded\<close> and a pass of \<^verbatim>\<open>get_or_load_after\<close> begin with.\<close>

definition check_loaded :: "nat \<Rightarrow> 'm \<Rightarrow> 'm cache_state \<Rightarrow> 'm cache_state \<times> 'm load_admission option" where
  "check_loaded now m st =
     (if m \<in> set (ca_draining st) \<or> m \<in> set (ca_retiring st) then (st, Some WaitForChange)
      else case map_of (ca_loaded st) m of
             None \<Rightarrow> (st, None)
           | Some l \<Rightarrow> (lease_loaded now m l st, Some (Leased (lm_epoch l))))"

definition admit_load :: "nat \<Rightarrow> 'm \<Rightarrow> 'm cache_state \<Rightarrow> 'm cache_state \<times> 'm load_admission" where
  "admit_load now m st =
     (if m \<notin> set (ca_available st) then (st, NotAvailable)
      else case check_loaded now m st of
             (st', Some r) \<Rightarrow> (st', r)
           | (_, None) \<Rightarrow>
               if m \<in> set (ca_pending st) then (st, WaitForChange)
               else if ca_max_loaded st \<le> resident_len st + length (ca_pending st)
               then (case retire_lru st of
                       (st', []) \<Rightarrow> (st', WaitForChange)
                     | (st', ms) \<Rightarrow> (st', Retiring ms))
               else (st\<lparr>ca_pending := List.insert m (ca_pending st)\<rparr>, Reserved))"

definition get_loaded :: "nat \<Rightarrow> 'm \<Rightarrow> 'm cache_state \<Rightarrow> 'm cache_state \<times> 'm load_admission" where
  "get_loaded now m st =
     (if m \<notin> set (ca_available st) then (st, NotAvailable)
      else case check_loaded now m st of (st', Some r) \<Rightarrow> (st', r) | (st', None) \<Rightarrow> (st', NotAvailable))"

definition load_epoch :: "'m \<Rightarrow> 'm cache_state \<Rightarrow> nat" where
  "load_epoch m st = (case map_of (ca_epochs st) m of None \<Rightarrow> 0 | Some e \<Rightarrow> e)"

text \<open>\<open>None\<close> is the \<^verbatim>\<open>unreachable!\<close> of a model loaded twice, or the failed assertion of the limit.\<close>

definition insert_loaded :: "nat \<Rightarrow> 'm \<Rightarrow> 'm cache_state \<Rightarrow> ('m cache_state \<times> nat) option" where
  "insert_loaded now m st =
     (if ca_max_loaded st \<le> resident_len st \<or> map_of (ca_loaded st) m \<noteq> None then None
      else let epoch = sat_add (load_epoch m st) 1 in
           Some (st\<lparr>ca_epochs := AList.update m epoch (ca_epochs st),
                    ca_failures := AList.delete m (ca_failures st),
                    ca_loaded := AList.update m \<lparr>lm_epoch = epoch, lm_last_used = now, lm_leases = 1\<rparr> (ca_loaded st)\<rparr>,
                 epoch))"

definition latch_load_failure :: "'m \<Rightarrow> load_failure_phase \<Rightarrow> 'm cache_state \<Rightarrow> 'm cache_state" where
  "latch_load_failure m phase st = st\<lparr>ca_failures := AList.update m phase (ca_failures st)\<rparr>"

definition release_pending :: "'m \<Rightarrow> 'm cache_state \<Rightarrow> 'm cache_state" where
  "release_pending m st = st\<lparr>ca_pending := removeAll m (ca_pending st)\<rparr>"

text \<open>\<^verbatim>\<open>provision_locked\<close> around the answer of the provisioner, or, without one, of the resolution of the
  model's own path, which is not remembered.\<close>

definition provision_locked ::
  "bool \<Rightarrow> 'm \<Rightarrow> string + string \<Rightarrow> 'm cache_state \<Rightarrow> 'm cache_state \<times> (string + string)" where
  "provision_locked has_provisioner m answer st =
     (case map_of (ca_provisioned st) m of
        Some path \<Rightarrow> (st, Inr path)
      | None \<Rightarrow>
          (case answer of
             Inl e \<Rightarrow> (st, Inl e)
           | Inr path \<Rightarrow>
               (if has_provisioner then st\<lparr>ca_provisioned := AList.update m path (ca_provisioned st)\<rparr> else st,
                Inr path)))"

section \<open>Unloading\<close>

definition must_wait :: "'m cache_state \<Rightarrow> 'm \<Rightarrow> bool" where
  "must_wait st m \<longleftrightarrow>
     m \<in> set (ca_draining st) \<or> m \<in> set (ca_retiring st) \<or> m \<in> set (ca_pending st)"

text \<open>\<^verbatim>\<open>unload_many_owned\<close>: the models it is about, the start of the drain, and its end.\<close>

definition unload_targets :: "'m list \<Rightarrow> 'm cache_state \<Rightarrow> 'm list" where
  "unload_targets models st = filter (\<lambda>m. m \<in> set (ca_available st)) (rev (remdups (rev models)))"

definition begin_drain :: "'m list \<Rightarrow> 'm cache_state \<Rightarrow> 'm cache_state option" where
  "begin_drain models st =
     (if list_ex (must_wait st) models then None
      else Some (st\<lparr>ca_draining := fold List.insert models (ca_draining st)\<rparr>))"

definition finish_drain :: "'m list \<Rightarrow> 'm cache_state \<Rightarrow> ('m cache_state \<times> 'm list) option" where
  "finish_drain models st =
     (if list_all (\<lambda>m. case map_of (ca_loaded st) m of None \<Rightarrow> True | Some l \<Rightarrow> \<not> is_active l) models
      then let (st', retired) = retire_all models st in
           Some (st'\<lparr>ca_draining := fold removeAll models (ca_draining st')\<rparr>, retired)
      else None)"

text \<open>One pass of \<^verbatim>\<open>unload_owned\<close>; the flag says whether an earlier pass of the same task set the drain.\<close>

datatype unload_result = UnloadWait | UnloadWaitDraining | NotLoaded | Retired

definition unload_pass :: "bool \<Rightarrow> 'm \<Rightarrow> 'm cache_state \<Rightarrow> 'm cache_state \<times> unload_result" where
  "unload_pass owns_drain m st =
     (if m \<in> set (ca_retiring st) \<or> (m \<in> set (ca_draining st) \<and> \<not> owns_drain) then (st, UnloadWait)
      else if m \<in> set (ca_pending st) then (st, UnloadWait)
      else case map_of (ca_loaded st) m of
             None \<Rightarrow> (st, NotLoaded)
           | Some l \<Rightarrow>
               let st1 = st\<lparr>ca_draining := List.insert m (ca_draining st)\<rparr> in
               if is_active l then (st1, UnloadWaitDraining)
               else let st2 = fst (retire m st1)
                    in (st2\<lparr>ca_draining := removeAll m (ca_draining st2)\<rparr>, Retired))"

section \<open>Reports\<close>

definition cache_status :: "bool \<Rightarrow> 'm \<Rightarrow> 'm cache_state \<Rightarrow> residency_status option" where
  "cache_status loading_locked m st =
     (if m \<notin> set (ca_available st) then None
      else if m \<in> set (ca_draining st) \<or> m \<in> set (ca_retiring st) then Some Unloading
      else if map_of (ca_loaded st) m \<noteq> None then Some Loaded
      else if m \<in> set (ca_pending st) then Some Loading
      else Some (if loading_locked then Loading else Unloaded))"

definition snapshot_with_health :: "bool \<Rightarrow> (nat \<Rightarrow> bool) \<Rightarrow> 'm \<Rightarrow> 'm cache_state \<Rightarrow> cache_snapshot option" where
  "snapshot_with_health loading_locked healthy m st =
     map_option (\<lambda>status.
       \<lparr>cs_residency = status, cs_load_epoch = load_epoch m st,
        cs_worker_healthy = (case map_of (ca_loaded st) m of None \<Rightarrow> True | Some l \<Rightarrow> healthy (lm_epoch l)),
        cs_active_leases = (case map_of (ca_loaded st) m of None \<Rightarrow> 0 | Some l \<Rightarrow> lm_leases l),
        cs_last_load_failure = map_of (ca_failures st) m\<rparr>)
       (cache_status loading_locked m st)"

definition next_idle_deadline :: "'m cache_state \<Rightarrow> nat option" where
  "next_idle_deadline st =
     map_option (\<lambda>e. lm_last_used (snd e) + ca_idle_timeout st)
       (min_by_key (\<lambda>e. lm_last_used (snd e)) (filter (retirable st) (ca_loaded st)))"

section \<open>The invariant of one cache\<close>

text \<open>What the tasks around a cache hold: the models being loaded whose engine is not in the cache yet
  (\<open>E\<close>), all models being loaded (\<open>P\<close>), the drains of the unloading tasks (\<open>D\<close>; one model that was loaded,
  or many), and the leases, each by model and load (\<open>L\<close>).\<close>

datatype 'm drain = DrainOne 'm | DrainMany "'m list"

fun drain_models :: "'m drain \<Rightarrow> 'm list" where
  "drain_models (DrainOne m) = [m]"
| "drain_models (DrainMany ms) = ms"

definition drained_by :: "'m drain multiset \<Rightarrow> 'm multiset" where
  "drained_by D = \<Sum>\<^sub># (image_mset (\<lambda>d. mset (drain_models d)) D)"

lemma drained_by_simps [simp]:
  "drained_by {#} = {#}" "drained_by (add_mset d D) = mset (drain_models d) + drained_by D"
  by (simp_all add: drained_by_def)

lemma drained_byD: "d \<in># D \<Longrightarrow> m \<in> set (drain_models d) \<Longrightarrow> m \<in># drained_by D"
  by (auto simp: drained_by_def)

definition leases_ok :: "('m \<times> nat) multiset \<Rightarrow> ('m \<rightharpoonup> loaded_model) \<Rightarrow> bool" where
  "leases_ok L loaded \<longleftrightarrow>
     (\<forall>m l. loaded m = Some l \<longrightarrow> lm_leases l = count L (m, lm_epoch l))
     \<and> (\<forall>m e. (m, e) \<in># L \<longrightarrow> (\<exists>l. loaded m = Some l \<and> lm_epoch l = e))"

definition cache_ok ::
  "'m set \<Rightarrow> 'm set \<Rightarrow> 'm drain multiset \<Rightarrow> ('m \<times> nat) multiset \<Rightarrow> 'm cache_state \<Rightarrow> bool" where
  "cache_ok E P D L st \<longleftrightarrow>
     distinct (map fst (ca_loaded st)) \<and> distinct (ca_retiring st) \<and> distinct (ca_pending st)
     \<and> distinct (ca_draining st)
     \<and> set (ca_pending st) = P \<and> E \<subseteq> P
     \<and> (\<forall>m l. map_of (ca_loaded st) m = Some l \<longrightarrow> m \<notin> set (ca_retiring st))
     \<and> (\<forall>m \<in> E. map_of (ca_loaded st) m = None) \<and> (\<forall>m \<in> E. m \<notin> set (ca_retiring st))
     \<and> (\<forall>m \<in> set (ca_draining st). m \<notin> set (ca_retiring st)) \<and> (\<forall>m \<in> set (ca_draining st). m \<notin> P)
     \<and> mset (ca_draining st) = drained_by D
     \<and> (\<forall>m. DrainOne m \<in># D \<longrightarrow> (\<exists>l. map_of (ca_loaded st) m = Some l))
     \<and> leases_ok L (map_of (ca_loaded st))
     \<and> resident_len st + card E \<le> ca_max_loaded st"

lemma cache_okD:
  assumes "cache_ok E P D L st"
  shows "distinct (map fst (ca_loaded st))" "distinct (ca_retiring st)" "distinct (ca_pending st)"
    "distinct (ca_draining st)" "set (ca_pending st) = P" "E \<subseteq> P"
    "map_of (ca_loaded st) m = Some l \<Longrightarrow> m \<notin> set (ca_retiring st)"
    "m \<in> E \<Longrightarrow> map_of (ca_loaded st) m = None" "m \<in> E \<Longrightarrow> m \<notin> set (ca_retiring st)"
    "m \<in> set (ca_draining st) \<Longrightarrow> m \<notin> set (ca_retiring st)" "m \<in> set (ca_draining st) \<Longrightarrow> m \<notin> P"
    "mset (ca_draining st) = drained_by D"
    "DrainOne m \<in># D \<Longrightarrow> \<exists>l. map_of (ca_loaded st) m = Some l"
    "leases_ok L (map_of (ca_loaded st))" "resident_len st + card E \<le> ca_max_loaded st"
    "finite E"
proof -
  have "finite P" using assms unfolding cache_ok_def by force
  then show "finite E" using assms unfolding cache_ok_def by (blast intro: finite_subset)
qed (use assms in \<open>unfold cache_ok_def, blast+\<close>)

lemma cache_okI:
  assumes "distinct (map fst (ca_loaded st))" "distinct (ca_retiring st)" "distinct (ca_pending st)"
    "distinct (ca_draining st)" "set (ca_pending st) = P" "E \<subseteq> P"
    "\<And>m l. map_of (ca_loaded st) m = Some l \<Longrightarrow> m \<notin> set (ca_retiring st)"
    "\<And>m. m \<in> E \<Longrightarrow> map_of (ca_loaded st) m = None" "\<And>m. m \<in> E \<Longrightarrow> m \<notin> set (ca_retiring st)"
    "\<And>m. m \<in> set (ca_draining st) \<Longrightarrow> m \<notin> set (ca_retiring st)"
    "\<And>m. m \<in> set (ca_draining st) \<Longrightarrow> m \<notin> P"
    "mset (ca_draining st) = drained_by D"
    "\<And>m. DrainOne m \<in># D \<Longrightarrow> \<exists>l. map_of (ca_loaded st) m = Some l"
    "leases_ok L (map_of (ca_loaded st))" "resident_len st + card E \<le> ca_max_loaded st"
  shows "cache_ok E P D L st"
  unfolding cache_ok_def by (intro conjI allI impI ballI) (erule assms | rule assms)+

lemma leases_okD:
  assumes "leases_ok L loaded"
  shows "loaded m = Some l \<Longrightarrow> lm_leases l = count L (m, lm_epoch l)"
    "(m, e) \<in># L \<Longrightarrow> \<exists>l. loaded m = Some l \<and> lm_epoch l = e"
  using assms unfolding leases_ok_def by blast+

text \<open>A lease holds its model in the cache: one that is idle has none.\<close>

lemma idle_no_lease:
  assumes "leases_ok L loaded" "loaded m = Some l" "\<not> is_active l"
  shows "(m, e) \<notin># L"
proof
  assume e: "(m, e) \<in># L"
  with leases_okD(2) [OF assms(1) e] assms(2) have "lm_epoch l = e" by simp
  with leases_okD(1) [OF assms(1,2)] assms(3) e show False
    by (simp add: is_active_def not_in_iff)
qed

lemma leases_ok_idle:
  assumes "leases_ok L loaded" "loaded m = Some l" "\<not> is_active l"
  shows "leases_ok L (loaded(m := None))"
  unfolding leases_ok_def
  by (metis assms fun_upd_other fun_upd_same idle_no_lease leases_okD option.distinct(1))

text \<open>A model without a lease that nobody drains can be retired; the same holds when its drain ends there.\<close>

lemma retire_simps:
  assumes "map_of (ca_loaded st) m = Some l"
  shows "ca_draining (fst (retire m st)) = ca_draining st" "ca_max_loaded (fst (retire m st)) = ca_max_loaded st"
    "ca_pending (fst (retire m st)) = ca_pending st"
    "ca_retiring (fst (retire m st)) = List.insert m (ca_retiring st)"
    "ca_loaded (fst (retire m st)) = AList.delete m (ca_loaded st)"
    "snd (retire m st) = Some l"
  using assms by (simp_all add: retire_def)

lemma retire_len:
  assumes "cache_ok E P D L st" "map_of (ca_loaded st) m = Some l"
  shows "resident_len (fst (retire m st)) = resident_len st"
  using length_AList_delete [OF assms(2) cache_okD(1) [OF assms(1)]] cache_okD(7) [OF assms]
  by (simp add: resident_len_def retire_simps [OF assms(2)] List.insert_def)

lemma retire_ok:
  assumes ok: "cache_ok E P D L st" and l: "map_of (ca_loaded st) m = Some l"
    and idle: "\<not> is_active l" and nd: "m \<notin> set (ca_draining st)"
  shows "cache_ok E P D L (fst (retire m st))"
proof (rule cache_okI, goal_cases)
  case (13 k)
  have "k \<in># drained_by D" by (rule drained_byD [OF 13]) simp
  then have "k \<in> set (ca_draining st)" by (metis cache_okD(12) [OF ok] set_mset_mset)
  then have "k \<noteq> m" using nd by blast
  then show ?case using cache_okD(13) [OF ok 13] by (simp add: retire_simps [OF l] AList.delete_conv')
next
  case 14
  show ?case
    using leases_ok_idle [OF cache_okD(14) [OF ok] l idle] by (simp add: retire_simps [OF l] AList.delete_conv')
next
  case 15
  show ?case using cache_okD(15) [OF ok] by (simp add: retire_len [OF ok l] retire_simps [OF l])
next
  case 1
  show ?case
    using cache_okD(1) [OF ok] by (simp add: retire_simps [OF l] AList.delete_eq distinct_map_filter)
next
  case (9 k)
  then show ?case using cache_okD(8,9) [OF ok 9] l by (auto simp: retire_simps [OF l])
next
  case (10 k)
  then show ?case using cache_okD(10) [OF ok, of k] nd by (auto simp: retire_simps [OF l])
qed (use cache_okD(2-8,11,12) [OF ok] in
      \<open>auto simp: retire_simps [OF l] AList.delete_conv' split: if_splits\<close>)

text \<open>A lease is taken and given back.\<close>

lemma leases_ok_lease:
  assumes ok: "leases_ok L loaded" and l: "loaded m = Some l"
    and l': "lm_epoch l' = lm_epoch l" "lm_leases l' = lm_leases l + 1"
  shows "leases_ok (add_mset (m, lm_epoch l) L) (loaded(m \<mapsto> l'))"
  unfolding leases_ok_def
proof (intro conjI allI impI)
  fix k e assume "(k, e) \<in># add_mset (m, lm_epoch l) L"
  then consider "k = m" "e = lm_epoch l" | "(k, e) \<in># L" by auto
  then show "\<exists>l. (loaded(m \<mapsto> l')) k = Some l \<and> lm_epoch l = e"
    using leases_okD(2) [OF ok, of k e] l l' by cases (auto split: if_splits)
qed (use leases_okD(1) [OF ok] l l' in \<open>auto split: if_splits\<close>)

lemma leases_ok_drop:
  assumes ok: "leases_ok L loaded" and l: "loaded m = Some l" and e: "(m, lm_epoch l) \<in># L"
    and l': "lm_epoch l' = lm_epoch l" "lm_leases l' + 1 = lm_leases l"
  shows "leases_ok (L - {#(m, lm_epoch l)#}) (loaded(m \<mapsto> l'))"
  unfolding leases_ok_def
proof (intro conjI allI impI)
  fix k d assume "(k, d) \<in># L - {#(m, lm_epoch l)#}"
  then have "(k, d) \<in># L" by (rule in_diffD)
  then show "\<exists>l. (loaded(m \<mapsto> l')) k = Some l \<and> lm_epoch l = d"
    using leases_okD(2) [OF ok, of k d] l l' by (auto split: if_splits)
next
  fix k d assume "(loaded(m \<mapsto> l')) k = Some d"
  then show "lm_leases d = count (L - {#(m, lm_epoch l)#}) (k, lm_epoch d)"
    using leases_okD(1) [OF ok] l l' by (auto split: if_splits)
qed

lemma relet_len:
  "map_of (ca_loaded st) m = Some l \<Longrightarrow>
    resident_len (st\<lparr>ca_loaded := AList.update m l' (ca_loaded st)\<rparr>) = resident_len st"
  by (simp add: resident_len_def length_AList_update)

lemma relet_ok:
  assumes ok: "cache_ok E P D L st" and l: "map_of (ca_loaded st) m = Some l"
    and L': "leases_ok L' ((map_of (ca_loaded st))(m \<mapsto> l'))"
  shows "cache_ok E P D L' (st\<lparr>ca_loaded := AList.update m l' (ca_loaded st)\<rparr>)"
proof (rule cache_okI, goal_cases)
  case (8 k)
  have "k \<noteq> m" using l cache_okD(8) [OF ok 8] by auto
  then show ?case using cache_okD(8) [OF ok 8] by (simp add: update_conv')
next
  case (13 k)
  then show ?case using cache_okD(13) [OF ok 13] by (simp add: update_conv')
next
  case 15
  then show ?case using cache_okD(15) [OF ok] by (simp add: relet_len [OF l])
qed (use cache_okD(1-7,9-12) [OF ok] l L' in
      \<open>auto simp: update_conv' distinct_update split: if_splits\<close>)

text \<open>An engine is published: its load leaves \<open>E\<close>, and its first lease is there.\<close>

lemma insert_loaded_ok:
  assumes ok: "cache_ok E P D L st" and m: "m \<in> E"
  obtains st' e where "insert_loaded now m st = Some (st', e)"
    "cache_ok (E - {m}) P D (add_mset (m, e) L) st'" "resident_len st' = resident_len st + 1"
    "ca_max_loaded st' = ca_max_loaded st"
proof -
  have new: "map_of (ca_loaded st) m = None" by (rule cache_okD(8) [OF ok m])
  have card: "card E = Suc (card (E - {m}))"
    using card_Suc_Diff1 [OF cache_okD(16) [OF ok] m] by simp
  then have room: "resident_len st < ca_max_loaded st" using cache_okD(15) [OF ok] by simp
  define e where "e = sat_add (load_epoch m st) 1"
  define l where "l = \<lparr>lm_epoch = e, lm_last_used = now, lm_leases = 1\<rparr>"
  define st' where "st' = st\<lparr>ca_epochs := AList.update m e (ca_epochs st),
    ca_failures := AList.delete m (ca_failures st), ca_loaded := AList.update m l (ca_loaded st)\<rparr>"
  have res: "resident_len st' = resident_len st + 1"
    by (simp add: st'_def resident_len_def length_AList_update new)
  have no: "(m, d) \<notin># L" for d
    using leases_okD(2) [OF cache_okD(14) [OF ok]] new by (metis option.distinct(1))
  have "cache_ok (E - {m}) P D (add_mset (m, e) L) st'"
  proof (rule cache_okI, goal_cases)
    case (8 k)
    then show ?case using cache_okD(8) [OF ok, of k] by (simp add: st'_def update_conv')
  next
    case (13 k)
    then show ?case using cache_okD(13) [OF ok 13] by (simp add: st'_def update_conv')
  next
    case 14
    show ?case
      using leases_okD [OF cache_okD(14) [OF ok]] no no [unfolded not_in_iff] unfolding leases_ok_def
      by (auto simp: st'_def update_conv' l_def split: if_splits)
  next
    case (7 k l)
    then show ?case using cache_okD(7) [OF ok, of k] cache_okD(9) [OF ok m]
      by (auto simp: st'_def update_conv' split: if_splits)
  next
    case 15
    then show ?case using cache_okD(15) [OF ok] card unfolding res by (simp add: st'_def)
  qed (use cache_okD(1-6,9-12) [OF ok] in \<open>auto simp: st'_def distinct_update\<close>)
  moreover have "insert_loaded now m st = Some (st', e)"
    using new room by (simp add: insert_loaded_def Let_def st'_def l_def e_def)
  moreover have "ca_max_loaded st' = ca_max_loaded st" by (simp add: st'_def)
  ultimately show ?thesis using res by (intro that)
qed

text \<open>A load reserves its place and leaves it.\<close>

lemma reserve_ok:
  assumes ok: "cache_ok E P D L st" and m: "m \<notin> P" "map_of (ca_loaded st) m = None"
    "m \<notin> set (ca_draining st)" "m \<notin> set (ca_retiring st)"
    and room: "resident_len st + length (ca_pending st) < ca_max_loaded st"
  shows "cache_ok (insert m E) (insert m P) D L (st\<lparr>ca_pending := List.insert m (ca_pending st)\<rparr>)"
proof (rule cache_okI, goal_cases)
  case 15
  have "card P = length (ca_pending st)"
    using distinct_card [OF cache_okD(3) [OF ok]] cache_okD(5) [OF ok] by simp
  moreover have "card E \<le> card P" using cache_okD(5,6) [OF ok] by (metis List.finite_set card_mono)
  moreover have "card (insert m E) = Suc (card E)"
    using cache_okD(6,16) [OF ok] m(1) by (auto intro: card_insert_disjoint)
  ultimately show ?case using room by (simp add: resident_len_def)
next
  case (8 k)
  then show ?case using cache_okD(8) [OF ok, of k] m by auto
next
  case (13 k)
  then show ?case using cache_okD(13) [OF ok 13] by simp
qed (use cache_okD(1-7,9-12,14) [OF ok] m in auto)

lemma release_pending_ok:
  assumes ok: "cache_ok E P D L st"
  shows "cache_ok (E - {m}) (P - {m}) D L (release_pending m st)"
proof (rule cache_okI, goal_cases)
  case 15
  have "card (E - {m}) \<le> card E" by (simp add: cache_okD(16) [OF ok] card_Diff1_le)
  then show ?case using cache_okD(15) [OF ok] by (simp add: release_pending_def resident_len_def)
next
  case (8 k)
  then show ?case using cache_okD(8) [OF ok, of k] by (simp add: release_pending_def)
next
  case (13 k)
  then show ?case using cache_okD(13) [OF ok 13] by (simp add: release_pending_def)
qed (use cache_okD(1-7,9-12,14) [OF ok] in \<open>auto simp: release_pending_def distinct_removeAll\<close>)

lemma finish_retirement_ok:
  assumes ok: "cache_ok E P D L st"
  shows "cache_ok E P D L (finish_retirement m st)" "resident_len (finish_retirement m st) \<le> resident_len st"
proof -
  show len: "resident_len (finish_retirement m st) \<le> resident_len st"
    by (simp add: finish_retirement_def resident_len_def removeAll_filter_not_eq)
  show "cache_ok E P D L (finish_retirement m st)"
  proof (rule cache_okI, goal_cases)
    case 15
    then show ?case using cache_okD(15) [OF ok] len by (simp add: finish_retirement_def)
  next
    case (8 k)
    then show ?case using cache_okD(8) [OF ok, of k] by (simp add: finish_retirement_def)
  next
    case (13 k)
    then show ?case using cache_okD(13) [OF ok 13] by (simp add: finish_retirement_def)
  qed (use cache_okD(1-7,9-12,14) [OF ok] in \<open>auto simp: finish_retirement_def distinct_removeAll\<close>)
qed

text \<open>Retiring a list of idle models; what it leaves alone.\<close>

definition idle_in :: "'m cache_state \<Rightarrow> 'm \<Rightarrow> bool" where
  "idle_in st m \<longleftrightarrow> (\<forall>l. map_of (ca_loaded st) m = Some l \<longrightarrow> \<not> is_active l)"

lemma draining_id: "ca_draining st = X \<Longrightarrow> st\<lparr>ca_draining := X\<rparr> = st"
  by auto

lemma retire_draining: "retire m (st\<lparr>ca_draining := X\<rparr>) = ((fst (retire m st))\<lparr>ca_draining := X\<rparr>, snd (retire m st))"
  by (simp add: retire_def split: option.split)

lemma retire_all_draining:
  "retire_all ms (st\<lparr>ca_draining := X\<rparr>) = ((fst (retire_all ms st))\<lparr>ca_draining := X\<rparr>, snd (retire_all ms st))"
  by (induction ms arbitrary: st) (auto simp: retire_draining Let_def split: prod.split option.split)

lemma retire_all_ok:
  assumes "cache_ok E P D L st" "\<And>m. m \<in> set ms \<Longrightarrow> m \<notin> set (ca_draining st) \<and> idle_in st m"
  shows "cache_ok E P D L (fst (retire_all ms st)) \<and> resident_len (fst (retire_all ms st)) = resident_len st
    \<and> ca_draining (fst (retire_all ms st)) = ca_draining st"
  using assms
proof (induction ms arbitrary: st)
  case (Cons m ms)
  let ?st = "fst (retire m st)"
  show ?case
  proof (cases "map_of (ca_loaded st) m")
    case None
    then show ?thesis using Cons by (simp add: retire_def Let_def case_prod_unfold)
  next
    case (Some l)
    have "cache_ok E P D L ?st"
      using retire_ok [OF Cons.prems(1) Some] Cons.prems(2) [of m] Some by (simp add: idle_in_def)
    moreover have "k \<notin> set (ca_draining ?st) \<and> idle_in ?st k" if "k \<in> set ms" for k
      using Cons.prems(2) [of k] that Some
      by (auto simp: idle_in_def retire_simps [OF Some] AList.delete_conv' split: if_splits)
    ultimately show ?thesis
      using Cons.IH [of ?st] retire_len [OF Cons.prems(1) Some] retire_simps(1) [OF Some]
      by (simp add: Let_def case_prod_unfold)
  qed
qed simp

lemma retirable_idle:
  assumes "cache_ok E P D L st" "e \<in> set (ca_loaded st)" "retirable st e"
  shows "fst e \<notin> set (ca_draining st) \<and> idle_in st (fst e)"
proof -
  have "map_of (ca_loaded st) (fst e) = Some (snd e)"
    using cache_okD(1) [OF assms(1)] assms(2) by simp
  then show ?thesis using assms(3) by (simp add: retirable_def idle_in_def)
qed

lemma retire_idle_ok:
  assumes "cache_ok E P D L st"
  shows "cache_ok E P D L (fst (retire_idle now st)) \<and> resident_len (fst (retire_idle now st)) = resident_len st"
proof -
  have "m \<notin> set (ca_draining st) \<and> idle_in st m"
    if "m \<in> set (map fst (filter (\<lambda>e. retirable st e \<and> ca_idle_timeout st \<le> now - lm_last_used (snd e))
          (ca_loaded st)))" for m
    using that retirable_idle [OF assms] by auto
  from retire_all_ok [OF assms this] show ?thesis unfolding retire_idle_def by blast
qed

lemma lru_entryD:
  assumes "lru_entry st = Some (m, t)"
  obtains l where "(m, l) \<in> set (ca_loaded st)" "retirable st (m, l)" "t = lm_last_used l"
    "\<forall>e \<in> set (ca_loaded st). retirable st e \<longrightarrow> t \<le> lm_last_used (snd e)"
proof -
  obtain e where e: "min_by_key (\<lambda>e. lm_last_used (snd e)) (filter (retirable st) (ca_loaded st)) = Some e"
      "m = fst e" "t = lm_last_used (snd e)"
    using assms by (auto simp: lru_entry_def)
  show ?thesis using min_by_key_SomeD [OF e(1)] e(2,3) by (intro that [of "snd e"]) auto
qed

lemma retire_lru_ok:
  assumes "cache_ok E P D L st"
  shows "cache_ok E P D L (fst (retire_lru st)) \<and> resident_len (fst (retire_lru st)) = resident_len st"
proof (cases "lru_entry st")
  case None
  then show ?thesis using assms by (simp add: retire_lru_def)
next
  case (Some e)
  obtain m t where e: "e = (m, t)" by fastforce
  obtain l where "(m, l) \<in> set (ca_loaded st)" "retirable st (m, l)"
    by (rule lru_entryD [OF Some [unfolded e]]) (rule that)
  then have "cache_ok E P D L (fst (retire_all [m] st)) \<and> resident_len (fst (retire_all [m] st)) = resident_len st"
    using retire_all_ok [OF assms, of "[m]"] retirable_idle [OF assms, of "(m, l)"] by simp
  then show ?thesis using assms Some e by (simp add: retire_lru_def del: retire_all.simps)
qed

lemma evict_tracked_ok:
  assumes "cache_ok E P D L st"
  shows "cache_ok E P D L (fst (evict_tracked m st)) \<and> resident_len (fst (evict_tracked m st)) = resident_len st"
  using assms retire_ok [OF assms] retire_len [OF assms]
  by (auto simp: evict_tracked_def split: option.split)

text \<open>A pass of a load.\<close>

lemma lease_loaded_ok:
  assumes ok: "cache_ok E P D L st" and l: "map_of (ca_loaded st) m = Some l"
  shows "cache_ok E P D (add_mset (m, lm_epoch l) L) (lease_loaded now m l st)"
    "resident_len (lease_loaded now m l st) = resident_len st"
proof -
  have "leases_ok (add_mset (m, lm_epoch l) L) ((map_of (ca_loaded st))(m \<mapsto> new_lease (touch_model now l)))"
    by (rule leases_ok_lease [OF cache_okD(14) [OF ok] l]) (simp_all add: new_lease_def touch_model_def)
  then show "cache_ok E P D (add_mset (m, lm_epoch l) L) (lease_loaded now m l st)"
    unfolding lease_loaded_def by (rule relet_ok [OF ok l])
qed (simp add: lease_loaded_def relet_len [OF l])

fun admission_leases :: "'m \<Rightarrow> 'm load_admission \<Rightarrow> ('m \<times> nat) multiset" where
  "admission_leases m (Leased e) = {#(m, e)#}"
| "admission_leases m _ = {#}"

lemma check_loaded_ok:
  assumes ok: "cache_ok E P D L st" and c: "check_loaded now m st = (st', r)"
  shows "cache_ok E P D (case r of None \<Rightarrow> L | Some a \<Rightarrow> admission_leases m a + L) st'"
    "resident_len st' = resident_len st" "r \<noteq> Some Reserved"
  using c ok lease_loaded_ok [OF ok]
  by (auto simp: check_loaded_def split: if_splits option.splits)

lemma admit_load_ok:
  assumes ok: "cache_ok E P D L st" and a: "admit_load now m st = (st', r)"
  shows "if r = Reserved then m \<notin> P \<and> cache_ok (insert m E) (insert m P) D L st'
         else cache_ok E P D (admission_leases m r + L) st'"
    "resident_len st' = resident_len st"
proof -
  obtain st1 r1 where c: "check_loaded now m st = (st1, r1)" by fastforce
  note ok1 = check_loaded_ok [OF ok c]
  have "(if r = Reserved then m \<notin> P \<and> cache_ok (insert m E) (insert m P) D L st'
         else cache_ok E P D (admission_leases m r + L) st') \<and> resident_len st' = resident_len st"
  proof (cases "m \<in> set (ca_available st) \<and> r1 = None")
    case False
    then have "(m \<notin> set (ca_available st) \<and> st' = st \<and> r = NotAvailable)
        \<or> (\<exists>b. r1 = Some b \<and> st' = st1 \<and> r = b)"
      using a c by (auto simp: admit_load_def split: if_splits)
    then show ?thesis using ok ok1 by auto
  next
    case True
    then have free: "m \<notin> set (ca_draining st)" "m \<notin> set (ca_retiring st)" "map_of (ca_loaded st) m = None"
      using c by (auto simp: check_loaded_def split: if_splits option.splits)
    consider "m \<in> set (ca_pending st)"
      | "m \<notin> set (ca_pending st)" "ca_max_loaded st \<le> resident_len st + length (ca_pending st)"
      | "m \<notin> set (ca_pending st)" "resident_len st + length (ca_pending st) < ca_max_loaded st"
      by linarith
    then show ?thesis
    proof cases
      case 1
      then show ?thesis using a c True ok by (simp add: admit_load_def)
    next
      case 2
      then have "st' = fst (retire_lru st)" "r \<noteq> Reserved" "admission_leases m r = {#}"
        using a c True by (auto simp: admit_load_def split: prod.splits list.splits)
      then show ?thesis using retire_lru_ok [OF ok] by simp
    next
      case 3
      then have "st' = st\<lparr>ca_pending := List.insert m (ca_pending st)\<rparr>" "r = Reserved"
        using a c True by (simp_all add: admit_load_def)
      then show ?thesis
        using reserve_ok [OF ok _ free(3,1,2) 3(2)] 3(1) cache_okD(5) [OF ok] by (simp add: resident_len_def)
    qed
  qed
  then show "if r = Reserved then m \<notin> P \<and> cache_ok (insert m E) (insert m P) D L st'
         else cache_ok E P D (admission_leases m r + L) st'" "resident_len st' = resident_len st"
    by simp_all
qed

text \<open>A lease is cloned or dropped; the count never underflows.\<close>

lemma lease_of:
  assumes ok: "cache_ok E P D L st" and e: "(m, e) \<in># L"
  obtains l where "map_of (ca_loaded st) m = Some l" "lm_epoch l = e" "0 < lm_leases l"
proof -
  obtain l where "map_of (ca_loaded st) m = Some l" "lm_epoch l = e"
    using leases_okD(2) [OF cache_okD(14) [OF ok] e] by blast
  then show ?thesis
    using leases_okD(1) [OF cache_okD(14) [OF ok]] e that by (metis count_greater_zero_iff)
qed

lemma drop_lease_ok:
  assumes ok: "cache_ok E P D L st" and e: "(m, e) \<in># L" and l: "map_of (ca_loaded st) m = Some l"
  obtains l' b where "drop_lease now l = Some (l', b)"
    "cache_ok E P D (L - {#(m, e)#}) (st\<lparr>ca_loaded := AList.update m l' (ca_loaded st)\<rparr>)"
proof -
  have "lm_epoch l = e" "0 < lm_leases l" using lease_of [OF ok e] l by auto
  then show ?thesis
    by (intro that [of "l\<lparr>lm_last_used := now, lm_leases := lm_leases l - 1\<rparr>" "lm_leases l = 1"]
        relet_ok [OF ok l] leases_ok_drop [OF cache_okD(14) [OF ok] l, simplified \<open>lm_epoch l = e\<close>] e)
      (simp_all add: drop_lease_def)
qed

text \<open>Draining.\<close>

lemma set_fold_insert: "set (fold List.insert ms xs) = set ms \<union> set xs"
  by (induction ms arbitrary: xs) auto

lemma mset_fold_insert:
  "distinct ms \<Longrightarrow> set ms \<inter> set xs = {} \<Longrightarrow> mset (fold List.insert ms xs) = mset ms + mset xs"
  by (induction ms arbitrary: xs) (auto simp: List.insert_def)

lemma fold_removeAll: "fold removeAll ms xs = filter (\<lambda>x. x \<notin> set ms) xs"
proof (induction ms arbitrary: xs)
  case (Cons m ms)
  have "filter (\<lambda>x. x \<notin> set ms) (removeAll m xs) = filter (\<lambda>x. x \<notin> set (m # ms)) xs"
    by (induction xs) auto
  then show ?case using Cons by simp
qed simp

lemma drain_ok:
  assumes ok: "cache_ok E P D L st" and d: "distinct (drain_models d)"
    and free: "\<And>m. m \<in> set (drain_models d) \<Longrightarrow> m \<notin> set (ca_draining st) \<and> m \<notin> set (ca_retiring st) \<and> m \<notin> P"
    and one: "\<And>m. d = DrainOne m \<Longrightarrow> \<exists>l. map_of (ca_loaded st) m = Some l"
  shows "cache_ok E P (add_mset d D) L (st\<lparr>ca_draining := fold List.insert (drain_models d) (ca_draining st)\<rparr>)"
proof -
  have disj: "set (drain_models d) \<inter> set (ca_draining st) = {}" using free by blast
  have m: "mset (fold List.insert (drain_models d) (ca_draining st)) = mset (drain_models d) + mset (ca_draining st)"
    by (rule mset_fold_insert [OF d disj])
  show ?thesis
  proof (rule cache_okI, goal_cases)
    case 4
    have "distinct (drain_models d @ ca_draining st)" using d disj cache_okD(4) [OF ok] by simp
    then show ?case using m by (simp add: mset_eq_imp_distinct_iff [of _ "drain_models d @ ca_draining st"])
  next
    case (8 k)
    then show ?case using cache_okD(8) [OF ok, of k] by simp
  next
    case 12
    show ?case using m cache_okD(12) [OF ok] by simp
  next
    case (13 k)
    then show ?case using cache_okD(13) [OF ok, of k] one by (auto simp: eq_commute [of d])
  next
    case 15
    then show ?case using cache_okD(15) [OF ok] by (simp add: resident_len_def)
  qed (use cache_okD(1-3,5-7,9-11,14) [OF ok] free in \<open>auto simp: set_fold_insert\<close>)
qed

lemma undrain_ok:
  assumes ok: "cache_ok E P (add_mset d D) L st"
  shows "cache_ok E P D L (st\<lparr>ca_draining := fold removeAll (drain_models d) (ca_draining st)\<rparr>)"
proof -
  obtain xs where xs: "mset xs = drained_by D" using ex_mset by blast
  have m: "mset (ca_draining st) = mset (drain_models d @ xs)"
    using cache_okD(12) [OF ok] xs by simp
  have "distinct (drain_models d @ xs)"
    using cache_okD(4) [OF ok] mset_eq_imp_distinct_iff [OF m] by blast
  then have "filter (\<lambda>x. x \<notin> set (drain_models d)) (drain_models d @ xs) = xs"
    by (auto simp: filter_empty_conv filter_id_conv)
  then have D: "mset (fold removeAll (drain_models d) (ca_draining st)) = drained_by D"
    unfolding fold_removeAll mset_filter m by (metis mset_filter xs)
  show ?thesis
  proof (rule cache_okI, goal_cases)
    case (8 k)
    then show ?case using cache_okD(8) [OF ok, of k] by simp
  next
    case 12
    show ?case using D by simp
  next
    case (13 k)
    then show ?case using cache_okD(13) [OF ok, of k] by simp
  next
    case 15
    then show ?case using cache_okD(15) [OF ok] by (simp add: resident_len_def)
  qed (use cache_okD(1-7,9-11,14) [OF ok] in \<open>auto simp: fold_removeAll\<close>)
qed

lemma begin_drain_ok:
  assumes ok: "cache_ok E P D L st" and d: "distinct ms" and b: "begin_drain ms st = Some st'"
  shows "cache_ok E P (add_mset (DrainMany ms) D) L st'" "resident_len st' = resident_len st"
proof -
  have st': "st' = st\<lparr>ca_draining := fold List.insert ms (ca_draining st)\<rparr>"
    and "\<And>m. m \<in> set ms \<Longrightarrow> \<not> must_wait st m"
    using b by (auto simp: begin_drain_def list_ex_iff split: if_splits)
  then show "cache_ok E P (add_mset (DrainMany ms) D) L st'"
    using drain_ok [OF ok, of "DrainMany ms"] d cache_okD(5) [OF ok] by (auto simp: must_wait_def)
  show "resident_len st' = resident_len st" by (simp add: st' resident_len_def)
qed

lemma finish_drain_ok:
  assumes ok: "cache_ok E P (add_mset (DrainMany ms) D) L st" and b: "finish_drain ms st = Some (st', out)"
  shows "cache_ok E P D L st'" "resident_len st' = resident_len st"
proof -
  let ?u = "st\<lparr>ca_draining := fold removeAll ms (ca_draining st)\<rparr>"
  have u: "cache_ok E P D L ?u" using undrain_ok [OF ok] by simp
  have "\<forall>m \<in> set ms. idle_in st m"
    using b by (auto simp: finish_drain_def idle_in_def list_all_iff split: if_splits option.splits)
  then have r: "cache_ok E P D L (fst (retire_all ms ?u)) \<and> resident_len (fst (retire_all ms ?u)) = resident_len ?u
      \<and> ca_draining (fst (retire_all ms ?u)) = ca_draining ?u"
    by (intro retire_all_ok [OF u]) (auto simp: idle_in_def fold_removeAll)
  have n: "retire_all ms (st\<lparr>ca_draining := ca_draining st\<rparr>) =
      ((fst (retire_all ms st))\<lparr>ca_draining := ca_draining st\<rparr>, snd (retire_all ms st))"
    by (rule retire_all_draining)
  then have "ca_draining (fst (retire_all ms st)) = ca_draining st"
    by (metis cache_state.select_convs(3) cache_state.surjective cache_state.update_convs(3) fst_conv)
  then have "st' = fst (retire_all ms ?u)"
    using b by (auto simp: finish_drain_def retire_all_draining Let_def case_prod_unfold split: if_splits)
  then show "cache_ok E P D L st'" "resident_len st' = resident_len st"
    using r by (simp_all add: resident_len_def)
qed

text \<open>A pass of \<^verbatim>\<open>unload_owned\<close>: a first pass may leave a drain behind, a later pass has one that is gone
  exactly when the model is retired.  A pass that owns a drain never finds the model gone.\<close>

lemma unload_first_ok:
  assumes ok: "cache_ok E P D L st" and r: "unload_pass False m st = (st', r)"
  shows "cache_ok E P (if r = UnloadWaitDraining then add_mset (DrainOne m) D else D) L st'"
    "resident_len st' = resident_len st"
proof -
  have "cache_ok E P (if r = UnloadWaitDraining then add_mset (DrainOne m) D else D) L st'
    \<and> resident_len st' = resident_len st"
  proof (cases "must_wait st m \<or> map_of (ca_loaded st) m = None")
    case True
    then have "st' = st" "r \<noteq> UnloadWaitDraining"
      using r by (auto simp: unload_pass_def must_wait_def split: if_splits)
    then show ?thesis using ok by simp
  next
    case False
    then obtain l where l: "map_of (ca_loaded st) m = Some l" and free: "\<not> must_wait st m" by auto
    show ?thesis
    proof (cases "is_active l")
      case True
      then have "r = UnloadWaitDraining" "st' = st\<lparr>ca_draining := List.insert m (ca_draining st)\<rparr>"
        using r l free by (simp_all add: unload_pass_def must_wait_def)
      then show ?thesis
        using drain_ok [OF ok, of "DrainOne m"] l free cache_okD(5) [OF ok]
        by (simp add: resident_len_def must_wait_def)
    next
      case False
      have "removeAll m (ca_draining st) = ca_draining st"
        using free by (simp add: must_wait_def)
      then have "r = Retired" "st' = fst (retire m st)"
        using r l free False draining_id [OF retire_simps(1) [OF l]]
        by (simp_all add: unload_pass_def must_wait_def retire_draining)
      then show ?thesis
        using retire_ok [OF ok l False] retire_len [OF ok l] free by (simp add: must_wait_def)
    qed
  qed
  then show "cache_ok E P (if r = UnloadWaitDraining then add_mset (DrainOne m) D else D) L st'"
    "resident_len st' = resident_len st" by simp_all
qed

lemma unload_again_ok:
  assumes ok: "cache_ok E P (add_mset (DrainOne m) D) L st" and r: "unload_pass True m st = (st', r)"
  shows "(r = UnloadWaitDraining \<and> st' = st) \<or> (r = Retired \<and> cache_ok E P D L st' \<and> resident_len st' = resident_len st)"
proof -
  have "m \<in># mset (ca_draining st)" using cache_okD(12) [OF ok] by simp
  then have md: "m \<in> set (ca_draining st)" by simp
  obtain l where l: "map_of (ca_loaded st) m = Some l" using cache_okD(13) [OF ok, of m] by auto
  note nr = cache_okD(10,11) [OF ok md]
  have np: "m \<notin> set (ca_pending st)" using nr cache_okD(5) [OF ok] by blast
  let ?u = "st\<lparr>ca_draining := removeAll m (ca_draining st)\<rparr>"
  have u: "cache_ok E P D L ?u" using undrain_ok [OF ok] by simp
  have lu: "map_of (ca_loaded ?u) m = Some l" using l by simp
  show ?thesis
  proof (cases "is_active l")
    case True
    then show ?thesis using r nr np l md by (auto simp: unload_pass_def)
  next
    case False
    then have "r = Retired" "st' = fst (retire m ?u)"
      using r nr np l md by (auto simp: unload_pass_def Let_def retire_draining retire_simps)
    then show ?thesis using retire_ok [OF u lu False] retire_len [OF u lu] by (simp add: resident_len_def)
  qed
qed

end
