(* ===== verification/Model_Residency.thy ===== *)
theory Model_Residency
  imports Model_Cache "HOL-Library.Code_Target_Nat"
begin

text \<open>
  The model caches of a server under their common limit, \<^verbatim>\<open>apps/orchion-server/src/application/model_cache.rs\<close>:
  the global limiter (\<^verbatim>\<open>GlobalModelCacheLimiter\<close>), and the tasks that load, lease, evict and unload models
  of several caches at the same time.  Every critical section is one step, and the steps of the tasks
  interleave in every order.

  A notification of the residency domain that only wakes waiting tasks is a step of its own that may happen
  at any time; the one that follows the publication of an engine is tied to it.  The version of the domain is
  a natural number: runs are shorter than \<open>2\<^sup>6\<^sup>4\<close> notifications.
\<close>

section \<open>The global limiter\<close>

record limiter =
  gl_max :: nat
  gl_closed :: bool
  gl_cold :: nat
  gl_reservations :: nat

definition new_limiter :: "nat \<Rightarrow> limiter" where
  "new_limiter n = \<lparr>gl_max = n, gl_closed = False, gl_cold = 0, gl_reservations = 0\<rparr>"

text \<open>\<open>None\<close> is the error of a closed limiter.\<close>

definition begin_cold_task :: "limiter \<Rightarrow> limiter option" where
  "begin_cold_task g = (if gl_closed g then None else Some (g\<lparr>gl_cold := gl_cold g + 1\<rparr>))"

text \<open>\<^verbatim>\<open>Drop for ColdTaskGuard\<close> and \<^verbatim>\<open>Drop for GlobalReservation\<close>: \<open>None\<close> if the count would underflow; the flag
  says whether \<^verbatim>\<open>close_and_drain\<close> is woken.\<close>

definition end_cold_task :: "limiter \<Rightarrow> (limiter \<times> bool) option" where
  "end_cold_task g =
     (if gl_cold g = 0 then None else Some (g\<lparr>gl_cold := gl_cold g - 1\<rparr>, gl_cold g = 1))"

definition drop_reservation :: "limiter \<Rightarrow> limiter option" where
  "drop_reservation g =
     (if gl_reservations g = 0 then None else Some (g\<lparr>gl_reservations := gl_reservations g - 1\<rparr>))"

definition close :: "limiter \<Rightarrow> limiter" where
  "close g = g\<lparr>gl_closed := True\<rparr>"

text \<open>The decision of \<^verbatim>\<open>reserve\<close> under the lock, from the version it subscribed at and the models it
  counted.\<close>

datatype reserve_result = Changed | Granted | Full

definition decide_reserve :: "nat \<Rightarrow> nat \<Rightarrow> nat \<Rightarrow> limiter \<Rightarrow> limiter \<times> reserve_result" where
  "decide_reserve subscribed version loaded g =
     (if version \<noteq> subscribed then (g, Changed)
      else if loaded + gl_reservations g < gl_max g then (g\<lparr>gl_reservations := gl_reservations g + 1\<rparr>, Granted)
      else (g, Full))"

text \<open>\<^verbatim>\<open>lru_entry\<close> over the entries the caches answer with.\<close>

fun oldest_entry :: "('k \<times> nat) option \<Rightarrow> ('k \<times> nat) option list \<Rightarrow> ('k \<times> nat) option" where
  "oldest_entry lru [] = lru"
| "oldest_entry lru (None # es) = oldest_entry lru es"
| "oldest_entry lru (Some e # es) =
     oldest_entry (case lru of None \<Rightarrow> Some e | Some cur \<Rightarrow> if snd e < snd cur then Some e else Some cur) es"

text \<open>\<^verbatim>\<open>validate_unique_cache_ids\<close>: the first identifier that repeats.\<close>

fun duplicate_cache_id :: "string list \<Rightarrow> string list \<Rightarrow> string option" where
  "duplicate_cache_id seen [] = None"
| "duplicate_cache_id seen (i # is) = (if i \<in> set seen then Some i else duplicate_cache_id (i # seen) is)"

section \<open>The tasks\<close>

text \<open>A load holds its model's reservation in its cache from the first phase to the last: it waits for
  room (\<open>Resting\<close>), counts the resident models of the caches one by one (\<open>Seeking\<close> with the version, the
  caches counted and the sum), has room (\<open>Admitted\<close>), has its engine in the cache (\<open>Published\<close>) and announced, or has
  failed (\<open>Leaving\<close>), and has given the room back (\<open>Freed\<close>).\<close>

datatype load_phase = Resting | Seeking nat nat nat | Admitted | Published | Leaving | Freed

fun early :: "load_phase \<Rightarrow> bool" where
  "early Published = False"
| "early Leaving = False"
| "early Freed = False"
| "early _ = True"

fun holds_room :: "load_phase \<Rightarrow> bool" where
  "holds_room Admitted = True"
| "holds_room Published = True"
| "holds_room Leaving = True"
| "holds_room _ = False"

record 'm residency =
  sy_caches :: "'m cache_state list"
  sy_limiter :: limiter
  sy_version :: nat
  sy_now :: nat
  sy_waiting :: nat
  sy_loads :: "((nat \<times> 'm) \<times> load_phase) list"
  sy_leases :: "(nat \<times> 'm \<times> nat) list"
  sy_drains :: "(nat \<times> 'm drain) list"

definition residency_start :: "('m list \<times> nat \<times> nat) list \<Rightarrow> nat \<Rightarrow> 'm residency" where
  "residency_start configs max_loaded =
     \<lparr>sy_caches = map (\<lambda>(available, idle_timeout, n). new_model_cache available idle_timeout n) configs,
      sy_limiter = new_limiter max_loaded, sy_version = 0, sy_now = 0, sy_waiting = 0, sy_loads = [],
      sy_leases = [], sy_drains = []\<rparr>"

datatype 'm residency_act =
  BeginCold
| EndCold
| Fetch nat 'm
| Acquire nat 'm
| StartReserve nat 'm
| ReadCache nat 'm
| DecideReserve nat 'm
| Publish nat 'm
| Announce nat 'm
| FailLoad nat 'm "load_failure_phase option"
| FreeRoom nat 'm
| EndLoad nat 'm
| CloneLease nat 'm nat
| DropLease nat 'm nat
| RetireIdle nat
| EvictTracked nat 'm
| FinishRetirement nat 'm
| UnloadMany nat "'m list"
| FinishMany nat "'m list"
| Unload nat 'm
| UnloadAgain nat 'm
| NotifyDomain
| CloseLimiter
| Elapse nat

definition set_cache :: "nat \<Rightarrow> 'm cache_state \<Rightarrow> 'm residency \<Rightarrow> 'm residency" where
  "set_cache c st s = s\<lparr>sy_caches := (sy_caches s)[c := st]\<rparr>"

definition set_phase :: "nat \<Rightarrow> 'm \<Rightarrow> load_phase \<Rightarrow> 'm residency \<Rightarrow> 'm residency" where
  "set_phase c m p s = s\<lparr>sy_loads := AList.update (c, m) p (sy_loads s)\<rparr>"

definition add_lease :: "nat \<Rightarrow> 'm \<Rightarrow> nat \<Rightarrow> 'm residency \<Rightarrow> 'm residency" where
  "add_lease c m e s = s\<lparr>sy_leases := (c, m, e) # sy_leases s\<rparr>"

text \<open>One step; \<open>None\<close> is a panic.  A step that the state does not offer leaves it as it is.\<close>

definition step_fetch :: "nat \<Rightarrow> 'm \<Rightarrow> 'm residency \<Rightarrow> 'm residency" where
  "step_fetch c m s =
     (case get_loaded (sy_now s) m (sy_caches s ! c) of
        (st, Leased e) \<Rightarrow> add_lease c m e (set_cache c st s)
      | (st, _) \<Rightarrow> set_cache c st s)"

definition step_acquire :: "nat \<Rightarrow> 'm \<Rightarrow> 'm residency \<Rightarrow> 'm residency" where
  "step_acquire c m s =
     (case admit_load (sy_now s) m (sy_caches s ! c) of
        (st, Leased e) \<Rightarrow> add_lease c m e (set_cache c st s)
      | (st, Reserved) \<Rightarrow> (set_phase c m Resting (set_cache c st s))\<lparr>sy_waiting := sy_waiting s - 1\<rparr>
      | (st, _) \<Rightarrow> set_cache c st s)"

definition step_decide :: "nat \<Rightarrow> 'm \<Rightarrow> nat \<Rightarrow> nat \<Rightarrow> 'm residency \<Rightarrow> 'm residency" where
  "step_decide c m v counted s =
     (let (g, r) = decide_reserve v (sy_version s) counted (sy_limiter s) in
      (set_phase c m (if r = Granted then Admitted else Resting) s)\<lparr>sy_limiter := g\<rparr>)"

definition step_publish :: "nat \<Rightarrow> 'm \<Rightarrow> 'm residency \<Rightarrow> 'm residency option" where
  "step_publish c m s =
     map_option (\<lambda>(st, e). set_phase c m Published (add_lease c m e (set_cache c st s)))
       (insert_loaded (sy_now s) m (sy_caches s ! c))"

definition step_fail :: "nat \<Rightarrow> 'm \<Rightarrow> load_failure_phase option \<Rightarrow> 'm residency \<Rightarrow> 'm residency" where
  "step_fail c m failure s =
     set_phase c m Leaving
       (case failure of
          None \<Rightarrow> s
        | Some phase \<Rightarrow> set_cache c (latch_load_failure m phase (sy_caches s ! c)) s)"

definition step_free :: "nat \<Rightarrow> 'm \<Rightarrow> 'm residency \<Rightarrow> 'm residency option" where
  "step_free c m s =
     map_option (\<lambda>g. (set_phase c m Freed s)\<lparr>sy_limiter := g\<rparr>) (drop_reservation (sy_limiter s))"

definition step_end_load :: "nat \<Rightarrow> 'm \<Rightarrow> 'm residency \<Rightarrow> 'm residency" where
  "step_end_load c m s =
     (set_cache c (release_pending m (sy_caches s ! c)) s)
       \<lparr>sy_loads := AList.delete (c, m) (sy_loads s), sy_waiting := sy_waiting s + 1\<rparr>"

definition step_clone :: "nat \<Rightarrow> 'm \<Rightarrow> nat \<Rightarrow> 'm residency \<Rightarrow> 'm residency option" where
  "step_clone c m e s =
     (case map_of (ca_loaded (sy_caches s ! c)) m of
        None \<Rightarrow> None
      | Some l \<Rightarrow> Some (add_lease c m e (set_cache c
          ((sy_caches s ! c)\<lparr>ca_loaded := AList.update m (new_lease l) (ca_loaded (sy_caches s ! c))\<rparr>) s)))"

definition step_drop :: "nat \<Rightarrow> 'm \<Rightarrow> nat \<Rightarrow> 'm residency \<Rightarrow> 'm residency option" where
  "step_drop c m e s =
     (case map_of (ca_loaded (sy_caches s ! c)) m of
        None \<Rightarrow> None
      | Some l \<Rightarrow> map_option (\<lambda>(l', _).
          (set_cache c ((sy_caches s ! c)\<lparr>ca_loaded := AList.update m l' (ca_loaded (sy_caches s ! c))\<rparr>) s)
            \<lparr>sy_leases := remove1 (c, m, e) (sy_leases s)\<rparr>) (drop_lease (sy_now s) l))"

definition step_unload_many :: "nat \<Rightarrow> 'm list \<Rightarrow> 'm residency \<Rightarrow> 'm residency" where
  "step_unload_many c models s =
     (let ms = unload_targets models (sy_caches s ! c) in
      if ms = [] then s
      else case begin_drain ms (sy_caches s ! c) of
             None \<Rightarrow> s
           | Some st \<Rightarrow> (set_cache c st s)\<lparr>sy_drains := (c, DrainMany ms) # sy_drains s\<rparr>)"

definition step_finish_many :: "nat \<Rightarrow> 'm list \<Rightarrow> 'm residency \<Rightarrow> 'm residency" where
  "step_finish_many c ms s =
     (case finish_drain ms (sy_caches s ! c) of
        None \<Rightarrow> s
      | Some (st, _) \<Rightarrow> (set_cache c st s)\<lparr>sy_drains := remove1 (c, DrainMany ms) (sy_drains s)\<rparr>)"

definition step_unload :: "nat \<Rightarrow> 'm \<Rightarrow> 'm residency \<Rightarrow> 'm residency" where
  "step_unload c m s =
     (case unload_pass False m (sy_caches s ! c) of
        (st, UnloadWaitDraining) \<Rightarrow> (set_cache c st s)\<lparr>sy_drains := (c, DrainOne m) # sy_drains s\<rparr>
      | (st, _) \<Rightarrow> set_cache c st s)"

text \<open>A task that set a drain and finds its model gone would leave the drain behind: a panic here.\<close>

definition step_unload_again :: "nat \<Rightarrow> 'm \<Rightarrow> 'm residency \<Rightarrow> 'm residency option" where
  "step_unload_again c m s =
     (case unload_pass True m (sy_caches s ! c) of
        (st, Retired) \<Rightarrow> Some ((set_cache c st s)\<lparr>sy_drains := remove1 (c, DrainOne m) (sy_drains s)\<rparr>)
      | (_, NotLoaded) \<Rightarrow> None
      | (st, _) \<Rightarrow> Some (set_cache c st s))"

fun residency_step :: "'m residency_act \<Rightarrow> 'm residency \<Rightarrow> 'm residency option" where
  "residency_step BeginCold s =
     (case begin_cold_task (sy_limiter s) of
        None \<Rightarrow> Some s
      | Some g \<Rightarrow> Some (s\<lparr>sy_limiter := g, sy_waiting := sy_waiting s + 1\<rparr>))"
| "residency_step EndCold s =
     (if sy_waiting s = 0 then Some s
      else map_option (\<lambda>(g, _). s\<lparr>sy_limiter := g, sy_waiting := sy_waiting s - 1\<rparr>)
             (end_cold_task (sy_limiter s)))"
| "residency_step (Fetch c m) s = Some (if c < length (sy_caches s) then step_fetch c m s else s)"
| "residency_step (Acquire c m) s =
     Some (if c < length (sy_caches s) \<and> 0 < sy_waiting s then step_acquire c m s else s)"
| "residency_step (StartReserve c m) s =
     Some (if map_of (sy_loads s) (c, m) = Some Resting then set_phase c m (Seeking (sy_version s) 0 0) s else s)"
| "residency_step (ReadCache c m) s =
     (case map_of (sy_loads s) (c, m) of
        Some (Seeking v k counted) \<Rightarrow>
          Some (if k < length (sy_caches s)
                then set_phase c m (Seeking v (k + 1) (counted + resident_len (sy_caches s ! k))) s else s)
      | _ \<Rightarrow> Some s)"
| "residency_step (DecideReserve c m) s =
     (case map_of (sy_loads s) (c, m) of
        Some (Seeking v k counted) \<Rightarrow> Some (if k = length (sy_caches s) then step_decide c m v counted s else s)
      | _ \<Rightarrow> Some s)"
| "residency_step (Publish c m) s =
     (if map_of (sy_loads s) (c, m) = Some Admitted then step_publish c m s else Some s)"
| "residency_step (Announce c m) s =
     Some (if map_of (sy_loads s) (c, m) = Some Published
           then (set_phase c m Leaving s)\<lparr>sy_version := sy_version s + 1\<rparr> else s)"
| "residency_step (FailLoad c m failure) s =
     (case map_of (sy_loads s) (c, m) of
        Some Admitted \<Rightarrow> Some (step_fail c m failure s)
      | Some Resting \<Rightarrow> Some (set_phase c m Freed s)
      | Some (Seeking _ _ _) \<Rightarrow> Some (set_phase c m Freed s)
      | _ \<Rightarrow> Some s)"
| "residency_step (FreeRoom c m) s =
     (if map_of (sy_loads s) (c, m) = Some Leaving then step_free c m s else Some s)"
| "residency_step (EndLoad c m) s =
     Some (if map_of (sy_loads s) (c, m) = Some Freed then step_end_load c m s else s)"
| "residency_step (CloneLease c m e) s = (if (c, m, e) \<in> set (sy_leases s) then step_clone c m e s else Some s)"
| "residency_step (DropLease c m e) s = (if (c, m, e) \<in> set (sy_leases s) then step_drop c m e s else Some s)"
| "residency_step (RetireIdle c) s =
     Some (if c < length (sy_caches s) then set_cache c (fst (retire_idle (sy_now s) (sy_caches s ! c))) s else s)"
| "residency_step (EvictTracked c m) s =
     Some (if c < length (sy_caches s) then set_cache c (fst (evict_tracked m (sy_caches s ! c))) s else s)"
| "residency_step (FinishRetirement c m) s =
     Some (if c < length (sy_caches s) then set_cache c (finish_retirement m (sy_caches s ! c)) s else s)"
| "residency_step (UnloadMany c ms) s = Some (if c < length (sy_caches s) then step_unload_many c ms s else s)"
| "residency_step (FinishMany c ms) s =
     Some (if (c, DrainMany ms) \<in> set (sy_drains s) then step_finish_many c ms s else s)"
| "residency_step (Unload c m) s = Some (if c < length (sy_caches s) then step_unload c m s else s)"
| "residency_step (UnloadAgain c m) s =
     (if (c, DrainOne m) \<in> set (sy_drains s) then step_unload_again c m s else Some s)"
| "residency_step NotifyDomain s = Some (s\<lparr>sy_version := sy_version s + 1\<rparr>)"
| "residency_step CloseLimiter s = Some (s\<lparr>sy_limiter := close (sy_limiter s)\<rparr>)"
| "residency_step (Elapse d) s = Some (s\<lparr>sy_now := sy_now s + d\<rparr>)"

fun residency_run :: "'m residency_act list \<Rightarrow> 'm residency \<Rightarrow> 'm residency option" where
  "residency_run [] s = Some s"
| "residency_run (a # as) s = Option.bind (residency_step a s) (residency_run as)"

section \<open>The invariant\<close>

definition of_cache :: "nat \<Rightarrow> (nat \<times> 'a) list \<Rightarrow> 'a multiset" where
  "of_cache c xs = mset (map snd (filter (\<lambda>x. fst x = c) xs))"

definition loads_in :: "(load_phase \<Rightarrow> bool) \<Rightarrow> nat \<Rightarrow> ((nat \<times> 'm) \<times> load_phase) list \<Rightarrow> 'm set" where
  "loads_in Q c loads = {m. \<exists>p. map_of loads (c, m) = Some p \<and> Q p}"

definition residents :: "'m cache_state list \<Rightarrow> nat" where
  "residents cs = sum_list (map resident_len cs)"

definition number :: "(load_phase \<Rightarrow> bool) \<Rightarrow> ('k \<times> load_phase) list \<Rightarrow> nat" where
  "number Q loads = tally (\<lambda>p. of_bool (Q p)) loads"

definition caches_ok :: "'m residency \<Rightarrow> bool" where
  "caches_ok s \<longleftrightarrow>
     (\<forall>c < length (sy_caches s).
        cache_ok (loads_in early c (sy_loads s)) (loads_in (\<lambda>_. True) c (sy_loads s))
          (of_cache c (sy_drains s)) (of_cache c (sy_leases s)) (sy_caches s ! c))"

definition in_range :: "'m residency \<Rightarrow> bool" where
  "in_range s \<longleftrightarrow>
     distinct (map fst (sy_loads s))
     \<and> (\<forall>x \<in> set (sy_loads s). fst (fst x) < length (sy_caches s))
     \<and> (\<forall>x \<in> set (sy_leases s). fst x < length (sy_caches s))
     \<and> (\<forall>x \<in> set (sy_drains s). fst x < length (sy_caches s))"

definition counts_ok :: "'m residency \<Rightarrow> bool" where
  "counts_ok s \<longleftrightarrow>
     gl_reservations (sy_limiter s) = number holds_room (sy_loads s)
     \<and> gl_cold (sy_limiter s) = sy_waiting s + length (sy_loads s)
     \<and> residents (sy_caches s) + number (\<lambda>p. p = Admitted) (sy_loads s) \<le> gl_max (sy_limiter s)"

text \<open>What a load has counted: if nothing was announced since it subscribed, the caches it has counted hold
  no more than it saw and what is published and not announced yet.\<close>

definition counted_ok :: "'m residency \<Rightarrow> load_phase \<Rightarrow> bool" where
  "counted_ok s p \<longleftrightarrow>
     (case p of
        Seeking v k counted \<Rightarrow>
          k \<le> length (sy_caches s) \<and> v \<le> sy_version s
          \<and> (v = sy_version s \<longrightarrow>
               residents (take k (sy_caches s)) \<le> counted + number (\<lambda>p. p = Published) (sy_loads s))
      | _ \<Rightarrow> True)"

definition seekers_ok :: "'m residency \<Rightarrow> bool" where
  "seekers_ok s \<longleftrightarrow> (\<forall>x \<in> set (sy_loads s). counted_ok s (snd x))"

definition residency_ok :: "'m residency \<Rightarrow> bool" where
  "residency_ok s \<longleftrightarrow> caches_ok s \<and> in_range s \<and> counts_ok s \<and> seekers_ok s"

lemma set_cache_simps [simp]:
  "sy_caches (set_cache c st s) = (sy_caches s)[c := st]" "sy_limiter (set_cache c st s) = sy_limiter s"
  "sy_version (set_cache c st s) = sy_version s" "sy_now (set_cache c st s) = sy_now s"
  "sy_waiting (set_cache c st s) = sy_waiting s" "sy_loads (set_cache c st s) = sy_loads s"
  "sy_leases (set_cache c st s) = sy_leases s" "sy_drains (set_cache c st s) = sy_drains s"
  by (simp_all add: set_cache_def)

lemma set_phase_simps [simp]:
  "sy_caches (set_phase c m p s) = sy_caches s" "sy_limiter (set_phase c m p s) = sy_limiter s"
  "sy_version (set_phase c m p s) = sy_version s" "sy_now (set_phase c m p s) = sy_now s"
  "sy_waiting (set_phase c m p s) = sy_waiting s"
  "sy_loads (set_phase c m p s) = AList.update (c, m) p (sy_loads s)"
  "sy_leases (set_phase c m p s) = sy_leases s" "sy_drains (set_phase c m p s) = sy_drains s"
  by (simp_all add: set_phase_def)

lemma add_lease_simps [simp]:
  "sy_caches (add_lease c m e s) = sy_caches s" "sy_limiter (add_lease c m e s) = sy_limiter s"
  "sy_version (add_lease c m e s) = sy_version s" "sy_now (add_lease c m e s) = sy_now s"
  "sy_waiting (add_lease c m e s) = sy_waiting s" "sy_loads (add_lease c m e s) = sy_loads s"
  "sy_leases (add_lease c m e s) = (c, m, e) # sy_leases s" "sy_drains (add_lease c m e s) = sy_drains s"
  by (simp_all add: add_lease_def)

lemma of_cache_simps [simp]:
  "of_cache c [] = {#}"
  "of_cache c (x # xs) = (if fst x = c then add_mset (snd x) (of_cache c xs) else of_cache c xs)"
  by (simp_all add: of_cache_def)

lemma of_cache_remove1: "of_cache c (remove1 x xs) = (if fst x = c then of_cache c xs - {#snd x#} else of_cache c xs)"
proof (induction xs)
  case (Cons y xs)
  show ?case
  proof (cases "x = y")
    case False
    then have "snd x \<noteq> snd y" if "fst x = c" "fst y = c" using that by (metis prod.expand)
    then show ?thesis using Cons False by auto
  qed simp
qed simp

lemma of_cache_mem: "(c, y) \<in> set xs \<Longrightarrow> y \<in># of_cache c xs"
  by (force simp: of_cache_def)

lemma loads_in_update:
  "loads_in Q c' (AList.update (c, m) p loads) =
     (if c' = c then (if Q p then insert m (loads_in Q c loads) else loads_in Q c loads - {m}) else loads_in Q c' loads)"
  by (auto simp: loads_in_def update_conv')

lemma loads_in_delete:
  "loads_in Q c' (AList.delete (c, m) loads) = (if c' = c then loads_in Q c loads - {m} else loads_in Q c' loads)"
  by (auto simp: loads_in_def AList.delete_conv')

lemma number_update:
  "map_of loads k = Some p \<Longrightarrow>
     number Q (AList.update k p' loads) + of_bool (Q p) = number Q loads + of_bool (Q p')"
  unfolding number_def by (rule tally_update)

lemma number_keep:
  "map_of loads k = Some p \<Longrightarrow> Q p = Q p' \<Longrightarrow> number Q (AList.update k p' loads) = number Q loads"
  using number_update [of loads k p Q p'] by simp

lemma number_insert: "map_of loads k = None \<Longrightarrow> number Q (AList.update k p loads) = number Q loads + of_bool (Q p)"
  unfolding number_def by (rule tally_insert)

lemma number_delete:
  "map_of loads k = Some p \<Longrightarrow> distinct (map fst loads) \<Longrightarrow>
     number Q (AList.delete k loads) + of_bool (Q p) = number Q loads"
  unfolding number_def by (rule tally_delete)

lemma residents_update_le:
  "f \<le> resident_len (cs ! c) + d \<Longrightarrow> resident_len st = f \<Longrightarrow> residents (cs[c := st]) \<le> residents cs + d"
proof (induction cs arbitrary: c)
  case (Cons x cs)
  then show ?case by (cases c) (auto simp: residents_def)
qed (simp add: residents_def)

lemma residents_take_update_le:
  assumes "resident_len st \<le> resident_len (cs ! c) + d"
  shows "residents (take k (cs[c := st])) \<le> residents (take k cs) + d"
proof (cases "c < k")
  case True
  then show ?thesis
    using residents_update_le [of "resident_len st" "take k cs" c d st] assms by (simp add: take_update_swap)
next
  case False
  then show ?thesis by (simp add: take_update_cancel)
qed

section \<open>Steps\<close>

lemma cache_ok_less: "cache_ok E P D L st \<Longrightarrow> E' \<subseteq> E \<Longrightarrow> cache_ok E' P D L st"
  using cache_okD(16) [of E P D L st] card_mono [of E E'] unfolding cache_ok_def by force

lemma counted_mono:
  assumes "counted_ok s p" "length (sy_caches s') = length (sy_caches s)" "sy_version s \<le> sy_version s'"
    and "\<And>k. sy_version s' = sy_version s \<Longrightarrow>
      residents (take k (sy_caches s')) + number (\<lambda>p. p = Published) (sy_loads s)
        \<le> residents (take k (sy_caches s)) + number (\<lambda>p. p = Published) (sy_loads s')"
  shows "counted_ok s' p"
proof (cases p)
  case (Seeking v k counted)
  have "residents (take k (sy_caches s')) \<le> counted + number (\<lambda>p. p = Published) (sy_loads s')"
    if "v = sy_version s'"
  proof -
    have "v = sy_version s" using assms(1,3) that Seeking by (simp add: counted_ok_def)
    then show ?thesis using assms(1) assms(4) [of k] that Seeking by (fastforce simp: counted_ok_def)
  qed
  then show ?thesis using assms(1-3) Seeking by (auto simp: counted_ok_def)
qed (simp_all add: counted_ok_def)

lemma residency_okI:
  assumes "caches_ok s" "in_range s" "counts_ok s" "seekers_ok s"
  shows "residency_ok s"
  using assms by (simp add: residency_ok_def)

lemma caches_replace:
  assumes "caches_ok s" "sy_caches s' = (sy_caches s)[c := st]"
    and "c < length (sy_caches s) \<Longrightarrow> cache_ok (loads_in early c (sy_loads s')) (loads_in (\<lambda>_. True) c (sy_loads s'))
          (of_cache c (sy_drains s')) (of_cache c (sy_leases s')) st"
    and "\<And>c' Q. c' \<noteq> c \<Longrightarrow> loads_in Q c' (sy_loads s') = loads_in Q c' (sy_loads s)"
    and "\<And>c'. c' \<noteq> c \<Longrightarrow> of_cache c' (sy_drains s') = of_cache c' (sy_drains s)"
    and "\<And>c'. c' \<noteq> c \<Longrightarrow> of_cache c' (sy_leases s') = of_cache c' (sy_leases s)"
  shows "caches_ok s'"
  unfolding caches_ok_def
proof (intro allI impI)
  fix c' assume c': "c' < length (sy_caches s')"
  show "cache_ok (loads_in early c' (sy_loads s')) (loads_in (\<lambda>_. True) c' (sy_loads s'))
          (of_cache c' (sy_drains s')) (of_cache c' (sy_leases s')) (sy_caches s' ! c')"
    using assms(1-6) c' unfolding caches_ok_def by (cases "c' = c") auto
qed

text \<open>A step of one cache that publishes nothing.\<close>

lemma one_cache_step:
  assumes ok: "residency_ok s" and c: "c < length (sy_caches s)"
    and st: "cache_ok (loads_in early c (sy_loads s)) (loads_in (\<lambda>_. True) c (sy_loads s))
          (of_cache c ds) (of_cache c ls) st"
    and len: "resident_len st \<le> resident_len (sy_caches s ! c)"
    and ds: "\<And>c'. c' \<noteq> c \<Longrightarrow> of_cache c' ds = of_cache c' (sy_drains s)" "\<And>x. x \<in> set ds \<Longrightarrow> fst x = c \<or> x \<in> set (sy_drains s)"
    and ls: "\<And>c'. c' \<noteq> c \<Longrightarrow> of_cache c' ls = of_cache c' (sy_leases s)" "\<And>x. x \<in> set ls \<Longrightarrow> fst x = c \<or> x \<in> set (sy_leases s)"
  shows "residency_ok ((set_cache c st s)\<lparr>sy_leases := ls, sy_drains := ds\<rparr>)"
    (is "residency_ok ?s")
proof (rule residency_okI)
  have r: "residents (take k (sy_caches ?s)) \<le> residents (take k (sy_caches s))" for k
    using residents_take_update_le [of st "sy_caches s" c 0 k] len by simp
  show "caches_ok ?s"
    by (rule caches_replace [of s _ c st]) (use ok st ds(1) ls(1) in \<open>simp_all add: residency_ok_def\<close>)
  show "in_range ?s"
    using ok ds(2) ls(2) c unfolding residency_ok_def in_range_def by fastforce
  show "counts_ok ?s"
    using ok r [of "length (sy_caches s)"] by (simp add: residency_ok_def counts_ok_def)
  show "seekers_ok ?s"
    using ok r counted_mono [of s _ ?s] by (simp add: residency_ok_def seekers_ok_def)
qed

lemma keys_update:
  assumes "in_range s" "c < length (sy_caches s)"
  shows "distinct (map fst (AList.update (c, m) p (sy_loads s)))
    \<and> (\<forall>x \<in> set (AList.update (c, m) p (sy_loads s)). fst (fst x) < length (sy_caches s))"
  using assms set_update_subset [of "(c, m)" p "sy_loads s"]
  unfolding in_range_def by (auto simp: distinct_update)

lemma values_update:
  "\<forall>x \<in> set loads. Q (snd x) \<Longrightarrow> Q p \<Longrightarrow> \<forall>x \<in> set (AList.update k p loads). Q (snd x)"
  using set_update_subset [of k p loads] by auto

lemma residency_okD:
  assumes "residency_ok s"
  shows "caches_ok s" "in_range s" "counts_ok s" "seekers_ok s"
  using assms by (simp_all add: residency_ok_def)

lemma load_in_range:
  assumes "residency_ok s" "map_of (sy_loads s) (c, m) = Some p"
  shows "c < length (sy_caches s)" "distinct (map fst (sy_loads s))"
    "cache_ok (loads_in early c (sy_loads s)) (loads_in (\<lambda>_. True) c (sy_loads s))
       (of_cache c (sy_drains s)) (of_cache c (sy_leases s)) (sy_caches s ! c)"
proof -
  show "c < length (sy_caches s)"
    using residency_okD(2) [OF assms(1)] map_of_SomeD [OF assms(2)] by (fastforce simp: in_range_def)
  then show "cache_ok (loads_in early c (sy_loads s)) (loads_in (\<lambda>_. True) c (sy_loads s))
       (of_cache c (sy_drains s)) (of_cache c (sy_leases s)) (sy_caches s ! c)"
    using residency_okD(1) [OF assms(1)] by (simp add: caches_ok_def)
qed (use residency_okD(2) [OF assms(1)] in \<open>simp add: in_range_def\<close>)

text \<open>A step of one load that publishes and announces nothing.\<close>

lemma phase_step:
  assumes ok: "residency_ok s" and p: "map_of (sy_loads s) (c, m) = Some p"
    and q: "early p' \<Longrightarrow> early p" "p' = Published \<longleftrightarrow> p = Published" "counted_ok s p'"
    and g: "gl_reservations g + of_bool (holds_room p) = gl_reservations (sy_limiter s) + of_bool (holds_room p')"
      "gl_cold g = gl_cold (sy_limiter s)" "gl_max g = gl_max (sy_limiter s)"
    and room: "p' = Admitted \<Longrightarrow> p \<noteq> Admitted \<Longrightarrow>
      residents (sy_caches s) + number (\<lambda>p. p = Admitted) (sy_loads s) < gl_max g"
  shows "residency_ok ((set_phase c m p' s)\<lparr>sy_limiter := g\<rparr>)" (is "residency_ok ?s")
proof (rule residency_okI)
  have ok': "caches_ok s" "in_range s" "counts_ok s" "seekers_ok s"
    using ok by (simp_all add: residency_ok_def)
  have mem: "m \<in> loads_in (\<lambda>_. True) c (sy_loads s)" using p by (simp add: loads_in_def)
  have le: "loads_in early c (AList.update (c, m) p' (sy_loads s)) \<subseteq> loads_in early c (sy_loads s)"
    using p q(1) by (auto simp: loads_in_def update_conv' split: if_splits)
  have pub: "number (\<lambda>p. p = Published) (AList.update (c, m) p' (sy_loads s)) = number (\<lambda>p. p = Published) (sy_loads s)"
    using number_keep [OF p, of "\<lambda>p. p = Published" p'] q(2) by simp
  show "caches_ok ?s"
  proof (rule caches_replace [of s _ c "sy_caches s ! c"])
    show "cache_ok (loads_in early c (sy_loads ?s)) (loads_in (\<lambda>_. True) c (sy_loads ?s))
          (of_cache c (sy_drains ?s)) (of_cache c (sy_leases ?s)) (sy_caches s ! c)"
      using cache_ok_less [OF load_in_range(3) [OF ok p] le] mem
      by (simp add: loads_in_update [of "\<lambda>_. True"] insert_absorb)
  qed (use ok' in \<open>simp_all add: loads_in_update\<close>)
  show "in_range ?s"
    using ok'(2) keys_update [OF ok'(2) load_in_range(1) [OF ok p]] unfolding in_range_def by simp
  show "counts_ok ?s"
    using ok'(3) g room number_update [OF p, of holds_room p'] number_update [OF p, of "\<lambda>p. p = Admitted" p'] p
    by (cases "p = Admitted"; cases "p' = Admitted") (auto simp: counts_ok_def length_AList_update)
  have "counted_ok ?s x" if "counted_ok s x" for x
    by (rule counted_mono [OF that]) (simp_all add: pub)
  then show "seekers_ok ?s"
    using ok'(4) q(3) values_update [of "sy_loads s" "counted_ok ?s" p'] unfolding seekers_ok_def by simp
qed

lemma phase_step_only:
  assumes "residency_ok s" "map_of (sy_loads s) (c, m) = Some p"
    and "early p' \<Longrightarrow> early p" "p' = Published \<longleftrightarrow> p = Published" "counted_ok s p'"
    and "holds_room p' \<longleftrightarrow> holds_room p" "p' = Admitted \<Longrightarrow> p = Admitted"
  shows "residency_ok (set_phase c m p' s)"
proof -
  have "residency_ok ((set_phase c m p' s)\<lparr>sy_limiter := sy_limiter s\<rparr>)"
    by (rule phase_step [OF assms(1,2)]) (use assms in simp_all)
  moreover have "(set_phase c m p' s)\<lparr>sy_limiter := sy_limiter s\<rparr> = set_phase c m p' s"
    by (simp add: set_phase_def)
  ultimately show ?thesis by simp
qed

text \<open>The decision: what a load counted is an upper bound as long as the version it subscribed at holds.\<close>

lemma number_holds:
  "number holds_room loads =
     number (\<lambda>p. p = Admitted) loads + number (\<lambda>p. p = Published) loads + number (\<lambda>p. p = Leaving) loads"
proof (induction loads)
  case (Cons x loads)
  then show ?case by (cases "snd x") (simp_all add: number_def)
qed (simp add: number_def)

lemma step_decide_ok:
  assumes ok: "residency_ok s"
    and p: "map_of (sy_loads s) (c, m) = Some (Seeking v (length (sy_caches s)) counted)"
  shows "residency_ok (step_decide c m v counted s)"
proof -
  obtain g r where d: "decide_reserve v (sy_version s) counted (sy_limiter s) = (g, r)" by fastforce
  have c: "counts_ok s" and co: "counted_ok s (Seeking v (length (sy_caches s)) counted)"
    using ok map_of_SomeD [OF p] by (force simp: residency_ok_def seekers_ok_def)+
  show ?thesis
  proof (cases "r = Granted")
    case True
    then have v: "v = sy_version s" "counted + gl_reservations (sy_limiter s) < gl_max (sy_limiter s)"
      and g: "g = sy_limiter s\<lparr>gl_reservations := gl_reservations (sy_limiter s) + 1\<rparr>"
      using d by (auto simp: decide_reserve_def split: if_splits)
    have "residents (sy_caches s) \<le> counted + number (\<lambda>p. p = Published) (sy_loads s)"
      using co v by (simp add: counted_ok_def)
    then have "residents (sy_caches s) + number (\<lambda>p. p = Admitted) (sy_loads s) < gl_max g"
      using c v number_holds [of "sy_loads s"] by (simp add: counts_ok_def g)
    then have "residency_ok ((set_phase c m Admitted s)\<lparr>sy_limiter := g\<rparr>)"
      by (intro phase_step [OF ok p]) (simp_all add: g counted_ok_def)
    then show ?thesis using True by (simp add: step_decide_def d)
  next
    case False
    then have g: "g = sy_limiter s" using d by (auto simp: decide_reserve_def split: if_splits)
    have "residency_ok ((set_phase c m Resting s)\<lparr>sy_limiter := g\<rparr>)"
      by (intro phase_step [OF ok p]) (simp_all add: g counted_ok_def)
    then show ?thesis using False by (simp add: step_decide_def d)
  qed
qed

text \<open>Publication: the only step that adds a resident model; its load's room is already counted.\<close>

lemma step_publish_ok:
  assumes ok: "residency_ok s" and p: "map_of (sy_loads s) (c, m) = Some Admitted"
  shows "\<exists>s'. step_publish c m s = Some s' \<and> residency_ok s'"
proof -
  note k = load_in_range [OF ok p] and ok' = residency_okD [OF ok]
  have early: "m \<in> loads_in early c (sy_loads s)" and any: "m \<in> loads_in (\<lambda>_. True) c (sy_loads s)"
    using p by (simp_all add: loads_in_def)
  obtain st e where i: "insert_loaded (sy_now s) m (sy_caches s ! c) = Some (st, e)"
      "cache_ok (loads_in early c (sy_loads s) - {m}) (loads_in (\<lambda>_. True) c (sy_loads s))
         (of_cache c (sy_drains s)) (add_mset (m, e) (of_cache c (sy_leases s))) st"
      "resident_len st = resident_len (sy_caches s ! c) + 1"
    using insert_loaded_ok [OF k(3) early] by metis
  let ?s = "set_phase c m Published (add_lease c m e (set_cache c st s))"
  have pub: "number (\<lambda>p. p = Published) (sy_loads ?s) = number (\<lambda>p. p = Published) (sy_loads s) + 1"
    using number_update [OF p, of "\<lambda>p. p = Published" Published] by simp
  have r: "residents (take j (sy_caches ?s)) \<le> residents (take j (sy_caches s)) + 1" for j
    using residents_take_update_le [of st "sy_caches s" c 1 j] i(3) by simp
  have "residency_ok ?s"
  proof (rule residency_okI)
    show "caches_ok ?s"
    proof (rule caches_replace [of s _ c st])
      show "cache_ok (loads_in early c (sy_loads ?s)) (loads_in (\<lambda>_. True) c (sy_loads ?s))
          (of_cache c (sy_drains ?s)) (of_cache c (sy_leases ?s)) st"
        using i(2) any by (simp add: loads_in_update insert_absorb)
    qed (use ok' in \<open>simp_all add: loads_in_update\<close>)
    show "in_range ?s"
      using ok'(2) k(1) keys_update [OF ok'(2) k(1)] unfolding in_range_def by simp
    show "counts_ok ?s"
      using ok'(3) r [of "length (sy_caches s)"] p number_keep [OF p, of holds_room Published]
        number_update [OF p, of "\<lambda>p. p = Admitted" Published]
      by (simp add: counts_ok_def length_AList_update)
    have "counted_ok ?s x" if "counted_ok s x" for x
      by (rule counted_mono [OF that]) (use pub r in \<open>simp_all del: set_phase_simps(6) add: add_lease_simps\<close>)
    then show "seekers_ok ?s"
      using ok'(4) values_update [of "sy_loads s" "counted_ok ?s" Published]
      unfolding seekers_ok_def by (simp add: counted_ok_def [of _ Published])
  qed
  then show ?thesis using i(1) by (simp add: step_publish_def)
qed

lemma announce_ok:
  assumes ok: "residency_ok s" and p: "map_of (sy_loads s) (c, m) = Some Published"
  shows "residency_ok ((set_phase c m Leaving s)\<lparr>sy_version := sy_version s + 1\<rparr>)" (is "residency_ok ?s")
proof (rule residency_okI)
  note k = load_in_range [OF ok p] and ok' = residency_okD [OF ok]
  have any: "m \<in> loads_in (\<lambda>_. True) c (sy_loads s)" "m \<notin> loads_in early c (sy_loads s)"
    using p by (simp_all add: loads_in_def)
  show "caches_ok ?s"
    by (rule caches_replace [of s _ c "sy_caches s ! c"])
      (use ok' k any in \<open>simp_all add: loads_in_update insert_absorb\<close>)
  show "in_range ?s"
    using ok'(2) k(1) keys_update [OF ok'(2) k(1)] unfolding in_range_def by simp
  show "counts_ok ?s"
    using ok'(3) p number_keep [OF p, of holds_room Leaving] number_keep [OF p, of "\<lambda>p. p = Admitted" Leaving]
    by (simp add: counts_ok_def length_AList_update)
  have "counted_ok ?s x" if "counted_ok s x" for x
    using that by (auto simp: counted_ok_def split: load_phase.splits)
  then show "seekers_ok ?s"
    using ok'(4) values_update [of "sy_loads s" "counted_ok ?s" Leaving]
    unfolding seekers_ok_def by (simp add: counted_ok_def [of _ Leaving])
qed

lemma step_free_ok:
  assumes ok: "residency_ok s" and p: "map_of (sy_loads s) (c, m) = Some Leaving"
  shows "\<exists>s'. step_free c m s = Some s' \<and> residency_ok s'"
proof -
  have "0 < gl_reservations (sy_limiter s)"
    using residency_okD(3) [OF ok] tally_member [OF p, of "\<lambda>p. of_bool (holds_room p)"]
    by (simp add: counts_ok_def number_def)
  moreover from this have "residency_ok ((set_phase c m Freed s)\<lparr>sy_limiter :=
      sy_limiter s\<lparr>gl_reservations := gl_reservations (sy_limiter s) - 1\<rparr>\<rparr>)"
    by (intro phase_step [OF ok p]) (simp_all add: counted_ok_def)
  ultimately show ?thesis by (simp add: step_free_def drop_reservation_def)
qed

lemma step_end_load_ok:
  assumes ok: "residency_ok s" and p: "map_of (sy_loads s) (c, m) = Some Freed"
  shows "residency_ok (step_end_load c m s)" (is "residency_ok ?s")
proof (rule residency_okI)
  note k = load_in_range [OF ok p] and ok' = residency_okD [OF ok]
  have del: "set (AList.delete (c, m) (sy_loads s)) \<subseteq> set (sy_loads s)"
    by (auto simp: AList.delete_eq)
  have r: "resident_len (release_pending m st) = resident_len st" for st :: "'a cache_state"
    by (simp add: release_pending_def resident_len_def)
  have rs: "residents (take j (sy_caches ?s)) \<le> residents (take j (sy_caches s))" for j
    using residents_take_update_le [of "release_pending m (sy_caches s ! c)" "sy_caches s" c 0 j] r
    by (simp add: step_end_load_def)
  have num: "number Q (sy_loads ?s) = number Q (sy_loads s)" if "\<not> Q Freed" for Q
    using number_delete [OF p k(2), of Q] that by (simp add: step_end_load_def)
  show "caches_ok ?s"
    by (rule caches_replace [of s _ c "release_pending m (sy_caches s ! c)"])
      (use ok' release_pending_ok [OF k(3), of m] in \<open>simp_all add: step_end_load_def loads_in_delete\<close>)
  show "in_range ?s"
    using ok'(2) del by (auto simp: in_range_def step_end_load_def AList.delete_eq distinct_map_filter)
  show "counts_ok ?s"
    using ok'(3) rs [of "length (sy_caches s)"] num [of holds_room] num [of "\<lambda>p. p = Admitted"]
      length_AList_delete [OF p k(2)]
    by (simp add: counts_ok_def step_end_load_def)
  have "counted_ok ?s x" if "counted_ok s x" for x
    by (rule counted_mono [OF that]) (use rs num [of "\<lambda>p. p = Published"] in \<open>simp_all add: step_end_load_def\<close>)
  then show "seekers_ok ?s"
    using ok'(4) del unfolding seekers_ok_def by (auto simp: step_end_load_def)
qed

text \<open>The steps of one cache.\<close>

lemma cache_of:
  assumes "residency_ok s" "c < length (sy_caches s)"
  shows "cache_ok (loads_in early c (sy_loads s)) (loads_in (\<lambda>_. True) c (sy_loads s))
       (of_cache c (sy_drains s)) (of_cache c (sy_leases s)) (sy_caches s ! c)"
  using residency_okD(1) [OF assms(1)] assms(2) by (simp add: caches_ok_def)

lemma cache_step_only:
  assumes ok: "residency_ok s" and c: "c < length (sy_caches s)"
    and st: "cache_ok (loads_in early c (sy_loads s)) (loads_in (\<lambda>_. True) c (sy_loads s))
          (of_cache c (sy_drains s)) (of_cache c (sy_leases s)) st"
    and len: "resident_len st \<le> resident_len (sy_caches s ! c)"
  shows "residency_ok (set_cache c st s)"
  using one_cache_step [OF ok c st len] by (simp add: set_cache_def)

lemma lease_step:
  assumes ok: "residency_ok s" and c: "c < length (sy_caches s)"
    and st: "cache_ok (loads_in early c (sy_loads s)) (loads_in (\<lambda>_. True) c (sy_loads s))
          (of_cache c (sy_drains s)) (add_mset (m, e) (of_cache c (sy_leases s))) st"
    and len: "resident_len st \<le> resident_len (sy_caches s ! c)"
  shows "residency_ok (add_lease c m e (set_cache c st s))"
proof -
  have "residency_ok ((set_cache c st s)\<lparr>sy_leases := (c, m, e) # sy_leases s, sy_drains := sy_drains s\<rparr>)"
    by (rule one_cache_step [OF ok c _ len]) (use st in auto)
  then show ?thesis by (simp add: set_cache_def add_lease_def)
qed

lemma drains_step:
  assumes ok: "residency_ok s" and c: "c < length (sy_caches s)"
    and st: "cache_ok (loads_in early c (sy_loads s)) (loads_in (\<lambda>_. True) c (sy_loads s))
          (of_cache c ds) (of_cache c (sy_leases s)) st"
    and len: "resident_len st \<le> resident_len (sy_caches s ! c)"
    and ds: "\<And>c'. c' \<noteq> c \<Longrightarrow> of_cache c' ds = of_cache c' (sy_drains s)" "\<And>x. x \<in> set ds \<Longrightarrow> fst x = c \<or> x \<in> set (sy_drains s)"
  shows "residency_ok ((set_cache c st s)\<lparr>sy_drains := ds\<rparr>)"
proof -
  have "residency_ok ((set_cache c st s)\<lparr>sy_leases := sy_leases s, sy_drains := ds\<rparr>)"
    by (rule one_cache_step [OF ok c st len ds]) auto
  then show ?thesis by (simp add: set_cache_def)
qed

lemma step_fetch_ok:
  assumes ok: "residency_ok s" and c: "c < length (sy_caches s)"
  shows "residency_ok (step_fetch c m s)"
proof -
  obtain st r where g: "get_loaded (sy_now s) m (sy_caches s ! c) = (st, r)" by fastforce
  obtain st1 r1 where k: "check_loaded (sy_now s) m (sy_caches s ! c) = (st1, r1)" by fastforce
  note k1 = check_loaded_ok [OF cache_of [OF ok c] k]
  have "(st = sy_caches s ! c \<and> r = NotAvailable) \<or> (st = st1 \<and> (r1 = Some r \<or> (r1 = None \<and> r = NotAvailable)))"
    using g k by (auto simp: get_loaded_def split: if_splits option.splits)
  then have "cache_ok (loads_in early c (sy_loads s)) (loads_in (\<lambda>_. True) c (sy_loads s))
          (of_cache c (sy_drains s)) (admission_leases m r + of_cache c (sy_leases s)) st"
      "resident_len st \<le> resident_len (sy_caches s ! c)"
    using k1 cache_of [OF ok c] by auto
  then show ?thesis
    using lease_step [OF ok c] cache_step_only [OF ok c] by (cases r) (simp_all add: step_fetch_def g)
qed

lemma step_acquire_ok:
  assumes ok: "residency_ok s" and c: "c < length (sy_caches s)" and w: "0 < sy_waiting s"
  shows "residency_ok (step_acquire c m s)"
proof -
  obtain st r where a: "admit_load (sy_now s) m (sy_caches s ! c) = (st, r)" by fastforce
  note k = admit_load_ok [OF cache_of [OF ok c] a]
  show ?thesis
  proof (cases "r = Reserved")
    case False
    then show ?thesis
      using k lease_step [OF ok c] cache_step_only [OF ok c] by (cases r) (simp_all add: step_acquire_def a)
  next
    case True
    let ?s = "(set_phase c m Resting (set_cache c st s))\<lparr>sy_waiting := sy_waiting s - 1\<rparr>"
    note ok' = residency_okD [OF ok]
    have new: "map_of (sy_loads s) (c, m) = None" using k(1) True by (auto simp: loads_in_def)
    have r: "residents (take j (sy_caches ?s)) \<le> residents (take j (sy_caches s))" for j
      using residents_take_update_le [of st "sy_caches s" c 0 j] k(2) by simp
    have num: "number Q (sy_loads ?s) = number Q (sy_loads s)" if "\<not> Q Resting" for Q
      using number_insert [OF new, of Q Resting] that by simp
    have "residency_ok ?s"
    proof (rule residency_okI)
      show "caches_ok ?s"
        by (rule caches_replace [of s _ c st]) (use ok' k(1) True in \<open>simp_all add: loads_in_update\<close>)
      show "in_range ?s"
        using ok'(2) keys_update [OF ok'(2) c] unfolding in_range_def by simp
      show "counts_ok ?s"
        using ok'(3) w r [of "length (sy_caches s)"] num [of holds_room] num [of "\<lambda>p. p = Admitted"] new
        by (simp add: counts_ok_def length_AList_update)
      have "counted_ok ?s x" if "counted_ok s x" for x
        by (rule counted_mono [OF that]) (use r num [of "\<lambda>p. p = Published"] in simp_all)
      then show "seekers_ok ?s"
        using ok'(4) values_update [of "sy_loads s" "counted_ok ?s" Resting]
        unfolding seekers_ok_def by (simp add: counted_ok_def [of _ Resting])
    qed
    then show ?thesis using True by (simp add: step_acquire_def a)
  qed
qed

lemma step_clone_ok:
  assumes ok: "residency_ok s" and e: "(c, m, e) \<in> set (sy_leases s)"
  shows "\<exists>s'. step_clone c m e s = Some s' \<and> residency_ok s'"
proof -
  have c: "c < length (sy_caches s)" using residency_okD(2) [OF ok] e by (fastforce simp: in_range_def)
  note k = cache_of [OF ok c]
  obtain l where l: "map_of (ca_loaded (sy_caches s ! c)) m = Some l" "lm_epoch l = e"
    using lease_of [OF k of_cache_mem [OF e]] by metis
  let ?st = "(sy_caches s ! c)\<lparr>ca_loaded := AList.update m (new_lease l) (ca_loaded (sy_caches s ! c))\<rparr>"
  have "cache_ok (loads_in early c (sy_loads s)) (loads_in (\<lambda>_. True) c (sy_loads s))
      (of_cache c (sy_drains s)) (add_mset (m, e) (of_cache c (sy_leases s))) ?st"
    using relet_ok [OF k l(1)] leases_ok_lease [OF cache_okD(14) [OF k] l(1), of "new_lease l"] l(2)
    by (simp add: new_lease_def)
  then have "residency_ok (add_lease c m e (set_cache c ?st s))"
    by (intro lease_step [OF ok c]) (simp_all add: relet_len [OF l(1)])
  then show ?thesis by (simp add: step_clone_def l(1))
qed

lemma step_drop_ok:
  assumes ok: "residency_ok s" and e: "(c, m, e) \<in> set (sy_leases s)"
  shows "\<exists>s'. step_drop c m e s = Some s' \<and> residency_ok s'"
proof -
  have c: "c < length (sy_caches s)" using residency_okD(2) [OF ok] e by (fastforce simp: in_range_def)
  note k = cache_of [OF ok c]
  obtain l where l: "map_of (ca_loaded (sy_caches s ! c)) m = Some l" "lm_epoch l = e"
    using lease_of [OF k of_cache_mem [OF e]] by metis
  obtain l' b where d: "drop_lease (sy_now s) l = Some (l', b)"
      "cache_ok (loads_in early c (sy_loads s)) (loads_in (\<lambda>_. True) c (sy_loads s))
        (of_cache c (sy_drains s)) (of_cache c (sy_leases s) - {#(m, e)#})
        ((sy_caches s ! c)\<lparr>ca_loaded := AList.update m l' (ca_loaded (sy_caches s ! c))\<rparr>)" (is "cache_ok _ _ _ _ ?st")
    by (rule drop_lease_ok [OF k of_cache_mem [OF e] l(1)]) (rule that)
  have "residency_ok ((set_cache c ?st s)\<lparr>sy_leases := remove1 (c, m, e) (sy_leases s), sy_drains := sy_drains s\<rparr>)"
    by (rule one_cache_step [OF ok c])
      (use d(2) in \<open>auto simp: of_cache_remove1 relet_len [OF l(1)] dest: notin_set_remove1 set_remove1_subset [THEN subsetD]\<close>)
  then show ?thesis by (simp add: step_drop_def l(1) d(1) set_cache_def)
qed

lemma step_unload_many_ok:
  assumes ok: "residency_ok s" and c: "c < length (sy_caches s)"
  shows "residency_ok (step_unload_many c ms s)"
proof (cases "begin_drain (unload_targets ms (sy_caches s ! c)) (sy_caches s ! c)")
  case (Some st)
  have "distinct (unload_targets ms (sy_caches s ! c))" by (simp add: unload_targets_def)
  note b = begin_drain_ok [OF cache_of [OF ok c] this Some]
  have "residency_ok ((set_cache c st s)\<lparr>sy_drains := (c, DrainMany (unload_targets ms (sy_caches s ! c))) # sy_drains s\<rparr>)"
    by (rule drains_step [OF ok c]) (use b in auto)
  then show ?thesis using ok by (simp add: step_unload_many_def Let_def Some)
qed (use ok in \<open>simp add: step_unload_many_def Let_def\<close>)

lemma drain_in_range:
  assumes "residency_ok s" "(c, d) \<in> set (sy_drains s)"
  shows "c < length (sy_caches s)"
    "cache_ok (loads_in early c (sy_loads s)) (loads_in (\<lambda>_. True) c (sy_loads s))
       (add_mset d (of_cache c (sy_drains s) - {#d#})) (of_cache c (sy_leases s)) (sy_caches s ! c)"
proof -
  show c: "c < length (sy_caches s)"
    using residency_okD(2) [OF assms(1)] assms(2) by (auto simp: in_range_def)
  show "cache_ok (loads_in early c (sy_loads s)) (loads_in (\<lambda>_. True) c (sy_loads s))
       (add_mset d (of_cache c (sy_drains s) - {#d#})) (of_cache c (sy_leases s)) (sy_caches s ! c)"
    using cache_of [OF assms(1) c] of_cache_mem [OF assms(2)] by simp
qed

lemma undrain_step:
  assumes ok: "residency_ok s" and d: "(c, d) \<in> set (sy_drains s)"
    and st: "cache_ok (loads_in early c (sy_loads s)) (loads_in (\<lambda>_. True) c (sy_loads s))
          (of_cache c (sy_drains s) - {#d#}) (of_cache c (sy_leases s)) st"
    and len: "resident_len st = resident_len (sy_caches s ! c)"
  shows "residency_ok ((set_cache c st s)\<lparr>sy_drains := remove1 (c, d) (sy_drains s)\<rparr>)"
  by (rule drains_step [OF ok drain_in_range(1) [OF ok d]])
    (use st len in \<open>auto simp: of_cache_remove1 dest: set_remove1_subset [THEN subsetD]\<close>)

lemma step_finish_many_ok:
  assumes ok: "residency_ok s" and d: "(c, DrainMany ms) \<in> set (sy_drains s)"
  shows "residency_ok (step_finish_many c ms s)"
proof (cases "finish_drain ms (sy_caches s ! c)")
  case (Some r)
  obtain st out where r: "r = (st, out)" by fastforce
  note k = drain_in_range(2) [OF ok d]
  note f = finish_drain_ok [OF k Some [unfolded r]]
  show ?thesis using undrain_step [OF ok d f] by (simp add: step_finish_many_def Some r)
qed (use ok in \<open>simp add: step_finish_many_def\<close>)

lemma step_unload_ok:
  assumes ok: "residency_ok s" and c: "c < length (sy_caches s)"
  shows "residency_ok (step_unload c m s)"
proof -
  obtain st r where u: "unload_pass False m (sy_caches s ! c) = (st, r)" by fastforce
  note k = unload_first_ok [OF cache_of [OF ok c] u]
  have "residency_ok ((set_cache c st s)\<lparr>sy_drains := (c, DrainOne m) # sy_drains s\<rparr>)" if "r = UnloadWaitDraining"
    by (rule drains_step [OF ok c]) (use k that in auto)
  then show ?thesis
    using k cache_step_only [OF ok c] by (cases r) (simp_all add: step_unload_def u)
qed

lemma step_unload_again_ok:
  assumes ok: "residency_ok s" and d: "(c, DrainOne m) \<in> set (sy_drains s)"
  shows "\<exists>s'. step_unload_again c m s = Some s' \<and> residency_ok s'"
proof -
  obtain st r where u: "unload_pass True m (sy_caches s ! c) = (st, r)" by fastforce
  note k = drain_in_range(2) [OF ok d]
  from unload_again_ok [OF k u] show ?thesis
  proof (elim disjE conjE)
    assume "r = UnloadWaitDraining" "st = sy_caches s ! c"
    then show ?thesis using ok by (simp add: step_unload_again_def u set_cache_def)
  next
    assume "r = Retired" "cache_ok (loads_in early c (sy_loads s)) (loads_in (\<lambda>_. True) c (sy_loads s))
          (of_cache c (sy_drains s) - {#DrainOne m#}) (of_cache c (sy_leases s)) st"
      "resident_len st = resident_len (sy_caches s ! c)"
    then show ?thesis using undrain_step [OF ok d] by (simp add: step_unload_again_def u)
  qed
qed

lemma cache_ok_latch: "cache_ok E P D L (latch_load_failure m phase st) = cache_ok E P D L st"
  by (simp add: cache_ok_def latch_load_failure_def resident_len_def)

lemma latch_ok:
  "cache_ok E P D L st \<Longrightarrow> cache_ok E P D L (latch_load_failure m phase st)"
  "resident_len (latch_load_failure m phase st) = resident_len st"
  by (simp add: cache_ok_latch) (simp add: latch_load_failure_def resident_len_def)

lemma step_fail_ok:
  assumes ok: "residency_ok s" and p: "map_of (sy_loads s) (c, m) = Some Admitted"
  shows "residency_ok (step_fail c m failure s)"
proof -
  let ?s = "case failure of None \<Rightarrow> s
    | Some phase \<Rightarrow> set_cache c (latch_load_failure m phase (sy_caches s ! c)) s"
  have "residency_ok ?s"
    using ok cache_step_only [OF ok load_in_range(1) [OF ok p] latch_ok(1) [OF load_in_range(3) [OF ok p]]]
    by (simp add: latch_ok(2) split: option.split)
  moreover have "map_of (sy_loads ?s) (c, m) = Some Admitted" using p by (simp split: option.split)
  ultimately show ?thesis
    unfolding step_fail_def by (rule phase_step_only) (simp_all add: counted_ok_def)
qed

lemma read_cache_ok:
  assumes ok: "residency_ok s" and p: "map_of (sy_loads s) (c, m) = Some (Seeking v k counted)"
    and k: "k < length (sy_caches s)"
  shows "residency_ok (set_phase c m (Seeking v (k + 1) (counted + resident_len (sy_caches s ! k))) s)"
proof -
  have "counted_ok s (Seeking v k counted)"
    using residency_okD(4) [OF ok] map_of_SomeD [OF p] by (force simp: seekers_ok_def)
  then have "counted_ok s (Seeking v (k + 1) (counted + resident_len (sy_caches s ! k)))"
    using k by (simp add: counted_ok_def take_Suc_conv_app_nth residents_def)
  then show ?thesis by (intro phase_step_only [OF ok p]) simp_all
qed

lemma frame_ok:
  assumes "residency_ok s"
  shows "residency_ok (s\<lparr>sy_version := sy_version s + d\<rparr>)" "residency_ok (s\<lparr>sy_now := t\<rparr>)"
    "residency_ok (s\<lparr>sy_limiter := close (sy_limiter s)\<rparr>)"
    "gl_cold g + sy_waiting s = gl_cold (sy_limiter s) + w \<Longrightarrow> gl_max g = gl_max (sy_limiter s) \<Longrightarrow>
       gl_reservations g = gl_reservations (sy_limiter s) \<Longrightarrow>
       residency_ok (s\<lparr>sy_limiter := g, sy_waiting := w\<rparr>)"
proof -
  have c: "counted_ok (s\<lparr>sy_version := sy_version s + d\<rparr>) p" if "counted_ok s p" for p
    by (rule counted_mono [OF that]) simp_all
  show "residency_ok (s\<lparr>sy_version := sy_version s + d\<rparr>)"
    using assms c by (simp add: residency_ok_def caches_ok_def in_range_def counts_ok_def seekers_ok_def)
qed (use assms in \<open>simp_all add: residency_ok_def caches_ok_def in_range_def counts_ok_def seekers_ok_def
       counted_ok_def close_def cong: load_phase.case_cong\<close>)

lemma residency_step_ok:
  assumes ok: "residency_ok s"
  shows "\<exists>s'. residency_step a s = Some s' \<and> residency_ok s'"
proof (cases a)
  case BeginCold
  then show ?thesis
    using ok frame_ok(4) [OF ok, of "sy_limiter s\<lparr>gl_cold := gl_cold (sy_limiter s) + 1\<rparr>" "sy_waiting s + 1"]
    by (simp add: begin_cold_task_def)
next
  case EndCold
  show ?thesis
  proof (cases "sy_waiting s")
    case (Suc w)
    then have "0 < gl_cold (sy_limiter s)" using residency_okD(3) [OF ok] by (simp add: counts_ok_def)
    moreover from this have "residency_ok (s\<lparr>sy_limiter := sy_limiter s\<lparr>gl_cold := gl_cold (sy_limiter s) - 1\<rparr>,
        sy_waiting := w\<rparr>)"
      using Suc by (intro frame_ok(4) [OF ok]) simp_all
    ultimately show ?thesis using EndCold Suc by (simp add: end_cold_task_def)
  qed (use EndCold ok in simp)
next
  case (StartReserve c m)
  have "counted_ok s (Seeking (sy_version s) 0 0)" by (simp add: counted_ok_def residents_def)
  then have "residency_ok (set_phase c m (Seeking (sy_version s) 0 0) s)"
    if "map_of (sy_loads s) (c, m) = Some Resting"
    by (intro phase_step_only [OF ok that]) simp_all
  then show ?thesis using StartReserve ok by simp
next
  case (FailLoad c m failure)
  have "residency_ok (set_phase c m Freed s)"
    if "map_of (sy_loads s) (c, m) = Some p" "p = Resting \<or> (\<exists>v k n. p = Seeking v k n)" for p
    by (intro phase_step_only [OF ok that(1)]) (use that(2) in \<open>auto simp: counted_ok_def\<close>)
  then show ?thesis
    using FailLoad ok step_fail_ok [OF ok] by (auto split: option.split load_phase.split)
next
  case (Announce c m)
  then show ?thesis using ok announce_ok [OF ok] by simp
next
  case (Publish c m)
  then show ?thesis using ok step_publish_ok [OF ok] by simp
next
  case (RetireIdle c)
  then show ?thesis
    using ok cache_step_only [OF ok] retire_idle_ok [OF cache_of [OF ok], of c "sy_now s"] by simp
next
  case (EvictTracked c m)
  then show ?thesis
    using ok cache_step_only [OF ok] evict_tracked_ok [OF cache_of [OF ok], of c m] by simp
next
  case (FinishRetirement c m)
  then show ?thesis
    using ok cache_step_only [OF ok] finish_retirement_ok [OF cache_of [OF ok], of c m] by simp
next
  case (ReadCache c m)
  then show ?thesis using ok read_cache_ok [OF ok] by (auto split: option.split load_phase.split)
next
  case (DecideReserve c m)
  then show ?thesis using ok step_decide_ok [OF ok] by (auto split: option.split load_phase.split)
qed (use ok frame_ok(1) [OF ok, of 1] frame_ok(2,3) [OF ok] step_fetch_ok [OF ok] step_acquire_ok [OF ok] step_free_ok [OF ok]
      step_end_load_ok [OF ok] step_clone_ok [OF ok] step_drop_ok [OF ok] step_unload_many_ok [OF ok]
      step_finish_many_ok [OF ok] step_unload_ok [OF ok] step_unload_again_ok [OF ok] in simp_all)

lemma residency_run_ok:
  assumes "residency_ok s"
  obtains s' where "residency_run acts s = Some s'" "residency_ok s'"
proof -
  have "\<exists>s'. residency_run acts s = Some s' \<and> residency_ok s'"
    using assms
  proof (induction acts arbitrary: s)
    case (Cons a acts)
    then show ?case using residency_step_ok [OF Cons.prems, of a] by fastforce
  qed simp
  then show ?thesis using that by blast
qed

lemma residency_start_ok: "residency_ok (residency_start configs n)"
proof -
  have c: "cache_ok {} {} {#} {#} (new_model_cache av t k)" for av :: "'a list" and t k
    by (simp add: cache_ok_def new_model_cache_def leases_ok_def resident_len_def)
  have r: "residents (map (\<lambda>(available, idle_timeout, n). new_model_cache available idle_timeout n) configs) = 0"
    by (auto simp: residents_def resident_len_def new_model_cache_def)
  show ?thesis
    using r by (auto simp: residency_ok_def caches_ok_def in_range_def counts_ok_def seekers_ok_def c
        residency_start_def loads_in_def new_limiter_def number_def split: prod.split)
qed

section \<open>What the steps leave alone\<close>

text \<open>All operations but the publication of an engine keep a cache's configuration and load nothing: each
  model in the cache was there before, by the same load.\<close>

definition tame :: "'m cache_state \<Rightarrow> 'm cache_state \<Rightarrow> bool" where
  "tame st st' \<longleftrightarrow>
     ca_max_loaded st' = ca_max_loaded st \<and> ca_available st' = ca_available st
     \<and> (\<forall>m l'. map_of (ca_loaded st') m = Some l' \<longrightarrow> (\<exists>l. map_of (ca_loaded st) m = Some l \<and> lm_epoch l = lm_epoch l'))"

lemma tame_refl [simp]: "tame st st"
  by (simp add: tame_def)

lemma tame_trans: "tame a b \<Longrightarrow> tame b c \<Longrightarrow> tame a c"
  unfolding tame_def by metis

lemma tame_frame:
  "tame st (st\<lparr>ca_draining := X\<rparr>)" "tame st (finish_retirement m st)" "tame st (release_pending m st)"
  "tame st (latch_load_failure m ph st)" "tame st (st\<lparr>ca_pending := X\<rparr>)"
  by (simp_all add: tame_def finish_retirement_def release_pending_def latch_load_failure_def)

lemma tame_undrain: "tame st st' \<Longrightarrow> tame st (st'\<lparr>ca_draining := X\<rparr>)" "tame (st\<lparr>ca_draining := X\<rparr>) st' = tame st st'"
  by (simp_all add: tame_def)

lemma tame_retire: "tame st (fst (retire m st))"
  by (auto simp: tame_def retire_def AList.delete_conv' split: option.split)

lemma tame_retire_all: "tame st (fst (retire_all ms st))"
proof (induction ms arbitrary: st)
  case (Cons m ms)
  show ?case using tame_trans [OF tame_retire Cons.IH] by (simp add: Let_def case_prod_unfold)
qed simp

lemma tame_relet:
  "map_of (ca_loaded st) m = Some l \<Longrightarrow> lm_epoch l' = lm_epoch l \<Longrightarrow>
     tame st (st\<lparr>ca_loaded := AList.update m l' (ca_loaded st)\<rparr>)"
  by (auto simp: tame_def update_conv')

lemma tame_check: "check_loaded now m st = (st', r) \<Longrightarrow> tame st st'"
  by (auto simp: check_loaded_def lease_loaded_def new_lease_def touch_model_def tame_relet
      split: if_splits option.splits)

lemma tame_get: "get_loaded now m st = (st', r) \<Longrightarrow> tame st st'"
  by (auto simp: get_loaded_def dest: tame_check split: if_splits option.splits prod.splits)

lemma tame_lru: "tame st (fst (retire_lru st))"
  by (auto simp: retire_lru_def tame_retire_all simp del: retire_all.simps split: option.split)

lemma tame_admit: "admit_load now m st = (st', r) \<Longrightarrow> tame st st'"
  using tame_lru [of st]
  by (auto simp: admit_load_def tame_frame dest: tame_check split: if_splits option.splits prod.splits list.splits)

lemma tame_unload: "unload_pass b m st = (st', r) \<Longrightarrow> tame st st'"
  by (auto simp: unload_pass_def Let_def tame_frame retire_draining tame_undrain tame_retire
      split: if_splits option.splits)

lemma tame_begin: "begin_drain ms st = Some st' \<Longrightarrow> tame st st'"
  by (auto simp: begin_drain_def tame_frame split: if_splits)

lemma tame_finish: "finish_drain ms st = Some (st', out) \<Longrightarrow> tame st st'"
  using tame_retire_all [of st ms]
  by (auto simp: finish_drain_def Let_def case_prod_unfold tame_undrain split: if_splits)

lemma tame_evict: "tame st (fst (evict_tracked m st))"
  by (auto simp: evict_tracked_def tame_retire split: option.split)

text \<open>The same for a whole system, whose limiter may be closed.\<close>

definition tame_system :: "'m residency \<Rightarrow> 'm residency \<Rightarrow> bool" where
  "tame_system s s' \<longleftrightarrow>
     length (sy_caches s') = length (sy_caches s) \<and> gl_max (sy_limiter s') = gl_max (sy_limiter s)
     \<and> (\<forall>c < length (sy_caches s). tame (sy_caches s ! c) (sy_caches s' ! c))"

lemma tame_system_refl [simp]: "tame_system s s"
  by (simp add: tame_system_def)

lemma tame_system_trans: "tame_system a b \<Longrightarrow> tame_system b c \<Longrightarrow> tame_system a c"
  unfolding tame_system_def using tame_trans by metis

lemma tame_system_cache:
  assumes "sy_caches s' = (sy_caches s)[c := st]" "tame (sy_caches s ! c) st" "gl_max (sy_limiter s') = gl_max (sy_limiter s)"
  shows "tame_system s s'"
  unfolding tame_system_def
proof (intro conjI allI impI)
  fix k assume "k < length (sy_caches s)"
  then show "tame (sy_caches s ! k) (sy_caches s' ! k)" using assms(1,2) by (cases "k = c") auto
qed (use assms in auto)

lemma step_tame:
  assumes st: "residency_step a s = Some s'" and np: "\<And>c m. a \<noteq> Publish c m"
  shows "tame_system s s'"
proof (cases a)
  case (Fetch c m)
  obtain st r where g: "get_loaded (sy_now s) m (sy_caches s ! c) = (st, r)" by fastforce
  have "sy_caches (step_fetch c m s) = (sy_caches s)[c := st] \<and> sy_limiter (step_fetch c m s) = sy_limiter s"
    by (cases r) (simp_all add: step_fetch_def g)
  then show ?thesis using Fetch st tame_system_cache [of "step_fetch c m s" s c st] tame_get [OF g] by (simp split: if_splits)
next
  case (Acquire c m)
  obtain st r where g: "admit_load (sy_now s) m (sy_caches s ! c) = (st, r)" by fastforce
  have "sy_caches (step_acquire c m s) = (sy_caches s)[c := st] \<and> sy_limiter (step_acquire c m s) = sy_limiter s"
    by (cases r) (simp_all add: step_acquire_def g)
  then show ?thesis using Acquire st tame_system_cache [of "step_acquire c m s" s c st] tame_admit [OF g] by (simp split: if_splits)
next
  case (Unload c m)
  obtain st r where g: "unload_pass False m (sy_caches s ! c) = (st, r)" by fastforce
  have "sy_caches (step_unload c m s) = (sy_caches s)[c := st] \<and> sy_limiter (step_unload c m s) = sy_limiter s"
    by (cases r) (simp_all add: step_unload_def g)
  then show ?thesis using Unload st tame_system_cache [of "step_unload c m s" s c st] tame_unload [OF g] by (simp split: if_splits)
next
  case (UnloadAgain c m)
  obtain st r where g: "unload_pass True m (sy_caches s ! c) = (st, r)" by fastforce
  show ?thesis
  proof (cases "(c, DrainOne m) \<in> set (sy_drains s)")
    case True
    then have "sy_caches s' = (sy_caches s)[c := st] \<and> sy_limiter s' = sy_limiter s"
      using st UnloadAgain by (cases r) (auto simp: step_unload_again_def g)
    then show ?thesis using tame_system_cache [of s' s c st] tame_unload [OF g] by simp
  qed (use st UnloadAgain in simp)
next
  case (UnloadMany c ms)
  have "tame_system s (step_unload_many c ms s)"
  proof (cases "begin_drain (unload_targets ms (sy_caches s ! c)) (sy_caches s ! c)")
    case (Some st)
    then show ?thesis
      using tame_system_cache [of "(set_cache c st s)\<lparr>sy_drains := X\<rparr>" s c st for X] tame_begin [OF Some]
      by (simp add: step_unload_many_def Let_def)
  qed (simp add: step_unload_many_def Let_def)
  then show ?thesis using UnloadMany st by (simp split: if_splits)
next
  case (FinishMany c ms)
  have "tame_system s (step_finish_many c ms s)"
  proof (cases "finish_drain ms (sy_caches s ! c)")
    case (Some r)
    obtain st out where r: "r = (st, out)" by fastforce
    show ?thesis
      using tame_system_cache [of "(set_cache c st s)\<lparr>sy_drains := X\<rparr>" s c st for X] tame_finish [OF Some [unfolded r]]
      by (simp add: step_finish_many_def Some r)
  qed (simp add: step_finish_many_def)
  then show ?thesis using FinishMany st by (simp split: if_splits)
next
  case (RetireIdle c)
  then show ?thesis
    using st tame_retire_all by (auto simp: retire_idle_def intro!: tame_system_cache split: if_splits)
next
  case (EvictTracked c m)
  then show ?thesis using st tame_evict by (auto intro!: tame_system_cache split: if_splits)
next
  case (FinishRetirement c m)
  then show ?thesis using st tame_frame(2) by (auto intro!: tame_system_cache split: if_splits)
next
  case (CloneLease c m e)
  then show ?thesis
    using st by (auto simp: step_clone_def new_lease_def intro!: tame_system_cache tame_relet split: if_splits option.splits)
next
  case (DropLease c m e)
  then show ?thesis
    using st by (auto simp: step_drop_def drop_lease_def intro!: tame_system_cache tame_relet
        split: if_splits option.splits)
next
  case (FailLoad c m failure)
  have "tame_system s (step_fail c m failure s)"
  proof (cases failure)
    case (Some ph)
    show ?thesis
      by (rule tame_system_cache [of _ _ c "latch_load_failure m ph (sy_caches s ! c)"])
        (simp_all add: step_fail_def Some tame_frame)
  qed (simp add: step_fail_def tame_system_def)
  moreover have "tame_system s (set_phase c m Freed s)" by (simp add: tame_system_def)
  ultimately show ?thesis using st FailLoad by (auto split: option.splits load_phase.splits)
next
  case (EndLoad c m)
  then show ?thesis
    using st tame_frame(3) by (auto simp: step_end_load_def intro!: tame_system_cache split: if_splits)
next
  case (ReadCache c m)
  then show ?thesis using st by (auto simp: tame_system_def split: option.splits load_phase.splits if_splits)
next
  case (DecideReserve c m)
  then show ?thesis
    using st by (auto simp: tame_system_def step_decide_def decide_reserve_def split: option.splits load_phase.splits if_splits)
next
  case (Publish c m)
  then show ?thesis using np by blast
qed (use st in \<open>auto simp: tame_system_def begin_cold_task_def end_cold_task_def step_free_def drop_reservation_def
      close_def split: option.splits if_splits\<close>)

text \<open>The limits of the configuration never change.\<close>

definition same_limits :: "'m residency \<Rightarrow> 'm residency \<Rightarrow> bool" where
  "same_limits s s' \<longleftrightarrow>
     gl_max (sy_limiter s') = gl_max (sy_limiter s)
     \<and> map ca_max_loaded (sy_caches s') = map ca_max_loaded (sy_caches s)"

lemma step_same_limits:
  assumes st: "residency_step a s = Some s'"
  shows "same_limits s s'"
proof (cases "\<exists>c m. a = Publish c m")
  case False
  then have "tame_system s s'" using step_tame [OF st] by blast
  then show ?thesis by (auto simp: tame_system_def tame_def same_limits_def intro!: nth_equalityI)
next
  case True
  then obtain c m where a: "a = Publish c m" by blast
  show ?thesis
  proof (cases "insert_loaded (sy_now s) m (sy_caches s ! c)")
    case None
    then show ?thesis using st a by (auto simp: step_publish_def same_limits_def split: if_splits)
  next
    case (Some r)
    obtain st' e where r: "r = (st', e)" by fastforce
    then have "ca_max_loaded st' = ca_max_loaded (sy_caches s ! c)"
      using Some by (auto simp: insert_loaded_def Let_def split: if_splits)
    then have "map ca_max_loaded ((sy_caches s)[c := st']) = map ca_max_loaded (sy_caches s)"
      by (cases "c < length (sy_caches s)") (auto simp: map_update intro!: nth_equalityI simp: nth_list_update)
    then show ?thesis using st a Some r by (auto simp: step_publish_def same_limits_def split: if_splits)
  qed
qed

lemma run_same_limits: "residency_run acts s = Some s' \<Longrightarrow> same_limits s s'"
proof (induction acts arbitrary: s)
  case (Cons a acts)
  obtain s1 where s1: "residency_step a s = Some s1" "residency_run acts s1 = Some s'"
    using Cons.prems by (auto simp: bind_eq_Some_conv)
  show ?case using step_same_limits [OF s1(1)] Cons.IH [OF s1(2)] by (simp add: same_limits_def)
qed (simp add: same_limits_def)

text \<open>A closed limiter without tasks stays so, and no cache gets a new engine.\<close>

lemma closed_step:
  assumes ok: "residency_ok s" and st: "residency_step a s = Some s'"
    and cl: "gl_closed (sy_limiter s)" "gl_cold (sy_limiter s) = 0"
  shows "gl_closed (sy_limiter s') \<and> gl_cold (sy_limiter s') = 0 \<and> tame_system s s'"
proof -
  have none: "sy_loads s = []" "sy_waiting s = 0"
    using residency_okD(3) [OF ok] cl by (simp_all add: counts_ok_def)
  have f: "sy_limiter (step_fetch c m s) = sy_limiter s" for c m
    by (simp add: step_fetch_def split: prod.split load_admission.split)
  have u: "sy_limiter (step_unload c m s) = sy_limiter s" for c m
    by (simp add: step_unload_def split: prod.split unload_result.split)
  have n: "a \<noteq> Publish c m \<or> s' = s" for c m using st none by (cases a) auto
  have t: "tame_system s s'"
  proof (cases "\<exists>c m. a = Publish c m")
    case True
    then show ?thesis using n by auto
  qed (use step_tame [OF st] in blast)
  show ?thesis
  proof (cases a)
    case (UnloadAgain c m)
    then show ?thesis
      using st cl t by (auto simp: step_unload_again_def split: if_splits prod.splits unload_result.splits)
  qed (use st cl t none f u in \<open>auto simp: begin_cold_task_def step_clone_def step_drop_def close_def
      step_unload_many_def step_finish_many_def Let_def split: if_splits option.splits prod.splits\<close>)
qed

lemma closed_run:
  assumes "residency_ok s" "residency_run acts s = Some s'"
    and "gl_closed (sy_limiter s)" "gl_cold (sy_limiter s) = 0"
  shows "gl_cold (sy_limiter s') = 0 \<and> tame_system s s' \<and> residency_ok s'"
  using assms
proof (induction acts arbitrary: s)
  case (Cons a acts)
  obtain s1 where s1: "residency_step a s = Some s1" "residency_run acts s1 = Some s'"
    using Cons.prems(2) by (auto simp: bind_eq_Some_conv)
  note c = closed_step [OF Cons.prems(1) s1(1) Cons.prems(3,4)]
  have "residency_ok s1" using residency_step_ok [OF Cons.prems(1), of a] s1(1) by simp
  then show ?case using Cons.IH [OF \<open>residency_ok s1\<close> s1(2)] c tame_system_trans [of s s1 s'] by simp
qed simp

section \<open>Properties\<close>

text \<open>C27. However the tasks of a server interleave, no step panics (no count underflows, no model is inserted
  twice, no limit assertion fails, no unloading task loses its model), no cache ever has more resident
  models than its limit, counting those being loaded and those being destroyed, and all caches together never have more
  than the common limit, although every load counts the models of the caches one by one while others
  load and unload; and a cache drains exactly the models its unloading tasks wait for.\<close>

theorem residents_stay_within_limits:
  "\<exists>s. residency_run acts (residency_start configs max_loaded) = Some s
     \<and> residents (sy_caches s) \<le> max_loaded
     \<and> (\<forall>c < length configs.
          resident_len (sy_caches s ! c) + card (loads_in early c (sy_loads s)) \<le> snd (snd (configs ! c))
          \<and> mset (ca_draining (sy_caches s ! c)) = drained_by (of_cache c (sy_drains s)))"
proof -
  obtain s where s: "residency_run acts (residency_start configs max_loaded) = Some s" "residency_ok s"
    by (rule residency_run_ok [OF residency_start_ok])
  have l: "gl_max (sy_limiter s) = max_loaded" "map ca_max_loaded (sy_caches s) = map (snd \<circ> snd) configs"
    using run_same_limits [OF s(1)]
    by (simp_all add: same_limits_def residency_start_def new_limiter_def new_model_cache_def case_prod_unfold)
  have c: "c < length (sy_caches s)" "ca_max_loaded (sy_caches s ! c) = snd (snd (configs ! c))"
    if "c < length configs" for c
    using arg_cong [OF l(2), of length] arg_cong [OF l(2), of "\<lambda>xs. xs ! c"] that by simp_all
  show ?thesis
    using s residency_okD(3) [OF s(2)] l(1) cache_okD(12,15) [OF cache_of [OF s(2) c(1)]] c(2)
    by (auto simp: counts_ok_def)
qed

text \<open>C28. A model with a lease stays: in every state a server can reach, each lease's engine is in its cache,
  from the very load the lease was taken from, with a lease count that counts exactly the leases that are
  out; so an engine is evicted, retired or unloaded only when nobody uses it.\<close>

theorem leased_engine_stays:
  assumes "residency_run acts (residency_start configs max_loaded) = Some s" "(c, m, e) \<in> set (sy_leases s)"
  shows "\<exists>l. map_of (ca_loaded (sy_caches s ! c)) m = Some l \<and> lm_epoch l = e
    \<and> lm_leases l = count_list (sy_leases s) (c, m, e) \<and> m \<notin> set (ca_retiring (sy_caches s ! c))"
proof -
  obtain s' where "residency_run acts (residency_start configs max_loaded) = Some s'" "residency_ok s'"
    by (rule residency_run_ok [OF residency_start_ok])
  then have ok: "residency_ok s" using assms(1) by simp
  have c: "c < length (sy_caches s)" using residency_okD(2) [OF ok] assms(2) by (fastforce simp: in_range_def)
  note k = cache_of [OF ok c]
  obtain l where l: "map_of (ca_loaded (sy_caches s ! c)) m = Some l" "lm_epoch l = e"
    using lease_of [OF k of_cache_mem [OF assms(2)]] by metis
  have "count (of_cache c xs) (m, e) = count_list xs (c, m, e)" for xs :: "(nat \<times> 'a \<times> nat) list"
    by (induction xs) auto
  then show ?thesis
    using l leases_okD(1) [OF cache_okD(14) [OF k] l(1)] cache_okD(7) [OF k l(1)] by simp
qed

text \<open>One load of model 7 into the only cache, up to the return of its lease.\<close>

definition one_load :: "nat residency_act list" where
  "one_load = [BeginCold, Acquire 0 7, StartReserve 0 7, ReadCache 0 7, DecideReserve 0 7, Publish 0 7,
     Announce 0 7, FreeRoom 0 7, EndLoad 0 7, EndCold]"

theorem residents_stay_within_limits_witness:
  "\<exists>s. residency_run one_load (residency_start [([7], 60, 1)] 1) = Some s
     \<and> residents (sy_caches s) \<le> 1 \<and> resident_len (sy_caches s ! 0) \<le> 1"
proof -
  obtain s where "residency_run one_load (residency_start [([7], 60, 1)] 1) = Some s"
      "residents (sy_caches s) \<le> 1"
      "\<forall>c < length [([7::nat], 60::nat, 1::nat)].
          resident_len (sy_caches s ! c) + card (loads_in early c (sy_loads s)) \<le> snd (snd ([([7::nat], 60::nat, 1::nat)] ! c))
          \<and> mset (ca_draining (sy_caches s ! c)) = drained_by (of_cache c (sy_drains s))"
    using residents_stay_within_limits [of one_load "[([7], 60, 1)]" 1] by blast
  then show ?thesis by (intro exI [of _ s]) simp
qed

theorem leased_engine_stays_witness:
  "\<exists>l. map_of (ca_loaded (sy_caches (the (residency_run one_load (residency_start [([7], 60, 1)] 1))) ! 0)) 7 = Some l
     \<and> lm_epoch l = 1"
proof -
  let ?s = "the (residency_run one_load (residency_start [([7], 60, 1)] 1))"
  have "\<not> Option.is_none (residency_run one_load (residency_start [([7], 60, 1)] 1))" by code_simp
  then have "residency_run one_load (residency_start [([7], 60, 1)] 1) = Some ?s"
    by (simp add: Option.is_none_def)
  moreover have "(0, 7, 1) \<in> set (sy_leases ?s)" by code_simp
  ultimately show ?thesis using leased_engine_stays [of one_load "[([7], 60, 1)]" 1 ?s 0 7 1] by blast
qed

text \<open>C29. Once the common limiter is closed and its last cold task has ended, as shutting down waits for, no
  task can put another engine into a cache: every model found in a cache later was there before, from the
  same load.\<close>

theorem closed_limiter_loads_nothing:
  assumes "residency_run before (residency_start configs max_loaded) = Some s"
    and "gl_closed (sy_limiter s)" "gl_cold (sy_limiter s) = 0"
    and "residency_run after s = Some s'" "c < length (sy_caches s)"
    and "map_of (ca_loaded (sy_caches s' ! c)) m = Some l'"
  shows "\<exists>l. map_of (ca_loaded (sy_caches s ! c)) m = Some l \<and> lm_epoch l = lm_epoch l'"
proof -
  obtain s1 where "residency_run before (residency_start configs max_loaded) = Some s1" "residency_ok s1"
    by (rule residency_run_ok [OF residency_start_ok])
  then have "residency_ok s" using assms(1) by simp
  from closed_run [OF this assms(4,2,3)] show ?thesis
    using assms(5,6) by (auto simp: tame_system_def tame_def)
qed

theorem closed_limiter_loads_nothing_witness:
  "\<exists>l. map_of (ca_loaded (sy_caches (the (residency_run (one_load @ [CloseLimiter])
         (residency_start [([7, 8], 60, 2)] 2))) ! 0)) (7::nat) = Some l \<and> lm_epoch l = 1"
proof -
  let ?s = "the (residency_run (one_load @ [CloseLimiter]) (residency_start [([7, 8], 60, 2)] 2))"
  let ?s' = "the (residency_run [Elapse 5, BeginCold, Acquire 0 8, DropLease 0 7 1] ?s)"
  have n: "\<not> Option.is_none (residency_run (one_load @ [CloseLimiter]) (residency_start [([7, 8], 60, 2)] 2))"
    "\<not> Option.is_none (residency_run [Elapse 5, BeginCold, Acquire 0 8, DropLease 0 7 1] ?s)"
    by code_simp+
  then have r: "residency_run (one_load @ [CloseLimiter]) (residency_start [([7, 8], 60, 2)] 2) = Some ?s"
    "residency_run [Elapse 5, BeginCold, Acquire 0 8, DropLease 0 7 1] ?s = Some ?s'"
    by (simp_all add: Option.is_none_def)
  have g: "gl_closed (sy_limiter ?s)" "gl_cold (sy_limiter ?s) = 0" "0 < length (sy_caches ?s)"
    "map_option lm_epoch (map_of (ca_loaded (sy_caches ?s' ! 0)) 7) = Some 1"
    by code_simp+
  from g(4) obtain l' where l': "map_of (ca_loaded (sy_caches ?s' ! 0)) 7 = Some l'" "lm_epoch l' = 1" by auto
  show ?thesis using closed_limiter_loads_nothing [OF r(1) g(1,2) r(2) g(3) l'(1)] l'(2) by simp
qed

end
