(* ===== verification/File_Tree.thy ===== *)
theory File_Tree
  imports Prelude "HOL-Library.Sublist"
begin

text \<open>
  The file system operations the model downloader uses (\<^verbatim>\<open>std::fs\<close> and \<^verbatim>\<open>tokio::fs\<close>), and programs over
  them whose every single operation may fail or be the last before the machine stops.

  A tree maps the paths that exist, relative to the root of the model cache, to a folder, a file with its
  contents, or a symbolic link; links are never followed.  A program takes a list of faults, one per
  operation: none, an error that changes nothing, or a stop.  When the list is empty nothing goes
  wrong any more.
\<close>

section \<open>Trees\<close>

type_synonym path = "string list"

datatype node = Folder | Plain string | Link

type_synonym tree = "(path \<times> node) list"

datatype io_error =
  NotFound | AlreadyExists | NotADirectory | IsADirectory | DirectoryNotEmpty | PermissionDenied
| InvalidData | InvalidInput | ResourceBusy | OtherError

definition has_child :: "tree \<Rightarrow> path \<Rightarrow> bool" where
  "has_child t p \<longleftrightarrow> list_ex (\<lambda>(q, _). strict_prefix p q) t"

definition move :: "path \<Rightarrow> path \<Rightarrow> tree \<Rightarrow> tree" where
  "move src dst t =
     map (\<lambda>(p, n). (if prefix src p then dst @ drop (length src) p else p, n))
       (filter (\<lambda>(p, _). \<not> prefix dst p) t)"

definition fs_rename :: "path \<Rightarrow> path \<Rightarrow> tree \<Rightarrow> io_error + unit \<times> tree" where
  "fs_rename src dst t =
     (case map_of t src of
        None \<Rightarrow> Inl NotFound
      | Some n \<Rightarrow>
          if prefix src dst \<or> dst = [] then Inl InvalidInput
          else if map_of t (butlast dst) \<noteq> Some Folder then Inl NotFound
          else (case map_of t dst of
                  None \<Rightarrow> Inr ((), move src dst t)
                | Some Folder \<Rightarrow>
                    if n \<noteq> Folder then Inl IsADirectory
                    else if has_child t dst then Inl DirectoryNotEmpty
                    else Inr ((), move src dst t)
                | Some _ \<Rightarrow> if n = Folder then Inl NotADirectory else Inr ((), move src dst t)))"

text \<open>\<^verbatim>\<open>remove_file\<close> and the removal of an empty folder.\<close>

definition fs_unlink :: "path \<Rightarrow> tree \<Rightarrow> io_error + unit \<times> tree" where
  "fs_unlink p t =
     (if map_of t p = None then Inl NotFound
      else if has_child t p then Inl DirectoryNotEmpty
      else Inr ((), AList.delete p t))"

definition fs_mkdirs :: "path \<Rightarrow> tree \<Rightarrow> io_error + unit \<times> tree" where
  "fs_mkdirs p t =
     (if list_all (\<lambda>a. map_of t a = None \<or> map_of t a = Some Folder) (prefixes p)
      then Inr ((), filter (\<lambda>(a, _). map_of t a = None) (map (\<lambda>a. (a, Folder)) (prefixes p)) @ t)
      else Inl NotADirectory)"

text \<open>A file is created empty and then filled.\<close>

definition fs_create :: "path \<Rightarrow> tree \<Rightarrow> io_error + unit \<times> tree" where
  "fs_create p t =
     (if p = [] \<or> map_of t (butlast p) \<noteq> Some Folder then Inl NotFound
      else if map_of t p = Some Folder then Inl IsADirectory
      else Inr ((), AList.update p (Plain '''') t))"

definition fs_fill :: "path \<Rightarrow> string \<Rightarrow> tree \<Rightarrow> io_error + unit \<times> tree" where
  "fs_fill p contents t =
     (case map_of t p of
        Some (Plain _) \<Rightarrow> Inr ((), AList.update p (Plain contents) t)
      | _ \<Rightarrow> Inl OtherError)"

definition fs_read :: "path \<Rightarrow> tree \<Rightarrow> io_error + string \<times> tree" where
  "fs_read p t =
     (case map_of t p of
        None \<Rightarrow> Inl NotFound
      | Some (Plain contents) \<Rightarrow> Inr (contents, t)
      | Some _ \<Rightarrow> Inl IsADirectory)"

definition fs_lstat :: "path \<Rightarrow> tree \<Rightarrow> io_error + node option \<times> tree" where
  "fs_lstat p t = Inr (map_of t p, t)"

text \<open>\<^verbatim>\<open>sync_directory\<close> opens the directory.\<close>

definition fs_sync :: "path \<Rightarrow> tree \<Rightarrow> io_error + unit \<times> tree" where
  "fs_sync p t = (if map_of t p = None then Inl NotFound else Inr ((), t))"

section \<open>Programs\<close>

datatype fault = NoFault | Error | Stop

record world =
  wo_tree :: tree
  wo_faults :: "fault list"

datatype 'a io_outcome = Done 'a | Failed io_error | Stopped

type_synonym 'a io = "world \<Rightarrow> 'a io_outcome \<times> world"

definition io_return :: "'a \<Rightarrow> 'a io" where
  "io_return x w = (Done x, w)"

definition io_fail :: "io_error \<Rightarrow> 'a io" where
  "io_fail e w = (Failed e, w)"

definition io_bind :: "'a io \<Rightarrow> ('a \<Rightarrow> 'b io) \<Rightarrow> 'b io" where
  "io_bind m f w =
     (case m w of
        (Done x, w') \<Rightarrow> f x w'
      | (Failed e, w') \<Rightarrow> (Failed e, w')
      | (Stopped, w') \<Rightarrow> (Stopped, w'))"

definition io_then :: "unit io \<Rightarrow> 'b io \<Rightarrow> 'b io" where
  "io_then m n = io_bind m (\<lambda>_. n)"

text \<open>The result of a program as a value; a stop is not one.\<close>

definition io_try :: "'a io \<Rightarrow> (io_error + 'a) io" where
  "io_try m w =
     (case m w of
        (Done x, w') \<Rightarrow> (Done (Inr x), w')
      | (Failed e, w') \<Rightarrow> (Done (Inl e), w')
      | (Stopped, w') \<Rightarrow> (Stopped, w'))"

fun io_for :: "('x \<Rightarrow> unit io) \<Rightarrow> 'x list \<Rightarrow> unit io" where
  "io_for f [] = io_return ()"
| "io_for f (x # xs) = io_then (f x) (io_for f xs)"

fun io_map :: "('x \<Rightarrow> 'y io) \<Rightarrow> 'x list \<Rightarrow> 'y list io" where
  "io_map f [] = io_return []"
| "io_map f (x # xs) = io_bind (f x) (\<lambda>y. io_bind (io_map f xs) (\<lambda>ys. io_return (y # ys)))"

definition io_prim :: "(tree \<Rightarrow> io_error + 'a \<times> tree) \<Rightarrow> 'a io" where
  "io_prim f w =
     (let w' = w\<lparr>wo_faults := tl (wo_faults w)\<rparr> in
      case wo_faults w of
        Error # _ \<Rightarrow> (Failed OtherError, w')
      | Stop # _ \<Rightarrow> (Stopped, w')
      | _ \<Rightarrow> (case f (wo_tree w) of
                Inl e \<Rightarrow> (Failed e, w')
              | Inr (x, t) \<Rightarrow> (Done x, w'\<lparr>wo_tree := t\<rparr>)))"

text \<open>Operations that only look at the tree can be the last before a stop; an error that has no cause in the
  tree is supposed to strike changes only.\<close>

definition io_look :: "(tree \<Rightarrow> io_error + 'a \<times> tree) \<Rightarrow> 'a io" where
  "io_look f w =
     (let w' = w\<lparr>wo_faults := tl (wo_faults w)\<rparr> in
      case wo_faults w of
        Stop # _ \<Rightarrow> (Stopped, w')
      | _ \<Rightarrow> (case f (wo_tree w) of
                Inl e \<Rightarrow> (Failed e, w')
              | Inr (x, t) \<Rightarrow> (Done x, w'\<lparr>wo_tree := t\<rparr>)))"

text \<open>\<^verbatim>\<open>remove_dir_all\<close> removes the entries below a folder one by one, in an order the system chooses.\<close>

type_synonym removal_order = "tree \<Rightarrow> path \<Rightarrow> path list"

definition remove_dir_all :: "removal_order \<Rightarrow> path \<Rightarrow> unit io" where
  "remove_dir_all order p =
     io_bind (io_look (fs_lstat p)) (\<lambda>n.
       case n of
         None \<Rightarrow> io_fail NotFound
       | Some Folder \<Rightarrow> io_bind (io_look (\<lambda>t. Inr (order t p, t))) (\<lambda>qs. io_for (\<lambda>q. io_prim (fs_unlink q)) qs)
       | Some _ \<Rightarrow> io_fail NotADirectory)"

section \<open>Laws of the operations\<close>

text \<open>Everything that exists is in a folder.\<close>

definition tree_ok :: "tree \<Rightarrow> bool" where
  "tree_ok t \<longleftrightarrow> (\<forall>p. p \<noteq> [] \<longrightarrow> map_of t p \<noteq> None \<longrightarrow> map_of t (butlast p) = Some Folder)"

lemma tree_okD: "tree_ok t \<Longrightarrow> p \<noteq> [] \<Longrightarrow> map_of t p = Some n \<Longrightarrow> map_of t (butlast p) = Some Folder"
  by (simp add: tree_ok_def)

lemma strict_prefix_butlast: "strict_prefix a p \<Longrightarrow> prefix a (butlast p)"
  by (metis append_butlast_last_id prefix_bot.extremum_strict prefix_order.less_le prefix_snoc)

lemma strict_prefix_of_butlast: "q \<noteq> [] \<Longrightarrow> strict_prefix (butlast q) q"
  by (simp add: prefix_order.less_le prefixeq_butlast) (metis append_butlast_last_id append_self_conv not_Cons_self2)

lemma above_is_folder:
  assumes "tree_ok t" "map_of t p \<noteq> None" "strict_prefix a p"
  shows "map_of t a = Some Folder"
  using assms(2,3)
proof (induction "length p" arbitrary: p)
  case (Suc k)
  then have p: "p \<noteq> []" by auto
  then have b: "map_of t (butlast p) = Some Folder" using assms(1) Suc.prems(1) by (simp add: tree_ok_def)
  show ?case
  proof (cases "a = butlast p")
    case False
    then have "strict_prefix a (butlast p)"
      using strict_prefix_butlast [OF Suc.prems(2)] by (simp add: prefix_order.less_le)
    moreover have "k = length (butlast p)" using Suc.hyps(2) by simp
    ultimately show ?thesis using Suc.hyps(1) [of "butlast p"] b by simp
  qed (use b in simp)
qed simp

lemma below_absent: "tree_ok t \<Longrightarrow> map_of t a \<noteq> Some Folder \<Longrightarrow> strict_prefix a p \<Longrightarrow> map_of t p = None"
  using above_is_folder by blast

lemma has_child_iff: "has_child t p \<longleftrightarrow> (\<exists>q. strict_prefix p q \<and> map_of t q \<noteq> None)"
proof
  assume "has_child t p"
  then obtain q n where "(q, n) \<in> set t" "strict_prefix p q" by (auto simp: has_child_def list_ex_iff)
  then show "\<exists>q. strict_prefix p q \<and> map_of t q \<noteq> None" by (metis map_of_eq_None_iff fst_conv image_eqI)
next
  assume "\<exists>q. strict_prefix p q \<and> map_of t q \<noteq> None"
  then obtain q n where "map_of t q = Some n" "strict_prefix p q" by auto
  then show "has_child t p" using map_of_SomeD by (fastforce simp: has_child_def list_ex_iff)
qed

lemma map_of_move:
  assumes "\<not> prefix src dst" "\<not> prefix dst src"
  shows "map_of (move src dst t) x =
    (if prefix dst x then map_of t (src @ drop (length dst) x) else if prefix src x then None else map_of t x)"
proof -
  have key: "dst @ drop (length src) p = x \<longleftrightarrow> prefix dst x \<and> p = src @ drop (length dst) x" if "prefix src p" for p
    using that by (auto simp: prefix_def)
  have no: "\<not> prefix dst (src @ r)" for r
    using assms by (metis prefix_append prefix_same_cases prefixI)
  show ?thesis
  proof (induction t)
    case (Cons e t)
    obtain p n where e: "e = (p, n)" by fastforce
    show ?case
    proof (cases "prefix src p")
      case True
      then have "\<not> prefix dst p" using no by (metis prefixE)
      then show ?thesis
        using Cons True key [OF True] no assms by (auto simp: move_def e prefix_def)
    next
      case False
      then have "p \<noteq> src @ r" for r by (metis prefixI)
      then show ?thesis using Cons False by (auto simp: move_def e)
    qed
  qed (simp add: move_def)
qed

text \<open>What a file or link is at a path; folders do not count.\<close>

definition file_at :: "tree \<Rightarrow> path \<Rightarrow> node option" where
  "file_at t p = (case map_of t p of Some Folder \<Rightarrow> None | n \<Rightarrow> n)"

lemma file_at_cong: "map_of t' p = map_of t p \<Longrightarrow> file_at t' p = file_at t p"
  by (simp add: file_at_def)

lemma fs_unlink_laws:
  assumes "fs_unlink p t = Inr (u, t')"
  shows "map_of t' = (map_of t)(p := None)" "map_of t p \<noteq> None" "\<not> has_child t p" "tree_ok t \<Longrightarrow> tree_ok t'"
proof -
  show m: "map_of t' = (map_of t)(p := None)" and c: "map_of t p \<noteq> None" "\<not> has_child t p"
    using assms by (auto simp: fs_unlink_def AList.delete_conv' split: if_splits)
  show "tree_ok t'" if "tree_ok t"
    unfolding tree_ok_def
  proof (intro allI impI)
    fix q assume q: "q \<noteq> []" "map_of t' q \<noteq> None"
    then have "map_of t q \<noteq> None" "q \<noteq> p" by (auto simp: m split: if_splits)
    moreover from this have "\<not> strict_prefix p q" using c(2) has_child_iff by blast
    then have "butlast q \<noteq> p" using q(1) strict_prefix_of_butlast by blast
    ultimately show "map_of t' (butlast q) = Some Folder" using that q(1) by (simp add: m tree_ok_def)
  qed
qed

lemma map_of_map_key: "map_of (map (\<lambda>a. (a, v)) xs) x = (if x \<in> set xs then Some v else None)"
  by (induction xs) auto

lemma fs_mkdirs_laws:
  assumes "fs_mkdirs p t = Inr (u, t')"
  shows "map_of t' x = (if prefix x p \<and> map_of t x = None then Some Folder else map_of t x)"
    "file_at t' x = file_at t x" "tree_ok t \<Longrightarrow> tree_ok t'" "prefix x p \<Longrightarrow> map_of t' x = Some Folder"
proof -
  have t': "t' = map (\<lambda>a. (a, Folder)) (filter (\<lambda>a. map_of t a = None) (prefixes p)) @ t"
    and ok: "\<And>a. prefix a p \<Longrightarrow> map_of t a = None \<or> map_of t a = Some Folder"
    using assms by (auto simp: fs_mkdirs_def filter_map comp_def list_all_iff split: if_splits)
  show m: "map_of t' x = (if prefix x p \<and> map_of t x = None then Some Folder else map_of t x)" for x
    unfolding t' map_of_append map_add_def by (simp add: map_of_map_key split: option.split)
  then show "file_at t' x = file_at t x" by (simp add: file_at_def)
  show "map_of t' x = Some Folder" if "prefix x p" using ok [OF that] that by (auto simp: m)
  show "tree_ok t'" if "tree_ok t"
    unfolding tree_ok_def
  proof (intro allI impI)
    fix q assume q: "q \<noteq> []" "map_of t' q \<noteq> None"
    show "map_of t' (butlast q) = Some Folder"
    proof (cases "prefix q p")
      case True
      then have "prefix (butlast q) p" by (meson prefixeq_butlast prefix_order.trans)
      then show ?thesis using ok [of "butlast q"] by (auto simp: m)
    next
      case False
      then show ?thesis using q that by (auto simp: m tree_ok_def)
    qed
  qed
qed

lemma fs_create_laws:
  assumes "fs_create p t = Inr (u, t')"
  shows "map_of t' = (map_of t)(p \<mapsto> Plain '''')" "p \<noteq> []" "map_of t (butlast p) = Some Folder"
    "map_of t p \<noteq> Some Folder" "tree_ok t \<Longrightarrow> tree_ok t'"
proof -
  show m: "map_of t' = (map_of t)(p \<mapsto> Plain '''')" and c: "p \<noteq> []" "map_of t (butlast p) = Some Folder"
    "map_of t p \<noteq> Some Folder"
    using assms by (auto simp: fs_create_def update_conv' split: if_splits)
  show "tree_ok t'" if "tree_ok t"
    using that c unfolding tree_ok_def m by (metis (no_types, opaque_lifting) fun_upd_apply option.distinct(1))
qed

lemma fs_fill_laws:
  assumes "fs_fill p contents t = Inr (u, t')"
  shows "map_of t' = (map_of t)(p \<mapsto> Plain contents)" "\<exists>c. map_of t p = Some (Plain c)" "tree_ok t \<Longrightarrow> tree_ok t'"
proof -
  show m: "map_of t' = (map_of t)(p \<mapsto> Plain contents)" and c: "\<exists>c. map_of t p = Some (Plain c)"
    using assms by (auto simp: fs_fill_def update_conv' split: option.splits node.splits)
  show "tree_ok t'" if "tree_ok t"
    using that c unfolding tree_ok_def m by (metis (no_types, opaque_lifting) fun_upd_apply node.distinct(1) option.distinct(1) option.inject)
qed

lemma fs_rename_laws:
  assumes ok: "tree_ok t" and r: "fs_rename src dst t = Inr (u, t')"
  shows "map_of t' x =
      (if prefix dst x then map_of t (src @ drop (length dst) x) else if prefix src x then None else map_of t x)"
    "map_of t src \<noteq> None" "\<not> prefix src dst" "\<not> prefix dst src" "dst \<noteq> []" "tree_ok t'"
proof -
  have t': "t' = move src dst t" and c: "map_of t src \<noteq> None" "\<not> prefix src dst" "dst \<noteq> []"
    and d: "map_of t (butlast dst) = Some Folder"
    and e: "map_of t dst \<noteq> Some Folder \<or> \<not> has_child t dst"
    using r by (auto simp: fs_rename_def split: option.splits if_splits node.splits)
  have n: "\<not> prefix dst src"
  proof
    assume "prefix dst src"
    then have "strict_prefix dst src" using c(2) by (auto simp: prefix_order.less_le)
    then show False using above_is_folder [OF ok c(1)] e c(1) has_child_iff by blast
  qed
  show m: "map_of t' x =
      (if prefix dst x then map_of t (src @ drop (length dst) x) else if prefix src x then None else map_of t x)" for x
    unfolding t' by (rule map_of_move [OF c(2) n])
  show "map_of t src \<noteq> None" "\<not> prefix src dst" "\<not> prefix dst src" "dst \<noteq> []" by (fact c n)+
  show "tree_ok t'"
    unfolding tree_ok_def
  proof (intro allI impI)
    fix q assume q: "q \<noteq> []" "map_of t' q \<noteq> None"
    have b: "strict_prefix (butlast q) q" by (rule strict_prefix_of_butlast [OF q(1)])
    show "map_of t' (butlast q) = Some Folder"
    proof (cases "prefix dst q")
      case True
      then obtain r where r: "q = dst @ r" by (auto simp: prefix_def)
      show ?thesis
      proof (cases r rule: rev_cases)
        case Nil
        then have "\<not> prefix dst (butlast q)" using b r by (auto simp: prefix_order.less_le_not_le)
        moreover have "\<not> prefix src (butlast q)"
          using c(2) Nil r b by (metis append_Nil2 prefix_order.less_imp_le prefix_order.trans)
        ultimately show ?thesis using d Nil r by (simp add: m)
      next
        case (snoc r' z)
        then have "map_of t (src @ r) \<noteq> None" using q(2) r by (simp add: m)
        then have "map_of t (butlast (src @ r)) = Some Folder"
          using ok snoc unfolding tree_ok_def by blast
        then show ?thesis using snoc r by (simp add: m butlast_append)
      qed
    next
      case False
      then have q': "\<not> prefix src q" "map_of t q \<noteq> None" using q(2) by (auto simp: m split: if_splits)
      have "\<not> prefix src (butlast q)" using q'(1) b by (meson prefix_order.less_imp_le prefix_order.trans)
      moreover have "\<not> prefix dst (butlast q)" using False b by (meson prefix_order.less_imp_le prefix_order.trans)
      ultimately show ?thesis using ok q' q(1) by (simp add: m tree_ok_def)
    qed
  qed
qed

section \<open>Specifications\<close>

text \<open>\<open>spec b P m Q R\<close>: from a tree with \<open>P\<close>, the program \<open>m\<close> ends with \<open>Q\<close> of its result, or, after an error or
  a stop, with \<open>R\<close>; with \<open>b\<close>, it does so only when some fault was left, and uses none that was not.\<close>

definition spec :: "bool \<Rightarrow> (tree \<Rightarrow> bool) \<Rightarrow> 'a io \<Rightarrow> ('a \<Rightarrow> tree \<Rightarrow> bool) \<Rightarrow> (tree \<Rightarrow> bool) \<Rightarrow> bool" where
  "spec b P m Q R \<longleftrightarrow>
     (\<forall>w. tree_ok (wo_tree w) \<longrightarrow> P (wo_tree w) \<longrightarrow>
        tree_ok (wo_tree (snd (m w)))
        \<and> (wo_faults w = [] \<longrightarrow> wo_faults (snd (m w)) = [])
        \<and> (case fst (m w) of
             Done x \<Rightarrow> Q x (wo_tree (snd (m w)))
           | Failed _ \<Rightarrow> R (wo_tree (snd (m w))) \<and> (b \<longrightarrow> wo_faults w \<noteq> [])
           | Stopped \<Rightarrow> R (wo_tree (snd (m w))) \<and> wo_faults w \<noteq> []))"

lemma spec_conseq:
  assumes "spec b' P' m Q' R'" "\<And>t. tree_ok t \<Longrightarrow> P t \<Longrightarrow> P' t" "\<And>x t. tree_ok t \<Longrightarrow> Q' x t \<Longrightarrow> Q x t"
    "\<And>t. tree_ok t \<Longrightarrow> R' t \<Longrightarrow> R t" "b \<longrightarrow> b'"
  shows "spec b P m Q R"
  unfolding spec_def
proof (intro allI impI)
  fix w :: world assume w: "tree_ok (wo_tree w)" "P (wo_tree w)"
  then show "tree_ok (wo_tree (snd (m w)))
        \<and> (wo_faults w = [] \<longrightarrow> wo_faults (snd (m w)) = [])
        \<and> (case fst (m w) of
             Done x \<Rightarrow> Q x (wo_tree (snd (m w)))
           | Failed _ \<Rightarrow> R (wo_tree (snd (m w))) \<and> (b \<longrightarrow> wo_faults w \<noteq> [])
           | Stopped \<Rightarrow> R (wo_tree (snd (m w))) \<and> wo_faults w \<noteq> [])"
    using assms(1) [unfolded spec_def, rule_format, OF w(1) assms(2) [OF w]] assms(3-5)
    by (auto split: io_outcome.splits)
qed

text \<open>A state that does not occur.\<close>

lemma spec_never: "(\<And>t. P t \<Longrightarrow> False) \<Longrightarrow> spec b P m Q R"
  unfolding spec_def by blast

lemma spec_return: "(\<And>t. tree_ok t \<Longrightarrow> P t \<Longrightarrow> Q x t) \<Longrightarrow> spec b P (io_return x) Q R"
  by (simp add: spec_def io_return_def)

lemma spec_fail: "(\<And>t. tree_ok t \<Longrightarrow> P t \<Longrightarrow> R t) \<Longrightarrow> (\<And>t. tree_ok t \<Longrightarrow> P t \<Longrightarrow> \<not> b) \<Longrightarrow> spec b P (io_fail e) Q R"
  by (auto simp: spec_def io_fail_def)

lemma spec_bind:
  assumes m: "spec b P m Q R" and f: "\<And>x. spec b (Q x) (f x) S R"
  shows "spec b P (io_bind m f) S R"
  unfolding spec_def
proof (intro allI impI)
  fix w :: world assume w: "tree_ok (wo_tree w)" "P (wo_tree w)"
  note k = m [unfolded spec_def, rule_format, OF w]
  obtain r w' where r: "m w = (r, w')" by fastforce
  show "tree_ok (wo_tree (snd (io_bind m f w)))
        \<and> (wo_faults w = [] \<longrightarrow> wo_faults (snd (io_bind m f w)) = [])
        \<and> (case fst (io_bind m f w) of
             Done x \<Rightarrow> S x (wo_tree (snd (io_bind m f w)))
           | Failed _ \<Rightarrow> R (wo_tree (snd (io_bind m f w))) \<and> (b \<longrightarrow> wo_faults w \<noteq> [])
           | Stopped \<Rightarrow> R (wo_tree (snd (io_bind m f w))) \<and> wo_faults w \<noteq> [])"
  proof (cases r)
    case (Done x)
    then have "tree_ok (wo_tree w')" "Q x (wo_tree w')" "wo_faults w = [] \<longrightarrow> wo_faults w' = []" using k r by simp_all
    from f [of x, unfolded spec_def, rule_format, OF this(1,2)] this(3) show ?thesis
      by (auto simp: io_bind_def r Done split: io_outcome.splits)
  qed (use k r in \<open>simp_all add: io_bind_def\<close>)
qed

lemma spec_if: "(g \<Longrightarrow> spec b P m Q R) \<Longrightarrow> (\<not> g \<Longrightarrow> spec b P n Q R) \<Longrightarrow> spec b P (if g then m else n) Q R"
  by simp

lemma spec_then: "spec b P m (\<lambda>_. Q) R \<Longrightarrow> spec b Q n S R \<Longrightarrow> spec b P (io_then m n) S R"
  unfolding io_then_def by (rule spec_bind)

lemma spec_try:
  assumes "spec False P m Q R" "\<And>t e. tree_ok t \<Longrightarrow> R t \<Longrightarrow> S (Inl e) t" "\<And>x t. tree_ok t \<Longrightarrow> Q x t \<Longrightarrow> S (Inr x) t"
  shows "spec b P (io_try m) S R"
  unfolding spec_def
proof (intro allI impI)
  fix w :: world assume w: "tree_ok (wo_tree w)" "P (wo_tree w)"
  obtain r w' where r: "m w = (r, w')" by fastforce
  note k = assms(1) [unfolded spec_def, rule_format, OF w, unfolded r]
  show "tree_ok (wo_tree (snd (io_try m w)))
        \<and> (wo_faults w = [] \<longrightarrow> wo_faults (snd (io_try m w)) = [])
        \<and> (case fst (io_try m w) of
             Done x \<Rightarrow> S x (wo_tree (snd (io_try m w)))
           | Failed _ \<Rightarrow> R (wo_tree (snd (io_try m w))) \<and> (b \<longrightarrow> wo_faults w \<noteq> [])
           | Stopped \<Rightarrow> R (wo_tree (snd (io_try m w))) \<and> wo_faults w \<noteq> [])"
    using k assms(2,3) by (cases r) (simp_all add: io_try_def r)
qed

lemma spec_prim:
  assumes "\<And>t. tree_ok t \<Longrightarrow> P t \<Longrightarrow> R t"
    and "\<And>t e. tree_ok t \<Longrightarrow> P t \<Longrightarrow> f t = Inl e \<Longrightarrow> \<not> b"
    and "\<And>t x t'. tree_ok t \<Longrightarrow> P t \<Longrightarrow> f t = Inr (x, t') \<Longrightarrow> tree_ok t' \<and> Q x t'"
  shows "spec b P (io_prim f) Q R"
  unfolding spec_def
proof (intro allI impI)
  fix w :: world assume w: "tree_ok (wo_tree w)" "P (wo_tree w)"
  show "tree_ok (wo_tree (snd (io_prim f w)))
        \<and> (wo_faults w = [] \<longrightarrow> wo_faults (snd (io_prim f w)) = [])
        \<and> (case fst (io_prim f w) of
             Done x \<Rightarrow> Q x (wo_tree (snd (io_prim f w)))
           | Failed _ \<Rightarrow> R (wo_tree (snd (io_prim f w))) \<and> (b \<longrightarrow> wo_faults w \<noteq> [])
           | Stopped \<Rightarrow> R (wo_tree (snd (io_prim f w))) \<and> wo_faults w \<noteq> [])"
    using w assms(1) [OF w] assms(2) [OF w] assms(3) [OF w]
    by (auto simp: io_prim_def Let_def split: list.split fault.split sum.split)
qed

lemma spec_look:
  assumes "\<And>t. tree_ok t \<Longrightarrow> P t \<Longrightarrow> R t"
    and "\<And>t e. tree_ok t \<Longrightarrow> P t \<Longrightarrow> f t = Inl e \<Longrightarrow> \<not> b"
    and "\<And>t x t'. tree_ok t \<Longrightarrow> P t \<Longrightarrow> f t = Inr (x, t') \<Longrightarrow> tree_ok t' \<and> Q x t'"
  shows "spec b P (io_look f) Q R"
  unfolding spec_def
proof (intro allI impI)
  fix w :: world assume w: "tree_ok (wo_tree w)" "P (wo_tree w)"
  show "tree_ok (wo_tree (snd (io_look f w)))
        \<and> (wo_faults w = [] \<longrightarrow> wo_faults (snd (io_look f w)) = [])
        \<and> (case fst (io_look f w) of
             Done x \<Rightarrow> Q x (wo_tree (snd (io_look f w)))
           | Failed _ \<Rightarrow> R (wo_tree (snd (io_look f w))) \<and> (b \<longrightarrow> wo_faults w \<noteq> [])
           | Stopped \<Rightarrow> R (wo_tree (snd (io_look f w))) \<and> wo_faults w \<noteq> [])"
    using w assms(1) [OF w] assms(2) [OF w] assms(3) [OF w]
    by (auto simp: io_look_def Let_def split: list.split fault.split sum.split)
qed

text \<open>A look that cannot fail, as a value.\<close>

lemma spec_try_look:
  assumes "\<And>t. tree_ok t \<Longrightarrow> P t \<Longrightarrow> R t" "\<And>t. tree_ok t \<Longrightarrow> P t \<Longrightarrow> f t = Inr (x, t)"
  shows "spec b P (io_try (io_look f)) (\<lambda>r t. P t \<and> r = Inr x) R"
  unfolding spec_def
proof (intro allI impI)
  fix w :: world assume w: "tree_ok (wo_tree w)" "P (wo_tree w)"
  show "tree_ok (wo_tree (snd (io_try (io_look f) w)))
        \<and> (wo_faults w = [] \<longrightarrow> wo_faults (snd (io_try (io_look f) w)) = [])
        \<and> (case fst (io_try (io_look f) w) of
             Done r \<Rightarrow> P (wo_tree (snd (io_try (io_look f) w))) \<and> r = Inr x
           | Failed _ \<Rightarrow> R (wo_tree (snd (io_try (io_look f) w))) \<and> (b \<longrightarrow> wo_faults w \<noteq> [])
           | Stopped \<Rightarrow> R (wo_tree (snd (io_try (io_look f) w))) \<and> wo_faults w \<noteq> [])"
    using w assms(1) [OF w] assms(2) [OF w]
    by (auto simp: io_try_def io_look_def Let_def split: list.split fault.split)
qed

lemma spec_disj: "spec b P m Q R \<Longrightarrow> spec b P' m Q R \<Longrightarrow> spec b (\<lambda>t. P t \<or> P' t) m Q R"
  unfolding spec_def by blast

lemma spec_for:
  assumes "\<And>x pre rest. xs = pre @ x # rest \<Longrightarrow> spec b (I pre) (f x) (\<lambda>_. I (pre @ [x])) R"
    and "\<And>t. tree_ok t \<Longrightarrow> I xs t \<Longrightarrow> Q t"
  shows "spec b (I []) (io_for f xs) (\<lambda>_. Q) R"
proof -
  have "spec b (I pre) (io_for f rest) (\<lambda>_. Q) R" if "xs = pre @ rest" for pre rest
    using that
  proof (induction rest arbitrary: pre)
    case Nil
    then show ?case using assms(2) by (auto intro: spec_return)
  next
    case (Cons x rest)
    have "spec b (I (pre @ [x])) (io_for f rest) (\<lambda>_. Q) R"
      by (rule Cons.IH) (use Cons.prems in simp)
    then show ?case unfolding io_for.simps by (rule spec_then [OF assms(1) [OF Cons.prems]])
  qed
  then show ?thesis by simp
qed

text \<open>The removal of a folder, in any order that lists what is below it, contents first: what every single
  removal keeps holds throughout.\<close>

definition valid_order :: "removal_order \<Rightarrow> bool" where
  "valid_order order \<longleftrightarrow>
     (\<forall>t p. distinct (order t p) \<and> set (order t p) = {x. prefix p x \<and> map_of t x \<noteq> None}
        \<and> sorted_wrt (\<lambda>x y. \<not> strict_prefix x y) (order t p))"

definition below :: "path \<Rightarrow> tree \<Rightarrow> path set" where
  "below p t = {x. prefix p x \<and> map_of t x \<noteq> None}"

lemma unlink_spec:
  assumes "\<And>t. tree_ok t \<Longrightarrow> P t \<Longrightarrow> R t"
    and "\<And>t. tree_ok t \<Longrightarrow> P t \<Longrightarrow> b \<Longrightarrow> map_of t p \<noteq> None \<and> \<not> has_child t p"
    and "\<And>t t'. tree_ok t \<Longrightarrow> P t \<Longrightarrow> map_of t p \<noteq> None \<Longrightarrow> \<not> has_child t p \<Longrightarrow> tree_ok t' \<Longrightarrow>
      map_of t' = (map_of t)(p := None) \<Longrightarrow> Q t'"
  shows "spec b P (io_prim (fs_unlink p)) (\<lambda>_. Q) R"
proof (rule spec_prim)
  fix t e assume "tree_ok t" "P t" "fs_unlink p t = Inl e"
  then show "\<not> b" using assms(2) [of t] by (auto simp: fs_unlink_def split: if_splits)
next
  fix t u t' assume t: "tree_ok t" "P t" "fs_unlink p t = Inr (u, t')"
  note l = fs_unlink_laws [OF t(3)]
  show "tree_ok t' \<and> Q t'" using assms(3) [OF t(1,2) l(2,3) _ l(1)] l(4) [OF t(1)] by blast
qed (rule assms(1))

lemma remove_dir_all_spec:
  assumes order: "valid_order order"
    and first: "\<And>t. sorted_wrt before (order t p)"
    and step: "\<And>t x t'. I t \<Longrightarrow> prefix p x \<Longrightarrow> map_of t x \<noteq> None \<Longrightarrow> (\<forall>y \<in> below p t - {x}. before x y) \<Longrightarrow>
      map_of t' = (map_of t)(x := None) \<Longrightarrow> tree_ok t' \<Longrightarrow> I t'"
  shows "spec b (\<lambda>t. I t \<and> (b \<longrightarrow> map_of t p = Some Folder)) (remove_dir_all order p)
    (\<lambda>_ t. I t \<and> (\<forall>x. prefix p x \<longrightarrow> map_of t x = None)) I"
proof -
  define J where "J qs t \<longleftrightarrow> I t \<and> distinct qs \<and> set qs = below p t \<and> sorted_wrt (\<lambda>x y. \<not> strict_prefix x y) qs
    \<and> sorted_wrt before qs" for qs t
  have head: "spec b (J (q # qs)) (io_prim (fs_unlink q)) (\<lambda>_. J qs) I" for q qs
  proof (rule unlink_spec)
    fix t assume t: "J (q # qs) t"
    then show "I t" by (simp add: J_def)
    have b: "insert q (set qs) = below p t" and no: "\<forall>y \<in> set qs. \<not> strict_prefix q y"
      using t by (simp_all add: J_def)
    then have q: "prefix p q" "map_of t q \<noteq> None" by (auto simp: below_def)
    have False if y: "strict_prefix q y" "map_of t y \<noteq> None" for y
    proof -
      have "prefix p y" using q(1) y(1) by (meson prefix_order.less_imp_le prefix_order.trans)
      then have "y \<in> insert q (set qs)" using y(2) b by (simp add: below_def)
      then show False using y(1) no by auto
    qed
    then show "map_of t q \<noteq> None \<and> \<not> has_child t q" using q(2) has_child_iff by blast
  next
    fix t t' assume t: "J (q # qs) t" and n: "map_of t q \<noteq> None" and ok: "tree_ok t'"
      and t': "map_of t' = (map_of t)(q := None)"
    have b: "below p t = insert q (set qs)" "q \<notin> set qs" using t by (auto simp: J_def)
    have "I t'"
      by (rule step [OF _ _ n _ t' ok]) (use t b in \<open>auto simp: J_def below_def\<close>)
    moreover have "set qs = below p t'" using b unfolding below_def t' by auto
    ultimately show "J qs t'" using t by (simp add: J_def)
  qed
  have loop: "spec b (J qs) (io_for (\<lambda>q. io_prim (fs_unlink q)) qs)
      (\<lambda>_ t. I t \<and> (\<forall>x. prefix p x \<longrightarrow> map_of t x = None)) I" for qs
  proof (induction qs)
    case Nil
    show ?case unfolding io_for.simps by (rule spec_return) (auto simp: J_def below_def)
  next
    case (Cons q qs)
    show ?case unfolding io_for.simps by (rule spec_then [OF head Cons.IH])
  qed
  have list: "spec b I (io_look (\<lambda>t. Inr (order t p, t))) J I"
    by (rule spec_look) (use order first in \<open>auto simp: valid_order_def J_def below_def\<close>)
  show ?thesis
    unfolding remove_dir_all_def
  proof (rule spec_bind)
    show "spec b (\<lambda>t. I t \<and> (b \<longrightarrow> map_of t p = Some Folder)) (io_look (fs_lstat p))
        (\<lambda>n t. I t \<and> (b \<longrightarrow> n = Some Folder)) I"
      by (rule spec_look) (auto simp: fs_lstat_def)
    show "spec b (\<lambda>t. I t \<and> (b \<longrightarrow> n = Some Folder))
        (case n of None \<Rightarrow> io_fail NotFound
         | Some Folder \<Rightarrow> io_bind (io_look (\<lambda>t. Inr (order t p, t))) (\<lambda>qs. io_for (\<lambda>q. io_prim (fs_unlink q)) qs)
         | Some _ \<Rightarrow> io_fail NotADirectory)
        (\<lambda>_ t. I t \<and> (\<forall>x. prefix p x \<longrightarrow> map_of t x = None)) I" for n
    proof (cases "n = Some Folder")
      case True
      have "spec b I (io_bind (io_look (\<lambda>t. Inr (order t p, t))) (\<lambda>qs. io_for (\<lambda>q. io_prim (fs_unlink q)) qs))
          (\<lambda>_ t. I t \<and> (\<forall>x. prefix p x \<longrightarrow> map_of t x = None)) I"
        by (rule spec_bind [OF list loop])
      then show ?thesis using True by simp
    next
      case False
      then show ?thesis by (auto intro!: spec_fail split: option.split node.split)
    qed
  qed
qed

text \<open>A precondition can be pinned to one tree, so that facts about it stay facts while nothing changes.\<close>

lemma spec_pin: "(\<And>t0. tree_ok t0 \<Longrightarrow> P t0 \<Longrightarrow> spec b (\<lambda>t. t = t0) m Q R) \<Longrightarrow> spec b P m Q R"
  unfolding spec_def by blast

lemma spec_map:
  assumes "\<And>x. x \<in> set xs \<Longrightarrow> spec b P (f x) (\<lambda>y t. P t \<and> g x y) R"
  shows "spec b P (io_map f xs) (\<lambda>ys t. P t \<and> list_all2 g xs ys) R"
  using assms
proof (induction xs)
  case Nil
  show ?case unfolding io_map.simps by (rule spec_return) simp
next
  case (Cons x xs)
  have 1: "spec b P (f x) (\<lambda>y t. P t \<and> g x y) R" using Cons.prems by simp
  have 2: "spec b (\<lambda>t. P t \<and> g x y) (io_bind (io_map f xs) (\<lambda>ys. io_return (y # ys)))
      (\<lambda>ys t. P t \<and> list_all2 g (x # xs) ys) R" for y
  proof (cases "g x y")
    case True
    have "spec b P (io_map f xs) (\<lambda>ys t. P t \<and> list_all2 g xs ys) R" by (rule Cons.IH) (use Cons.prems in simp)
    then have "spec b P (io_bind (io_map f xs) (\<lambda>ys. io_return (y # ys))) (\<lambda>ys t. P t \<and> list_all2 g (x # xs) ys) R"
      by (rule spec_bind) (rule spec_return, use True in simp)
    then show ?thesis using True by simp
  qed (auto intro: spec_never)
  show ?case unfolding io_map.simps by (rule spec_bind [OF 1 2])
qed

text \<open>Without faults, a program that fails on faults only comes to an end.\<close>

definition calm :: "(tree \<Rightarrow> bool) \<Rightarrow> 'a io \<Rightarrow> ('a \<Rightarrow> tree \<Rightarrow> bool) \<Rightarrow> bool" where
  "calm P m Q \<longleftrightarrow>
     (\<forall>t. tree_ok t \<longrightarrow> P t \<longrightarrow>
        (\<exists>x t'. m \<lparr>wo_tree = t, wo_faults = []\<rparr> = (Done x, \<lparr>wo_tree = t', wo_faults = []\<rparr>) \<and> tree_ok t' \<and> Q x t'))"

lemma calm_spec: "spec True P m Q R \<Longrightarrow> calm P m Q"
  unfolding calm_def
proof (intro allI impI)
  fix t assume s: "spec True P m Q R" and t: "tree_ok t" "P t"
  let ?w = "\<lparr>wo_tree = t, wo_faults = []\<rparr>"
  obtain x w' where m: "m ?w = (x, w')" by fastforce
  show "\<exists>x t'. m ?w = (Done x, \<lparr>wo_tree = t', wo_faults = []\<rparr>) \<and> tree_ok t' \<and> Q x t'"
    using s [unfolded spec_def, rule_format, of ?w] t by (cases w'; cases x) (auto simp: m)
qed

lemma calm_bind: "calm P m Q \<Longrightarrow> (\<And>x. calm (Q x) (f x) S) \<Longrightarrow> calm P (io_bind m f) S"
  unfolding calm_def io_bind_def by fastforce

lemma calm_then: "calm P m (\<lambda>_. Q) \<Longrightarrow> calm Q n S \<Longrightarrow> calm P (io_then m n) S"
  unfolding io_then_def by (rule calm_bind)

lemma calm_try: "calm P m Q \<Longrightarrow> calm P (io_try m) (\<lambda>r t. \<exists>x. r = Inr x \<and> Q x t)"
  unfolding calm_def io_try_def by fastforce

lemma calm_conseq: "calm P' m Q' \<Longrightarrow> (\<And>t. tree_ok t \<Longrightarrow> P t \<Longrightarrow> P' t) \<Longrightarrow> (\<And>x t. tree_ok t \<Longrightarrow> Q' x t \<Longrightarrow> Q x t) \<Longrightarrow> calm P m Q"
  unfolding calm_def by metis

lemma calm_never: "(\<And>t. P t \<Longrightarrow> False) \<Longrightarrow> calm P m Q"
  unfolding calm_def by blast

lemma calm_return: "(\<And>t. tree_ok t \<Longrightarrow> P t \<Longrightarrow> Q x t) \<Longrightarrow> calm P (io_return x) Q"
  unfolding calm_def io_return_def by simp

lemma calm_disj: "calm P m Q \<Longrightarrow> calm P' m Q \<Longrightarrow> calm (\<lambda>t. P t \<or> P' t) m Q"
  unfolding calm_def by blast

end
