(* ===== verification/Publication.thy ===== *)
theory Publication
  imports File_Tree
begin

text \<open>
  The publication transaction of the model cache, \<^verbatim>\<open>orchion-download/src/lib.rs\<close>: moving staged paths into
  the cache with a manifest, backups and a commit marker, and the recovery from an interrupted publication.

  Paths are relative to the root of the cache, as lists of components; the staging folder is some other path.
  The manifest's encoding is JSON by \<^verbatim>\<open>serde_json\<close> and a parameter (\<^verbatim>\<open>encode\<close>, \<^verbatim>\<open>decode\<close>), and so is the order
  in which the system removes the entries of a folder.
\<close>

section \<open>Paths\<close>

definition cache_state_dir :: path where
  "cache_state_dir = [''.orchion'']"

definition transaction_dir :: path where
  "transaction_dir = [''.orchion'', ''publish-transaction'']"

definition manifest_path :: path where
  "manifest_path = transaction_dir @ [''manifest.json'']"

definition manifest_temp :: path where
  "manifest_temp = transaction_dir @ [''manifest.tmp'']"

definition commit_path :: path where
  "commit_path = transaction_dir @ [''committed'']"

definition commit_temp :: path where
  "commit_temp = transaction_dir @ [''committed.tmp'']"

definition commit_marker :: string where
  "commit_marker = ''committed'' @ [CHR 0x0A]"

text \<open>A component is \<^verbatim>\<open>Normal\<close>: not the root, the folder itself or its parent.\<close>

definition normal_component :: "string \<Rightarrow> bool" where
  "normal_component c \<longleftrightarrow> c \<notin> {'''', ''/'', ''.'', ''..''}"

definition safe_relative :: "path \<Rightarrow> bool" where
  "safe_relative p \<longleftrightarrow> p \<noteq> [] \<and> list_all normal_component p"

section \<open>Checks\<close>

definition path_exists :: "path \<Rightarrow> bool io" where
  "path_exists p = io_bind (io_look (fs_lstat p)) (\<lambda>n. io_return (n \<noteq> None))"

definition ensure_path_absent :: "path \<Rightarrow> unit io" where
  "ensure_path_absent p =
     io_bind (io_look (fs_lstat p)) (\<lambda>n. case n of None \<Rightarrow> io_return () | Some _ \<Rightarrow> io_fail AlreadyExists)"

definition validate_safe_cache_relative_path :: "path \<Rightarrow> unit io" where
  "validate_safe_cache_relative_path p = (if safe_relative p then io_return () else io_fail InvalidInput)"

definition validate_cache_root :: "path \<Rightarrow> unit io" where
  "validate_cache_root root =
     io_bind (io_look (fs_lstat root)) (\<lambda>n.
       case n of
         None \<Rightarrow> io_return ()
       | Some Folder \<Rightarrow> io_return ()
       | Some _ \<Rightarrow> io_fail PermissionDenied)"

fun walk_ancestors :: "path \<Rightarrow> bool \<Rightarrow> path \<Rightarrow> unit io" where
  "walk_ancestors base include_leaf [] = io_return ()"
| "walk_ancestors base include_leaf (c # cs) =
     io_bind (io_look (fs_lstat (base @ [c]))) (\<lambda>n.
       case n of
         None \<Rightarrow> io_return ()
       | Some Link \<Rightarrow> io_fail PermissionDenied
       | Some k \<Rightarrow>
           if include_leaf \<and> cs = [] then io_return ()
           else if k = Folder then walk_ancestors (base @ [c]) include_leaf cs
           else io_fail NotADirectory)"

definition validate_cache_relative_ancestors :: "path \<Rightarrow> path \<Rightarrow> bool \<Rightarrow> unit io" where
  "validate_cache_relative_ancestors root relative include_leaf =
     io_then (validate_safe_cache_relative_path relative)
     (io_then (validate_cache_root root)
     (walk_ancestors root include_leaf (if include_leaf then relative else butlast relative)))"

section \<open>Operations\<close>

definition remove_cache_entry :: "removal_order \<Rightarrow> path \<Rightarrow> unit io" where
  "remove_cache_entry order p =
     io_bind (io_look (fs_lstat p)) (\<lambda>n.
       case n of
         None \<Rightarrow> io_return ()
       | Some Folder \<Rightarrow> remove_dir_all order p
       | Some _ \<Rightarrow> io_prim (fs_unlink p))"

definition write_synced_file :: "path \<Rightarrow> string \<Rightarrow> unit io" where
  "write_synced_file p contents = io_then (io_prim (fs_create p)) (io_prim (fs_fill p contents))"

definition sync_directory :: "path \<Rightarrow> unit io" where
  "sync_directory p = io_prim (fs_sync p)"

definition sync_cache_state :: "unit io" where
  "sync_cache_state = io_then (sync_directory cache_state_dir) (sync_directory [])"

section \<open>Recovery\<close>

type_synonym manifest = "(path \<times> bool) list"

text \<open>A manifest as it is read back: its list of entries, each with the path and the flag it may have.\<close>

type_synonym document = "(path option \<times> bool option) list"

definition written :: "manifest \<Rightarrow> document" where
  "written es = map (\<lambda>(relative, had_target). (Some relative, Some had_target)) es"

definition read_commit_marker :: "bool io" where
  "read_commit_marker =
     io_bind (io_look (fs_lstat commit_path)) (\<lambda>n.
       case n of
         None \<Rightarrow> io_return False
       | Some (Plain _) \<Rightarrow> io_bind (io_try (io_look (fs_read commit_path))) (\<lambda>r. io_return (r = Inr commit_marker))
       | Some _ \<Rightarrow> io_fail InvalidData)"

definition clean_committed :: "removal_order \<Rightarrow> bool io" where
  "clean_committed order =
     io_then (validate_cache_relative_ancestors [] transaction_dir True)
     (io_bind (io_try (remove_dir_all order transaction_dir)) (\<lambda>r.
       case r of
         Inl _ \<Rightarrow> io_return False
       | Inr _ \<Rightarrow> io_then sync_cache_state (io_return True)))"

definition restore_entry :: "removal_order \<Rightarrow> path \<times> bool \<Rightarrow> unit io" where
  "restore_entry order e =
     (case e of (relative, had_target) \<Rightarrow>
       io_then (validate_safe_cache_relative_path relative)
       (io_then (validate_cache_relative_ancestors [] relative True)
       (io_then (validate_cache_relative_ancestors transaction_dir relative True)
       (if had_target
        then io_bind (path_exists (transaction_dir @ relative)) (\<lambda>backed_up.
          if \<not> backed_up then io_return ()
          else io_then (validate_cache_relative_ancestors [] relative True)
            (io_then (remove_cache_entry order relative)
            (io_then (io_prim (fs_mkdirs (butlast relative)))
            (io_then (validate_cache_relative_ancestors transaction_dir relative True)
            (io_then (validate_cache_relative_ancestors [] relative False)
            (io_then (io_prim (fs_rename (transaction_dir @ relative) relative))
              (sync_directory (butlast relative))))))))
        else io_then (validate_cache_relative_ancestors [] relative True)
          (io_then (remove_cache_entry order relative)
            (sync_directory (butlast relative)))))))"

definition restore_listed :: "removal_order \<Rightarrow> path option \<times> bool option \<Rightarrow> unit io" where
  "restore_listed order e =
     (case e of
        (None, _) \<Rightarrow> io_fail InvalidData
      | (Some relative, had_target) \<Rightarrow>
          io_then (validate_safe_cache_relative_path relative)
            (case had_target of
               None \<Rightarrow> io_fail InvalidData
             | Some had \<Rightarrow> restore_entry order (relative, had)))"

definition drop_transaction :: "removal_order \<Rightarrow> bool io" where
  "drop_transaction order =
     io_then (remove_dir_all order transaction_dir) (io_then sync_cache_state (io_return True))"

definition roll_back :: "removal_order \<Rightarrow> (string \<Rightarrow> document option) \<Rightarrow> bool io" where
  "roll_back order decode =
     io_bind (io_look (fs_lstat manifest_path)) (\<lambda>n.
       case n of
         None \<Rightarrow> drop_transaction order
       | Some (Plain _) \<Rightarrow>
           io_bind (io_look (fs_read manifest_path)) (\<lambda>bytes.
             case decode bytes of
               None \<Rightarrow> io_fail InvalidData
             | Some entries \<Rightarrow>
                 io_then (io_for (restore_listed order) entries)
                 (io_then (validate_cache_relative_ancestors [] transaction_dir True)
                   (drop_transaction order)))
       | Some _ \<Rightarrow> io_fail InvalidData)"

definition recover_interrupted_publication ::
  "removal_order \<Rightarrow> (string \<Rightarrow> document option) \<Rightarrow> bool io" where
  "recover_interrupted_publication order decode =
     io_then (validate_cache_relative_ancestors [] transaction_dir True)
     (io_bind (path_exists transaction_dir) (\<lambda>pending.
       if \<not> pending then io_return True
       else io_bind read_commit_marker (\<lambda>committed.
         if committed then clean_committed order else roll_back order decode)))"

section \<open>Publication\<close>

definition manifest_entry :: "path \<Rightarrow> path \<Rightarrow> (path \<times> bool) io" where
  "manifest_entry staging_root relative =
     io_then (validate_safe_cache_relative_path relative)
     (io_then (validate_cache_relative_ancestors [] relative True)
     (io_then (validate_cache_relative_ancestors staging_root relative True)
     (io_bind (path_exists relative) (\<lambda>had_target. io_return (relative, had_target)))))"

definition back_up :: "path \<Rightarrow> unit io" where
  "back_up relative =
     io_then (validate_cache_relative_ancestors [] relative True)
     (io_bind (path_exists relative) (\<lambda>there.
       if \<not> there then io_return ()
       else let parent = butlast (transaction_dir @ relative) in
         io_then (validate_cache_relative_ancestors transaction_dir relative True)
         (io_then (io_prim (fs_mkdirs parent))
         (io_then (validate_cache_relative_ancestors [] relative True)
         (io_then (io_prim (fs_rename relative (transaction_dir @ relative)))
         (io_then (sync_directory parent)
         (io_then (sync_directory transaction_dir)
         (io_then (sync_directory (butlast relative))
           (sync_directory [])))))))))"

definition install :: "path \<Rightarrow> path \<Rightarrow> unit io" where
  "install staging_root relative =
     io_then (validate_cache_relative_ancestors staging_root relative True)
     (io_then (validate_cache_relative_ancestors [] relative True)
     (io_then (io_prim (fs_mkdirs (butlast relative)))
     (io_then (validate_cache_relative_ancestors staging_root relative True)
     (io_then (validate_cache_relative_ancestors [] relative False)
     (io_then (io_prim (fs_rename (staging_root @ relative) relative))
     (io_then (sync_directory (butlast relative))
     (io_then (sync_directory [])
       (sync_directory (butlast (staging_root @ relative))))))))))"

definition commit :: "unit io" where
  "commit =
     io_then (ensure_path_absent commit_temp)
     (io_then (write_synced_file commit_temp commit_marker)
     (io_then (io_prim (fs_rename commit_temp commit_path))
       (sync_directory transaction_dir)))"

definition write_manifest :: "string \<Rightarrow> unit io" where
  "write_manifest bytes =
     io_then (ensure_path_absent manifest_temp)
     (io_then (write_synced_file manifest_temp bytes)
     (io_then (io_prim (fs_rename manifest_temp manifest_path))
     (io_then (sync_directory transaction_dir) sync_cache_state)))"

definition move_all :: "path \<Rightarrow> path list \<Rightarrow> unit io" where
  "move_all staging_root relatives =
     io_then (io_for back_up relatives) (io_then (io_for (install staging_root) relatives) commit)"

definition finish_publication ::
  "removal_order \<Rightarrow> (string \<Rightarrow> document option) \<Rightarrow> io_error + unit \<Rightarrow> unit io" where
  "finish_publication order decode result =
     (case result of
        Inl e \<Rightarrow>
          io_bind (io_try (recover_interrupted_publication order decode)) (\<lambda>r.
            io_fail (if r = Inr True then e else OtherError))
      | Inr _ \<Rightarrow>
          io_bind (io_try (remove_dir_all order transaction_dir)) (\<lambda>r.
            case r of
              Inl _ \<Rightarrow> io_return ()
            | Inr _ \<Rightarrow> sync_cache_state))"

definition publish_staged_relative_paths ::
  "removal_order \<Rightarrow> (manifest \<Rightarrow> string) \<Rightarrow> (string \<Rightarrow> document option) \<Rightarrow> path \<Rightarrow> path list \<Rightarrow> unit io" where
  "publish_staged_relative_paths order encode decode staging_root relatives =
     io_bind (recover_interrupted_publication order decode) (\<lambda>ready.
       if \<not> ready then io_fail ResourceBusy
       else io_then (io_prim (fs_mkdirs transaction_dir))
         (io_then (validate_cache_relative_ancestors [] transaction_dir True)
         (io_then (validate_cache_relative_ancestors [] transaction_dir True)
         (io_bind (io_map (manifest_entry staging_root) relatives) (\<lambda>entries.
           io_then (write_manifest (encode entries))
           (io_bind (io_try (move_all staging_root relatives))
             (finish_publication order decode)))))))"

section \<open>What a publication keeps\<close>

definition in_cache :: "path \<Rightarrow> bool" where
  "in_cache q \<longleftrightarrow> \<not> prefix cache_state_dir q"

definition reserved_names :: "string list" where
  "reserved_names = [''manifest.json'', ''manifest.tmp'', ''committed'', ''committed.tmp'']"

text \<open>Paths that can be published together: none inside another, none in the state folder, none that its
  backup would put where the manifest or the marker goes.\<close>

definition paths_ok :: "path list \<Rightarrow> bool" where
  "paths_ok ps \<longleftrightarrow>
     distinct ps \<and> (\<forall>p \<in> set ps. safe_relative p \<and> hd p \<noteq> ''.orchion'' \<and> hd p \<notin> set reserved_names)
     \<and> (\<forall>p \<in> set ps. \<forall>q \<in> set ps. prefix p q \<longrightarrow> p = q)"

text \<open>What the checks of a path's ancestors ask for.\<close>

definition clear :: "tree \<Rightarrow> path \<Rightarrow> path \<Rightarrow> bool" where
  "clear t base p \<longleftrightarrow>
     (\<forall>a. a \<noteq> [] \<longrightarrow> strict_prefix a p \<longrightarrow> map_of t (base @ a) = None \<or> map_of t (base @ a) = Some Folder)
     \<and> map_of t (base @ p) \<noteq> Some Link"

text \<open>A transaction that can be rolled back to \<open>old\<close>: what was at a path is in its backup, or still there.\<close>

definition entry_saved :: "(path \<Rightarrow> node option) \<Rightarrow> tree \<Rightarrow> path \<times> bool \<Rightarrow> bool" where
  "entry_saved old t e \<longleftrightarrow>
     clear t [] (fst e) \<and> clear t transaction_dir (fst e)
     \<and> (if snd e
        then (if map_of t (transaction_dir @ fst e) = None then \<forall>r. file_at t (fst e @ r) = old (fst e @ r)
              else \<forall>r. file_at t (transaction_dir @ fst e @ r) = old (fst e @ r))
        else \<forall>r. old (fst e @ r) = None)"

definition rolling :: "string \<Rightarrow> manifest \<Rightarrow> (path \<Rightarrow> node option) \<Rightarrow> tree \<Rightarrow> bool" where
  "rolling bytes es old t \<longleftrightarrow>
     map_of t manifest_path = Some (Plain bytes) \<and> map_of t commit_path = None
     \<and> (\<forall>e \<in> set es. entry_saved old t e)
     \<and> (\<forall>q. in_cache q \<longrightarrow> (\<forall>e \<in> set es. \<not> prefix (fst e) q) \<longrightarrow> file_at t q = old q)"

definition shows_files :: "(path \<Rightarrow> node option) \<Rightarrow> tree \<Rightarrow> bool" where
  "shows_files G t \<longleftrightarrow> (\<forall>q. in_cache q \<longrightarrow> file_at t q = G q)"

text \<open>No transaction, or one that is only to be cleaned up.\<close>

definition home_ok :: "tree \<Rightarrow> bool" where
  "home_ok t \<longleftrightarrow> map_of t [] = Some Folder \<and> map_of t cache_state_dir = Some Folder
     \<and> (map_of t transaction_dir = None \<or> map_of t transaction_dir = Some Folder)"

definition settled :: "(path \<Rightarrow> node option) \<Rightarrow> tree \<Rightarrow> bool" where
  "settled G t \<longleftrightarrow>
     home_ok t \<and> shows_files G t
     \<and> (map_of t commit_path = Some (Plain commit_marker)
        \<or> (map_of t commit_path = None \<and> map_of t manifest_path = None))"

definition parents_there :: "manifest \<Rightarrow> tree \<Rightarrow> bool" where
  "parents_there es t \<longleftrightarrow> (\<forall>e \<in> set es. map_of t (butlast (fst e)) = Some Folder)"

subsection \<open>Paths\<close>

lemma hidden_transaction: "\<not> in_cache (transaction_dir @ r)" "\<not> in_cache transaction_dir"
  by (simp_all add: in_cache_def cache_state_dir_def transaction_dir_def)

lemma hidden_files: "\<not> in_cache manifest_path" "\<not> in_cache commit_path" "\<not> in_cache manifest_temp" "\<not> in_cache commit_temp"
  by (simp_all add: manifest_path_def commit_path_def manifest_temp_def commit_temp_def hidden_transaction)

lemma visible_mono: "in_cache p \<Longrightarrow> in_cache (p @ r)" if "p \<noteq> []"
  using that by (cases p) (auto simp: in_cache_def cache_state_dir_def)

lemma prefix_visible: "in_cache p \<Longrightarrow> p \<noteq> [] \<Longrightarrow> prefix p q \<Longrightarrow> in_cache q"
  using visible_mono by (auto simp: prefix_def)

lemma paths_okD:
  assumes "paths_ok ps" "p \<in> set ps"
  shows "p \<noteq> []" "safe_relative p" "in_cache p" "hd p \<notin> set reserved_names" "q \<in> set ps \<Longrightarrow> prefix p q \<Longrightarrow> p = q"
    "distinct ps"
proof -
  show n: "p \<noteq> []" "safe_relative p" "hd p \<notin> set reserved_names" "distinct ps"
    using assms by (auto simp: paths_ok_def safe_relative_def)
  show "q \<in> set ps \<Longrightarrow> prefix p q \<Longrightarrow> p = q" using assms unfolding paths_ok_def by blast
  have "hd p \<noteq> ''.orchion''" using assms unfolding paths_ok_def by blast
  then show "in_cache p" using n(1) by (cases p) (auto simp: in_cache_def cache_state_dir_def)
qed

lemma paths_apart:
  assumes "paths_ok ps" "p \<in> set ps" "q \<in> set ps" "p \<noteq> q"
  shows "\<not> prefix p (q @ r)"
proof
  assume "prefix p (q @ r)"
  then have "prefix p q \<or> prefix q p" by (metis prefix_same_cases prefixI)
  then show False using paths_okD(5) [OF assms(1,2,3)] paths_okD(5) [OF assms(1,3,2)] assms(4) by blast
qed

lemma ancestors_apart:
  assumes "paths_ok ps" "p \<in> set ps" "q \<in> set ps" "strict_prefix a q"
  shows "\<not> prefix p a"
proof
  assume "prefix p a"
  then have "strict_prefix p q" using assms(4) by (meson prefix_order.le_less_trans)
  then have "prefix p q" "p \<noteq> q" by auto
  then show False using paths_okD(5) [OF assms(1,2,3)] by blast
qed

lemma backup_not_reserved:
  assumes "paths_ok ps" "p \<in> set ps"
  shows "\<not> prefix (transaction_dir @ p) manifest_path" "\<not> prefix (transaction_dir @ p) commit_path"
    "\<not> prefix (transaction_dir @ p) manifest_temp" "\<not> prefix (transaction_dir @ p) commit_temp"
  using paths_okD(1,4) [OF assms] 
  by (cases p; auto simp: manifest_path_def commit_path_def manifest_temp_def commit_temp_def reserved_names_def)+

subsection \<open>Checks\<close>

text \<open>A check does not change the tree; it succeeds on clear paths and shows that a path is clear.\<close>

lemma lstat_spec:
  assumes "\<And>t. P t \<Longrightarrow> R t"
  shows "spec b P (io_look (fs_lstat p)) (\<lambda>n t. P t \<and> map_of t p = n) R"
  by (rule spec_look) (auto simp: fs_lstat_def assms)

definition walkable :: "tree \<Rightarrow> path \<Rightarrow> bool \<Rightarrow> path \<Rightarrow> bool" where
  "walkable t base leaf cs \<longleftrightarrow>
     (\<forall>a. a \<noteq> [] \<longrightarrow> prefix a cs \<longrightarrow> map_of t (base @ a) = None \<or> map_of t (base @ a) = Some Folder
        \<or> (leaf \<and> a = cs \<and> map_of t (base @ a) \<noteq> Some Link))"

lemma walkable_Cons:
  "walkable t base leaf (c # cs) \<longleftrightarrow>
     (map_of t (base @ [c]) = None \<or> map_of t (base @ [c]) = Some Folder
        \<or> (leaf \<and> cs = [] \<and> map_of t (base @ [c]) \<noteq> Some Link))
     \<and> walkable t (base @ [c]) leaf cs"
proof -
  have "(\<forall>a. a \<noteq> [] \<longrightarrow> prefix a (c # cs) \<longrightarrow> F a) \<longleftrightarrow> F [c] \<and> (\<forall>a. a \<noteq> [] \<longrightarrow> prefix a cs \<longrightarrow> F (c # a))" for F
  proof (intro iffI conjI allI impI; (elim conjE)?)
    fix a assume F: "F [c]" "\<forall>a. a \<noteq> [] \<longrightarrow> prefix a cs \<longrightarrow> F (c # a)" and a: "a \<noteq> []" "prefix a (c # cs)"
    then obtain a' where "a = c # a'" "prefix a' cs" by (auto simp: prefix_Cons)
    then show "F a" using F by (cases "a' = []") auto
  qed auto
  from this [of "\<lambda>a. map_of t (base @ a) = None \<or> map_of t (base @ a) = Some Folder
      \<or> (leaf \<and> a = c # cs \<and> map_of t (base @ a) \<noteq> Some Link)"] show ?thesis
    unfolding walkable_def by (simp add: eq_commute [of cs "[]"])
qed

lemma walkable_Nil: "walkable t base leaf []"
  by (simp add: walkable_def)

lemma walkable_absent: "tree_ok t \<Longrightarrow> map_of t base = None \<Longrightarrow> walkable t base leaf cs"
  unfolding walkable_def by (metis below_absent option.distinct(1) prefixI prefix_order.less_le same_append_eq append_Nil2)

lemma walk_spec:
  "spec b (\<lambda>t. P t \<and> (b \<longrightarrow> walkable t base leaf cs)) (walk_ancestors base leaf cs)
    (\<lambda>_ t. P t \<and> walkable t base leaf cs) P"
proof (induction cs arbitrary: base P)
  case Nil
  show ?case unfolding walk_ancestors.simps by (rule spec_return) (auto simp: walkable_def)
next
  case (Cons c cs)
  show ?case
    unfolding walk_ancestors.simps
  proof (rule spec_bind)
    show "spec b (\<lambda>t. P t \<and> (b \<longrightarrow> walkable t base leaf (c # cs))) (io_look (fs_lstat (base @ [c])))
        (\<lambda>n t. (P t \<and> map_of t (base @ [c]) = n) \<and> (b \<longrightarrow> walkable t base leaf (c # cs))) P"
      by (rule spec_conseq [OF lstat_spec [where P = "\<lambda>t. P t \<and> (b \<longrightarrow> walkable t base leaf (c # cs))" and R = P]]) auto
    fix n
    have rec: "spec b (\<lambda>t. (P t \<and> map_of t (base @ [c]) = Some Folder) \<and> (b \<longrightarrow> walkable t (base @ [c]) leaf cs))
        (walk_ancestors (base @ [c]) leaf cs)
        (\<lambda>_ t. (P t \<and> map_of t (base @ [c]) = Some Folder) \<and> walkable t (base @ [c]) leaf cs)
        (\<lambda>t. P t \<and> map_of t (base @ [c]) = Some Folder)"
      by (rule Cons.IH)
    show "spec b (\<lambda>t. (P t \<and> map_of t (base @ [c]) = n) \<and> (b \<longrightarrow> walkable t base leaf (c # cs)))
        (case n of None \<Rightarrow> io_return ()
         | Some Link \<Rightarrow> io_fail PermissionDenied
         | Some k \<Rightarrow> if leaf \<and> cs = [] then io_return ()
                      else if k = Folder then walk_ancestors (base @ [c]) leaf cs else io_fail NotADirectory)
        (\<lambda>_ t. P t \<and> walkable t base leaf (c # cs)) P"
    proof (cases n)
      case None
      then show ?thesis by (auto intro!: spec_return simp: walkable_Cons walkable_absent)
    next
      case (Some k)
      show ?thesis
      proof (cases "k \<noteq> Link \<and> leaf \<and> cs = []")
        case True
        then show ?thesis using Some
          by (cases k) (auto intro!: spec_return simp: walkable_Cons walkable_Nil)
      next
        case False
        show ?thesis
        proof (cases "k = Folder")
          case True
          then have "spec b (\<lambda>t. (P t \<and> map_of t (base @ [c]) = n) \<and> (b \<longrightarrow> walkable t base leaf (c # cs)))
              (walk_ancestors (base @ [c]) leaf cs) (\<lambda>_ t. P t \<and> walkable t base leaf (c # cs)) P"
            by (intro spec_conseq [OF rec]) (auto simp: Some walkable_Cons)
          then show ?thesis using False True Some by auto
        next
          case nf: False
          then show ?thesis using False Some
            by (cases k) (auto intro!: spec_fail simp: walkable_Cons)
        qed
      qed
    qed
  qed
qed

lemma walkable_clear: "walkable t base True p \<longleftrightarrow> clear t base p" if "p \<noteq> []"
  using that unfolding walkable_def clear_def by (auto simp: prefix_order.less_le)

lemma walkable_above: "clear t base p \<Longrightarrow> p \<noteq> [] \<Longrightarrow> walkable t base False (butlast p)"
  unfolding walkable_def clear_def by (meson prefix_order.le_less_trans strict_prefix_of_butlast)

definition root_ok :: "tree \<Rightarrow> path \<Rightarrow> bool" where
  "root_ok t root \<longleftrightarrow> map_of t root = None \<or> map_of t root = Some Folder"

lemma validate_spec:
  assumes "safe_relative p"
  shows "spec b (\<lambda>t. P t \<and> (b \<longrightarrow> root_ok t root \<and> clear t root p))
    (validate_cache_relative_ancestors root p leaf) (\<lambda>_ t. P t \<and> (leaf \<longrightarrow> clear t root p)) P"
  unfolding validate_cache_relative_ancestors_def
proof (rule spec_then)
  have p: "p \<noteq> []" using assms by (simp add: safe_relative_def)
  let ?P = "\<lambda>t. P t \<and> (b \<longrightarrow> root_ok t root \<and> clear t root p)"
  show "spec b ?P (validate_safe_cache_relative_path p) (\<lambda>_. ?P) P"
    using assms by (auto simp: validate_safe_cache_relative_path_def intro: spec_return)
  show "spec b ?P (io_then (validate_cache_root root)
      (walk_ancestors root leaf (if leaf then p else butlast p))) (\<lambda>_ t. P t \<and> (leaf \<longrightarrow> clear t root p)) P"
  proof (rule spec_then)
    show "spec b ?P (validate_cache_root root) (\<lambda>_. ?P) P"
      unfolding validate_cache_root_def
    proof (rule spec_bind)
      show "spec b ?P (io_look (fs_lstat root)) (\<lambda>n t. ?P t \<and> map_of t root = n) P"
        by (rule lstat_spec) simp
      show "spec b (\<lambda>t. ?P t \<and> map_of t root = n)
          (case n of None \<Rightarrow> io_return () | Some Folder \<Rightarrow> io_return () | Some _ \<Rightarrow> io_fail PermissionDenied)
          (\<lambda>_. ?P) P" for n
        by (auto intro!: spec_return spec_fail simp: root_ok_def split: option.split node.split)
    qed
    show "spec b ?P (walk_ancestors root leaf (if leaf then p else butlast p)) (\<lambda>_ t. P t \<and> (leaf \<longrightarrow> clear t root p)) P"
      by (rule spec_conseq [OF walk_spec [of b P root leaf]])
        (use p walkable_clear [OF p] walkable_above [OF _ p] in auto)
  qed
qed

lemma path_exists_spec:
  assumes "\<And>t. P t \<Longrightarrow> R t"
  shows "spec b P (path_exists p) (\<lambda>r t. P t \<and> r = (map_of t p \<noteq> None)) R"
  unfolding path_exists_def
  by (rule spec_bind [OF lstat_spec [of P R, OF assms]]) (auto intro: spec_return)

lemma sync_spec:
  assumes "\<And>t. P t \<Longrightarrow> R t" "\<And>t. P t \<Longrightarrow> Q t" "\<And>t. P t \<Longrightarrow> b \<Longrightarrow> map_of t p \<noteq> None"
  shows "spec b P (sync_directory p) (\<lambda>_. Q) R"
  unfolding sync_directory_def
proof (rule spec_prim)
  fix t e assume "P t" "fs_sync p t = Inl e"
  then show "\<not> b" using assms(3) [of t] by (auto simp: fs_sync_def split: if_splits)
qed (use assms(1,2) in \<open>auto simp: fs_sync_def split: if_splits\<close>)

lemma check_spec:
  assumes "safe_relative p" "\<And>t. tree_ok t \<Longrightarrow> P t \<Longrightarrow> b \<Longrightarrow> root_ok t root \<and> clear t root p"
    "\<And>t. tree_ok t \<Longrightarrow> P t \<Longrightarrow> R t" "\<And>t. tree_ok t \<Longrightarrow> P t \<Longrightarrow> (leaf \<longrightarrow> clear t root p) \<Longrightarrow> Q t"
  shows "spec b P (validate_cache_relative_ancestors root p leaf) (\<lambda>_. Q) R"
  by (rule spec_conseq [OF validate_spec [OF assms(1), of b P root leaf]]) (use assms in auto)

section \<open>Changes a transaction can be rolled back from\<close>

lemma rolling_home:
  assumes "tree_ok t" "rolling bytes es old t"
  shows "map_of t [] = Some Folder" "map_of t cache_state_dir = Some Folder" "map_of t transaction_dir = Some Folder"
proof -
  have m: "map_of t manifest_path \<noteq> None" using assms(2) by (simp add: rolling_def)
  show "map_of t [] = Some Folder" "map_of t cache_state_dir = Some Folder" "map_of t transaction_dir = Some Folder"
    by (rule above_is_folder [OF assms(1) m];
        simp add: manifest_path_def transaction_dir_def cache_state_dir_def prefix_order.less_le)+
qed

text \<open>A change below one path and its backup only, and in places the transaction does not look at.\<close>

definition same_beside :: "path \<Rightarrow> tree \<Rightarrow> tree \<Rightarrow> bool" where
  "same_beside p t t' \<longleftrightarrow>
     (\<forall>x. (in_cache x \<or> prefix transaction_dir x) \<longrightarrow> \<not> prefix p x \<longrightarrow> \<not> prefix (transaction_dir @ p) x \<longrightarrow>
        map_of t' x = map_of t x)"

lemma strict_prefix_visible: "in_cache q \<Longrightarrow> a \<noteq> [] \<Longrightarrow> strict_prefix a q \<Longrightarrow> in_cache a"
  by (cases a; cases q) (auto simp: in_cache_def cache_state_dir_def)

lemma same_beside_clear:
  assumes ps: "paths_ok ps" "p \<in> set ps" "q \<in> set ps" and same: "same_beside p t t'" and a: "strict_prefix a q" "a \<noteq> []"
  shows "map_of t' a = map_of t a" "map_of t' (transaction_dir @ a) = map_of t (transaction_dir @ a)"
proof -
  have v: "in_cache a" by (rule strict_prefix_visible [OF paths_okD(3) [OF ps(1,3)] a(2,1)])
  have n: "\<not> prefix p a" by (rule ancestors_apart [OF ps a(1)])
  have h: "\<not> prefix p (transaction_dir @ r)" "\<not> prefix (transaction_dir @ p) a" for r
    using prefix_visible [OF paths_okD(3,1) [OF ps(1,2)], of "transaction_dir @ r"] hidden_transaction
      v hidden_transaction(1) [of p] by (metis prefixE in_cache_def hidden_transaction(1) append_assoc)+
  show "map_of t' a = map_of t a" "map_of t' (transaction_dir @ a) = map_of t (transaction_dir @ a)"
    using same v n h(2) h(1) [of a] by (simp_all add: same_beside_def)
qed

lemma rolling_change:
  assumes ps: "paths_ok (map fst es)" and e: "(p, had) \<in> set es" and roll: "rolling bytes es old t"
    and same: "same_beside p t t'" and own: "entry_saved old t' (p, had)"
  shows "rolling bytes es old t'"
proof -
  have p: "p \<in> set (map fst es)" using e by force
  note pD = paths_okD [OF ps p]
  have hid: "\<not> prefix p (transaction_dir @ r)" "\<not> prefix p manifest_path" "\<not> prefix p commit_path" for r
    using prefix_visible [OF pD(3,1)] hidden_transaction hidden_files by blast+
  have vis: "\<not> prefix (transaction_dir @ r) x" if "in_cache x" for r x
    using that hidden_transaction(1) by (metis append.assoc prefixE)
  have files: "map_of t' manifest_path = map_of t manifest_path" "map_of t' commit_path = map_of t commit_path"
    using same hid backup_not_reserved [OF ps p] by (simp_all add: same_beside_def manifest_path_def commit_path_def)
  have saved: "entry_saved old t' e'" if e': "e' \<in> set es" for e'
  proof (cases "fst e' = p")
    case True
    have "inj_on fst (set es)" using pD(6) by (simp add: distinct_map)
    then have "e' = (p, had)" using True e e' by (auto simp: inj_on_def)
    then show ?thesis using own by simp
  next
    case False
    have q: "fst e' \<in> set (map fst es)" using e' by simp
    note qD = paths_okD [OF ps q]
    have far: "\<not> prefix p (fst e' @ r)" for r using paths_apart [OF ps p q] False by blast
    have 1: "map_of t' (fst e' @ r) = map_of t (fst e' @ r)" for r
      using same far vis [OF visible_mono [OF qD(1,3)]] visible_mono [OF qD(1,3)]
      by (simp add: same_beside_def)
    have 2: "map_of t' (transaction_dir @ fst e' @ r) = map_of t (transaction_dir @ fst e' @ r)" for r
      using same far hid by (simp add: same_beside_def)
    note 3 = same_beside_clear [OF ps p q same]
    have "clear t' [] (fst e')" "clear t' transaction_dir (fst e')"
      using roll e' 1 [of "[]"] 2 [of "[]"] 3 by (simp_all add: rolling_def entry_saved_def clear_def)
    moreover have "entry_saved old t e'" using roll e' by (simp add: rolling_def)
    moreover have "file_at t' (fst e' @ r) = file_at t (fst e' @ r)"
        "file_at t' (transaction_dir @ fst e' @ r) = file_at t (transaction_dir @ fst e' @ r)" for r
      by (rule file_at_cong, rule 1) (rule file_at_cong, rule 2)
    ultimately show ?thesis using 2 [of "[]"] by (simp add: entry_saved_def)
  qed
  have rest: "file_at t' q = old q" if q: "in_cache q" "\<forall>e \<in> set es. \<not> prefix (fst e) q" for q
  proof -
    have "\<not> prefix p q" using q(2) e by force
    then have "map_of t' q = map_of t q" using same q(1) vis by (simp add: same_beside_def)
    then show ?thesis using roll q by (simp add: rolling_def file_at_def)
  qed
  show ?thesis using roll files saved rest by (simp add: rolling_def)
qed

text \<open>The single changes: an entry below a path that is backed up or was not there, a path moved to its backup
  and back, a staged path moved in, and new folders.\<close>

lemma rolling_entry:
  assumes "rolling bytes es old t" "(p, had) \<in> set es"
  shows "clear t [] p" "clear t transaction_dir p"
    "had \<Longrightarrow> map_of t (transaction_dir @ p) = None \<Longrightarrow> file_at t (p @ r) = old (p @ r)"
    "had \<Longrightarrow> map_of t (transaction_dir @ p) \<noteq> None \<Longrightarrow> file_at t (transaction_dir @ p @ r) = old (p @ r)"
    "\<not> had \<Longrightarrow> old (p @ r) = None"
proof -
  have s: "entry_saved old t (p, had)" using assms by (auto simp: rolling_def)
  then show "clear t [] p" "clear t transaction_dir p" by (simp_all add: entry_saved_def)
  show "had \<Longrightarrow> map_of t (transaction_dir @ p) = None \<Longrightarrow> file_at t (p @ r) = old (p @ r)"
    "had \<Longrightarrow> map_of t (transaction_dir @ p) \<noteq> None \<Longrightarrow> file_at t (transaction_dir @ p @ r) = old (p @ r)"
    "\<not> had \<Longrightarrow> old (p @ r) = None"
    using s by (auto simp: entry_saved_def split: if_splits)
qed

lemma clear_shrink: "clear t base p \<Longrightarrow> (\<And>x. map_of t' x = map_of t x \<or> map_of t' x = None) \<Longrightarrow> clear t' base p"
  unfolding clear_def by (metis option.distinct(1))

lemma rolling_unlink:
  assumes ps: "paths_ok (map fst es)" and e: "(p, had) \<in> set es" and roll: "rolling bytes es old t"
    and x: "prefix p x" and there: "had \<Longrightarrow> map_of t (transaction_dir @ p) \<noteq> None"
    and t': "map_of t' = (map_of t)(x := None)"
  shows "rolling bytes es old t'"
proof (rule rolling_change [OF ps e roll])
  have p: "p \<in> set (map fst es)" using e by force
  note pD = paths_okD [OF ps p]
  show "same_beside p t t'" using x by (auto simp: same_beside_def t')
  have b: "transaction_dir @ p @ r \<noteq> x" for r
    using prefix_visible [OF pD(3,1) x] hidden_transaction(1) by blast
  have f: "file_at t' (transaction_dir @ p @ r) = file_at t (transaction_dir @ p @ r)" for r
    by (rule file_at_cong) (simp add: t' b)
  have "clear t' [] p" "clear t' transaction_dir p"
    by (rule clear_shrink [OF rolling_entry(1) [OF roll e]], simp add: t')
      (rule clear_shrink [OF rolling_entry(2) [OF roll e]], simp add: t')
  then show "entry_saved old t' (p, had)"
    using rolling_entry(4,5) [OF roll e] there f b [of "[]"]
    by (cases had) (auto simp: entry_saved_def t')
qed

lemma moved:
  assumes m: "\<And>x. map_of t' x = (if prefix dst x then map_of t (src @ drop (length dst) x)
      else if prefix src x then None else map_of t x)" and n: "\<not> prefix src dst" "\<not> prefix dst src"
  shows "map_of t' (dst @ r) = map_of t (src @ r)" "map_of t' (src @ r) = None"
    "file_at t' (dst @ r) = file_at t (src @ r)"
proof -
  show "map_of t' (dst @ r) = map_of t (src @ r)" by (simp add: m)
  then show "file_at t' (dst @ r) = file_at t (src @ r)" by (simp add: file_at_def)
  have "\<not> prefix dst (src @ r)" using n by (metis prefix_same_cases prefixI)
  then show "map_of t' (src @ r) = None" by (simp add: m)
qed

lemma rolling_swap:
  assumes ps: "paths_ok (map fst es)" and e: "(p, had) \<in> set es" and roll: "rolling bytes es old t"
    and m: "\<And>x. map_of t' x = (if prefix dst x then map_of t (src @ drop (length dst) x)
      else if prefix src x then None else map_of t x)" and n: "\<not> prefix src dst" "\<not> prefix dst src"
    and cases: "(src = p \<and> dst = transaction_dir @ p \<and> had \<and> map_of t dst = None)
      \<or> (src = transaction_dir @ p \<and> dst = p \<and> had \<and> map_of t src \<noteq> None)"
    and src: "map_of t src \<noteq> None"
  shows "rolling bytes es old t'" "map_of t' (transaction_dir @ p) \<noteq> None \<longleftrightarrow> src = p"
    "src = p \<Longrightarrow> map_of t' (p @ r) = None"
    "src \<noteq> p \<Longrightarrow> file_at t' (p @ r) = old (p @ r)"
proof -
  have p: "p \<in> set (map fst es)" using e by force
  note pD = paths_okD [OF ps p] and mv = moved [OF m n] and en = rolling_entry [OF roll e]
  have ne: "transaction_dir @ p \<noteq> p" by (simp add: transaction_dir_def)
  have same: "same_beside p t t'" using cases by (auto simp: same_beside_def m)
  have anc: "map_of t' (base @ a) = map_of t (base @ a)"
    if "base = [] \<or> base = transaction_dir" "a \<noteq> []" "strict_prefix a p" for base a
    using same_beside_clear [OF ps p p same that(3,2)] that(1) by auto
  have leaf: "map_of t' p \<noteq> Some Link" "map_of t' (transaction_dir @ p) \<noteq> Some Link"
    using cases mv [of "[]"] en(1,2) by (auto simp: clear_def)
  have cl: "clear t' [] p" "clear t' transaction_dir p"
    using en(1,2) anc [of "[]"] anc [of transaction_dir] leaf by (auto simp: clear_def)
  have own: "entry_saved old t' (p, had)" and "map_of t' (transaction_dir @ p) \<noteq> None \<longleftrightarrow> src = p"
    "src = p \<Longrightarrow> map_of t' (p @ r) = None" "src \<noteq> p \<Longrightarrow> file_at t' (p @ r) = old (p @ r)" for r
    using cases cl mv mv [of "[]"] en(3,4) src ne by (auto simp: entry_saved_def)
  then show "map_of t' (transaction_dir @ p) \<noteq> None \<longleftrightarrow> src = p" "src = p \<Longrightarrow> map_of t' (p @ r) = None"
    "src \<noteq> p \<Longrightarrow> file_at t' (p @ r) = old (p @ r)" by blast+
  show "rolling bytes es old t'" by (rule rolling_change [OF ps e roll same own])
qed
lemma rolling_install:
  assumes ps: "paths_ok (map fst es)" and e: "(p, had) \<in> set es" and roll: "rolling bytes es old t"
    and m: "\<And>x. map_of t' x = (if prefix p x then map_of t (src @ drop (length p) x)
      else if prefix src x then None else map_of t x)"
    and src: "\<not> in_cache src" "\<not> prefix src transaction_dir" "\<not> prefix transaction_dir src" "map_of t src \<noteq> Some Link"
    and there: "had \<Longrightarrow> map_of t (transaction_dir @ p) \<noteq> None"
  shows "rolling bytes es old t'"
proof (rule rolling_change [OF ps e roll])
  have p: "p \<in> set (map fst es)" using e by force
  note pD = paths_okD [OF ps p] and en = rolling_entry [OF roll e]
  have s: "\<not> prefix src x" if "in_cache x \<or> prefix transaction_dir x" for x
    using that src
    by (metis prefix_same_cases prefix_order.trans in_cache_def)
  have far: "\<not> prefix p (transaction_dir @ r)" for r using prefix_visible [OF pD(3,1)] hidden_transaction by blast
  show same: "same_beside p t t'" using s by (auto simp: same_beside_def m)
  have T: "map_of t' (transaction_dir @ r) = map_of t (transaction_dir @ r)" for r
    using far s by (simp add: m)
  then have Tf: "file_at t' (transaction_dir @ r) = file_at t (transaction_dir @ r)" for r by (simp add: file_at_def)
  have anc: "map_of t' a = map_of t a" if "a \<noteq> []" "strict_prefix a p" for a
    using same_beside_clear(1) [OF ps p p same that(2,1)] by simp
  have "clear t' [] p" using en(1) anc src(4) by (auto simp: clear_def m)
  moreover have "clear t' transaction_dir p" using en(2) T by (simp add: clear_def)
  ultimately show "entry_saved old t' (p, had)"
    using en(4,5) there T Tf by (cases had) (auto simp: entry_saved_def)
qed

lemma rolling_mkdirs:
  assumes roll: "rolling bytes es old t" and m: "fs_mkdirs d t = Inr (u, t')"
    and d: "\<And>e. e \<in> set es \<Longrightarrow> \<not> prefix (transaction_dir @ fst e) d" "\<not> prefix commit_path d"
  shows "rolling bytes es old t'"
proof -
  note l = fs_mkdirs_laws [OF m]
  have c: "clear t' base p" if "clear t base p" for base p
    using that unfolding clear_def l(1) by (metis node.distinct(3) option.inject)
  have "entry_saved old t' e" if "e \<in> set es" "entry_saved old t e" for e
    using that d(1) [OF that(1)] c by (auto simp: entry_saved_def l(1,2) split: if_splits)
  then show ?thesis using roll d(2) by (auto simp: rolling_def l(1,2))
qed

lemma parents_mkdirs: "parents_there es t \<Longrightarrow> fs_mkdirs d t = Inr (u, t') \<Longrightarrow> parents_there es t'"
  using fs_mkdirs_laws(1) [of d t u t'] by (simp add: parents_there_def)

lemma parents_change:
  assumes "paths_ok (map fst es)" "(p, had) \<in> set es" "same_beside p t t'" "parents_there es t" "map_of t' [] = map_of t []"
  shows "parents_there es t'"
  unfolding parents_there_def
proof
  fix e assume e: "e \<in> set es"
  have p: "p \<in> set (map fst es)" and q: "fst e \<in> set (map fst es)" using assms(2) e by force+
  have "fst e \<noteq> []" by (rule paths_okD(1) [OF assms(1) q])
  then have s: "strict_prefix (butlast (fst e)) (fst e)" by (rule strict_prefix_of_butlast)
  show "map_of t' (butlast (fst e)) = Some Folder"
  proof (cases "butlast (fst e) = []")
    case True
    then show ?thesis using assms(4,5) e by (fastforce simp: parents_there_def)
  next
    case False
    then show ?thesis
      using same_beside_clear(1) [OF assms(1) p q assms(3) s] assms(4) e by (simp add: parents_there_def)
  qed
qed

section \<open>Recovery\<close>

lemma sorted_wrt_always: "sorted_wrt (\<lambda>_ _. True) xs"
  by (induction xs) auto

lemma remove_cache_entry_spec:
  assumes order: "valid_order order"
    and step: "\<And>t x t'. I t \<Longrightarrow> prefix p x \<Longrightarrow> map_of t' = (map_of t)(x := None) \<Longrightarrow> tree_ok t' \<Longrightarrow> I t'"
  shows "spec b I (remove_cache_entry order p) (\<lambda>_ t. I t \<and> (\<forall>x. prefix p x \<longrightarrow> map_of t x = None)) I"
  unfolding remove_cache_entry_def
proof (rule spec_bind)
  show "spec b I (io_look (fs_lstat p)) (\<lambda>n t. I t \<and> map_of t p = n) I" by (rule lstat_spec)
  fix n
  have none: "\<forall>x. prefix p x \<longrightarrow> map_of t x = None" if "tree_ok t" "map_of t p \<noteq> Some Folder" "map_of t p = None" for t
    using below_absent [OF that(1,2)] that(3) by (auto simp: prefix_order.le_less)
  show "spec b (\<lambda>t. I t \<and> map_of t p = n)
      (case n of None \<Rightarrow> io_return () | Some Folder \<Rightarrow> remove_dir_all order p | Some _ \<Rightarrow> io_prim (fs_unlink p))
      (\<lambda>_ t. I t \<and> (\<forall>x. prefix p x \<longrightarrow> map_of t x = None)) I"
  proof (cases "n = Some Folder")
    case True
    have "spec b (\<lambda>t. I t \<and> (b \<longrightarrow> map_of t p = Some Folder)) (remove_dir_all order p)
        (\<lambda>_ t. I t \<and> (\<forall>x. prefix p x \<longrightarrow> map_of t x = None)) I"
      by (rule remove_dir_all_spec [OF order, where before = "\<lambda>_ _. True"]) (auto simp: sorted_wrt_always intro: step)
    then show ?thesis using True by (auto elim: spec_conseq)
  next
    case False
    have "spec b (\<lambda>t. I t \<and> map_of t p = n) (io_prim (fs_unlink p))
        (\<lambda>_ t. I t \<and> (\<forall>x. prefix p x \<longrightarrow> map_of t x = None)) I" if "n \<noteq> None"
    proof (rule unlink_spec)
      fix t assume t: "tree_ok t" "I t \<and> map_of t p = n" b
      then show "map_of t p \<noteq> None \<and> \<not> has_child t p"
        using False that below_absent [OF t(1), of p] by (auto simp: has_child_iff)
    next
      fix t t' assume t: "tree_ok t" "I t \<and> map_of t p = n" "tree_ok t'" "map_of t' = (map_of t)(p := None)"
      have "I t'" by (rule step [of t p]) (use t in auto)
      then show "I t' \<and> (\<forall>x. prefix p x \<longrightarrow> map_of t' x = None)" using none [OF t(3)] t(4) by simp
    qed simp
    then show ?thesis using False none by (auto intro!: spec_return split: option.split node.split)
  qed
qed

definition restored :: "(path \<Rightarrow> node option) \<Rightarrow> tree \<Rightarrow> path \<times> bool \<Rightarrow> bool" where
  "restored old t e \<longleftrightarrow>
     (\<forall>r. file_at t (fst e @ r) = old (fst e @ r)) \<and> (snd e \<longrightarrow> map_of t (transaction_dir @ fst e) = None)"

text \<open>What holds while a transaction is rolled back; \<open>c\<close> says whether the folders of the paths are known to be there.\<close>

definition rolling_back ::
  "bool \<Rightarrow> string \<Rightarrow> manifest \<Rightarrow> (path \<Rightarrow> node option) \<Rightarrow> manifest \<Rightarrow> tree \<Rightarrow> bool" where
  "rolling_back c bytes es old finished t \<longleftrightarrow>
     rolling bytes es old t \<and> (c \<longrightarrow> parents_there es t) \<and> (\<forall>e \<in> set finished. restored old t e)"

lemma restored_change:
  assumes ps: "paths_ok (map fst es)" and e: "(p, had) \<in> set es" "e \<in> set es" "fst e \<noteq> p"
    and same: "same_beside p t t'" and r: "restored old t e"
  shows "restored old t' e"
proof -
  have p: "p \<in> set (map fst es)" and q: "fst e \<in> set (map fst es)" using e by force+
  note pD = paths_okD [OF ps p] and qD = paths_okD [OF ps q]
  have far: "\<not> prefix p (fst e @ r)" for r by (rule paths_apart [OF ps p q]) (use e(3) in simp)
  have "in_cache (fst e @ r)" for r by (rule visible_mono [OF qD(1,3)])
  then have "map_of t' (fst e @ r) = map_of t (fst e @ r)" for r
    using same far prefix_visible [of "transaction_dir @ p"] hidden_transaction unfolding same_beside_def
    by (metis append.assoc prefixE)
  moreover have "map_of t' (transaction_dir @ fst e) = map_of t (transaction_dir @ fst e)"
  proof -
    have "\<not> prefix p (transaction_dir @ fst e)"
      using prefix_visible [OF pD(3,1), of "transaction_dir @ fst e"] hidden_transaction by blast
    moreover have "\<not> prefix (transaction_dir @ p) (transaction_dir @ fst e)" using far [of "[]"] by simp
    moreover have "prefix transaction_dir (transaction_dir @ fst e)" by simp
    ultimately show ?thesis using same unfolding same_beside_def by blast
  qed
  ultimately show ?thesis using r by (simp add: restored_def file_at_def)
qed

lemma rolling_back_change:
  assumes ps: "paths_ok (map fst es)" and e: "(p, had) \<in> set es"
    and fin: "set finished \<subseteq> set es" "(p, had) \<notin> set finished"
    and K: "rolling_back c bytes es old finished t" and same: "same_beside p t t'" and root: "map_of t' [] = map_of t []"
    and roll: "rolling bytes es old t'"
  shows "rolling_back c bytes es old finished t'"
proof -
  have "restored old t' e'" if "e' \<in> set finished" for e'
  proof (rule restored_change [OF ps e _ _ same])
    have "inj_on fst (set es)" using ps by (simp add: paths_ok_def distinct_map)
    then show "fst e' \<noteq> p" using that e fin by (metis (no_types, lifting) fst_conv inj_onD subsetD)
  qed (use that fin K in \<open>auto simp: rolling_back_def\<close>)
  then show ?thesis using K roll parents_change [OF ps e same _ root] by (simp add: rolling_back_def)
qed

lemma rolling_back_unlink:
  assumes ps: "paths_ok (map fst es)" and e: "(p, had) \<in> set es"
    and fin: "set finished \<subseteq> set es" "(p, had) \<notin> set finished"
    and K: "rolling_back c bytes es old finished t"
    and x: "prefix p x" and there: "had \<Longrightarrow> map_of t (transaction_dir @ p) \<noteq> None"
    and t': "map_of t' = (map_of t)(x := None)"
  shows "rolling_back c bytes es old finished t'"
proof (rule rolling_back_change [OF ps e fin K])
  have "p \<noteq> []" using paths_okD(1) [OF ps] e by force
  then have "x \<noteq> []" using x by auto
  then show "map_of t' [] = map_of t []" by (simp add: t')
  show "same_beside p t t'" using x by (auto simp: same_beside_def t')
  show "rolling bytes es old t'"
    by (rule rolling_unlink [OF ps e _ x there t']) (use K in \<open>simp_all add: rolling_back_def\<close>)
qed

lemma rolling_back_mkdirs:
  assumes ps: "paths_ok (map fst es)" and e: "(p, had) \<in> set es" and fin: "set finished \<subseteq> set es"
    and K: "rolling_back c bytes es old finished t" and m: "fs_mkdirs (butlast p) t = Inr (u, t')"
  shows "rolling_back c bytes es old finished t'"
proof -
  note l = fs_mkdirs_laws [OF m]
  have p: "p \<in> set (map fst es)" using e by force
  have v: "in_cache a" if "prefix a (butlast p)" "a \<noteq> []" for a
    using strict_prefix_visible [OF paths_okD(3) [OF ps p] that(2)] that(1)
      strict_prefix_of_butlast [OF paths_okD(1) [OF ps p]] by (meson prefix_order.le_less_trans)
  have d: "\<not> prefix (transaction_dir @ r) (butlast p)" "\<not> prefix commit_path (butlast p)" for r
    using v [of "transaction_dir @ r"] v [of commit_path] hidden_transaction hidden_files
    by (auto simp: commit_path_def transaction_dir_def)
  have "rolling bytes es old t'"
    by (rule rolling_mkdirs [OF _ m]) (use K d in \<open>simp_all add: rolling_back_def\<close>)
  then show ?thesis
    using K parents_mkdirs [OF _ m] d by (auto simp: rolling_back_def restored_def l(1,2))
qed

text \<open>One entry is restored.\<close>

lemma safe_spec: "safe_relative p \<Longrightarrow> (\<And>t. P t \<Longrightarrow> Q t) \<Longrightarrow> spec b P (validate_safe_cache_relative_path p) (\<lambda>_. Q) R"
  by (auto simp: validate_safe_cache_relative_path_def intro: spec_return)

lemma restore_entry_spec:
  assumes order: "valid_order order" and ps: "paths_ok (map fst es)" and es: "es = pre @ (p, had) # rest" and c: "b \<longrightarrow> c"
  shows "spec b (rolling_back c bytes es old pre) (restore_entry order (p, had))
    (\<lambda>_. rolling_back c bytes es old (pre @ [(p, had)])) (rolling_back c bytes es old [])"
    (is "spec b ?K _ (\<lambda>_. ?J) ?R")
proof -
  have e: "(p, had) \<in> set es" by (simp add: es)
  have "distinct es" using ps by (simp add: paths_ok_def distinct_map)
  then have fin: "set pre \<subseteq> set es" "(p, had) \<notin> set pre" unfolding es by auto
  have p: "p \<in> set (map fst es)" using e by force
  note pD = paths_okD [OF ps p]
  have R: "?R t" if "?K t" for t using that by (simp add: rolling_back_def)
  have roll: "rolling bytes es old t" if "?K t" for t using that by (simp add: rolling_back_def)
  have chk: "root_ok t [] \<and> clear t [] p" "root_ok t transaction_dir \<and> clear t transaction_dir p"
    if "tree_ok t" "?K t" for t
    using rolling_home [OF that(1) roll [OF that(2)]] rolling_entry [OF roll [OF that(2)] e] by (simp_all add: root_ok_def)
  let ?bk = "\<lambda>t. had \<longrightarrow> map_of t (transaction_dir @ p) \<noteq> None"
  let ?gone = "\<lambda>t. \<forall>x. prefix p x \<longrightarrow> map_of t x = None"
  have bkdir: "map_of t' (transaction_dir @ p) = map_of t (transaction_dir @ p)"
    if "prefix p x" "map_of t' = (map_of t)(x := None)" for t t' x
  proof -
    have "in_cache x" by (rule prefix_visible [OF pD(3,1) that(1)])
    then show ?thesis using that(2) hidden_transaction by auto
  qed
  have rm: "spec b (\<lambda>t. ?K t \<and> ?bk t) (remove_cache_entry order p) (\<lambda>_ t. (?K t \<and> ?bk t) \<and> ?gone t) ?R"
  proof -
    have "spec b (\<lambda>t. ?K t \<and> ?bk t) (remove_cache_entry order p) (\<lambda>_ t. (?K t \<and> ?bk t) \<and> ?gone t) (\<lambda>t. ?K t \<and> ?bk t)"
    proof (rule remove_cache_entry_spec [OF order])
      fix t x t' assume t: "?K t \<and> ?bk t" "prefix p x" "map_of t' = (map_of t)(x := None)"
      show "?K t' \<and> ?bk t'"
        using rolling_back_unlink [OF ps e fin _ t(2) _ t(3)] t bkdir [OF t(2,3)] by simp
    qed
    then show ?thesis by (rule spec_conseq) (use R in auto)
  qed
  have new: "spec b (\<lambda>t. ?K t \<and> \<not> had)
      (io_then (validate_cache_relative_ancestors [] p True)
        (io_then (remove_cache_entry order p) (sync_directory (butlast p)))) (\<lambda>_. ?J) ?R" if "\<not> had"
  proof (rule spec_then)
    show "spec b (\<lambda>t. ?K t \<and> \<not> had) (validate_cache_relative_ancestors [] p True) (\<lambda>_ t. ?K t \<and> ?bk t) ?R"
      by (rule check_spec [OF pD(2)]) (use chk R in auto)
    show "spec b (\<lambda>t. ?K t \<and> ?bk t) (io_then (remove_cache_entry order p) (sync_directory (butlast p))) (\<lambda>_. ?J) ?R"
    proof (rule spec_then [OF rm], rule sync_spec)
      fix t assume t: "(?K t \<and> ?bk t) \<and> ?gone t"
      then have "file_at t (p @ r) = old (p @ r)" for r
        using that rolling_entry(5) [OF roll e, of t r] by (simp add: file_at_def)
      then show "?J t" using t that by (auto simp: rolling_back_def restored_def)
      show "map_of t (butlast p) \<noteq> None" if b
        using t c that e by (auto simp: rolling_back_def parents_there_def)
    qed (use R in auto)
  qed
  have undo: "spec b (\<lambda>t. ?K t \<and> had)
      (io_bind (path_exists (transaction_dir @ p)) (\<lambda>backed_up.
          if \<not> backed_up then io_return ()
          else io_then (validate_cache_relative_ancestors [] p True)
            (io_then (remove_cache_entry order p)
            (io_then (io_prim (fs_mkdirs (butlast p)))
            (io_then (validate_cache_relative_ancestors transaction_dir p True)
            (io_then (validate_cache_relative_ancestors [] p False)
            (io_then (io_prim (fs_rename (transaction_dir @ p) p))
              (sync_directory (butlast p)))))))) ) (\<lambda>_. ?J) ?R" if had
  proof (rule spec_bind)
    show "spec b (\<lambda>t. ?K t \<and> had) (path_exists (transaction_dir @ p))
        (\<lambda>r t. (?K t \<and> had) \<and> r = (map_of t (transaction_dir @ p) \<noteq> None)) ?R"
      by (rule path_exists_spec) (use R in simp)
    fix r
    let ?G = "\<lambda>t. ((?K t \<and> ?bk t) \<and> ?gone t) \<and> map_of t (butlast p) = Some Folder"
    have mv: "spec b ?G (io_then (io_prim (fs_rename (transaction_dir @ p) p)) (sync_directory (butlast p))) (\<lambda>_. ?J) ?R"
    proof (rule spec_then)
      have np: "\<not> prefix (transaction_dir @ p) p" "\<not> prefix p (transaction_dir @ p)"
        using prefix_visible [OF pD(3,1)] hidden_transaction prefix_length_le [of "transaction_dir @ p" p]
        by (auto simp: transaction_dir_def)
      show "spec b ?G (io_prim (fs_rename (transaction_dir @ p) p)) (\<lambda>_ t. ?J t \<and> map_of t (butlast p) = Some Folder) ?R"
      proof (rule spec_prim)
        fix t err assume t: "tree_ok t" "?G t" "fs_rename (transaction_dir @ p) p t = Inl err"
        then show "\<not> b" using \<open>had\<close> np pD(1) by (auto simp: fs_rename_def split: option.splits)
      next
        fix t u t' assume t: "tree_ok t" "?G t" "fs_rename (transaction_dir @ p) p t = Inr (u, t')"
        note l = fs_rename_laws [OF t(1,3)]
        note sw = rolling_swap [OF ps e roll l(1) l(3,4) _ l(2)]
        have sw1: "rolling bytes es old t'" "map_of t' (transaction_dir @ p) = None"
            "file_at t' (p @ r) = old (p @ r)" for r
          using sw t(2) \<open>had\<close> by (auto simp: transaction_dir_def)
        have same: "same_beside p t t'" by (auto simp: same_beside_def l(1))
        have "map_of t' [] = map_of t []" using pD(1) by (simp add: l(1) transaction_dir_def)
        then have "?K t'" using rolling_back_change [OF ps e fin _ same _ sw1(1)] t(2) by blast
        moreover have "map_of t' (butlast p) = Some Folder"
        proof -
          have "strict_prefix (butlast p) p" by (rule strict_prefix_of_butlast [OF pD(1)])
          then have "\<not> prefix p (butlast p)" by (auto simp: prefix_order.less_le_not_le)
          moreover have "\<not> prefix (transaction_dir @ p) (butlast p)"
            using prefix_length_le [of "transaction_dir @ p" "butlast p"] by (auto simp: transaction_dir_def)
          ultimately show ?thesis using t(2) by (simp add: l(1))
        qed
        ultimately show "tree_ok t' \<and> ?J t' \<and> map_of t' (butlast p) = Some Folder"
          using l(6) sw1 by (simp add: rolling_back_def restored_def)
      qed (use R in blast)
      show "spec b (\<lambda>t. ?J t \<and> map_of t (butlast p) = Some Folder) (sync_directory (butlast p)) (\<lambda>_. ?J) ?R"
        by (rule sync_spec) (auto simp: rolling_back_def)
    qed
    have mk: "spec b (\<lambda>t. (?K t \<and> ?bk t) \<and> ?gone t) (io_prim (fs_mkdirs (butlast p))) (\<lambda>_. ?G) ?R"
    proof (rule spec_prim)
      fix t err assume t: "tree_ok t" "(?K t \<and> ?bk t) \<and> ?gone t" "fs_mkdirs (butlast p) t = Inl err"
      have "map_of t a = None \<or> map_of t a = Some Folder" if "prefix a (butlast p)" for a
      proof (cases "a = []")
        case False
        have "strict_prefix a p" using that strict_prefix_of_butlast [OF pD(1)] by (meson prefix_order.le_less_trans)
        then show ?thesis using chk(1) [OF t(1)] t(2) False by (auto simp: clear_def)
      qed (use rolling_home [OF t(1) roll] t(2) in auto)
      then show "\<not> b" using t(3) by (auto simp: fs_mkdirs_def list_all_iff split: if_splits)
    next
      fix t u t' assume t: "tree_ok t" "(?K t \<and> ?bk t) \<and> ?gone t" "fs_mkdirs (butlast p) t = Inr (u, t')"
      note l = fs_mkdirs_laws [OF t(3)]
      have "\<not> prefix x (butlast p)" if "prefix p x" for x
        using that strict_prefix_of_butlast [OF pD(1)] by (meson prefix_order.leD prefix_order.le_less_trans prefix_order.trans)
      then have "?gone t'" using t(2) by (simp add: l(1))
      moreover have "?bk t'" using t(2) by (auto simp: l(1))
      moreover have "?K t'" using rolling_back_mkdirs [OF ps e fin(1) _ t(3)] t(2) by blast
      ultimately show "tree_ok t' \<and> ?G t'" using l(3) [OF t(1)] l(4) by simp
    qed (use R in blast)
    show "spec b (\<lambda>t. (?K t \<and> had) \<and> r = (map_of t (transaction_dir @ p) \<noteq> None))
        (if \<not> r then io_return ()
          else io_then (validate_cache_relative_ancestors [] p True)
            (io_then (remove_cache_entry order p)
            (io_then (io_prim (fs_mkdirs (butlast p)))
            (io_then (validate_cache_relative_ancestors transaction_dir p True)
            (io_then (validate_cache_relative_ancestors [] p False)
            (io_then (io_prim (fs_rename (transaction_dir @ p) p))
              (sync_directory (butlast p)))))))) (\<lambda>_. ?J) ?R"
    proof (cases r)
      case False
      then show ?thesis
        using rolling_entry(3) [OF roll e] by (auto intro!: spec_return simp: rolling_back_def restored_def)
    next
      case True
      have v1: "spec b (\<lambda>t. (?K t \<and> had) \<and> r = (map_of t (transaction_dir @ p) \<noteq> None))
          (validate_cache_relative_ancestors [] p True) (\<lambda>_ t. ?K t \<and> ?bk t) ?R"
        by (rule check_spec [OF pD(2)]) (use chk R True in auto)
      have v2: "spec b ?G (validate_cache_relative_ancestors transaction_dir p True) (\<lambda>_. ?G) ?R"
        by (rule check_spec [OF pD(2)]) (use chk R in auto)
      have v3: "spec b ?G (validate_cache_relative_ancestors [] p False) (\<lambda>_. ?G) ?R"
        by (rule check_spec [OF pD(2)]) (use chk R in auto)
      note chain = spec_then [OF v1 spec_then [OF rm spec_then [OF mk spec_then [OF v2 spec_then [OF v3 mv]]]]]
      show ?thesis by (rule spec_if) (use True in simp, rule chain)
    qed
  qed
  have pre: "spec b ?K m (\<lambda>_. ?K) ?R" if "m = validate_safe_cache_relative_path p
      \<or> m = validate_cache_relative_ancestors [] p True \<or> m = validate_cache_relative_ancestors transaction_dir p True" for m
    using that safe_spec [OF pD(2)] check_spec [OF pD(2), of ?K b "[]" ?R True ?K]
      check_spec [OF pD(2), of ?K b transaction_dir ?R True ?K] chk R by blast
  show ?thesis
    unfolding restore_entry_def prod.case
    by (intro spec_then [OF pre] disjI1 disjI2 refl)
      (cases had, use undo new in \<open>auto elim!: spec_conseq\<close>)
qed

text \<open>The removal of the transaction: of one that is settled, where the manifest must go before the marker, and
  of one that is rolled back.\<close>

definition manifest_first :: "removal_order \<Rightarrow> bool" where
  "manifest_first order \<longleftrightarrow>
     (\<forall>t. sorted_wrt (\<lambda>x y. \<not> (x = commit_path \<and> y = manifest_path)) (order t transaction_dir))"

definition gone :: "tree \<Rightarrow> bool" where
  "gone t \<longleftrightarrow> (\<forall>x. prefix transaction_dir x \<longrightarrow> map_of t x = None)"

lemma in_transaction: "prefix transaction_dir manifest_path" "prefix transaction_dir commit_path" "manifest_path \<noteq> commit_path"
  by (simp_all add: manifest_path_def commit_path_def)

lemma visible_unlinked:
  assumes "prefix transaction_dir x" "map_of t' = (map_of t)(x := None)"
  shows "in_cache q \<Longrightarrow> map_of t' q = map_of t q" "in_cache q \<Longrightarrow> file_at t' q = file_at t q"
    "map_of t' [] = map_of t []" "map_of t' cache_state_dir = map_of t cache_state_dir"
proof -
  have n: "\<not> in_cache x" "x \<noteq> []" "x \<noteq> cache_state_dir"
    using assms(1) hidden_transaction by (auto simp: prefix_def transaction_dir_def cache_state_dir_def in_cache_def)
  show v: "in_cache q \<Longrightarrow> map_of t' q = map_of t q" using n(1) assms(2) by auto
  then show "in_cache q \<Longrightarrow> file_at t' q = file_at t q" by (simp add: file_at_def)
  show "map_of t' [] = map_of t []" "map_of t' cache_state_dir = map_of t cache_state_dir" using n assms(2) by auto
qed

lemma settled_unlink:
  assumes s: "settled G t" and x: "prefix transaction_dir x" and t': "map_of t' = (map_of t)(x := None)"
    and first: "x = commit_path \<Longrightarrow> map_of t manifest_path = None"
  shows "settled G t'"
  using s first visible_unlinked [OF x t'] in_transaction(3)
  unfolding settled_def home_ok_def shows_files_def t' by (cases "x = commit_path"; cases "x = manifest_path") auto

lemma remove_settled_spec:
  assumes order: "valid_order order" "manifest_first order"
  shows "spec b (\<lambda>t. settled G t \<and> (b \<longrightarrow> map_of t transaction_dir = Some Folder)) (remove_dir_all order transaction_dir)
    (\<lambda>_ t. settled G t \<and> gone t) (settled G)"
  unfolding gone_def
proof (rule remove_dir_all_spec [OF order(1), where before = "\<lambda>x y. \<not> (x = commit_path \<and> y = manifest_path)"])
  show "sorted_wrt (\<lambda>x y. \<not> (x = commit_path \<and> y = manifest_path)) (order t transaction_dir)" for t
    using order(2) by (simp add: manifest_first_def)
  fix t x t' assume t: "settled G t" "prefix transaction_dir x" "map_of t' = (map_of t)(x := None)"
    "\<forall>y \<in> below transaction_dir t - {x}. \<not> (x = commit_path \<and> y = manifest_path)"
  have "map_of t manifest_path = None" if "x = commit_path"
    using t(4) that in_transaction by (auto simp: below_def)
  then show "settled G t'" by (rule settled_unlink [OF t(1-3)])
qed

lemma sync_state_spec:
  assumes "\<And>t. P t \<Longrightarrow> R t" "\<And>t. P t \<Longrightarrow> home_ok t"
  shows "spec b P (io_then sync_cache_state (io_return x)) (\<lambda>r t. P t \<and> r = x) R"
proof -
  have "spec b P sync_cache_state (\<lambda>_. P) R"
    unfolding sync_cache_state_def
    by (rule spec_then [where Q = P]; rule sync_spec) (use assms in \<open>auto simp: home_ok_def\<close>)
  then show ?thesis by (rule spec_then) (auto intro: spec_return)
qed

lemma drop_settled_spec:
  assumes order: "valid_order order" "manifest_first order"
  shows "spec b (\<lambda>t. settled G t \<and> (b \<longrightarrow> map_of t transaction_dir = Some Folder)) (drop_transaction order)
    (\<lambda>r t. (settled G t \<and> gone t) \<and> r = True) (settled G)"
  unfolding drop_transaction_def
  by (rule spec_then [OF remove_settled_spec [OF order]], rule sync_state_spec) (auto simp: settled_def)

lemma rolled_back_unlink:
  assumes ps: "paths_ok (map fst es)" and K: "rolling_back c bytes es old es t"
    and x: "prefix transaction_dir x" and t': "map_of t' = (map_of t)(x := None)" and ok: "tree_ok t"
  shows "rolling_back c bytes es old es t' \<or> settled old t'"
proof -
  note v = visible_unlinked [OF x t']
  have roll: "rolling bytes es old t" and res: "\<And>e. e \<in> set es \<Longrightarrow> restored old t e"
    and par: "c \<longrightarrow> parents_there es t"
    using K by (simp_all add: rolling_back_def)
  have pv: "in_cache (fst e @ r)" "fst e \<noteq> []" if "e \<in> set es" for e r
    using paths_okD(1,3) [OF ps] that visible_mono by auto
  have kept: "file_at t' q = old q" if "in_cache q" for q
  proof (cases "\<exists>e \<in> set es. prefix (fst e) q")
    case True
    then obtain e r where "e \<in> set es" "q = fst e @ r" by (auto simp: prefix_def)
    then show ?thesis using res v(2) [OF that] by (simp add: restored_def)
  next
    case False
    then show ?thesis using roll v(2) [OF that] that by (simp add: rolling_def)
  qed
  show ?thesis
  proof (cases "x = manifest_path")
    case True
    have "home_ok t'"
      using rolling_home [OF ok roll] v(3,4) in_transaction True
      by (simp add: home_ok_def t' manifest_path_def)
    then show ?thesis
      using kept True roll in_transaction by (auto simp: settled_def shows_files_def t' rolling_def)
  next
    case False
    have "restored old t' e" if "e \<in> set es" for e
      using res [OF that] v(2) [OF pv(1) [OF that]] by (auto simp: restored_def t')
    moreover have "entry_saved old t' e" if "e \<in> set es" for e
      using clear_shrink [of t _ "fst e" t'] roll that calculation [OF that] unfolding rolling_def
      by (auto simp: entry_saved_def restored_def t' rolling_entry)
    moreover have "parents_there es t'" if "parents_there es t"
      unfolding parents_there_def
    proof
      fix e assume e: "e \<in> set es"
      have "butlast (fst e) = [] \<or> in_cache (butlast (fst e))"
        using strict_prefix_visible [OF pv(1) [OF e, of "[]", simplified] _ strict_prefix_of_butlast [OF pv(2) [OF e]]] by blast
      then have "map_of t' (butlast (fst e)) = map_of t (butlast (fst e))"
        by (elim disjE) (simp_all only: v(1,3))
      then show "map_of t' (butlast (fst e)) = Some Folder" using that e by (simp add: parents_there_def)
    qed
    moreover have "rolling bytes es old t'"
      using roll calculation(2) kept False by (auto simp: rolling_def t')
    ultimately show ?thesis using par by (auto simp: rolling_back_def)
  qed
qed

lemma drop_rolled_back_spec:
  assumes order: "valid_order order" and ps: "paths_ok (map fst es)"
  shows "spec b (rolling_back c bytes es old es) (drop_transaction order)
    (\<lambda>r t. (settled old t \<and> gone t) \<and> r = True) (\<lambda>t. rolling_back c bytes es old [] t \<or> settled old t)"
proof -
  let ?I = "\<lambda>t. tree_ok t \<and> (rolling_back c bytes es old es t \<or> settled old t \<and> map_of t commit_path = None)"
  have none: "map_of t commit_path = None" if "rolling_back c bytes es old es t" for t
    using that by (simp add: rolling_back_def rolling_def)
  have rm: "spec b (\<lambda>t. ?I t \<and> (b \<longrightarrow> map_of t transaction_dir = Some Folder)) (remove_dir_all order transaction_dir)
      (\<lambda>_ t. ?I t \<and> (\<forall>x. prefix transaction_dir x \<longrightarrow> map_of t x = None)) ?I"
  proof (rule remove_dir_all_spec [OF order, where before = "\<lambda>_ _. True"])
    fix t x t' assume t: "?I t" "prefix transaction_dir x" "map_of t x \<noteq> None" "map_of t' = (map_of t)(x := None)" "tree_ok t'"
    have n: "map_of t' commit_path = None" using t(1,4) none by auto
    have "rolling_back c bytes es old es t' \<or> settled old t'"
    proof (cases "rolling_back c bytes es old es t")
      case True
      then show ?thesis using rolled_back_unlink [OF ps True t(2,4)] t(1) by blast
    next
      case False
      then have "settled old t" "x \<noteq> commit_path" using t(1,3) by auto
      then show ?thesis using settled_unlink [OF _ t(2,4)] by blast
    qed
    then show "?I t'" using n t(5) by blast
  qed (simp add: sorted_wrt_always)
  have "spec b (rolling_back c bytes es old es) (remove_dir_all order transaction_dir)
      (\<lambda>_ t. settled old t \<and> gone t) (\<lambda>t. rolling_back c bytes es old [] t \<or> settled old t)"
  proof (rule spec_conseq [OF rm])
    fix t assume "tree_ok t" "rolling_back c bytes es old es t"
    then show "?I t \<and> (b \<longrightarrow> map_of t transaction_dir = Some Folder)"
      using rolling_home(3) by (auto simp: rolling_back_def)
  next
    fix t assume t: "?I t \<and> (\<forall>x. prefix transaction_dir x \<longrightarrow> map_of t x = None)"
    then have "\<not> rolling_back c bytes es old es t"
      using in_transaction(1) by (auto simp: rolling_back_def rolling_def)
    then show "settled old t \<and> gone t" using t by (auto simp: gone_def)
  qed (auto simp: rolling_back_def)
  then show ?thesis
    unfolding drop_transaction_def
    by (rule spec_then) (rule sync_state_spec, auto simp: settled_def)
qed

text \<open>What can be recovered from: a transaction to roll back, or none to speak of.\<close>

definition recoverable ::
  "bool \<Rightarrow> string \<Rightarrow> manifest \<Rightarrow> (path \<Rightarrow> node option) \<Rightarrow> (path \<Rightarrow> node option) \<Rightarrow> tree \<Rightarrow> bool" where
  "recoverable c bytes es old new t \<longleftrightarrow> rolling_back c bytes es old [] t \<or> settled old t \<or> settled new t"

lemma transaction_path:
  "safe_relative transaction_dir" "settled G t \<Longrightarrow> root_ok t [] \<and> clear t [] transaction_dir"
  "tree_ok t \<Longrightarrow> rolling bytes es old t \<Longrightarrow> root_ok t [] \<and> clear t [] transaction_dir"
proof -
  show "safe_relative transaction_dir" by (simp add: safe_relative_def transaction_dir_def normal_component_def)
  have h: "root_ok t [] \<and> clear t [] transaction_dir" if "home_ok t"
  proof -
    have "a = cache_state_dir" if "a \<noteq> []" "strict_prefix a transaction_dir" for a
      using that by (auto simp: transaction_dir_def cache_state_dir_def prefix_Cons prefix_order.less_le)
    then show ?thesis using that by (auto simp: home_ok_def root_ok_def clear_def)
  qed
  show "settled G t \<Longrightarrow> root_ok t [] \<and> clear t [] transaction_dir" using h by (simp add: settled_def)
  show "tree_ok t \<Longrightarrow> rolling bytes es old t \<Longrightarrow> root_ok t [] \<and> clear t [] transaction_dir"
    using h rolling_home by (simp add: home_ok_def)
qed

lemma gone_all: "tree_ok t \<Longrightarrow> map_of t transaction_dir = None \<Longrightarrow> gone t"
  using below_absent [of t transaction_dir] by (auto simp: gone_def prefix_order.le_less)

text \<open>The entries of a manifest the program wrote are restored as they are.\<close>

lemma restore_written: "restore_listed order (Some relative, Some had) = restore_entry order (relative, had)"
  by (rule ext) (simp add: restore_listed_def restore_entry_def io_then_def io_bind_def
      validate_safe_cache_relative_path_def io_return_def io_fail_def)

lemma for_written: "io_for (restore_listed order) (written es) = io_for (restore_entry order) es"
  by (induction es) (auto simp: written_def restore_written)

lemma roll_back_rolling_spec:
  assumes order: "valid_order order" and ps: "paths_ok (map fst es)" and dec: "decode bytes = Some (written es)" and c: "b \<longrightarrow> c"
  shows "spec b (rolling_back c bytes es old []) (roll_back order decode)
    (\<lambda>r t. (settled old t \<and> gone t) \<and> r = True) (\<lambda>t. rolling_back c bytes es old [] t \<or> settled old t)"
    (is "spec b ?P _ ?Q ?R")
  unfolding roll_back_def
proof (rule spec_bind)
  show "spec b ?P (io_look (fs_lstat manifest_path)) (\<lambda>n t. ?P t \<and> map_of t manifest_path = n) ?R"
    by (rule lstat_spec) simp
  fix n
  have loop: "spec b ?P (io_for (restore_entry order) es) (\<lambda>_. rolling_back c bytes es old es) ?P"
  proof (rule spec_for)
    fix x pre rest assume es: "es = pre @ x # rest"
    obtain p had where x: "x = (p, had)" by fastforce
    show "spec b (rolling_back c bytes es old pre) (restore_entry order x) (\<lambda>_. rolling_back c bytes es old (pre @ [x])) ?P"
      unfolding x by (rule restore_entry_spec [OF order ps _ c]) (use es x in simp)
  qed
  have rest: "spec b ?P (io_then (io_for (restore_entry order) es)
      (io_then (validate_cache_relative_ancestors [] transaction_dir True) (drop_transaction order))) ?Q ?R"
  proof (rule spec_then)
    show "spec b ?P (io_for (restore_entry order) es) (\<lambda>_. rolling_back c bytes es old es) ?R"
      by (rule spec_conseq [OF loop]) auto
    have "spec b (rolling_back c bytes es old es) (validate_cache_relative_ancestors [] transaction_dir True)
        (\<lambda>_. rolling_back c bytes es old es) ?R"
      by (rule check_spec [OF transaction_path(1)]) (use transaction_path(3) in \<open>auto simp: rolling_back_def\<close>)
    then show "spec b (rolling_back c bytes es old es)
        (io_then (validate_cache_relative_ancestors [] transaction_dir True) (drop_transaction order)) ?Q ?R"
      by (rule spec_then [OF _ drop_rolled_back_spec [OF order ps]])
  qed
  have read: "spec b ?P (io_look (fs_read manifest_path)) (\<lambda>s t. ?P t \<and> s = bytes) ?R"
    by (rule spec_look) (auto simp: fs_read_def rolling_back_def rolling_def)
  have cont: "spec b (\<lambda>t. ?P t \<and> s = bytes)
      (case decode s of None \<Rightarrow> io_fail InvalidData
       | Some entries \<Rightarrow> io_then (io_for (restore_listed order) entries)
           (io_then (validate_cache_relative_ancestors [] transaction_dir True) (drop_transaction order))) ?Q ?R" for s
  proof (cases "s = bytes")
    case True
    then show ?thesis using rest dec by (simp add: for_written)
  next
    case False
    then show ?thesis by (intro spec_never) simp
  qed
  have all: "spec b ?P (io_bind (io_look (fs_read manifest_path)) (\<lambda>s.
      case decode s of None \<Rightarrow> io_fail InvalidData
       | Some entries \<Rightarrow> io_then (io_for (restore_listed order) entries)
           (io_then (validate_cache_relative_ancestors [] transaction_dir True) (drop_transaction order)))) ?Q ?R"
    by (rule spec_bind [OF read cont])
  show "spec b (\<lambda>t. ?P t \<and> map_of t manifest_path = n)
      (case n of None \<Rightarrow> drop_transaction order
       | Some (Plain _) \<Rightarrow> io_bind (io_look (fs_read manifest_path)) (\<lambda>bytes.
             case decode bytes of None \<Rightarrow> io_fail InvalidData
             | Some entries \<Rightarrow> io_then (io_for (restore_listed order) entries)
                 (io_then (validate_cache_relative_ancestors [] transaction_dir True) (drop_transaction order)))
       | Some _ \<Rightarrow> io_fail InvalidData) ?Q ?R"
  proof (cases "n = Some (Plain bytes)")
    case True
    then show ?thesis by simp (rule spec_conseq [OF all], auto)
  next
    case False
    then show ?thesis by (intro spec_never) (auto simp: rolling_back_def rolling_def)
  qed
qed

lemma roll_back_settled_spec:
  assumes order: "valid_order order" "manifest_first order"
  shows "spec b (\<lambda>t. settled G t \<and> map_of t commit_path = None \<and> (b \<longrightarrow> map_of t transaction_dir = Some Folder))
    (roll_back order decode) (\<lambda>r t. (settled G t \<and> gone t) \<and> r = True) (settled G)"
    (is "spec b ?P _ ?Q ?R")
  unfolding roll_back_def
proof (rule spec_bind)
  show "spec b ?P (io_look (fs_lstat manifest_path)) (\<lambda>n t. ?P t \<and> map_of t manifest_path = n) ?R"
    by (rule lstat_spec) simp
  fix n
  show "spec b (\<lambda>t. ?P t \<and> map_of t manifest_path = n)
      (case n of None \<Rightarrow> drop_transaction order
       | Some (Plain _) \<Rightarrow> io_bind (io_look (fs_read manifest_path)) (\<lambda>bytes.
             case decode bytes of None \<Rightarrow> io_fail InvalidData
             | Some entries \<Rightarrow> io_then (io_for (restore_listed order) entries)
                 (io_then (validate_cache_relative_ancestors [] transaction_dir True) (drop_transaction order)))
       | Some _ \<Rightarrow> io_fail InvalidData) ?Q ?R"
  proof (cases n)
    case None
    then show ?thesis by simp (rule spec_conseq [OF drop_settled_spec [OF order, of b G]], auto)
  next
    case (Some k)
    then show ?thesis by (intro spec_never) (auto simp: settled_def)
  qed
qed

lemma clean_committed_spec:
  assumes order: "valid_order order" "manifest_first order"
  shows "spec b (\<lambda>t. settled G t \<and> (b \<longrightarrow> map_of t transaction_dir = Some Folder)) (clean_committed order)
    (\<lambda>r t. settled G t \<and> (r \<longrightarrow> gone t)) (settled G)"
    (is "spec b ?P _ ?Q _")
  unfolding clean_committed_def
proof (rule spec_then)
  show "spec b ?P (validate_cache_relative_ancestors [] transaction_dir True) (\<lambda>_. ?P) (settled G)"
    by (rule check_spec [OF transaction_path(1)]) (use transaction_path(2) in auto)
  show "spec b ?P (io_bind (io_try (remove_dir_all order transaction_dir)) (\<lambda>r.
       case r of Inl _ \<Rightarrow> io_return False | Inr _ \<Rightarrow> io_then sync_cache_state (io_return True))) ?Q (settled G)"
  proof (rule spec_bind)
    show "spec b ?P (io_try (remove_dir_all order transaction_dir))
        (\<lambda>r t. settled G t \<and> (r \<noteq> Inl undefined \<and> (\<exists>u. r = Inr u) \<longrightarrow> gone t)) (settled G)"
      by (rule spec_try [OF spec_conseq [OF remove_settled_spec [OF order, of False G]]]) auto
    fix r :: "io_error + unit"
    have "spec b (\<lambda>t. settled G t \<and> gone t) (io_then sync_cache_state (io_return True))
        (\<lambda>r t. (settled G t \<and> gone t) \<and> r = True) (settled G)"
      by (rule sync_state_spec) (auto simp: settled_def)
    then show "spec b (\<lambda>t. settled G t \<and> (r \<noteq> Inl undefined \<and> (\<exists>u. r = Inr u) \<longrightarrow> gone t))
       (case r of Inl _ \<Rightarrow> io_return False | Inr _ \<Rightarrow> io_then sync_cache_state (io_return True)) ?Q (settled G)"
      by (cases r) (auto intro!: spec_return elim!: spec_conseq)
  qed
qed

text \<open>Reading the marker of a transaction that is being rolled back or settled.\<close>

lemma read_marker_absent:
  assumes "\<And>t. P t \<Longrightarrow> R t" "\<And>t. P t \<Longrightarrow> map_of t commit_path = None"
  shows "spec b P read_commit_marker (\<lambda>r t. P t \<and> r = False) R"
  unfolding read_commit_marker_def
proof (rule spec_bind)
  show "spec b P (io_look (fs_lstat commit_path)) (\<lambda>n t. P t \<and> n = None) R"
    by (rule spec_conseq [OF lstat_spec [of P R, OF assms(1)]]) (use assms(2) in auto)
  fix n
  show "spec b (\<lambda>t. P t \<and> n = None)
      (case n of None \<Rightarrow> io_return False
       | Some (Plain _) \<Rightarrow> io_bind (io_try (io_look (fs_read commit_path))) (\<lambda>r. io_return (r = Inr commit_marker))
       | Some _ \<Rightarrow> io_fail InvalidData) (\<lambda>r t. P t \<and> r = False) R"
    by (cases n) (auto intro: spec_return spec_never)
qed

lemma read_marker_present:
  assumes "\<And>t. P t \<Longrightarrow> R t" "\<And>t. P t \<Longrightarrow> map_of t commit_path = Some (Plain commit_marker)"
  shows "spec b P read_commit_marker (\<lambda>r t. P t \<and> r = True) R"
  unfolding read_commit_marker_def
proof (rule spec_bind)
  show "spec b P (io_look (fs_lstat commit_path)) (\<lambda>n t. P t \<and> n = Some (Plain commit_marker)) R"
    by (rule spec_conseq [OF lstat_spec [of P R, OF assms(1)]]) (use assms(2) in auto)
  fix n
  have "spec b P (io_bind (io_try (io_look (fs_read commit_path))) (\<lambda>r. io_return (r = Inr commit_marker)))
      (\<lambda>r t. P t \<and> r = True) R"
    by (rule spec_bind [OF spec_try_look [where x = commit_marker]])
      (use assms in \<open>auto intro: spec_return simp: fs_read_def\<close>)
  then show "spec b (\<lambda>t. P t \<and> n = Some (Plain commit_marker))
      (case n of None \<Rightarrow> io_return False
       | Some (Plain _) \<Rightarrow> io_bind (io_try (io_look (fs_read commit_path))) (\<lambda>r. io_return (r = Inr commit_marker))
       | Some _ \<Rightarrow> io_fail InvalidData) (\<lambda>r t. P t \<and> r = True) R"
    by (cases "n = Some (Plain commit_marker)") (auto elim: spec_conseq intro: spec_never)
qed

lemma recover_rolling_spec:
  assumes order: "valid_order order" and ps: "paths_ok (map fst es)" and dec: "decode bytes = Some (written es)" and c: "b \<longrightarrow> c"
  shows "spec b (rolling_back c bytes es old []) (recover_interrupted_publication order decode)
    (\<lambda>r t. (settled old t \<and> gone t) \<and> r = True) (\<lambda>t. rolling_back c bytes es old [] t \<or> settled old t)"
    (is "spec b ?P _ ?Q ?R")
  unfolding recover_interrupted_publication_def
proof (rule spec_then)
  show "spec b ?P (validate_cache_relative_ancestors [] transaction_dir True) (\<lambda>_. ?P) ?R"
    by (rule check_spec [OF transaction_path(1)]) (use transaction_path(3) in \<open>auto simp: rolling_back_def\<close>)
  have body: "spec b ?P (io_bind read_commit_marker (\<lambda>k. if k then clean_committed order else roll_back order decode)) ?Q ?R"
  proof (rule spec_bind)
    show "spec b ?P read_commit_marker (\<lambda>r t. ?P t \<and> r = False) ?R"
      by (rule read_marker_absent) (auto simp: rolling_back_def rolling_def)
    show "spec b (\<lambda>t. ?P t \<and> k = False) (if k then clean_committed order else roll_back order decode) ?Q ?R" for k
      by (rule spec_if) (auto intro: spec_never spec_conseq [OF roll_back_rolling_spec [where decode = decode and bytes = bytes and b = b, OF order ps dec c]])
  qed
  show "spec b ?P (io_bind (path_exists transaction_dir) (\<lambda>pending.
      if \<not> pending then io_return True
      else io_bind read_commit_marker (\<lambda>k. if k then clean_committed order else roll_back order decode))) ?Q ?R"
  proof (rule spec_bind)
    show "spec b ?P (path_exists transaction_dir) (\<lambda>r t. ?P t \<and> r = True) ?R"
      by (rule spec_conseq [OF path_exists_spec [of ?P ?R]])
        (use rolling_home(3) in \<open>auto simp: rolling_back_def\<close>)
    show "spec b (\<lambda>t. ?P t \<and> pending = True) (if \<not> pending then io_return True
        else io_bind read_commit_marker (\<lambda>k. if k then clean_committed order else roll_back order decode)) ?Q ?R" for pending
      by (rule spec_if) (auto intro: spec_never spec_conseq [OF body])
  qed
qed

lemma recover_settled_spec:
  assumes order: "valid_order order" "manifest_first order"
  shows "spec b (settled G) (recover_interrupted_publication order decode)
    (\<lambda>r t. settled G t \<and> (r \<longrightarrow> gone t)) (settled G)"
    (is "spec b ?P _ ?Q _")
  unfolding recover_interrupted_publication_def
proof (rule spec_then)
  let ?T = "\<lambda>t. settled G t \<and> map_of t transaction_dir = Some Folder"
  show "spec b ?P (validate_cache_relative_ancestors [] transaction_dir True) (\<lambda>_. ?P) ?P"
    by (rule check_spec [OF transaction_path(1)]) (use transaction_path(2) in auto)
  have body: "spec b ?T (io_bind read_commit_marker (\<lambda>k. if k then clean_committed order else roll_back order decode)) ?Q ?P"
  proof -
    let ?on = "\<lambda>t. ?T t \<and> map_of t commit_path = Some (Plain commit_marker)"
    let ?off = "\<lambda>t. ?T t \<and> map_of t commit_path = None"
    have "spec b ?on (io_bind read_commit_marker (\<lambda>k. if k then clean_committed order else roll_back order decode)) ?Q ?P"
    proof (rule spec_bind)
      show "spec b ?on read_commit_marker (\<lambda>r t. ?on t \<and> r = True) ?P" by (rule read_marker_present) auto
      show "spec b (\<lambda>t. ?on t \<and> k = True) (if k then clean_committed order else roll_back order decode) ?Q ?P" for k
        by (rule spec_if) (auto intro: spec_never spec_conseq [OF clean_committed_spec [OF order, of b G]])
    qed
    moreover have "spec b ?off (io_bind read_commit_marker (\<lambda>k. if k then clean_committed order else roll_back order decode)) ?Q ?P"
    proof (rule spec_bind)
      show "spec b ?off read_commit_marker (\<lambda>r t. ?off t \<and> r = False) ?P" by (rule read_marker_absent) auto
      show "spec b (\<lambda>t. ?off t \<and> k = False) (if k then clean_committed order else roll_back order decode) ?Q ?P" for k
        by (rule spec_if) (auto intro: spec_never spec_conseq [OF roll_back_settled_spec [OF order, of b G]])
    qed
    ultimately show ?thesis by (rule spec_conseq [OF spec_disj]) (auto simp: settled_def)
  qed
  show "spec b ?P (io_bind (path_exists transaction_dir) (\<lambda>pending.
      if \<not> pending then io_return True
      else io_bind read_commit_marker (\<lambda>k. if k then clean_committed order else roll_back order decode))) ?Q ?P"
  proof (rule spec_bind)
    show "spec b ?P (path_exists transaction_dir) (\<lambda>r t. ?P t \<and> r = (map_of t transaction_dir \<noteq> None)) ?P"
      by (rule path_exists_spec)
    show "spec b (\<lambda>t. ?P t \<and> pending = (map_of t transaction_dir \<noteq> None)) (if \<not> pending then io_return True
        else io_bind read_commit_marker (\<lambda>k. if k then clean_committed order else roll_back order decode)) ?Q ?P" for pending
      by (rule spec_if) (auto intro!: spec_return gone_all spec_conseq [OF body] simp: settled_def home_ok_def)
  qed
qed

lemma recover_spec:
  assumes "valid_order order" "manifest_first order" "paths_ok (map fst es)" "decode bytes = Some (written es)" "b \<longrightarrow> c"
  shows "spec b (recoverable c bytes es old new) (recover_interrupted_publication order decode)
    (\<lambda>r t. (settled old t \<or> settled new t) \<and> (r \<longrightarrow> gone t)) (recoverable c bytes es old new)"
proof -
  note rolling = recover_rolling_spec [where decode = decode and bytes = bytes, OF assms(1,3,4,5), of old]
  note settled = recover_settled_spec [OF assms(1,2), of b _ decode]
  have "spec b (\<lambda>t. rolling_back c bytes es old [] t \<or> settled old t \<or> settled new t) (recover_interrupted_publication order decode)
    (\<lambda>r t. (settled old t \<or> settled new t) \<and> (r \<longrightarrow> gone t)) (recoverable c bytes es old new)"
    by (intro spec_disj; rule spec_conseq [OF rolling] spec_conseq [OF settled]) (auto simp: recoverable_def)
  then show ?thesis by (rule spec_conseq) (auto simp: recoverable_def)
qed

end
