(* ===== verification/Publication_Steps.thy ===== *)
theory Publication_Steps
  imports Publication
begin

text \<open>
  The steps of \<^verbatim>\<open>publish_staged_relative_paths\<close>: from no transaction, to a manifest that says how to undo it, to
  backups, to installed paths, to the commit marker.  After each single operation the tree is one that the
  recovery of theory \<open>Publication\<close> can deal with.
\<close>

section \<open>Trees a publication passes\<close>

text \<open>Any state between two operations of a publication.\<close>

definition consistent ::
  "(string \<Rightarrow> document option) \<Rightarrow> bool \<Rightarrow> (path \<Rightarrow> node option) \<Rightarrow> (path \<Rightarrow> node option) \<Rightarrow> tree \<Rightarrow> bool" where
  "consistent decode c old new t \<longleftrightarrow>
     settled old t \<or> settled new t
     \<or> (\<exists>bytes es. decode bytes = Some (written es) \<and> paths_ok (map fst es) \<and> rolling_back c bytes es old [] t)"

text \<open>What is to be published, and the cache after it.\<close>

definition staged_files :: "path \<Rightarrow> path list \<Rightarrow> (path \<Rightarrow> node option) \<Rightarrow> tree \<Rightarrow> bool" where
  "staged_files root ps staged t \<longleftrightarrow> (\<forall>p \<in> set ps. \<forall>r. file_at t (root @ p @ r) = staged (p @ r))"

definition overlaid ::
  "path list \<Rightarrow> (path \<Rightarrow> node option) \<Rightarrow> (path \<Rightarrow> node option) \<Rightarrow> path \<Rightarrow> node option" where
  "overlaid ps staged old q = (if list_ex (\<lambda>p. prefix p q) ps then staged q else old q)"

definition staging_ok :: "path \<Rightarrow> bool" where
  "staging_ok root \<longleftrightarrow>
     \<not> in_cache root \<and> \<not> prefix root transaction_dir \<and> \<not> prefix transaction_dir root"

lemma staging_apart:
  assumes "staging_ok root"
  shows "\<not> in_cache (root @ r)" "\<not> prefix (root @ r) (transaction_dir @ r')" "\<not> prefix (transaction_dir @ r') (root @ r)"
    "in_cache x \<Longrightarrow> \<not> prefix (root @ r) x" "in_cache x \<Longrightarrow> x \<noteq> [] \<Longrightarrow> \<not> prefix x (root @ r)"
    "root @ r \<noteq> transaction_dir @ r'"
proof -
  have s: "\<not> in_cache root" "\<not> prefix root transaction_dir" "\<not> prefix transaction_dir root"
    using assms by (simp_all add: staging_ok_def)
  show 1: "\<not> in_cache (root @ r)" using s(1) by (simp add: in_cache_def)
  show 2: "\<not> prefix (root @ r) (transaction_dir @ r')" "\<not> prefix (transaction_dir @ r') (root @ r)"
    using s(2,3) by (metis append_prefixD prefix_same_cases prefixI)+
  show "in_cache x \<Longrightarrow> \<not> prefix (root @ r) x" using 1 by (meson prefix_order.trans in_cache_def)
  show "in_cache x \<Longrightarrow> x \<noteq> [] \<Longrightarrow> \<not> prefix x (root @ r)" using 1 prefix_visible by blast
  show "root @ r \<noteq> transaction_dir @ r'" using 2(1) by (metis prefix_order.refl)
qed

text \<open>Trees that agree where a publication looks at: on the cache, on the staged paths and on the backups.\<close>

definition agrees :: "path \<Rightarrow> path list \<Rightarrow> tree \<Rightarrow> tree \<Rightarrow> bool" where
  "agrees root ps t t' \<longleftrightarrow>
     (\<forall>x. in_cache x \<or> x \<in> {[], cache_state_dir, transaction_dir, manifest_path, commit_path}
        \<or> prefix root x \<or> (\<exists>p \<in> set ps. prefix (transaction_dir @ p) x \<or> prefix x (transaction_dir @ p))
        \<longrightarrow> map_of t' x = map_of t x)"

lemma agrees_at:
  assumes "agrees root ps t t'"
  shows "in_cache x \<Longrightarrow> map_of t' x = map_of t x" "map_of t' (root @ r) = map_of t (root @ r)"
    "p \<in> set ps \<Longrightarrow> map_of t' (transaction_dir @ p @ r) = map_of t (transaction_dir @ p @ r)"
    "p \<in> set ps \<Longrightarrow> prefix a p \<Longrightarrow> map_of t' (transaction_dir @ a) = map_of t (transaction_dir @ a)"
    "map_of t' [] = map_of t []" "map_of t' cache_state_dir = map_of t cache_state_dir"
    "map_of t' transaction_dir = map_of t transaction_dir" "map_of t' manifest_path = map_of t manifest_path"
    "map_of t' commit_path = map_of t commit_path"
proof -
  have *: "map_of t' x = map_of t x" if "in_cache x \<or> x \<in> {[], cache_state_dir, transaction_dir, manifest_path, commit_path}
        \<or> prefix root x \<or> (\<exists>p \<in> set ps. prefix (transaction_dir @ p) x \<or> prefix x (transaction_dir @ p))" for x
    using assms that unfolding agrees_def by blast
  show "in_cache x \<Longrightarrow> map_of t' x = map_of t x" "map_of t' (root @ r) = map_of t (root @ r)"
    "map_of t' [] = map_of t []" "map_of t' cache_state_dir = map_of t cache_state_dir"
    "map_of t' transaction_dir = map_of t transaction_dir" "map_of t' manifest_path = map_of t manifest_path"
    "map_of t' commit_path = map_of t commit_path"
    by (rule *, simp)+
  have "prefix (transaction_dir @ p) (transaction_dir @ p @ r)" by simp
  then show "p \<in> set ps \<Longrightarrow> map_of t' (transaction_dir @ p @ r) = map_of t (transaction_dir @ p @ r)"
    by (intro *) blast
  show "p \<in> set ps \<Longrightarrow> prefix a p \<Longrightarrow> map_of t' (transaction_dir @ a) = map_of t (transaction_dir @ a)"
    by (rule *) auto
qed

lemma clear_agrees:
  assumes "agrees root ps t t'" "p \<in> set ps" "paths_ok ps"
  shows "clear t' [] p = clear t [] p" "clear t' transaction_dir p = clear t transaction_dir p"
    "clear t' root p = clear t root p"
proof -
  note a = agrees_at [OF assms(1)]
  have v: "in_cache p" by (rule paths_okD(3) [OF assms(3,2)])
  have "map_of t' x = map_of t x" if "x \<noteq> []" "strict_prefix x p" for x
    using a(1) strict_prefix_visible [OF v that] by simp
  then show "clear t' [] p = clear t [] p" using a(1) [OF v] by (auto simp: clear_def)
  have "map_of t' (transaction_dir @ x) = map_of t (transaction_dir @ x)" if "prefix x p" for x
    by (rule a(4) [OF assms(2) that])
  then show "clear t' transaction_dir p = clear t transaction_dir p" by (auto simp: clear_def prefix_order.less_le)
  show "clear t' root p = clear t root p" by (simp add: clear_def a(2))
qed

lemma rolling_back_agrees:
  assumes "agrees root (map fst es) t t'" "paths_ok (map fst es)" "rolling_back c bytes es old [] t"
  shows "rolling_back c bytes es old [] t'"
proof -
  note a = agrees_at [OF assms(1)]
  have roll: "rolling bytes es old t" using assms(3) by (simp add: rolling_back_def)
  have saved: "entry_saved old t' e" if e: "e \<in> set es" for e
  proof -
    have p: "fst e \<in> set (map fst es)" using e by simp
    note pD = paths_okD [OF assms(2) p] and cl = clear_agrees [OF assms(1) p assms(2)]
    have "file_at t' (fst e @ r) = file_at t (fst e @ r)"
        "file_at t' (transaction_dir @ fst e @ r) = file_at t (transaction_dir @ fst e @ r)" for r
      using a(1) [OF visible_mono [OF pD(1,3)]] a(3) [OF p] by (simp_all add: file_at_def)
    moreover have "entry_saved old t e" using roll e by (simp add: rolling_def)
    ultimately show ?thesis using cl a(3) [OF p, of "[]"] by (simp add: entry_saved_def)
  qed
  moreover have "file_at t' q = file_at t q" if "in_cache q" for q using a(1) [OF that] by (rule file_at_cong)
  ultimately have "rolling bytes es old t'" using roll a(8,9) by (simp add: rolling_def)
  moreover have "map_of t' (butlast (fst e)) = map_of t (butlast (fst e))" if e: "e \<in> set es" for e
  proof -
    have p: "fst e \<in> set (map fst es)" using e by simp
    note pD = paths_okD [OF assms(2) p]
    have "butlast (fst e) = [] \<or> in_cache (butlast (fst e))"
      using strict_prefix_visible [OF pD(3) _ strict_prefix_of_butlast [OF pD(1)]] by blast
    then show ?thesis by (elim disjE) (simp_all only: a(1,5))
  qed
  ultimately show ?thesis using assms(3) by (simp add: rolling_back_def parents_there_def)
qed

lemma settled_agrees: "agrees root ps t t' \<Longrightarrow> settled G t \<Longrightarrow> settled G t'"
  using agrees_at [of root ps t t'] by (simp add: settled_def home_ok_def shows_files_def file_at_def)

lemma staged_agrees: "agrees root ps t t' \<Longrightarrow> staged_files root qs staged t \<Longrightarrow> staged_files root qs staged t'"
  using agrees_at(2) [of root ps t t'] by (simp add: staged_files_def file_at_def)

text \<open>Writing one of the two temporary files changes nothing of that.\<close>

lemma temp_agrees:
  assumes "staging_ok root" "paths_ok ps" "x = manifest_temp \<or> x = commit_temp" "\<And>y. y \<noteq> x \<Longrightarrow> map_of t' y = map_of t y"
  shows "agrees root ps t t'"
proof -
  have h: "\<not> in_cache x" "x \<notin> {[], cache_state_dir, transaction_dir, manifest_path, commit_path}"
    using assms(3) hidden_files
    by (auto simp: manifest_temp_def commit_temp_def manifest_path_def commit_path_def transaction_dir_def cache_state_dir_def)
  have s: "\<not> prefix root x"
    using staging_apart(2) [OF assms(1), of "[]"] assms(3) by (auto simp: manifest_temp_def commit_temp_def)
  have b: "\<not> prefix (transaction_dir @ p) x \<and> \<not> prefix x (transaction_dir @ p)" if "p \<in> set ps" for p
    using paths_okD(1,4) [OF assms(2) that] assms(3)
    by (cases p) (auto simp: manifest_temp_def commit_temp_def reserved_names_def)
  show ?thesis
    unfolding agrees_def
  proof (intro allI impI)
    fix y assume "in_cache y \<or> y \<in> {[], cache_state_dir, transaction_dir, manifest_path, commit_path}
        \<or> prefix root y \<or> (\<exists>p \<in> set ps. prefix (transaction_dir @ p) y \<or> prefix y (transaction_dir @ p))"
    then have "y \<noteq> x" using h s b by blast
    then show "map_of t' y = map_of t y" by (rule assms(4))
  qed
qed

section \<open>The manifest\<close>

text \<open>The transaction folder is there and empty, except perhaps for the unfinished manifest.\<close>

definition seen :: "bool \<Rightarrow> manifest \<Rightarrow> tree \<Rightarrow> bool" where
  "seen c es t \<longleftrightarrow> (\<forall>(p, had) \<in> set es. clear t [] p \<and> (had \<longleftrightarrow> map_of t p \<noteq> None)) \<and> (c \<longrightarrow> parents_there es t)"

definition fresh :: "path \<Rightarrow> path list \<Rightarrow> (path \<Rightarrow> node option) \<Rightarrow> (path \<Rightarrow> node option) \<Rightarrow> tree \<Rightarrow> bool" where
  "fresh root ps old staged t \<longleftrightarrow>
     settled old t \<and> map_of t transaction_dir = Some Folder
     \<and> (\<forall>x. strict_prefix transaction_dir x \<longrightarrow> x \<noteq> manifest_temp \<longrightarrow> map_of t x = None)
     \<and> staged_files root ps staged t"

definition backing ::
  "path \<Rightarrow> bool \<Rightarrow> string \<Rightarrow> manifest \<Rightarrow> (path \<Rightarrow> node option) \<Rightarrow> (path \<Rightarrow> node option) \<Rightarrow> path list \<Rightarrow> tree \<Rightarrow> bool" where
  "backing root c bytes es old staged pre t \<longleftrightarrow>
     rolling_back c bytes es old [] t \<and> staged_files root (map fst es) staged t
     \<and> (\<forall>(p, had) \<in> set es.
          if p \<in> set pre then map_of t p = None \<and> (had \<longrightarrow> map_of t (transaction_dir @ p) \<noteq> None)
          else map_of t (transaction_dir @ p) = None \<and> (had \<longleftrightarrow> map_of t p \<noteq> None))"

lemma fresh_agrees:
  assumes "staging_ok root" "paths_ok ps" "fresh root ps old staged t" "\<And>y. y \<noteq> manifest_temp \<Longrightarrow> map_of t' y = map_of t y"
  shows "fresh root ps old staged t'"
proof -
  have a: "agrees root ps t t'" by (rule temp_agrees [OF assms(1,2) disjI1 [OF refl] assms(4)])
  then show ?thesis
    using assms(3,4) settled_agrees [OF a] staged_agrees [OF a] agrees_at(7) [OF a] by (auto simp: fresh_def)
qed

lemma seen_agrees:
  assumes "agrees root (map fst es) t t'" "paths_ok (map fst es)" "seen c es t"
  shows "seen c es t'"
proof -
  note a = agrees_at [OF assms(1)]
  have "clear t' [] p \<and> (had \<longleftrightarrow> map_of t' p \<noteq> None)" if e: "(p, had) \<in> set es" for p had
  proof -
    have p: "p \<in> set (map fst es)" using e by force
    show ?thesis
      using assms(3) e clear_agrees(1) [OF assms(1) p assms(2)] a(1) [OF paths_okD(3) [OF assms(2) p]]
      by (auto simp: seen_def)
  qed
  moreover have "map_of t' (butlast (fst e)) = map_of t (butlast (fst e))" if e: "e \<in> set es" for e
  proof -
    have p: "fst e \<in> set (map fst es)" using e by simp
    note pD = paths_okD [OF assms(2) p]
    have "butlast (fst e) = [] \<or> in_cache (butlast (fst e))"
      using strict_prefix_visible [OF pD(3) _ strict_prefix_of_butlast [OF pD(1)]] by blast
    then show ?thesis by (elim disjE) (simp_all only: a(1,5))
  qed
  ultimately show ?thesis using assms(3) by (auto simp: seen_def parents_there_def)
qed

text \<open>The manifest in place: everything can be undone.\<close>

lemma backing_start:
  assumes S: "staging_ok root" and ps: "paths_ok (map fst es)"
    and f: "fresh root (map fst es) old staged t" and sn: "seen c es t" and ok: "tree_ok t'"
    and m: "map_of t' manifest_path = Some (Plain bytes)"
    and same: "\<And>y. \<not> prefix manifest_temp y \<Longrightarrow> \<not> prefix manifest_path y \<Longrightarrow> map_of t' y = map_of t y"
  shows "backing root c bytes es old staged [] t'"
proof -
  have temp: "prefix transaction_dir manifest_temp" "prefix transaction_dir manifest_path" by (simp_all add: manifest_temp_def manifest_path_def)
  have vis: "map_of t' y = map_of t y" if "in_cache y" for y
    using same that hidden_files by (meson prefix_order.trans in_cache_def)
  have stg: "map_of t' (root @ r) = map_of t (root @ r)" for r
    using same staging_apart(3) [OF S] by (simp add: manifest_temp_def manifest_path_def)
  have none: "map_of t' (transaction_dir @ r) = None" if "r \<noteq> []" "hd r \<notin> set reserved_names" for r
  proof -
    have "\<not> prefix manifest_temp (transaction_dir @ r)" "\<not> prefix manifest_path (transaction_dir @ r)"
      "transaction_dir @ r \<noteq> manifest_temp"
      using that by (cases r; auto simp: manifest_temp_def manifest_path_def reserved_names_def)+
    moreover have "strict_prefix transaction_dir (transaction_dir @ r)" using that by (simp add: prefix_order.less_le)
    ultimately show ?thesis using same f by (simp add: fresh_def)
  qed
  have st: "settled old t" using f by (simp add: fresh_def)
  have commit: "map_of t' commit_path = None"
  proof -
    have "map_of t commit_path = None" using f
      by (simp add: fresh_def commit_path_def manifest_temp_def prefix_order.less_le)
    then show ?thesis using same [of commit_path] by (simp add: commit_path_def manifest_temp_def manifest_path_def)
  qed
  have base: "map_of t' [] = map_of t []" by (rule vis) (simp add: in_cache_def cache_state_dir_def)
  have one: "entry_saved old t' (p, had) \<and> map_of t' (transaction_dir @ p) = None \<and> (had \<longleftrightarrow> map_of t' p \<noteq> None)"
    if e: "(p, had) \<in> set es" for p had
  proof -
    have p: "p \<in> set (map fst es)" using e by force
    note pD = paths_okD [OF ps p]
    have s: "clear t [] p" "had \<longleftrightarrow> map_of t p \<noteq> None" using sn e by (auto simp: seen_def)
    have "map_of t' a = map_of t a" if "a \<noteq> []" "strict_prefix a p" for a
      by (rule vis [OF strict_prefix_visible [OF pD(3) that]])
    then have c1: "clear t' [] p" using s(1) vis [OF pD(3)] by (simp add: clear_def)
    have N: "map_of t' (transaction_dir @ p) = None" by (rule none [OF pD(1,4)])
    have "map_of t' (transaction_dir @ a) = None" if "a \<noteq> []" "strict_prefix a p" for a
    proof (rule none [OF that(1)])
      show "hd a \<notin> set reserved_names" using that pD(4) by (cases a; cases p) auto
    qed
    then have c2: "clear t' transaction_dir p" using N by (simp add: clear_def)
    have v: "in_cache (p @ r)" for r by (rule visible_mono [OF pD(1,3)])
    have F: "file_at t' (p @ r) = old (p @ r)" for r
      using st vis [OF v] v [of r] by (simp add: settled_def shows_files_def file_at_def)
    have "old (p @ r) = None" if "\<not> had" for r
    proof -
      have "map_of t' p = None" using s(2) that vis [OF pD(3)] by simp
      then have "map_of t' (p @ r) = None" using below_absent [OF ok, of p "p @ r"] by (cases "r = []") (auto simp: prefix_order.less_le)
      then show ?thesis using F [of r] by (simp add: file_at_def)
    qed
    then show ?thesis using c1 c2 N F s(2) vis [OF pD(3)] by (simp add: entry_saved_def)
  qed
  have "file_at t' q = old q" if "in_cache q" for q
    using st that vis [OF that] by (simp add: settled_def shows_files_def file_at_def)
  then have "rolling bytes es old t'" using one m commit by (auto simp: rolling_def)
  moreover have "parents_there es t'" if c
    unfolding parents_there_def
  proof
    fix e assume e: "e \<in> set es"
    then have p: "fst e \<in> set (map fst es)" by simp
    note pD = paths_okD [OF ps p]
    have "butlast (fst e) = [] \<or> in_cache (butlast (fst e))"
      using strict_prefix_visible [OF pD(3) _ strict_prefix_of_butlast [OF pD(1)]] by blast
    then have "map_of t' (butlast (fst e)) = map_of t (butlast (fst e))" by (elim disjE) (simp_all only: vis base)
    then show "map_of t' (butlast (fst e)) = Some Folder" using sn that e by (simp add: seen_def parents_there_def)
  qed
  moreover have "staged_files root (map fst es) staged t'" using f stg by (simp add: fresh_def staged_files_def file_at_def)
  ultimately show ?thesis using one by (auto simp: backing_def rolling_back_def)
qed

lemma absent_spec: "(\<And>t. P t \<Longrightarrow> R t) \<Longrightarrow> spec False P (ensure_path_absent p) (\<lambda>_. P) R"
  unfolding ensure_path_absent_def
  by (rule spec_bind [OF lstat_spec [of P R]]) (auto intro: spec_return spec_fail split: option.split)

text \<open>The writing of a temporary file, for a condition that does not look at it.\<close>

lemma write_spec:
  assumes R: "\<And>t. P t \<Longrightarrow> R t" and keep: "\<And>t t'. P t \<Longrightarrow> (\<And>y. y \<noteq> p \<Longrightarrow> map_of t' y = map_of t y) \<Longrightarrow> P t'"
  shows "spec False P (write_synced_file p contents) (\<lambda>_ t. P t \<and> map_of t p = Some (Plain contents)) R"
  unfolding write_synced_file_def
proof (rule spec_then)
  show "spec False P (io_prim (fs_create p)) (\<lambda>_. P) R"
  proof (rule spec_prim)
    fix t u t' assume t: "tree_ok t" "P t" "fs_create p t = Inr (u, t')"
    then show "tree_ok t' \<and> P t'" using fs_create_laws [OF t(3)] keep [of t t'] by simp
  qed (use R in auto)
  show "spec False P (io_prim (fs_fill p contents)) (\<lambda>_ t. P t \<and> map_of t p = Some (Plain contents)) R"
  proof (rule spec_prim)
    fix t u t' assume t: "tree_ok t" "P t" "fs_fill p contents t = Inr (u, t')"
    then show "tree_ok t' \<and> P t' \<and> map_of t' p = Some (Plain contents)" using fs_fill_laws [OF t(3)] keep [of t t'] by simp
  qed (use R in auto)
qed

lemma write_manifest_spec:
  assumes S: "staging_ok root" and ps: "paths_ok (map fst es)" and dec: "decode bytes = Some (written es)"
  shows "spec False (\<lambda>t. fresh root (map fst es) old staged t \<and> seen c es t) (write_manifest bytes)
    (\<lambda>_. backing root c bytes es old staged []) (consistent decode c old new)"
    (is "spec _ ?P _ (\<lambda>_. ?Q) ?R")
proof -
  have R: "?R t" if "?P t" for t using that by (simp add: consistent_def fresh_def)
  have R2: "?R t" if "?Q t" for t using that ps dec by (auto simp: consistent_def backing_def)
  have keep: "?P t'" if "?P t" "\<And>y. y \<noteq> manifest_temp \<Longrightarrow> map_of t' y = map_of t y" for t t'
  proof -
    have a: "agrees root (map fst es) t t'" by (rule temp_agrees [OF S ps disjI1 [OF refl] that(2)])
    show ?thesis using fresh_agrees [OF S ps _ that(2)] seen_agrees [OF a ps] that(1) by blast
  qed
  have mv: "spec False (\<lambda>t. ?P t \<and> map_of t manifest_temp = Some (Plain bytes)) (io_prim (fs_rename manifest_temp manifest_path))
      (\<lambda>_. ?Q) ?R"
  proof (rule spec_prim)
    fix t u t' assume t: "tree_ok t" "?P t \<and> map_of t manifest_temp = Some (Plain bytes)"
      "fs_rename manifest_temp manifest_path t = Inr (u, t')"
    note l = fs_rename_laws [OF t(1,3)]
    have "map_of t' manifest_path = Some (Plain bytes)" using l(1) [of manifest_path] t(2) by simp
    moreover have "map_of t' y = map_of t y" if "\<not> prefix manifest_temp y" "\<not> prefix manifest_path y" for y
      using l(1) [of y] that by simp
    ultimately show "tree_ok t' \<and> ?Q t'" using backing_start [OF S ps _ _ l(6)] t(2) l(6) by blast
  qed (use R in auto)
  have sync: "spec False ?Q (io_then (sync_directory transaction_dir) sync_cache_state) (\<lambda>_. ?Q) ?R"
    unfolding sync_cache_state_def
    by (intro spec_then [where Q = "?Q"]; rule sync_spec) (use R2 in auto)
  show ?thesis
    unfolding write_manifest_def
    by (rule spec_then [OF absent_spec spec_then [OF write_spec spec_then [OF mv sync]]]) (use R keep in blast)+
qed

section \<open>Backups\<close>

lemma backing_step:
  assumes ps: "paths_ok (map fst es)" and e: "(p, had) \<in> set es" and b: "backing root c bytes es old staged pre t"
    and roll: "rolling_back c bytes es old [] t'" and stg: "staged_files root (map fst es) staged t'"
    and own: "map_of t' p = None" "had \<Longrightarrow> map_of t' (transaction_dir @ p) \<noteq> None"
    and rest: "\<And>q. q \<in> set (map fst es) \<Longrightarrow> q \<noteq> p \<Longrightarrow> map_of t' q = map_of t q"
      "\<And>q. q \<in> set (map fst es) \<Longrightarrow> q \<noteq> p \<Longrightarrow> map_of t' (transaction_dir @ q) = map_of t (transaction_dir @ q)"
  shows "backing root c bytes es old staged (pre @ [p]) t'"
proof -
  have inj: "inj_on fst (set es)" using ps by (simp add: paths_ok_def distinct_map)
  have "if q \<in> set (pre @ [p]) then map_of t' q = None \<and> (h \<longrightarrow> map_of t' (transaction_dir @ q) \<noteq> None)
      else map_of t' (transaction_dir @ q) = None \<and> (h \<longleftrightarrow> map_of t' q \<noteq> None)" if q: "(q, h) \<in> set es" for q h
  proof (cases "q = p")
    case True
    then have "h = had" using inj q e by (metis fst_conv inj_onD snd_conv)
    then show ?thesis using True own by simp
  next
    case False
    have "q \<in> set (map fst es)" using q by force
    then show ?thesis using b q rest False by (auto simp: backing_def)
  qed
  then have "\<forall>(q, h) \<in> set es. if q \<in> set (pre @ [p]) then map_of t' q = None \<and> (h \<longrightarrow> map_of t' (transaction_dir @ q) \<noteq> None)
      else map_of t' (transaction_dir @ q) = None \<and> (h \<longleftrightarrow> map_of t' q \<noteq> None)" by blast
  then show ?thesis using roll stg unfolding backing_def by blast
qed

lemma hidden_beside:
  assumes "paths_ok ps" "p \<in> set ps"
  shows "\<not> prefix p (transaction_dir @ r)" "\<not> prefix (transaction_dir @ p) x \<or> \<not> in_cache x"
    "staging_ok root \<Longrightarrow> \<not> prefix p (root @ r)"
proof -
  note pD = paths_okD [OF assms]
  show "\<not> prefix p (transaction_dir @ r)" using prefix_visible [OF pD(3,1)] hidden_transaction by blast
  show "\<not> prefix (transaction_dir @ p) x \<or> \<not> in_cache x" using hidden_transaction(1) by (metis prefixE append.assoc)
  show "staging_ok root \<Longrightarrow> \<not> prefix p (root @ r)" using staging_apart(5) pD(1,3) by blast
qed

lemma backing_mkdirs:
  assumes ps: "paths_ok (map fst es)" and p: "p \<in> set (map fst es)" and b: "backing root c bytes es old staged pre t"
    and m: "fs_mkdirs (transaction_dir @ butlast p) t = Inr (u, t')"
  shows "backing root c bytes es old staged pre t'"
proof -
  note l = fs_mkdirs_laws [OF m] and pD = paths_okD [OF ps p]
  have far: "\<not> prefix (transaction_dir @ q) (transaction_dir @ butlast p)" if "q \<in> set (map fst es)" for q
    using ancestors_apart [OF ps that p strict_prefix_of_butlast [OF pD(1)]] by simp
  have "\<not> prefix commit_path (transaction_dir @ butlast p)"
    using pD(4) by (cases p) (auto simp: commit_path_def reserved_names_def split: if_splits)
  then have "rolling bytes es old t'"
    using rolling_mkdirs [OF _ m] far b by (force simp: backing_def rolling_back_def)
  then have "rolling_back c bytes es old [] t'"
    using b parents_mkdirs [OF _ m] by (auto simp: backing_def rolling_back_def)
  moreover have "map_of t' q = map_of t q" "map_of t' (transaction_dir @ q) = map_of t (transaction_dir @ q)"
    if "q \<in> set (map fst es)" for q
    using hidden_beside(1) [OF ps that] far [OF that] by (simp_all add: l(1))
  then have "map_of t' q = map_of t q \<and> map_of t' (transaction_dir @ q) = map_of t (transaction_dir @ q)"
    if "(q, h) \<in> set es" for q h using that by force
  ultimately show ?thesis using b by (fastforce simp: backing_def staged_files_def l(2))
qed

lemma backing_moved:
  assumes S: "staging_ok root" and ps: "paths_ok (map fst es)" and e: "(p, had) \<in> set es" and n: "p \<notin> set pre"
    and b: "backing root c bytes es old staged pre t" and ok: "tree_ok t"
    and m: "fs_rename p (transaction_dir @ p) t = Inr (u, t')"
  shows "backing root c bytes es old staged (pre @ [p]) t'"
proof -
  note l = fs_rename_laws [OF ok m]
  have p: "p \<in> set (map fst es)" using e by force
  note pD = paths_okD [OF ps p] and hid = hidden_beside [OF ps p]
  have roll: "rolling bytes es old t" using b by (simp add: backing_def rolling_back_def)
  have own: "map_of t (transaction_dir @ p) = None" "had" using b e n l(2) by (auto simp: backing_def)
  have "(p = p \<and> transaction_dir @ p = transaction_dir @ p \<and> had \<and> map_of t (transaction_dir @ p) = None)
      \<or> (p = transaction_dir @ p \<and> transaction_dir @ p = p \<and> had \<and> map_of t p \<noteq> None)" using own by simp
  note sw = rolling_swap [OF ps e roll l(1,3,4) this l(2)]
  have same: "same_beside p t t'" by (auto simp: same_beside_def l(1))
  have base: "map_of t' [] = map_of t []" using pD(1) by (simp add: l(1))
  have rb: "rolling_back c bytes es old [] t'"
    using sw(1) b parents_change [OF ps e same _ base] by (auto simp: backing_def rolling_back_def)
  have "map_of t' (root @ r) = map_of t (root @ r)" for r
    using hid(3) [OF S] staging_apart(3) [OF S] by (simp add: l(1))
  then have "staged_files root (map fst es) staged t'" using b by (simp add: backing_def staged_files_def file_at_def)
  then show ?thesis
  proof (rule backing_step [OF ps e b rb])
    show "map_of t' p = None" using sw(3) [of "[]"] by simp
    show "map_of t' (transaction_dir @ p) \<noteq> None" using sw(2) by simp
    fix q assume q: "q \<in> set (map fst es)" "q \<noteq> p"
    have far: "\<not> prefix p q" using paths_apart [OF ps p q(1), of "[]"] q(2) by simp
    show "map_of t' q = map_of t q" using hid(2) [of q] far paths_okD(3) [OF ps q(1)] by (auto simp: l(1))
    show "map_of t' (transaction_dir @ q) = map_of t (transaction_dir @ q)" using hid(1) far by (simp add: l(1))
  qed
qed

lemma backing_consistent:
  "paths_ok (map fst es) \<Longrightarrow> decode bytes = Some (written es) \<Longrightarrow> backing root c bytes es old staged pre t \<Longrightarrow> consistent decode c old new t"
  by (auto simp: consistent_def backing_def)

lemma back_up_spec:
  assumes S: "staging_ok root" and ps: "paths_ok (map fst es)" and dec: "decode bytes = Some (written es)"
    and e: "(p, had) \<in> set es" and n: "p \<notin> set pre"
  shows "spec False (backing root c bytes es old staged pre) (back_up p)
    (\<lambda>_. backing root c bytes es old staged (pre @ [p])) (consistent decode c old new)"
    (is "spec _ ?P _ (\<lambda>_. ?Q) ?R")
  unfolding back_up_def Let_def
proof (rule spec_then)
  have p: "p \<in> set (map fst es)" using e by force
  note pD = paths_okD [OF ps p]
  have R: "?R t" if "?P t \<or> ?Q t" for t using backing_consistent [where decode = decode and bytes = bytes, OF ps dec] that by blast
  show "spec False ?P (validate_cache_relative_ancestors [] p True) (\<lambda>_. ?P) ?R"
    by (rule check_spec [OF pD(2)]) (use R in auto)
  have bl: "butlast (transaction_dir @ p) = transaction_dir @ butlast p" using pD(1) by (simp add: butlast_append)
  have v: "spec False ?P (validate_cache_relative_ancestors base p True) (\<lambda>_. ?P) ?R" for base
    by (rule check_spec [OF pD(2)]) (use R in auto)
  have mk: "spec False ?P (io_prim (fs_mkdirs (butlast (transaction_dir @ p)))) (\<lambda>_. ?P) ?R"
    unfolding bl by (rule spec_prim) (use R backing_mkdirs [OF ps p] fs_mkdirs_laws(3) in blast)+
  have mv: "spec False ?P (io_prim (fs_rename p (transaction_dir @ p))) (\<lambda>_. ?Q) ?R"
    by (rule spec_prim) (use R backing_moved [OF S ps e n] fs_rename_laws(6) in blast)+
  have sy: "spec False ?Q (sync_directory d) (\<lambda>_. ?Q) ?R" for d by (rule sync_spec) (use R in auto)
  note all = spec_then [OF v spec_then [OF mk spec_then [OF v spec_then [OF mv spec_then [OF sy spec_then [OF sy spec_then [OF sy sy]]]]]]]
  show "spec False ?P (io_bind (path_exists p) (\<lambda>there.
       if \<not> there then io_return ()
       else io_then (validate_cache_relative_ancestors transaction_dir p True)
         (io_then (io_prim (fs_mkdirs (butlast (transaction_dir @ p))))
         (io_then (validate_cache_relative_ancestors [] p True)
         (io_then (io_prim (fs_rename p (transaction_dir @ p)))
         (io_then (sync_directory (butlast (transaction_dir @ p)))
         (io_then (sync_directory transaction_dir)
         (io_then (sync_directory (butlast p))
           (sync_directory []))))))))) (\<lambda>_. ?Q) ?R"
  proof (rule spec_bind)
    show "spec False ?P (path_exists p) (\<lambda>r t. ?P t \<and> r = (map_of t p \<noteq> None)) ?R"
      by (rule path_exists_spec) (use R in blast)
    fix there
    have out: "?Q t" if t: "?P t" "map_of t p = None" for t
    proof (rule backing_step [OF ps e t(1)])
      show "had \<Longrightarrow> map_of t (transaction_dir @ p) \<noteq> None" using t e n by (auto simp: backing_def)
    qed (use t in \<open>auto simp: backing_def\<close>)
    show "spec False (\<lambda>t. ?P t \<and> there = (map_of t p \<noteq> None))
      (if \<not> there then io_return ()
       else io_then (validate_cache_relative_ancestors transaction_dir p True)
         (io_then (io_prim (fs_mkdirs (butlast (transaction_dir @ p))))
         (io_then (validate_cache_relative_ancestors [] p True)
         (io_then (io_prim (fs_rename p (transaction_dir @ p)))
         (io_then (sync_directory (butlast (transaction_dir @ p)))
         (io_then (sync_directory transaction_dir)
         (io_then (sync_directory (butlast p))
           (sync_directory [])))))))) (\<lambda>_. ?Q) ?R"
      by (rule spec_if) (auto intro!: spec_return out intro: spec_conseq [OF all])
  qed
qed

section \<open>Installation\<close>

definition installing ::
  "path \<Rightarrow> bool \<Rightarrow> string \<Rightarrow> manifest \<Rightarrow> (path \<Rightarrow> node option) \<Rightarrow> (path \<Rightarrow> node option) \<Rightarrow> path list \<Rightarrow> tree \<Rightarrow> bool" where
  "installing root c bytes es old staged pre t \<longleftrightarrow>
     rolling_back c bytes es old [] t
     \<and> (\<forall>(p, had) \<in> set es. had \<longrightarrow> map_of t (transaction_dir @ p) \<noteq> None)
     \<and> (\<forall>p \<in> set (map fst es). \<forall>r. file_at t (if p \<in> set pre then p @ r else root @ p @ r) = staged (p @ r))"

lemma installing_start: "backing root c bytes es old staged (map fst es) t \<Longrightarrow> installing root c bytes es old staged [] t"
proof -
  assume b: "backing root c bytes es old staged (map fst es) t"
  have "map_of t (transaction_dir @ p) \<noteq> None" if "(p, True) \<in> set es" for p
  proof -
    have "p \<in> set (map fst es)" using that by force
    then show ?thesis using b that unfolding backing_def by fastforce
  qed
  then show ?thesis using b by (auto simp: backing_def installing_def staged_files_def)
qed

lemma installing_consistent:
  "paths_ok (map fst es) \<Longrightarrow> decode bytes = Some (written es) \<Longrightarrow> installing root c bytes es old staged pre t \<Longrightarrow> consistent decode c old new t"
  by (auto simp: consistent_def installing_def)

lemma installing_mkdirs:
  assumes ps: "paths_ok (map fst es)" and e: "(p, had) \<in> set es" and i: "installing root c bytes es old staged pre t"
    and m: "fs_mkdirs (butlast p) t = Inr (u, t')"
  shows "installing root c bytes es old staged pre t'"
proof -
  note l = fs_mkdirs_laws [OF m]
  have "rolling_back c bytes es old [] t'"
    by (rule rolling_back_mkdirs [OF ps e _ _ m]) (use i in \<open>simp_all add: installing_def\<close>)
  moreover have "map_of t' x \<noteq> None" if "map_of t x \<noteq> None" for x using that by (simp add: l(1))
  ultimately show ?thesis using i unfolding installing_def l(2) by blast
qed

lemma installing_moved:
  assumes S: "staging_ok root" and ps: "paths_ok (map fst es)" and e: "(p, had) \<in> set es" and n: "p \<notin> set pre"
    and i: "installing root c bytes es old staged pre t" and ok: "tree_ok t" and cl: "clear t root p"
    and m: "fs_rename (root @ p) p t = Inr (u, t')"
  shows "installing root c bytes es old staged (pre @ [p]) t'"
proof -
  note l = fs_rename_laws [OF ok m]
  have p: "p \<in> set (map fst es)" using e by force
  note pD = paths_okD [OF ps p] and hid = hidden_beside [OF ps p] and far = staging_apart [OF S]
  have roll: "rolling bytes es old t" using i by (simp add: installing_def rolling_back_def)
  have bk: "had \<Longrightarrow> map_of t (transaction_dir @ p) \<noteq> None" using i e by (auto simp: installing_def)
  have src: "\<not> in_cache (root @ p)" "\<not> prefix (root @ p) transaction_dir" "\<not> prefix transaction_dir (root @ p)"
    using far(1) far(2,3) [of p "[]"] far(3) [of "[]" p] by simp_all
  have link: "map_of t (root @ p) \<noteq> Some Link" using cl by (simp add: clear_def)
  have roll': "rolling bytes es old t'" by (rule rolling_install [OF ps e roll l(1) src link bk])
  have same: "same_beside p t t'"
    unfolding same_beside_def
  proof (intro allI impI)
    fix x assume x: "in_cache x \<or> prefix transaction_dir x" "\<not> prefix p x"
    have "\<not> prefix (root @ p) x" using x(1) far(2) [of p] far(4) [of x p] by (auto elim: prefixE)
    then show "map_of t' x = map_of t x" using x(2) by (simp add: l(1))
  qed
  have "root \<noteq> []" using S by (auto simp: staging_ok_def)
  then have base: "map_of t' [] = map_of t []" using pD(1) by (simp add: l(1))
  have rb: "rolling_back c bytes es old [] t'"
    using roll' i parents_change [OF ps e same _ base] by (auto simp: installing_def rolling_back_def)
  have T: "map_of t' (transaction_dir @ q) = map_of t (transaction_dir @ q)" for q
    using hid(1) far(2) by (simp add: l(1))
  have own: "map_of t' (p @ r) = map_of t (root @ p @ r)" for r by (simp add: l(1))
  have other: "map_of t' (q @ r) = map_of t (q @ r)" "map_of t' (root @ q @ r) = map_of t (root @ q @ r)"
    if q: "q \<in> set (map fst es)" "q \<noteq> p" for q r
  proof -
    have a: "\<not> prefix p (q @ r)" by (rule paths_apart [OF ps p q(1)]) (use q(2) in simp)
    have "\<not> prefix (root @ p) (q @ r)" by (rule far(4)) (rule visible_mono [OF paths_okD(1,3) [OF ps q(1)]])
    then show "map_of t' (q @ r) = map_of t (q @ r)" using a by (simp add: l(1))
    show "map_of t' (root @ q @ r) = map_of t (root @ q @ r)" using a hid(3) [OF S] by (simp add: l(1))
  qed
  have "file_at t' (if q \<in> set (pre @ [p]) then q @ r else root @ q @ r) = staged (q @ r)" if q: "q \<in> set (map fst es)" for q r
  proof (cases "q = p")
    case True
    have "file_at t (root @ p @ r) = staged (p @ r)" using i p n by (auto simp: installing_def)
    then show ?thesis using True own by (simp add: file_at_def)
  next
    case False
    have "file_at t (if q \<in> set pre then q @ r else root @ q @ r) = staged (q @ r)" using i q by (auto simp: installing_def)
    then show ?thesis using other [OF q False] False by (auto simp: file_at_def split: if_splits)
  qed
  then show ?thesis using rb i T by (auto simp: installing_def)
qed

lemma install_spec:
  assumes S: "staging_ok root" and ps: "paths_ok (map fst es)" and dec: "decode bytes = Some (written es)"
    and e: "(p, had) \<in> set es" and n: "p \<notin> set pre"
  shows "spec False (installing root c bytes es old staged pre) (install root p)
    (\<lambda>_. installing root c bytes es old staged (pre @ [p])) (consistent decode c old new)"
    (is "spec _ ?P _ (\<lambda>_. ?Q) ?R")
proof -
  have p: "p \<in> set (map fst es)" using e by force
  note pD = paths_okD [OF ps p]
  have R: "?R t" if "?P t \<or> ?Q t" for t
    using installing_consistent [where decode = decode and bytes = bytes, OF ps dec] that by blast
  have v1: "spec False ?P (validate_cache_relative_ancestors base p True) (\<lambda>_. ?P) ?R" for base
    by (rule check_spec [OF pD(2)]) (use R in auto)
  have v2: "spec False ?P (validate_cache_relative_ancestors root p True) (\<lambda>_ t. ?P t \<and> clear t root p) ?R"
    by (rule check_spec [OF pD(2)]) (use R in auto)
  have v3: "spec False (\<lambda>t. ?P t \<and> clear t root p) (validate_cache_relative_ancestors [] p False) (\<lambda>_ t. ?P t \<and> clear t root p) ?R"
    by (rule check_spec [OF pD(2)]) (use R in auto)
  have mk: "spec False ?P (io_prim (fs_mkdirs (butlast p))) (\<lambda>_. ?P) ?R"
    by (rule spec_prim) (use R installing_mkdirs [OF ps e] fs_mkdirs_laws(3) in blast)+
  have mv: "spec False (\<lambda>t. ?P t \<and> clear t root p) (io_prim (fs_rename (root @ p) p)) (\<lambda>_. ?Q) ?R"
    by (rule spec_prim) (use R installing_moved [OF S ps e n] fs_rename_laws(6) in blast)+
  have sy: "spec False ?Q (sync_directory d) (\<lambda>_. ?Q) ?R" for d by (rule sync_spec) (use R in auto)
  show ?thesis
    unfolding install_def
    by (rule spec_then [OF v1 spec_then [OF v1 spec_then [OF mk spec_then [OF v2 spec_then [OF v3
          spec_then [OF mv spec_then [OF sy spec_then [OF sy sy]]]]]]]])
qed

section \<open>The commit\<close>

lemma installed_files:
  assumes ps: "paths_ok (map fst es)" and i: "installing root c bytes es old staged (map fst es) t" and v: "in_cache q"
  shows "file_at t q = overlaid (map fst es) staged old q"
proof (cases "list_ex (\<lambda>p. prefix p q) (map fst es)")
  case True
  then obtain p r where p: "p \<in> set (map fst es)" "q = p @ r" by (auto simp: list_ex_iff prefix_def)
  then have "file_at t (if p \<in> set (map fst es) then p @ r else root @ p @ r) = staged (p @ r)"
    using i unfolding installing_def by blast
  then show ?thesis using True p by (simp add: overlaid_def)
next
  case False
  then have "\<forall>e \<in> set es. \<not> prefix (fst e) q" by (auto simp: list_ex_iff)
  then show ?thesis using i v False by (simp add: installing_def rolling_back_def rolling_def overlaid_def)
qed

lemma installing_agrees:
  assumes "agrees root (map fst es) t t'" "paths_ok (map fst es)" "installing root c bytes es old staged pre t"
  shows "installing root c bytes es old staged pre t'"
proof -
  note a = agrees_at [OF assms(1)]
  have p: "map_of t' (p @ r) = map_of t (p @ r)" "map_of t' (transaction_dir @ p @ r) = map_of t (transaction_dir @ p @ r)"
    if "p \<in> set (map fst es)" for p r
    using a(1) [OF visible_mono [OF paths_okD(1,3) [OF assms(2) that]]] a(3) [OF that] by auto
  have "map_of t' (transaction_dir @ q) = map_of t (transaction_dir @ q)" if "(q, h) \<in> set es" for q h
    using p(2) [of q "[]"] that by force
  then show ?thesis
    using rolling_back_agrees [OF assms(1,2)] assms(3) p(1) a(2)
    by (fastforce simp: installing_def file_at_def)
qed

lemma commit_spec:
  assumes S: "staging_ok root" and ps: "paths_ok (map fst es)" and dec: "decode bytes = Some (written es)"
    and new: "new = overlaid (map fst es) staged old"
  shows "spec False (installing root c bytes es old staged (map fst es)) commit (\<lambda>_. settled new) (consistent decode c old new)"
    (is "spec _ ?P _ _ ?R")
proof -
  have R: "?R t" if "?P t" for t using installing_consistent [where decode = decode and bytes = bytes, OF ps dec that] .
  have keep: "?P t'" if "?P t" "\<And>y. y \<noteq> commit_temp \<Longrightarrow> map_of t' y = map_of t y" for t t'
    by (rule installing_agrees [OF temp_agrees [OF S ps disjI2 [OF refl] that(2)] ps that(1)])
  have mv: "spec False (\<lambda>t. ?P t \<and> map_of t commit_temp = Some (Plain commit_marker)) (io_prim (fs_rename commit_temp commit_path))
      (\<lambda>_. settled new) ?R"
  proof (rule spec_prim)
    fix t u t' assume t: "tree_ok t" "?P t \<and> map_of t commit_temp = Some (Plain commit_marker)"
      "fs_rename commit_temp commit_path t = Inr (u, t')"
    note l = fs_rename_laws [OF t(1,3)]
    have roll: "rolling bytes es old t" using t(2) by (simp add: installing_def rolling_back_def)
    have hid: "\<not> prefix commit_temp x \<and> \<not> prefix commit_path x" if "in_cache x \<or> prefix x transaction_dir" for x
      using that hidden_files prefix_length_le [of commit_temp x] prefix_length_le [of commit_path x] prefix_length_le [of x transaction_dir]
      by (auto simp: in_cache_def commit_temp_def commit_path_def transaction_dir_def dest: prefix_order.trans)
    have same: "map_of t' x = map_of t x" if "in_cache x \<or> prefix x transaction_dir" for x
      using hid [OF that] by (simp add: l(1))
    have "home_ok t'"
      using rolling_home [OF t(1) roll] same [of "[]"] same [of cache_state_dir] same [of transaction_dir]
      by (simp add: home_ok_def cache_state_dir_def transaction_dir_def)
    moreover have "shows_files new t'"
      unfolding shows_files_def
    proof (intro allI impI)
      fix q assume v: "in_cache q"
      then have "file_at t' q = file_at t q" using same by (intro file_at_cong) blast
      then show "file_at t' q = new q" using installed_files [OF ps _ v] t(2) new by auto
    qed
    moreover have "map_of t' commit_path = Some (Plain commit_marker)" using l(1) [of commit_path] t(2) by simp
    ultimately show "tree_ok t' \<and> settled new t'" using l(6) by (simp add: settled_def)
  qed (use R in auto)
  have sync: "spec False (settled new) (sync_directory transaction_dir) (\<lambda>_. settled new) ?R"
    by (rule sync_spec) (auto simp: consistent_def)
  show ?thesis
    unfolding commit_def
    by (rule spec_then [OF absent_spec spec_then [OF write_spec spec_then [OF mv sync]]]) (use R keep in blast)+
qed

section \<open>The whole publication\<close>

lemma paths_split: "paths_ok ps \<Longrightarrow> ps = pre @ p # rest \<Longrightarrow> p \<notin> set pre"
  by (auto simp: paths_ok_def)

lemma move_all_spec:
  assumes S: "staging_ok root" and ps: "paths_ok (map fst es)" and dec: "decode bytes = Some (written es)"
    and new: "new = overlaid (map fst es) staged old"
  shows "spec False (backing root c bytes es old staged []) (move_all root (map fst es)) (\<lambda>_. settled new) (consistent decode c old new)"
    (is "spec _ _ _ _ ?R")
proof -
  have entry: "\<exists>had. (p, had) \<in> set es" if "map fst es = pre @ p # rest" for pre p rest
  proof -
    have "p \<in> set (map fst es)" using that by simp
    then show ?thesis by auto
  qed
  have 1: "spec False (backing root c bytes es old staged []) (io_for back_up (map fst es))
      (\<lambda>_. installing root c bytes es old staged []) ?R"
  proof (rule spec_for)
    fix p pre rest assume s: "map fst es = pre @ p # rest"
    obtain had where e: "(p, had) \<in> set es" using entry [OF s] by blast
    show "spec False (backing root c bytes es old staged pre) (back_up p) (\<lambda>_. backing root c bytes es old staged (pre @ [p])) ?R"
      by (rule back_up_spec [where decode = decode and bytes = bytes, OF S ps dec e paths_split [OF ps s]])
  qed (rule installing_start)
  have 2: "spec False (installing root c bytes es old staged []) (io_for (install root) (map fst es))
      (\<lambda>_. installing root c bytes es old staged (map fst es)) ?R"
  proof (rule spec_for)
    fix p pre rest assume s: "map fst es = pre @ p # rest"
    obtain had where e: "(p, had) \<in> set es" using entry [OF s] by blast
    show "spec False (installing root c bytes es old staged pre) (install root p)
        (\<lambda>_. installing root c bytes es old staged (pre @ [p])) ?R"
      by (rule install_spec [where decode = decode and bytes = bytes, OF S ps dec e paths_split [OF ps s]])
  qed
  show ?thesis unfolding move_all_def
    by (rule spec_then [OF 1 spec_then [OF 2 commit_spec [where decode = decode and bytes = bytes, OF S ps dec new]]])
qed

lemma recover_consistent_spec:
  assumes "valid_order order" "manifest_first order" "b \<longrightarrow> c"
  shows "spec b (consistent decode c old new) (recover_interrupted_publication order decode)
    (\<lambda>r t. (settled old t \<or> settled new t) \<and> (r \<longrightarrow> gone t)) (consistent decode c old new)"
proof (rule spec_pin)
  fix t0 assume t0: "consistent decode c old new t0"
  then consider G where "G = old \<or> G = new" "settled G t0"
    | bytes es where "decode bytes = Some (written es)" "paths_ok (map fst es)" "rolling_back c bytes es old [] t0"
    unfolding consistent_def by blast
  then show "spec b (\<lambda>t. t = t0) (recover_interrupted_publication order decode)
      (\<lambda>r t. (settled old t \<or> settled new t) \<and> (r \<longrightarrow> gone t)) (consistent decode c old new)"
  proof cases
    case 1
    then show ?thesis
      by (intro spec_conseq [OF recover_settled_spec [OF assms(1,2), of b G decode]]) (auto simp: consistent_def)
  next
    case 2
    show ?thesis
      by (rule spec_conseq [OF recover_spec [where decode = decode and bytes = bytes and b = b, OF assms(1,2) 2(2,1) assms(3), of old new]])
        (use 2 in \<open>auto simp: recoverable_def consistent_def\<close>)
  qed
qed

lemma finish_spec:
  assumes order: "valid_order order" "manifest_first order"
  shows "spec False (\<lambda>t. case r of Inl _ \<Rightarrow> consistent decode c old new t | Inr _ \<Rightarrow> settled new t)
    (finish_publication order decode r) (\<lambda>_. settled new) (consistent decode c old new)"
proof (cases r)
  case (Inl e)
  have "spec False (consistent decode c old new) (io_bind (io_try (recover_interrupted_publication order decode))
      (\<lambda>r. io_fail (if r = Inr True then e else OtherError))) (\<lambda>_. settled new) (consistent decode c old new)"
    by (rule spec_bind [OF spec_try [OF recover_consistent_spec [OF order, of False c decode old new],
            where S = "\<lambda>_. consistent decode c old new"]])
      (auto intro: spec_fail simp: consistent_def)
  then show ?thesis using Inl by (simp add: finish_publication_def)
next
  case (Inr u)
  have rm: "spec False (settled new) (io_try (remove_dir_all order transaction_dir)) (\<lambda>_. settled new) (consistent decode c old new)"
    by (rule spec_conseq [where R' = "settled new" and b' = False and P' = "settled new" and Q' = "\<lambda>_. settled new"],
        rule spec_try [OF spec_conseq [OF remove_settled_spec [OF order, of False new], where R = "settled new" and Q = "\<lambda>_. settled new"]])
      (auto simp: consistent_def)
  have sync: "spec False (settled new) sync_cache_state (\<lambda>_. settled new) (consistent decode c old new)"
    unfolding sync_cache_state_def
    by (rule spec_then [where Q = "settled new"]; rule sync_spec) (auto simp: consistent_def)
  have "spec False (settled new) (io_bind (io_try (remove_dir_all order transaction_dir))
      (\<lambda>r. case r of Inl _ \<Rightarrow> io_return () | Inr _ \<Rightarrow> sync_cache_state)) (\<lambda>_. settled new) (consistent decode c old new)"
    by (rule spec_bind [OF rm]) (auto intro: spec_return sync split: sum.split)
  then show ?thesis using Inr by (simp add: finish_publication_def)
qed

text \<open>The manifest is about the paths in their order, and says what is there.\<close>

lemma manifest_entry_spec:
  assumes p: "safe_relative p" and c: "c \<Longrightarrow> map_of t0 (butlast p) = Some Folder" and R: "R t0"
  shows "spec False (\<lambda>t. t = t0) (manifest_entry root p)
    (\<lambda>e t. t = t0 \<and> fst e = p \<and> clear t0 [] p \<and> (snd e \<longleftrightarrow> map_of t0 p \<noteq> None)
       \<and> (c \<longrightarrow> map_of t0 (butlast p) = Some Folder)) R"
  unfolding manifest_entry_def
proof (rule spec_then [where Q = "\<lambda>t. t = t0"])
  have 1: "spec False (\<lambda>t. t = t0) (validate_cache_relative_ancestors [] p True) (\<lambda>_ t. t = t0 \<and> clear t0 [] p) R"
    by (rule check_spec [OF p]) (use R in auto)
  have 2: "spec False (\<lambda>t. t = t0 \<and> clear t0 [] p) (validate_cache_relative_ancestors root p True) (\<lambda>_ t. t = t0 \<and> clear t0 [] p) R"
    by (rule check_spec [OF p]) (use R in auto)
  have 3: "spec False (\<lambda>t. t = t0 \<and> clear t0 [] p) (path_exists p) (\<lambda>r t. (t = t0 \<and> clear t0 [] p) \<and> r = (map_of t p \<noteq> None)) R"
    by (rule path_exists_spec) (use R in auto)
  show "spec False (\<lambda>t. t = t0) (io_then (validate_cache_relative_ancestors [] p True)
      (io_then (validate_cache_relative_ancestors root p True)
      (io_bind (path_exists p) (\<lambda>had_target. io_return (p, had_target)))))
     (\<lambda>e t. t = t0 \<and> fst e = p \<and> clear t0 [] p \<and> (snd e \<longleftrightarrow> map_of t0 p \<noteq> None)
       \<and> (c \<longrightarrow> map_of t0 (butlast p) = Some Folder)) R"
    by (rule spec_then [OF 1 spec_then [OF 2 spec_bind [OF 3]]]) (use c in \<open>auto intro: spec_return\<close>)
qed (rule safe_spec [OF p], simp)

lemma manifest_spec:
  assumes ps: "paths_ok ps" and P: "\<And>t. P t \<Longrightarrow> R t" and c: "\<And>t p. P t \<Longrightarrow> c \<Longrightarrow> p \<in> set ps \<Longrightarrow> map_of t (butlast p) = Some Folder"
  shows "spec False P (io_map (manifest_entry root) ps) (\<lambda>es t. P t \<and> map fst es = ps \<and> seen c es t) R"
proof (rule spec_pin)
  fix t0 assume t0: "P t0"
  let ?g = "\<lambda>p e. fst e = p \<and> clear t0 [] p \<and> (snd e \<longleftrightarrow> map_of t0 p \<noteq> None) \<and> (c \<longrightarrow> map_of t0 (butlast p) = Some Folder)"
  have fin: "map fst es = ps \<and> seen c es t0" if "list_all2 ?g ps es" for es
  proof -
    have "map fst es = ps" using that by (induction rule: list_all2_induct) auto
    moreover have "clear t0 [] (fst e) \<and> (snd e \<longleftrightarrow> map_of t0 (fst e) \<noteq> None) \<and> (c \<longrightarrow> map_of t0 (butlast (fst e)) = Some Folder)"
      if "e \<in> set es" for e
      using \<open>list_all2 ?g ps es\<close> that by (induction rule: list_all2_induct) auto
    ultimately show ?thesis by (force simp: seen_def parents_there_def)
  qed
  have "spec False (\<lambda>t. t = t0) (io_map (manifest_entry root) ps) (\<lambda>es t. t = t0 \<and> list_all2 ?g ps es) R"
    by (rule spec_map, rule manifest_entry_spec) (use ps paths_okD(2) P t0 c in auto)
  then show "spec False (\<lambda>t. t = t0) (io_map (manifest_entry root) ps) (\<lambda>es t. P t \<and> map fst es = ps \<and> seen c es t) R"
    by (rule spec_conseq) (use fin t0 in auto)
qed

text \<open>Before a publication: no transaction, and the staged paths in place.\<close>

definition unpublished :: "bool \<Rightarrow> path \<Rightarrow> path list \<Rightarrow> (path \<Rightarrow> node option) \<Rightarrow> (path \<Rightarrow> node option) \<Rightarrow> tree \<Rightarrow> bool" where
  "unpublished c root ps old staged t \<longleftrightarrow>
     settled old t \<and> map_of t transaction_dir = None \<and> staged_files root ps staged t
     \<and> (c \<longrightarrow> (\<forall>p \<in> set ps. map_of t (butlast p) = Some Folder))"

lemma recover_idle_spec:
  assumes "\<And>t. P t \<Longrightarrow> home_ok t \<and> map_of t transaction_dir = None" "\<And>t. P t \<Longrightarrow> R t"
  shows "spec False P (recover_interrupted_publication order decode) (\<lambda>r t. P t \<and> r = True) R"
  unfolding recover_interrupted_publication_def
proof (rule spec_then)
  show "spec False P (validate_cache_relative_ancestors [] transaction_dir True) (\<lambda>_. P) R"
    by (rule check_spec [OF transaction_path(1)]) (use assms in auto)
  show "spec False P (io_bind (path_exists transaction_dir) (\<lambda>pending.
      if \<not> pending then io_return True
      else io_bind read_commit_marker (\<lambda>k. if k then clean_committed order else roll_back order decode))) (\<lambda>r t. P t \<and> r = True) R"
  proof (rule spec_bind)
    show "spec False P (path_exists transaction_dir) (\<lambda>r t. P t \<and> r = (map_of t transaction_dir \<noteq> None)) R"
      by (rule path_exists_spec [OF assms(2)])
    show "spec False (\<lambda>t. P t \<and> pending = (map_of t transaction_dir \<noteq> None)) (if \<not> pending then io_return True
        else io_bind read_commit_marker (\<lambda>k. if k then clean_committed order else roll_back order decode)) (\<lambda>r t. P t \<and> r = True) R" for pending
      by (rule spec_if) (use assms(1) in \<open>auto intro!: spec_return intro: spec_never\<close>)
  qed
qed

lemma fresh_start:
  assumes i: "unpublished c root ps old staged t" and ok: "tree_ok t" and m: "fs_mkdirs transaction_dir t = Inr (u, t')"
  shows "fresh root ps old staged t'" "c \<longrightarrow> (\<forall>p \<in> set ps. map_of t' (butlast p) = Some Folder)"
proof -
  note l = fs_mkdirs_laws [OF m]
  have st: "settled old t" "map_of t transaction_dir = None" using i by (simp_all add: unpublished_def)
  then have home: "map_of t [] = Some Folder" "map_of t cache_state_dir = Some Folder" by (simp_all add: settled_def home_ok_def)
  have pre: "x = [] \<or> x = cache_state_dir \<or> x = transaction_dir" if "prefix x transaction_dir" for x
    using that by (auto simp: transaction_dir_def cache_state_dir_def prefix_Cons)
  have same: "map_of t' x = map_of t x" if "x \<noteq> transaction_dir" for x
    using pre [of x] that home by (auto simp: l(1))
  have T: "map_of t' transaction_dir = Some Folder" by (rule l(4)) simp
  have ne: "[] \<noteq> transaction_dir" "cache_state_dir \<noteq> transaction_dir" "commit_path \<noteq> transaction_dir" "manifest_path \<noteq> transaction_dir"
    by (simp_all add: transaction_dir_def cache_state_dir_def commit_path_def manifest_path_def)
  have "settled old t'"
    using st(1) same [OF ne(1)] same [OF ne(2)] same [OF ne(3)] same [OF ne(4)] T
    by (simp add: settled_def home_ok_def shows_files_def l(2))
  moreover have "map_of t' x = None" if "strict_prefix transaction_dir x" for x
    using below_absent [OF ok _ that] st(2) same [of x] that by auto
  ultimately show "fresh root ps old staged t'" using T i by (simp add: fresh_def unpublished_def staged_files_def l(2))
  have "map_of t' x = Some Folder" if "map_of t x = Some Folder" for x using that by (simp add: l(1))
  then show "c \<longrightarrow> (\<forall>p \<in> set ps. map_of t' (butlast p) = Some Folder)" using i by (simp add: unpublished_def)
qed

lemma publish_spec:
  assumes order: "valid_order order" "manifest_first order" and S: "staging_ok root" and ps: "paths_ok ps"
    and codec: "\<And>es. decode (encode es) = Some (written es)" and new: "new = overlaid ps staged old"
  shows "spec False (unpublished c root ps old staged) (publish_staged_relative_paths order encode decode root ps)
    (\<lambda>_. settled new) (consistent decode c old new)"
    (is "spec _ ?I _ _ ?R")
  unfolding publish_staged_relative_paths_def
proof (rule spec_bind)
  let ?F = "\<lambda>t. fresh root ps old staged t \<and> (c \<longrightarrow> (\<forall>p \<in> set ps. map_of t (butlast p) = Some Folder))"
  have I: "?R t" if "?I t" for t using that by (simp add: unpublished_def consistent_def)
  have F: "?R t" if "?F t" for t using that by (simp add: fresh_def consistent_def)
  show "spec False ?I (recover_interrupted_publication order decode) (\<lambda>r t. ?I t \<and> r = True) ?R"
    by (rule recover_idle_spec) (use I in \<open>auto simp: unpublished_def settled_def\<close>)
  have mk: "spec False ?I (io_prim (fs_mkdirs transaction_dir)) (\<lambda>_. ?F) ?R"
  proof (rule spec_prim)
    fix t u t' assume t: "tree_ok t" "?I t" "fs_mkdirs transaction_dir t = Inr (u, t')"
    show "tree_ok t' \<and> ?F t'" using fresh_start [OF t(2,1,3)] fs_mkdirs_laws(3) [OF t(3,1)] by blast
  qed (use I in auto)
  have v: "spec False ?F (validate_cache_relative_ancestors [] transaction_dir True) (\<lambda>_. ?F) ?R"
    by (rule check_spec [OF transaction_path(1)]) (use F in auto)
  have es: "spec False ?F (io_map (manifest_entry root) ps) (\<lambda>es t. ?F t \<and> map fst es = ps \<and> seen c es t) ?R"
    by (rule manifest_spec [OF ps F]) auto
  have rest: "spec False (\<lambda>t. ?F t \<and> map fst es = ps \<and> seen c es t)
      (io_then (write_manifest (encode es)) (io_bind (io_try (move_all root ps)) (finish_publication order decode)))
      (\<lambda>_. settled new) ?R" for es
  proof (cases "map fst es = ps")
    case True
    then have pe: "paths_ok (map fst es)" and ne: "new = overlaid (map fst es) staged old" using ps new by simp_all
    have w: "spec False (\<lambda>t. ?F t \<and> map fst es = ps \<and> seen c es t) (write_manifest (encode es))
        (\<lambda>_. backing root c (encode es) es old staged []) ?R"
      by (rule spec_conseq [OF write_manifest_spec [where decode = decode and bytes = "encode es" and c = c, OF S pe codec]])
        (use True in auto)
    have m: "spec False (backing root c (encode es) es old staged []) (io_try (move_all root ps))
        (\<lambda>r t. case r of Inl _ \<Rightarrow> ?R t | Inr _ \<Rightarrow> settled new t) ?R"
      unfolding True [symmetric]
      by (rule spec_try [OF move_all_spec [where decode = decode and bytes = "encode es", OF S pe codec ne]]) simp_all
    show ?thesis by (rule spec_then [OF w spec_bind [OF m finish_spec [OF order]]])
  qed (auto intro: spec_never)
  show "spec False (\<lambda>t. ?I t \<and> ready = True)
      (if \<not> ready then io_fail ResourceBusy
       else io_then (io_prim (fs_mkdirs transaction_dir))
         (io_then (validate_cache_relative_ancestors [] transaction_dir True)
         (io_then (validate_cache_relative_ancestors [] transaction_dir True)
         (io_bind (io_map (manifest_entry root) ps) (\<lambda>entries.
           io_then (write_manifest (encode entries))
           (io_bind (io_try (move_all root ps))
             (finish_publication order decode))))))) (\<lambda>_. settled new) ?R" for ready
    by (rule spec_if) (auto intro: spec_never spec_conseq [OF spec_then [OF mk spec_then [OF v spec_then [OF v spec_bind [OF es rest]]]]])
qed

end
