(* ===== verification/Publication_Atomic.thy ===== *)
theory Publication_Atomic
  imports Publication_Steps "HOL-Library.Code_Target_Nat"
begin

text \<open>
  What a publication and the recoveries after it promise: all of the staged paths or none, whatever operation
  fails and wherever the machine stops, and a recovery that comes to an end; and the two situations in
  which the code does not keep the promise.
\<close>

section \<open>Recoveries that are interrupted themselves\<close>

fun recover_again :: "removal_order \<Rightarrow> (string \<Rightarrow> document option) \<Rightarrow> tree \<Rightarrow> fault list list \<Rightarrow> tree" where
  "recover_again order decode t [] = t"
| "recover_again order decode t (faults # rest) =
     recover_again order decode
       (wo_tree (snd (recover_interrupted_publication order decode \<lparr>wo_tree = t, wo_faults = faults\<rparr>))) rest"

lemma specD:
  assumes "spec b P m Q R" "tree_ok t" "P t" "m \<lparr>wo_tree = t, wo_faults = fs\<rparr> = (r, w)"
  shows "tree_ok (wo_tree w)" "r = Done x \<Longrightarrow> Q x (wo_tree w)" "(\<And>x. r \<noteq> Done x) \<Longrightarrow> R (wo_tree w)"
  using assms(1) [unfolded spec_def, rule_format, of "\<lparr>wo_tree = t, wo_faults = fs\<rparr>"] assms(2-)
  by (auto split: io_outcome.splits)

lemma recover_again_consistent:
  assumes order: "valid_order order" "manifest_first order"
  shows "tree_ok t \<Longrightarrow> consistent decode c old new t \<Longrightarrow>
    tree_ok (recover_again order decode t fss) \<and> consistent decode c old new (recover_again order decode t fss)"
proof (induction fss arbitrary: t)
  case (Cons fs fss)
  obtain r w where r: "recover_interrupted_publication order decode \<lparr>wo_tree = t, wo_faults = fs\<rparr> = (r, w)" by fastforce
  note s = specD [OF recover_consistent_spec [OF order, of False c decode old new, simplified] Cons.prems r]
  have "consistent decode c old new (wo_tree w)"
  proof (cases "\<exists>x. r = Done x")
    case True
    then show ?thesis using s(2) by (auto simp: consistent_def)
  qed (use s(3) in blast)
  then show ?case using Cons.IH [OF s(1)] by (simp add: r)
qed simp

text \<open>Without faults a recovery returns \<open>True\<close>.\<close>

lemma clean_committed_calm:
  assumes order: "valid_order order" "manifest_first order"
  shows "calm (\<lambda>t. settled G t \<and> map_of t transaction_dir = Some Folder) (clean_committed order)
    (\<lambda>r t. (settled G t \<and> gone t) \<and> r = True)"
    (is "calm ?P _ ?Q")
  unfolding clean_committed_def
proof (rule calm_then)
  show "calm ?P (validate_cache_relative_ancestors [] transaction_dir True) (\<lambda>_. ?P)"
    by (rule calm_spec [where R = "\<lambda>_. True"], rule check_spec [OF transaction_path(1)]) (use transaction_path(2) in auto)
  show "calm ?P (io_bind (io_try (remove_dir_all order transaction_dir)) (\<lambda>r.
       case r of Inl _ \<Rightarrow> io_return False | Inr _ \<Rightarrow> io_then sync_cache_state (io_return True))) ?Q"
  proof (rule calm_bind)
    show "calm ?P (io_try (remove_dir_all order transaction_dir)) (\<lambda>r t. \<exists>x. r = Inr x \<and> settled G t \<and> gone t)"
      by (rule calm_conseq [OF calm_try [OF calm_spec [OF remove_settled_spec [OF order, of True G]]]]) auto
    have "calm (\<lambda>t. settled G t \<and> gone t) (io_then sync_cache_state (io_return True)) ?Q"
      by (rule calm_spec [where R = "\<lambda>_. True"], rule sync_state_spec) (auto simp: settled_def)
    then show "calm (\<lambda>t. \<exists>x. r = Inr x \<and> settled G t \<and> gone t)
       (case r of Inl _ \<Rightarrow> io_return False | Inr _ \<Rightarrow> io_then sync_cache_state (io_return True)) ?Q" for r
      by (cases r) (auto intro: calm_never)
  qed
qed

lemma recover_settled_calm:
  assumes order: "valid_order order" "manifest_first order"
  shows "calm (settled G) (recover_interrupted_publication order decode) (\<lambda>r t. (settled G t \<and> gone t) \<and> r = True)"
    (is "calm ?P _ ?Q")
  unfolding recover_interrupted_publication_def
proof (rule calm_then)
  let ?T = "\<lambda>t. settled G t \<and> map_of t transaction_dir = Some Folder"
  let ?on = "\<lambda>t. ?T t \<and> map_of t commit_path = Some (Plain commit_marker)"
  let ?off = "\<lambda>t. ?T t \<and> map_of t commit_path = None"
  let ?body = "io_bind read_commit_marker (\<lambda>k. if k then clean_committed order else roll_back order decode)"
  show "calm ?P (validate_cache_relative_ancestors [] transaction_dir True) (\<lambda>_. ?P)"
    by (rule calm_spec [where R = "\<lambda>_. True"], rule check_spec [OF transaction_path(1)]) (use transaction_path(2) in auto)
  have "calm ?on ?body ?Q"
  proof (rule calm_bind)
    show "calm ?on read_commit_marker (\<lambda>r t. ?on t \<and> r = True)"
      by (rule calm_spec [where R = "\<lambda>_. True"], rule read_marker_present) auto
    show "calm (\<lambda>t. ?on t \<and> k = True) (if k then clean_committed order else roll_back order decode) ?Q" for k
      by (cases k) (auto intro: calm_never calm_conseq [OF clean_committed_calm [OF order, of G]])
  qed
  moreover have "calm ?off ?body ?Q"
  proof (rule calm_bind)
    show "calm ?off read_commit_marker (\<lambda>r t. ?off t \<and> r = False)"
      by (rule calm_spec [where R = "\<lambda>_. True"], rule read_marker_absent) auto
    show "calm (\<lambda>t. ?off t \<and> k = False) (if k then clean_committed order else roll_back order decode) ?Q" for k
      by (cases k) (auto intro: calm_never calm_conseq [OF calm_spec [OF roll_back_settled_spec [OF order, of True G decode]]])
  qed
  ultimately have body: "calm ?T ?body ?Q" by (rule calm_conseq [OF calm_disj]) (auto simp: settled_def)
  show "calm ?P (io_bind (path_exists transaction_dir) (\<lambda>pending. if \<not> pending then io_return True else ?body)) ?Q"
  proof (rule calm_bind)
    show "calm ?P (path_exists transaction_dir) (\<lambda>r t. ?P t \<and> r = (map_of t transaction_dir \<noteq> None))"
      by (rule calm_spec [where R = "\<lambda>_. True"], rule path_exists_spec) simp
    show "calm (\<lambda>t. ?P t \<and> pending = (map_of t transaction_dir \<noteq> None)) (if \<not> pending then io_return True else ?body) ?Q" for pending
      by (cases pending) (auto intro!: calm_return gone_all intro: calm_conseq [OF body] simp: settled_def home_ok_def)
  qed
qed

lemma recover_consistent_calm:
  assumes order: "valid_order order" "manifest_first order"
  shows "calm (consistent decode True old new) (recover_interrupted_publication order decode)
    (\<lambda>r t. ((settled old t \<or> settled new t) \<and> gone t) \<and> r = True)"
    (is "calm ?P ?m ?Q")
proof -
  have roll: "calm (rolling_back True bytes es old []) ?m ?Q" if "decode bytes = Some (written es)" "paths_ok (map fst es)" for bytes es
    by (rule calm_conseq [OF calm_spec [OF recover_rolling_spec [where decode = decode and bytes = bytes and b = True and c = True,
            OF order(1) that(2,1), of old]]]) auto
  have settled: "calm (settled G) ?m ?Q" if "G = old \<or> G = new" for G
    by (rule calm_conseq [OF recover_settled_calm [OF order, of G decode]]) (use that in auto)
  show ?thesis using roll settled unfolding calm_def consistent_def by blast
qed

section \<open>All or nothing\<close>

text \<open>The cache after a publication: the staged files under the published paths, the old ones elsewhere.\<close>

definition cache_before :: "tree \<Rightarrow> path \<Rightarrow> node option" where
  "cache_before t q = file_at t q"

definition cache_after :: "path \<Rightarrow> path list \<Rightarrow> tree \<Rightarrow> path \<Rightarrow> node option" where
  "cache_after root ps t = overlaid ps (\<lambda>q. file_at t (root @ q)) (file_at t)"

lemma idle_before:
  assumes "home_ok t" "map_of t transaction_dir = None" "tree_ok t" "c \<Longrightarrow> \<forall>p \<in> set ps. map_of t (butlast p) = Some Folder"
  shows "unpublished c root ps (cache_before t) (\<lambda>q. file_at t (root @ q)) t"
proof -
  have "map_of t manifest_path = None" "map_of t commit_path = None"
    using below_absent [OF assms(3), of transaction_dir] assms(2) in_transaction
    by (auto simp: prefix_order.less_le manifest_path_def commit_path_def)
  then show ?thesis using assms by (simp add: unpublished_def settled_def shows_files_def staged_files_def cache_before_def)
qed

lemma publish_then_recover:
  assumes order: "valid_order order" "manifest_first order" and S: "staging_ok root" and ps: "paths_ok ps"
    and codec: "\<And>es. decode (encode es) = Some (written es)"
    and t: "tree_ok t" "home_ok t" "map_of t transaction_dir = None"
    and c: "c \<Longrightarrow> \<forall>p \<in> set ps. map_of t (butlast p) = Some Folder"
    and p: "publish_staged_relative_paths order encode decode root ps \<lparr>wo_tree = t, wo_faults = faults\<rparr> = (result, w)"
  shows "result = Done () \<Longrightarrow> settled (cache_after root ps t) (wo_tree w)"
    "tree_ok (recover_again order decode (wo_tree w) crashes)"
    "consistent decode c (cache_before t) (cache_after root ps t) (recover_again order decode (wo_tree w) crashes)"
proof -
  have new: "cache_after root ps t = overlaid ps (\<lambda>q. file_at t (root @ q)) (cache_before t)"
    by (simp add: cache_after_def cache_before_def [abs_def])
  note s = specD [OF publish_spec [where decode = decode and encode = encode, OF order S ps codec new]
      t(1) idle_before [OF t(2,3,1) c] p]
  show "result = Done () \<Longrightarrow> settled (cache_after root ps t) (wo_tree w)" by (rule s(2))
  have "consistent decode c (cache_before t) (cache_after root ps t) (wo_tree w)"
  proof (cases "\<exists>x. result = Done x")
    case True
    then show ?thesis using s(2) by (auto simp: consistent_def)
  qed (use s(3) in blast)
  from recover_again_consistent [OF order s(1) this]
  show "tree_ok (recover_again order decode (wo_tree w) crashes)"
    "consistent decode c (cache_before t) (cache_after root ps t) (recover_again order decode (wo_tree w) crashes)" by blast+
qed



section \<open>Orders, a manifest format and a cache\<close>

text \<open>An order that goes from the deepest entries upwards and lists one path last of its depth.\<close>

definition deepest_first :: "path \<Rightarrow> removal_order" where
  "deepest_first late t p =
     sort_key (\<lambda>x. (if x = late then 1 else 0) - 2 * int (length x)) (remdups (filter (prefix p) (map fst t)))"

lemma sorted_by_key: "sorted_wrt (\<lambda>x y. f x \<le> f y) (sort_key f xs)"
  using sorted_sort_key [of f xs] by (simp add: sorted_map)

lemma deepest_first_valid: "valid_order (deepest_first late)"
  unfolding valid_order_def
proof (intro allI conjI)
  fix t p
  show "distinct (deepest_first late t p)" by (simp add: deepest_first_def)
  show "set (deepest_first late t p) = {x. prefix p x \<and> map_of t x \<noteq> None}"
    by (auto simp: deepest_first_def map_of_eq_None_iff)
  show "sorted_wrt (\<lambda>x y. \<not> strict_prefix x y) (deepest_first late t p)"
    unfolding deepest_first_def
  proof (rule sorted_wrt_mono_rel [OF _ sorted_by_key])
    fix x y :: path
    assume "(if x = late then 1 else 0) - 2 * int (length x) \<le> (if y = late then 1 else 0) - 2 * int (length y)"
    then have "length y \<le> length x" by (auto split: if_splits)
    then show "\<not> strict_prefix x y" using prefix_length_less by force
  qed
qed

lemma marker_late: "manifest_first (deepest_first commit_path)"
  unfolding manifest_first_def deepest_first_def
  by (intro allI sorted_wrt_mono_rel [OF _ sorted_by_key]) (auto simp: commit_path_def manifest_path_def)

fun sample_component :: "string \<Rightarrow> string" where
  "sample_component [] = ''.''"
| "sample_component (c # s) = CHR ''_'' # c # sample_component s"

definition sample_entry :: "path \<times> bool \<Rightarrow> string" where
  "sample_entry e = concat (map sample_component (fst e)) @ (if snd e then ''+'' else ''-'')"

definition sample_encode :: "manifest \<Rightarrow> string" where
  "sample_encode es = concat (map sample_entry es)"

fun sample_read :: "string \<Rightarrow> string \<Rightarrow> path \<Rightarrow> manifest \<Rightarrow> manifest option" where
  "sample_read [] c p m = Some (rev m)"
| "sample_read (k # s) c p m =
     (if k = CHR ''_'' then (case s of [] \<Rightarrow> None | a # s' \<Rightarrow> sample_read s' (a # c) p m)
      else if k = CHR ''.'' then sample_read s [] (rev c # p) m
      else sample_read s [] [] ((rev p, k = CHR ''+'') # m))"

definition sample_decode :: "string \<Rightarrow> document option" where
  "sample_decode s = map_option written (sample_read s [] [] [])"

lemma sample_codec: "sample_decode (sample_encode es) = Some (written es)"
proof -
  have comp: "sample_read (sample_component x @ s) c p m = sample_read s [] ((rev c @ x) # p) m" for x s c p m
    by (induction x arbitrary: c) auto
  have path: "sample_read (concat (map sample_component q) @ s) [] p m = sample_read s [] (rev q @ p) m" for q s p m
    by (induction q arbitrary: p) (auto simp: comp)
  have entry: "sample_read (sample_entry e @ s) [] [] m = sample_read s [] [] (e # m)" for e s m
    by (cases e) (auto simp: sample_entry_def path)
  have "sample_read (concat (map sample_entry es) @ s) [] [] m = sample_read s [] [] (rev es @ m)" for s m
    by (induction es arbitrary: m) (auto simp: entry)
  from this [of "[]" "[]"] show ?thesis by (simp add: sample_decode_def sample_encode_def)
qed

definition sample_model :: path where
  "sample_model = [''qwen'', ''chat'', ''weights'']"

definition sample_added :: path where
  "sample_added = [''qwen'', ''chat'', ''tokens'']"

definition sample_staging :: path where
  "sample_staging = [''.orchion'', ''staging'', ''one'']"

definition sample_cache :: tree where
  "sample_cache =
     [([], Folder), ([''.orchion''], Folder), ([''.orchion'', ''staging''], Folder), (sample_staging, Folder),
      (sample_staging @ [''qwen''], Folder), (sample_staging @ [''qwen'', ''chat''], Folder),
      (sample_staging @ sample_model, Plain ''v2''), (sample_staging @ sample_added, Plain ''t2''),
      ([''qwen''], Folder), ([''qwen'', ''chat''], Folder), (sample_model, Plain ''v1'')]"

definition sample_publish :: "removal_order \<Rightarrow> path list \<Rightarrow> fault list \<Rightarrow> unit io_outcome \<times> world" where
  "sample_publish order ps faults =
     publish_staged_relative_paths order sample_encode sample_decode sample_staging ps
       \<lparr>wo_tree = sample_cache, wo_faults = faults\<rparr>"

definition sample_recover :: "removal_order \<Rightarrow> tree \<Rightarrow> fault list \<Rightarrow> bool io_outcome \<times> world" where
  "sample_recover order t faults = recover_interrupted_publication order sample_decode \<lparr>wo_tree = t, wo_faults = faults\<rparr>"

definition stop_after :: "nat \<Rightarrow> fault list" where
  "stop_after n = replicate n NoFault @ [Stop]"

text \<open>The conditions on a given tree, as checks of its entries.\<close>

lemma tree_ok_check: "list_all (\<lambda>(p, _). p = [] \<or> map_of t (butlast p) = Some Folder) t \<Longrightarrow> tree_ok t"
  unfolding tree_ok_def list_all_iff by (auto dest!: map_of_SomeD)

lemma clear_check:
  "list_all (\<lambda>a. a = [] \<or> a = p \<or> map_of t (base @ a) = None \<or> map_of t (base @ a) = Some Folder) (prefixes p)
    \<Longrightarrow> map_of t (base @ p) \<noteq> Some Link \<Longrightarrow> clear t base p"
  unfolding clear_def list_all_iff by (auto simp: prefix_order.less_le)

lemma sample_cache_ok: "tree_ok sample_cache" "home_ok sample_cache" "map_of sample_cache transaction_dir = None"
proof -
  show "tree_ok sample_cache" by (rule tree_ok_check) code_simp
  show "home_ok sample_cache" "map_of sample_cache transaction_dir = None" by code_simp+
qed

lemma sample_paths_ok: "paths_ok [sample_model, sample_added]" "paths_ok [[''new'', ''model'', ''weights'']]"
  by (simp_all add: paths_ok_def sample_model_def sample_added_def safe_relative_def normal_component_def reserved_names_def)

lemma sample_staging_ok: "staging_ok sample_staging"
  by (simp add: staging_ok_def in_cache_def sample_staging_def cache_state_dir_def transaction_dir_def)



section \<open>Where the promise is not kept\<close>

lemma check_runs:
  assumes "safe_relative p" "tree_ok t" "root_ok t root" "clear t root p"
  shows "validate_cache_relative_ancestors root p leaf \<lparr>wo_tree = t, wo_faults = []\<rparr> = (Done (), \<lparr>wo_tree = t, wo_faults = []\<rparr>)"
proof -
  have "spec True (\<lambda>t'. t' = t) (validate_cache_relative_ancestors root p leaf) (\<lambda>_ t'. t' = t) (\<lambda>_. True)"
    by (rule check_spec [OF assms(1)]) (use assms in auto)
  from calm_spec [OF this] show ?thesis using assms(2) by (auto simp: calm_def)
qed

text \<open>C38.  A transaction that was to add a path whose folder does not exist yet cannot be rolled back before the
  folder is made: without any fault the recovery fails, as the missing folder cannot be synced, and leaves everything as it
  is, so that it fails again for ever.  A publication of a new model that stops before it has installed the
  model's first file leaves such a state.\<close>

theorem recovery_needs_parents:
  assumes "tree_ok t" "map_of t manifest_path = Some (Plain bytes)" "map_of t commit_path = None"
    and "decode bytes = Some (written ((p, False) # es))" "safe_relative p" "clear t [] p" "clear t transaction_dir p"
    and "map_of t (butlast p) = None"
  shows "recover_interrupted_publication order decode \<lparr>wo_tree = t, wo_faults = []\<rparr>
    = (Failed NotFound, \<lparr>wo_tree = t, wo_faults = []\<rparr>)"
proof -
  have m: "map_of t manifest_path \<noteq> None" using assms(2) by simp
  have home: "map_of t [] = Some Folder" "map_of t cache_state_dir = Some Folder" "map_of t transaction_dir = Some Folder"
    by (rule above_is_folder [OF assms(1) m];
        simp add: manifest_path_def transaction_dir_def cache_state_dir_def prefix_order.less_le)+
  have "clear t [] transaction_dir"
    by (rule clear_check) (use home in \<open>simp_all add: transaction_dir_def cache_state_dir_def\<close>)
  then have 1: "validate_cache_relative_ancestors [] transaction_dir True \<lparr>wo_tree = t, wo_faults = []\<rparr> = (Done (), \<lparr>wo_tree = t, wo_faults = []\<rparr>)"
    by (intro check_runs) (use home assms(1) in \<open>auto simp: root_ok_def transaction_path(1)\<close>)
  have 2: "validate_cache_relative_ancestors [] p True \<lparr>wo_tree = t, wo_faults = []\<rparr> = (Done (), \<lparr>wo_tree = t, wo_faults = []\<rparr>)"
    "validate_cache_relative_ancestors transaction_dir p True \<lparr>wo_tree = t, wo_faults = []\<rparr> = (Done (), \<lparr>wo_tree = t, wo_faults = []\<rparr>)"
    by (rule check_runs; use home assms in \<open>simp add: root_ok_def\<close>)+
  have p: "map_of t p = None"
    using below_absent [OF assms(1), of "butlast p" p] strict_prefix_of_butlast [of p] assms(5,8) by (simp add: safe_relative_def)
  show ?thesis
    unfolding recover_interrupted_publication_def read_commit_marker_def roll_back_def
    using home p assms(2-5,8)
    by (simp add: for_written io_then_def io_bind_def 1 2 path_exists_def io_look_def fs_lstat_def fs_read_def io_return_def
        restore_entry_def validate_safe_cache_relative_path_def remove_cache_entry_def sync_directory_def io_prim_def fs_sync_def)
qed

lemma recovery_needs_parents_witness:
  "fst (sample_publish (deepest_first commit_path) [[''new'', ''model'', ''weights'']] (stop_after 25)) = Stopped
   \<and> fst (sample_recover (deepest_first commit_path)
      (wo_tree (snd (sample_publish (deepest_first commit_path) [[''new'', ''model'', ''weights'']] (stop_after 25)))) []) = Failed NotFound"
proof (intro conjI)
  let ?t = "wo_tree (snd (sample_publish (deepest_first commit_path) [[''new'', ''model'', ''weights'']] (stop_after 25)))"
  show "fst (sample_publish (deepest_first commit_path) [[''new'', ''model'', ''weights'']] (stop_after 25)) = Stopped" by code_simp
  have "recover_interrupted_publication (deepest_first commit_path) sample_decode \<lparr>wo_tree = ?t, wo_faults = []\<rparr>
    = (Failed NotFound, \<lparr>wo_tree = ?t, wo_faults = []\<rparr>)"
  proof (rule recovery_needs_parents)
    show "tree_ok ?t" by (rule tree_ok_check) code_simp
    show "map_of ?t manifest_path = Some (Plain (sample_encode [([''new'', ''model'', ''weights''], False)]))" by code_simp
    show "sample_decode (sample_encode [([''new'', ''model'', ''weights''], False)]) = Some (written [([''new'', ''model'', ''weights''], False)])"
      by (rule sample_codec)
    show "map_of ?t commit_path = None" by code_simp
    show "safe_relative [''new'', ''model'', ''weights'']" by code_simp
    show "clear ?t [] [''new'', ''model'', ''weights'']" by (rule clear_check) code_simp+
    show "clear ?t transaction_dir [''new'', ''model'', ''weights'']" by (rule clear_check) code_simp+
    show "map_of ?t (butlast [''new'', ''model'', ''weights'']) = None" by code_simp
  qed
  then show "fst (sample_recover (deepest_first commit_path) ?t []) = Failed NotFound" by (simp add: sample_recover_def)
qed

text \<open>C39.  Nothing makes the system remove the manifest before the marker.  With an order that removes the marker
  first, a stop during the clean-up of a committed publication leaves a transaction that the next recovery
  rolls back: of two published files it keeps the replaced one and deletes the added one, and returns \<^verbatim>\<open>true\<close>.\<close>

theorem cleanup_breaks_atomicity:
  "valid_order (deepest_first manifest_path)
   \<and> (let t = wo_tree (snd (sample_recover (deepest_first manifest_path)
        (wo_tree (snd (sample_publish (deepest_first manifest_path) [sample_model, sample_added] (stop_after 109)))) [])) in
      fst (sample_recover (deepest_first manifest_path)
        (wo_tree (snd (sample_publish (deepest_first manifest_path) [sample_model, sample_added] (stop_after 109)))) []) = Done True
      \<and> map_of (wo_tree (snd (sample_publish (deepest_first manifest_path) [sample_model, sample_added] (stop_after 105)))) commit_path
          = Some (Plain commit_marker)
      \<and> \<not> shows_files (cache_before sample_cache) t
      \<and> \<not> shows_files (cache_after sample_staging [sample_model, sample_added] sample_cache) t)"
proof -
  let ?t = "wo_tree (snd (sample_recover (deepest_first manifest_path)
        (wo_tree (snd (sample_publish (deepest_first manifest_path) [sample_model, sample_added] (stop_after 109)))) []))"
  have v: "in_cache sample_model" "in_cache sample_added"
    by (simp_all add: in_cache_def sample_model_def sample_added_def cache_state_dir_def)
  have at: "file_at ?t sample_model = Some (Plain ''v2'')" "file_at ?t sample_added = None" by code_simp+
  have "cache_before sample_cache sample_model = Some (Plain ''v1'')" by code_simp
  then have 1: "\<not> shows_files (cache_before sample_cache) ?t" using v(1) at(1) by (auto simp: shows_files_def)
  have "cache_after sample_staging [sample_model, sample_added] sample_cache sample_added = Some (Plain ''t2'')" by code_simp
  then have 2: "\<not> shows_files (cache_after sample_staging [sample_model, sample_added] sample_cache) ?t"
    using v(2) at(2) by (auto simp: shows_files_def)
  have 3: "fst (sample_recover (deepest_first manifest_path)
        (wo_tree (snd (sample_publish (deepest_first manifest_path) [sample_model, sample_added] (stop_after 109)))) []) = Done True"
    by code_simp
  have 4: "map_of (wo_tree (snd (sample_publish (deepest_first manifest_path) [sample_model, sample_added] (stop_after 105)))) commit_path
      = Some (Plain commit_marker)" by code_simp
  show ?thesis using deepest_first_valid 1 2 3 4 by (simp add: Let_def)
qed

end
