(* ===== verification/Repository_Publication.thy ===== *)
theory Repository_Publication
  imports Publication_Atomic Model_Id "HOL-Library.List_Lexorder" "HOL-Library.Char_ord"
begin

text \<open>
  The publication of whole repositories, \<^verbatim>\<open>orchion-download/src/lib.rs\<close>: the check of a repository's name, the
  collection of the files staged for it, and \<^verbatim>\<open>publish_staged_repositories\<close>.  The order in which the system
  lists a folder is a parameter.
\<close>

section \<open>Names\<close>

definition to_ascii_lowercase :: "string \<Rightarrow> string" where
  "to_ascii_lowercase s = map (\<lambda>c. if is_ascii_uppercase c then char_of (of_char c + 32 :: nat) else c) s"

definition is_reserved_cache_namespace :: "string \<Rightarrow> bool" where
  "is_reserved_cache_namespace segment \<longleftrightarrow>
     (let s = to_ascii_lowercase segment in s = ''.orchion'' \<or> prefix ''.orchion-'' s)"

definition validate_repo_id :: "string \<Rightarrow> bool" where
  "validate_repo_id repo \<longleftrightarrow>
     (case parse_model_id repo of
        Inl _ \<Rightarrow> False
      | Inr _ \<Rightarrow> \<not> is_reserved_cache_namespace (hd (split_on CHR ''/'' repo)))"

section \<open>Collection\<close>

text \<open>\<^verbatim>\<open>read_dir\<close>: the names of the entries of a folder, in some order.\<close>

type_synonym listing = "tree \<Rightarrow> path \<Rightarrow> string list"

definition fs_read_dir :: "listing \<Rightarrow> path \<Rightarrow> tree \<Rightarrow> io_error + string list \<times> tree" where
  "fs_read_dir listing d t =
     (case map_of t d of
        None \<Rightarrow> Inl NotFound
      | Some Folder \<Rightarrow> Inr (listing t d, t)
      | Some _ \<Rightarrow> Inl NotADirectory)"

fun io_fold :: "('x \<Rightarrow> 'a \<Rightarrow> 'a io) \<Rightarrow> 'x list \<Rightarrow> 'a \<Rightarrow> 'a io" where
  "io_fold f [] a = io_return a"
| "io_fold f (x # xs) a = io_bind (f x a) (io_fold f xs)"

text \<open>The recursion into folders; the number is a bound on its depth.\<close>

fun collect_files :: "nat \<Rightarrow> listing \<Rightarrow> path \<Rightarrow> path \<Rightarrow> path list \<Rightarrow> path list io" where
  "collect_files 0 listing root d files = io_fail OtherError"
| "collect_files (Suc n) listing root d files =
     io_bind (io_look (fs_lstat d)) (\<lambda>m.
       case m of
         None \<Rightarrow> io_fail NotFound
       | Some Folder \<Rightarrow>
           io_bind (io_look (fs_read_dir listing d)) (\<lambda>names.
             io_fold (\<lambda>name files.
               io_bind (io_look (fs_lstat (d @ [name]))) (\<lambda>m.
                 case m of
                   None \<Rightarrow> io_fail NotFound
                 | Some Link \<Rightarrow> io_fail InvalidData
                 | Some Folder \<Rightarrow> collect_files n listing root (d @ [name]) files
                 | Some (Plain _) \<Rightarrow> io_return (files @ [drop (length root) (d @ [name])]))) names files)
       | Some _ \<Rightarrow> io_fail InvalidData)"

definition depth_bound :: "tree \<Rightarrow> nat" where
  "depth_bound t = Suc (Suc (sum_list (map (\<lambda>(p, _). length p) t)))"

definition collect_staged_publication_files :: "listing \<Rightarrow> path \<Rightarrow> path \<Rightarrow> path list \<Rightarrow> path list io" where
  "collect_staged_publication_files listing root d files w =
     collect_files (depth_bound (wo_tree w)) listing root d files w"

definition collect_repositories :: "listing \<Rightarrow> path \<Rightarrow> string list \<Rightarrow> path list io" where
  "collect_repositories listing root repos =
     io_bind (io_fold (\<lambda>repo files.
         if \<not> validate_repo_id repo then io_fail OtherError
         else let relative = split_on CHR ''/'' repo in
           io_then (validate_cache_relative_ancestors root relative True)
             (collect_staged_publication_files listing root (root @ relative) files)) repos [])
       (\<lambda>files. io_return (remdups_adj (sort files)))"

definition publish_staged_repositories ::
  "removal_order \<Rightarrow> listing \<Rightarrow> (manifest \<Rightarrow> string) \<Rightarrow> (string \<Rightarrow> document option) \<Rightarrow> path \<Rightarrow> string list \<Rightarrow> unit io" where
  "publish_staged_repositories order listing encode decode root repos =
     io_bind (collect_repositories listing root repos)
       (publish_staged_relative_paths order encode decode root)"

section \<open>The collected paths\<close>

lemma spec_eq: "spec b P m Q R \<Longrightarrow> (\<And>w. P (wo_tree w) \<Longrightarrow> n w = m w) \<Longrightarrow> spec b P n Q R"
  unfolding spec_def by metis

lemma sorted_dedup_distinct: "sorted xs \<Longrightarrow> distinct (remdups_adj xs)"
  by (induction xs rule: remdups_adj.induct) (auto simp: less_le)

lemma fold_spec:
  assumes "\<And>x a. x \<in> set xs \<Longrightarrow> I a \<Longrightarrow> spec b P (f x a) (\<lambda>a' t. P t \<and> I a') R" "I a"
  shows "spec b P (io_fold f xs a) (\<lambda>a' t. P t \<and> I a') R"
  using assms
proof (induction xs arbitrary: a)
  case Nil
  then show ?case unfolding io_fold.simps by (intro spec_return) simp
next
  case (Cons x xs)
  have "spec b P (f x a) (\<lambda>a' t. P t \<and> I a') R" using Cons.prems by simp
  then show ?case
    unfolding io_fold.simps
  proof (rule spec_bind)
    fix a'
    show "spec b (\<lambda>t. P t \<and> I a') (io_fold f xs a') (\<lambda>a' t. P t \<and> I a') R"
    proof (cases "I a'")
      case True
      have "spec b P (io_fold f xs a') (\<lambda>a' t. P t \<and> I a') R" by (rule Cons.IH) (use Cons.prems(1) True in auto)
      then show ?thesis using True by simp
    qed (auto intro: spec_never)
  qed
qed

text \<open>Staged files of a tree, below a folder that starts a repository.\<close>

definition staged_file :: "tree \<Rightarrow> path \<Rightarrow> path \<Rightarrow> path \<Rightarrow> bool" where
  "staged_file t root base q \<longleftrightarrow> strict_prefix base q \<and> (\<exists>contents. map_of t (root @ q) = Some (Plain contents))"

lemma collect_spec:
  assumes R: "R t0" and "d = root @ rel" "prefix base rel" "\<forall>q \<in> set files. G q"
    and G: "\<And>q. staged_file t0 root base q \<Longrightarrow> G q"
  shows "spec False (\<lambda>t. t = t0) (collect_files n listing root d files) (\<lambda>r t. t = t0 \<and> (\<forall>q \<in> set r. G q)) R"
  using assms(2-4)
proof (induction n arbitrary: d rel files)
  case 0
  then show ?case using R by (auto intro!: spec_fail)
next
  case (Suc n)
  define body where "body name files = io_bind (io_look (fs_lstat (d @ [name]))) (\<lambda>m.
      case m of
        None \<Rightarrow> io_fail NotFound
      | Some Link \<Rightarrow> io_fail InvalidData
      | Some Folder \<Rightarrow> collect_files n listing root (d @ [name]) files
      | Some (Plain _) \<Rightarrow> io_return (files @ [drop (length root) (d @ [name])]))" for name files
  have one: "spec False (\<lambda>t. t = t0) (body name files) (\<lambda>r t. t = t0 \<and> (\<forall>q \<in> set r. G q)) R"
    if f: "\<forall>q \<in> set files. G q" for name files
    unfolding body_def
  proof (rule spec_bind)
    show "spec False (\<lambda>t. t = t0) (io_look (fs_lstat (d @ [name]))) (\<lambda>m t. t = t0 \<and> m = map_of t0 (d @ [name])) R"
      by (rule spec_conseq [OF lstat_spec [where R = R]]) (use R in auto)
    fix m
    have p: "prefix base (rel @ [name])" and s: "strict_prefix base (rel @ [name])"
      using Suc.prems(2) by (auto simp: prefix_order.less_le)
    have rec: "spec False (\<lambda>t. t = t0) (collect_files n listing root (d @ [name]) files) (\<lambda>r t. t = t0 \<and> (\<forall>q \<in> set r. G q)) R"
      using Suc.IH [of "d @ [name]" "rel @ [name]" files] Suc.prems(1) p f by simp
    have plain: "G (rel @ [name])" if "map_of t0 (d @ [name]) = Some (Plain c)" for c
      by (rule G) (use that Suc.prems(1) s in \<open>auto simp: staged_file_def\<close>)
    show "spec False (\<lambda>t. t = t0 \<and> m = map_of t0 (d @ [name])) (case m of
        None \<Rightarrow> io_fail NotFound
      | Some Link \<Rightarrow> io_fail InvalidData
      | Some Folder \<Rightarrow> collect_files n listing root (d @ [name]) files
      | Some (Plain _) \<Rightarrow> io_return (files @ [drop (length root) (d @ [name])])) (\<lambda>r t. t = t0 \<and> (\<forall>q \<in> set r. G q)) R"
    proof (cases m)
      case None
      then show ?thesis using R by (auto intro: spec_fail)
    next
      case (Some k)
      have rel: "drop (length root) (d @ [name]) = rel @ [name]" using Suc.prems(1) by simp
      show ?thesis
      proof (cases k)
        case Folder
        then show ?thesis using Some by simp (rule spec_conseq [OF rec], auto)
      next
        case (Plain c)
        have "spec False (\<lambda>t. t = t0 \<and> m = map_of t0 (d @ [name])) (io_return (files @ [rel @ [name]]))
            (\<lambda>r t. t = t0 \<and> (\<forall>q \<in> set r. G q)) R"
          by (rule spec_return) (use f plain [of c] Some Plain in \<open>simp add: eq_commute [of "Some (Plain c)"]\<close>)
        then show ?thesis unfolding Some Plain option.case node.case rel .
      qed (use R Some in \<open>auto intro: spec_fail\<close>)
    qed
  qed
  have fold: "spec False (\<lambda>t. t = t0) (io_fold body names files) (\<lambda>r t. t = t0 \<and> (\<forall>q \<in> set r. G q)) R" for names
    by (rule fold_spec [where I = "\<lambda>r. \<forall>q \<in> set r. G q", OF one]) (use Suc.prems(3) in auto)
  show ?case
    unfolding collect_files.simps body_def [symmetric]
  proof (rule spec_bind)
    show "spec False (\<lambda>t. t = t0) (io_look (fs_lstat d)) (\<lambda>_ t. t = t0) R"
      by (rule spec_conseq [OF lstat_spec [where R = R]]) (use R in auto)
    fix m
    have read: "spec False (\<lambda>t. t = t0) (io_look (fs_read_dir listing d)) (\<lambda>_ t. t = t0) R"
      by (rule spec_look) (use R in \<open>auto simp: fs_read_dir_def split: option.splits node.splits\<close>)
    show "spec False (\<lambda>t. t = t0) (case m of
         None \<Rightarrow> io_fail NotFound
       | Some Folder \<Rightarrow> io_bind (io_look (fs_read_dir listing d)) (\<lambda>names. io_fold body names files)
       | Some _ \<Rightarrow> io_fail InvalidData) (\<lambda>r t. t = t0 \<and> (\<forall>q \<in> set r. G q)) R"
      using R spec_bind [OF read fold] by (auto intro: spec_fail split: option.split node.split)
  qed
qed

text \<open>The path of a valid repository.\<close>

lemma valid_repo:
  assumes "validate_repo_id repo"
  shows "safe_relative (split_on CHR ''/'' repo)" "hd (split_on CHR ''/'' repo) \<noteq> ''.orchion''"
proof -
  have m: "\<exists>mid. parse_model_id repo = Inr mid" "\<not> is_reserved_cache_namespace (hd (split_on CHR ''/'' repo))"
    using assms unfolding validate_repo_id_def by (cases "parse_model_id repo"; simp)+
  then obtain v n where "repo = v @ CHR ''/'' # n" and v: "valid_segment v" "valid_segment n"
    unfolding parse_model_id_iff by blast
  then have "split_on CHR ''/'' repo = [v, n]"
    using split_on_append valid_segment_no_slash split_on_sep_free by metis
  then show "safe_relative (split_on CHR ''/'' repo)"
    using valid_segment_no_slash [OF v(1)] valid_segment_no_slash [OF v(2)] v
    by (auto simp: safe_relative_def normal_component_def valid_segment_def)
  have r: "is_reserved_cache_namespace ''.orchion''"
    by (simp add: is_reserved_cache_namespace_def to_ascii_lowercase_def is_ascii_uppercase_def)
  show "hd (split_on CHR ''/'' repo) \<noteq> ''.orchion''"
  proof
    assume "hd (split_on CHR ''/'' repo) = ''.orchion''"
    then have "is_reserved_cache_namespace (hd (split_on CHR ''/'' repo))" using r by (rule ssubst)
    then show False using m(2) by blast
  qed
qed

text \<open>Every file below the staging folder of the repositories, each once.\<close>

definition collected :: "tree \<Rightarrow> path \<Rightarrow> string list \<Rightarrow> path \<Rightarrow> bool" where
  "collected t root repos q \<longleftrightarrow>
     (\<exists>repo \<in> set repos. validate_repo_id repo \<and> staged_file t root (split_on CHR ''/'' repo) q)"

lemma collect_repositories_spec:
  assumes R: "R t0"
  shows "spec False (\<lambda>t. t = t0) (collect_repositories listing root repos)
    (\<lambda>ps t. t = t0 \<and> sorted ps \<and> distinct ps \<and> (\<forall>q \<in> set ps. collected t0 root repos q)) R"
proof -
  let ?G = "collected t0 root repos"
  define step where "step repo files =
      (if \<not> validate_repo_id repo then io_fail OtherError
       else let relative = split_on CHR ''/'' repo in
         io_then (validate_cache_relative_ancestors root relative True)
           (collect_staged_publication_files listing root (root @ relative) files))" for repo files
  have one: "spec False (\<lambda>t. t = t0) (step repo files) (\<lambda>r t. t = t0 \<and> (\<forall>q \<in> set r. ?G q)) R"
    if repo: "repo \<in> set repos" and f: "\<forall>q \<in> set files. ?G q" for repo files
    unfolding step_def Let_def
  proof (rule spec_if)
    assume "\<not> validate_repo_id repo"
    then show "spec False (\<lambda>t. t = t0) (io_fail OtherError) (\<lambda>r t. t = t0 \<and> (\<forall>q \<in> set r. ?G q)) R"
      using R by (auto intro: spec_fail)
  next
    assume v: "\<not> \<not> validate_repo_id repo"
    have "spec False (\<lambda>t. t = t0) (collect_files (depth_bound t0) listing root (root @ split_on CHR ''/'' repo) files)
        (\<lambda>r t. t = t0 \<and> (\<forall>q \<in> set r. ?G q)) R"
      by (rule collect_spec [where R = R and rel = "split_on CHR ''/'' repo" and base = "split_on CHR ''/'' repo"])
        (use R f v repo in \<open>auto simp: collected_def\<close>)
    then have c: "spec False (\<lambda>t. t = t0) (collect_staged_publication_files listing root (root @ split_on CHR ''/'' repo) files)
        (\<lambda>r t. t = t0 \<and> (\<forall>q \<in> set r. ?G q)) R"
      by (rule spec_eq) (simp add: collect_staged_publication_files_def)
    have "spec False (\<lambda>t. t = t0) (validate_cache_relative_ancestors root (split_on CHR ''/'' repo) True) (\<lambda>_ t. t = t0) R"
      by (rule check_spec [OF valid_repo(1)]) (use v R in auto)
    then show "spec False (\<lambda>t. t = t0) (io_then (validate_cache_relative_ancestors root (split_on CHR ''/'' repo) True)
        (collect_staged_publication_files listing root (root @ split_on CHR ''/'' repo) files))
        (\<lambda>r t. t = t0 \<and> (\<forall>q \<in> set r. ?G q)) R"
      by (rule spec_then [OF _ c])
  qed
  have "spec False (\<lambda>t. t = t0) (io_fold step repos []) (\<lambda>r t. t = t0 \<and> (\<forall>q \<in> set r. ?G q)) R"
    by (rule fold_spec [where I = "\<lambda>r. \<forall>q \<in> set r. ?G q", OF one]) auto
  then have "spec False (\<lambda>t. t = t0) (io_bind (io_fold step repos []) (\<lambda>files. io_return (remdups_adj (sort files))))
     (\<lambda>ps t. t = t0 \<and> sorted ps \<and> distinct ps \<and> (\<forall>q \<in> set ps. ?G q)) R"
    by (rule spec_bind) (rule spec_return, auto simp: sorted_dedup_distinct)
  then show ?thesis unfolding collect_repositories_def step_def [abs_def] .
qed

text \<open>No name in a real tree is empty, a separator, or a reference to the folder itself or its parent.\<close>

definition names_ok :: "tree \<Rightarrow> bool" where
  "names_ok t \<longleftrightarrow> list_all (\<lambda>(p, _). list_all normal_component p) t"

lemma collected_path:
  assumes "tree_ok t" "names_ok t" "collected t root repos q"
    and v: "\<And>repo. repo \<in> set repos \<Longrightarrow> hd (split_on CHR ''/'' repo) \<notin> set reserved_names"
  shows "safe_relative q" "hd q \<noteq> ''.orchion''" "hd q \<notin> set reserved_names" "\<exists>c. map_of t (root @ q) = Some (Plain c)"
proof -
  obtain repo where repo: "repo \<in> set repos" "validate_repo_id repo" and s: "staged_file t root (split_on CHR ''/'' repo) q"
    using assms(3) by (auto simp: collected_def)
  note vr = valid_repo [OF repo(2)]
  have hd: "hd q = hd (split_on CHR ''/'' repo)" and ne: "q \<noteq> []"
    using s by (auto simp: staged_file_def strict_prefix_def prefix_def)
  show plain: "\<exists>c. map_of t (root @ q) = Some (Plain c)" using s by (simp add: staged_file_def)
  then have "list_all normal_component (root @ q)"
    using assms(2) map_of_SomeD unfolding names_ok_def list_all_iff by fastforce
  then show "safe_relative q" using ne by (simp add: safe_relative_def)
  show "hd q \<noteq> ''.orchion''" "hd q \<notin> set reserved_names" using vr(2) v [OF repo(1)] hd by simp_all
qed

text \<open>C36.  The files collected for a publication of repositories come sorted, each once, and are paths that can be
  published together: safe, none inside another, none in the state folder or where its backup would take the
  place of the manifest or the marker, as long as no vendor has one of those names; the collection changes
  nothing, whatever fails.\<close>

theorem collected_paths_are_publishable:
  assumes "tree_ok t" "names_ok t"
    and "\<And>repo. repo \<in> set repos \<Longrightarrow> hd (split_on CHR ''/'' repo) \<notin> set reserved_names"
    and "collect_repositories listing root repos \<lparr>wo_tree = t, wo_faults = faults\<rparr> = (outcome, w)"
  shows "wo_tree w = t \<and> (\<forall>ps. outcome = Done ps \<longrightarrow> sorted ps \<and> paths_ok ps)"
proof -
  have t: "t = t" ..
  note s = specD [OF collect_repositories_spec [where R = "\<lambda>t'. t' = t", OF refl] assms(1) t assms(4)]
  have "wo_tree w = t" using s(2,3) by (cases "\<exists>ps. outcome = Done ps") blast+
  moreover have "sorted ps \<and> paths_ok ps" if "outcome = Done ps" for ps
  proof -
    have c: "sorted ps" "distinct ps" "\<And>q. q \<in> set ps \<Longrightarrow> collected t root repos q" using s(2) [OF that] by auto
    note cp = collected_path [OF assms(1,2) c(3) assms(3)]
    have "p = q" if pq: "p \<in> set ps" "q \<in> set ps" "prefix p q" for p q
    proof (rule ccontr)
      assume "p \<noteq> q"
      then have "strict_prefix (root @ p) (root @ q)" using pq(3) by (auto simp: prefix_order.less_le)
      moreover have "map_of t (root @ p) \<noteq> Some Folder" using cp(4) [OF pq(1)] by auto
      ultimately show False using below_absent [OF assms(1)] cp(4) [OF pq(2)] by fastforce
    qed
    then show ?thesis using c(1,2) cp(1-3) by (auto simp: paths_ok_def)
  qed
  ultimately show ?thesis by blast
qed

section \<open>Every staged file\<close>

text \<open>A listing that names the entries of a folder, all of them, and a folder in which there are no links.\<close>

definition listing_ok :: "listing \<Rightarrow> tree \<Rightarrow> bool" where
  "listing_ok listing t \<longleftrightarrow>
     (\<forall>d. map_of t d = Some Folder \<longrightarrow> (\<forall>name. name \<in> set (listing t d) \<longleftrightarrow> map_of t (d @ [name]) \<noteq> None))"

definition linkless :: "tree \<Rightarrow> path \<Rightarrow> bool" where
  "linkless t d \<longleftrightarrow> map_of t d = Some Folder \<and> (\<forall>p. map_of t (d @ p) \<noteq> Some Link)"

definition files_below :: "tree \<Rightarrow> path \<Rightarrow> path \<Rightarrow> path set" where
  "files_below t root d = {drop (length root) (d @ p) |p. p \<noteq> [] \<and> (\<exists>contents. map_of t (d @ p) = Some (Plain contents))}"

lemma fold_runs:
  assumes "\<And>x a. x \<in> set xs \<Longrightarrow> \<exists>a'. f x a w = (Done a', w) \<and> set a' = set a \<union> S x"
  shows "\<exists>a'. io_fold f xs a w = (Done a', w) \<and> set a' = set a \<union> (\<Union>x \<in> set xs. S x)"
  using assms
proof (induction xs arbitrary: a)
  case (Cons x xs)
  obtain a1 where a1: "f x a w = (Done a1, w)" "set a1 = set a \<union> S x" using Cons.prems by fastforce
  obtain a2 where "io_fold f xs a1 w = (Done a2, w)" "set a2 = set a1 \<union> (\<Union>x \<in> set xs. S x)"
    using Cons.IH [of a1] Cons.prems by fastforce
  then show ?case using a1 by (auto simp: io_bind_def)
qed (simp add: io_return_def)

lemma files_below_split:
  assumes "tree_ok t" "linkless t d" "listing_ok listing t"
  shows "files_below t root d = (\<Union>name \<in> set (listing t d).
    if map_of t (d @ [name]) = Some Folder then files_below t root (d @ [name]) else {drop (length root) (d @ [name])})"
    (is "?L = ?R")
proof
  have names: "name \<in> set (listing t d) \<longleftrightarrow> map_of t (d @ [name]) \<noteq> None" for name
    using assms(2,3) by (auto simp: listing_ok_def linkless_def)
  show "?L \<subseteq> ?R"
  proof
    fix q assume "q \<in> ?L"
    then obtain name p c where q: "q = drop (length root) (d @ name # p)" "map_of t (d @ name # p) = Some (Plain c)"
      unfolding files_below_def by (auto simp: neq_Nil_conv)
    have n: "name \<in> set (listing t d)" and f: "p \<noteq> [] \<Longrightarrow> map_of t (d @ [name]) = Some Folder"
    proof -
      have "strict_prefix (d @ [name]) (d @ name # p)" if "p \<noteq> []" using that by (auto simp: strict_prefix_def prefix_def)
      then show f: "p \<noteq> [] \<Longrightarrow> map_of t (d @ [name]) = Some Folder" using above_is_folder [OF assms(1)] q(2) by fastforce
      show "name \<in> set (listing t d)" using q(2) f by (cases "p = []") (auto simp: names)
    qed
    have "q \<in> (if map_of t (d @ [name]) = Some Folder then files_below t root (d @ [name]) else {drop (length root) (d @ [name])})"
      using q f by (cases "p = []") (auto simp: files_below_def intro!: exI [of _ p])
    then show "q \<in> ?R" using n by blast
  qed
  show "?R \<subseteq> ?L"
  proof
    fix q assume "q \<in> ?R"
    then obtain name where n: "name \<in> set (listing t d)"
      and q: "q \<in> (if map_of t (d @ [name]) = Some Folder then files_below t root (d @ [name]) else {drop (length root) (d @ [name])})"
      by blast
    show "q \<in> ?L"
    proof (cases "map_of t (d @ [name]) = Some Folder")
      case True
      then obtain p c where "q = drop (length root) (d @ name # p)" "map_of t (d @ name # p) = Some (Plain c)"
        using q by (auto simp: files_below_def)
      then show ?thesis unfolding files_below_def by (intro CollectI exI [of _ "name # p"]) simp
    next
      case False
      obtain k where k: "map_of t (d @ [name]) = Some k" using n names by auto
      moreover have "k \<noteq> Link" using assms(2) k by (auto simp: linkless_def)
      ultimately obtain c where "map_of t (d @ [name]) = Some (Plain c)" using False by (cases k) auto
      then show ?thesis using q False unfolding files_below_def by (intro CollectI exI [of _ "[name]"]) simp
    qed
  qed
qed

text \<open>With enough fuel for the depth of the folder, the collection finds exactly the files.\<close>

lemma collect_files_all:
  assumes t: "tree_ok t" and l: "listing_ok listing t"
  shows "linkless t d \<Longrightarrow> (\<And>p. map_of t (d @ p) \<noteq> None \<Longrightarrow> length p < n) \<Longrightarrow>
    \<exists>r. collect_files n listing root d files \<lparr>wo_tree = t, wo_faults = []\<rparr> = (Done r, \<lparr>wo_tree = t, wo_faults = []\<rparr>)
      \<and> set r = set files \<union> files_below t root d"
proof (induction n arbitrary: d files)
  case 0
  have "map_of t (d @ []) \<noteq> None" using 0(1) by (simp add: linkless_def)
  from 0(2) [OF this] show ?case by simp
next
  case (Suc n)
  let ?w = "\<lparr>wo_tree = t, wo_faults = []\<rparr>"
  let ?S = "\<lambda>name. if map_of t (d @ [name]) = Some Folder then files_below t root (d @ [name]) else {drop (length root) (d @ [name])}"
  define body where "body name files = io_bind (io_look (fs_lstat (d @ [name]))) (\<lambda>m.
      case m of
        None \<Rightarrow> io_fail NotFound
      | Some Link \<Rightarrow> io_fail InvalidData
      | Some Folder \<Rightarrow> collect_files n listing root (d @ [name]) files
      | Some (Plain _) \<Rightarrow> io_return (files @ [drop (length root) (d @ [name])]))" for name files
  have one: "\<exists>a'. body name a ?w = (Done a', ?w) \<and> set a' = set a \<union> ?S name" if "name \<in> set (listing t d)" for name a
  proof -
    have "map_of t (d @ [name]) \<noteq> None" using that l Suc.prems(1) unfolding listing_ok_def linkless_def by blast
    then obtain k where k: "map_of t (d @ [name]) = Some k" by blast
    have b: "body name a ?w = (case k of
        Link \<Rightarrow> io_fail InvalidData
      | Folder \<Rightarrow> collect_files n listing root (d @ [name]) a
      | Plain _ \<Rightarrow> io_return (a @ [drop (length root) (d @ [name])])) ?w"
      unfolding body_def io_bind_def by (cases k) (simp_all add: io_look_def fs_lstat_def k)
    show ?thesis
    proof (cases k)
      case Folder
      have "linkless t (d @ [name])" using Suc.prems(1) k Folder by (simp add: linkless_def)
      moreover have "length p < n" if "map_of t ((d @ [name]) @ p) \<noteq> None" for p
        using Suc.prems(2) [of "name # p"] that by simp
      ultimately show ?thesis using Suc.IH [of "d @ [name]" a] b k Folder by simp
    qed (use Suc.prems(1) k b in \<open>auto simp: linkless_def io_return_def\<close>)
  qed
  have "collect_files (Suc n) listing root d files ?w = io_fold body (listing t d) files ?w"
    using Suc.prems(1) unfolding collect_files.simps body_def [symmetric]
    by (simp add: io_bind_def io_look_def fs_lstat_def fs_read_dir_def linkless_def)
  then show ?case
    using fold_runs [of "listing t d" body ?w ?S files, OF one] files_below_split [OF t Suc.prems(1) l] by simp
qed

lemma depth_bound_enough: "map_of t (d @ p) \<noteq> None \<Longrightarrow> length p < depth_bound t"
proof -
  assume "map_of t (d @ p) \<noteq> None"
  then obtain k where "(d @ p, k) \<in> set t" by (auto dest: map_of_SomeD)
  then have "length (d @ p) \<in> set (map (\<lambda>(p, _). length p) t)" by force
  then have "length (d @ p) \<le> sum_list (map (\<lambda>(p, _). length p) t)" by (rule member_le_sum_list) simp
  then show ?thesis by (simp add: depth_bound_def)
qed

text \<open>C37.  Without faults the collection for a publication finds every staged file: when the staging folder of each
  repository is there and holds no links, whatever the order in which the system lists folders and however deep they
  are, the collected paths are exactly the files below these folders.\<close>

theorem collection_is_complete:
  assumes "tree_ok t" "listing_ok listing t" "root_ok t root"
    and "\<And>repo. repo \<in> set repos \<Longrightarrow> validate_repo_id repo \<and> clear t root (split_on CHR ''/'' repo) \<and> linkless t (root @ split_on CHR ''/'' repo)"
  shows "\<exists>ps. collect_repositories listing root repos \<lparr>wo_tree = t, wo_faults = []\<rparr> = (Done ps, \<lparr>wo_tree = t, wo_faults = []\<rparr>)
    \<and> set ps = {q. collected t root repos q}"
proof -
  let ?w = "\<lparr>wo_tree = t, wo_faults = []\<rparr>"
  let ?S = "\<lambda>repo. files_below t root (root @ split_on CHR ''/'' repo)"
  define step where "step repo files =
      (if \<not> validate_repo_id repo then io_fail OtherError
       else let relative = split_on CHR ''/'' repo in
         io_then (validate_cache_relative_ancestors root relative True)
           (collect_staged_publication_files listing root (root @ relative) files))" for repo files
  have "\<exists>a'. step repo a ?w = (Done a', ?w) \<and> set a' = set a \<union> ?S repo" if "repo \<in> set repos" for repo a
  proof -
    note r = assms(4) [OF that]
    have "step repo a ?w = collect_files (depth_bound t) listing root (root @ split_on CHR ''/'' repo) a ?w"
      using r check_runs [OF valid_repo(1) assms(1,3)]
      by (simp add: step_def io_then_def io_bind_def Let_def collect_staged_publication_files_def)
    moreover have "\<exists>r'. collect_files (depth_bound t) listing root (root @ split_on CHR ''/'' repo) a ?w = (Done r', ?w)
      \<and> set r' = set a \<union> ?S repo"
      by (rule collect_files_all [OF assms(1,2)]) (use r depth_bound_enough in blast)+
    ultimately show ?thesis by simp
  qed
  from fold_runs [of repos step ?w ?S "[]", OF this] obtain files where
    f: "io_fold step repos [] ?w = (Done files, ?w)" "set files = (\<Union>repo \<in> set repos. ?S repo)" by auto
  have "?S repo = {q. staged_file t root (split_on CHR ''/'' repo) q}" for repo
    by (auto simp: files_below_def staged_file_def strict_prefix_def prefix_def)
  then have "set files = {q. collected t root repos q}" using f(2) assms(4) by (auto simp: collected_def)
  then show ?thesis
    using f(1) unfolding collect_repositories_def step_def [abs_def]
    by (simp add: io_bind_def io_return_def)
qed

text \<open>An order to list folders in, and the sample cache with a repository of the vendor \<open>committed\<close>.\<close>

definition sample_listing :: listing where
  "sample_listing t d = map last (filter (\<lambda>p. p \<noteq> [] \<and> butlast p = d) (remdups (map fst t)))"

lemma collected_paths_are_publishable_witness:
  "fst (collect_repositories sample_listing sample_staging [''qwen/chat''] \<lparr>wo_tree = sample_cache, wo_faults = []\<rparr>)
     = Done [sample_added, sample_model]
   \<and> paths_ok [sample_added, sample_model]"
proof -
  have 1: "fst (collect_repositories sample_listing sample_staging [''qwen/chat''] \<lparr>wo_tree = sample_cache, wo_faults = []\<rparr>)
     = Done [sample_added, sample_model]" by code_simp
  have 2: "names_ok sample_cache" by code_simp
  have 3: "hd (split_on CHR ''/'' repo) \<notin> set reserved_names" if "repo \<in> set [''qwen/chat'']" for repo
    using that by (simp add: reserved_names_def)
  show ?thesis
    using collected_paths_are_publishable [OF sample_cache_ok(1) 2 3 prod.collapse [symmetric]] 1 by blast
qed

lemma sample_listing_ok: "listing_ok sample_listing t"
proof -
  have "name \<in> set (sample_listing t d) \<longleftrightarrow> map_of t (d @ [name]) \<noteq> None" for d name
  proof -
    have "name \<in> set (sample_listing t d) \<longleftrightarrow> d @ [name] \<in> fst ` set t"
      unfolding sample_listing_def by (force simp: image_iff snoc_eq_iff_butlast)
    then show ?thesis by (simp add: map_of_eq_None_iff)
  qed
  then show ?thesis by (simp add: listing_ok_def)
qed

lemma collection_is_complete_witness:
  "\<exists>ps. collect_repositories sample_listing sample_staging [''qwen/chat''] \<lparr>wo_tree = sample_cache, wo_faults = []\<rparr>
      = (Done ps, \<lparr>wo_tree = sample_cache, wo_faults = []\<rparr>)
    \<and> sample_model \<in> set ps"
proof -
  have "list_all (\<lambda>(_, k). k \<noteq> Link) sample_cache" by code_simp
  then have links: "map_of sample_cache p \<noteq> Some Link" for p by (auto simp: list_all_iff dest!: map_of_SomeD)
  have "validate_repo_id ''qwen/chat''" by code_simp
  moreover have "clear sample_cache sample_staging (split_on CHR ''/'' ''qwen/chat'')"
    by (rule clear_check, code_simp, rule links)
  moreover have "map_of sample_cache (sample_staging @ split_on CHR ''/'' ''qwen/chat'') = Some Folder" by code_simp
  then have "linkless sample_cache (sample_staging @ split_on CHR ''/'' ''qwen/chat'')" using links by (simp add: linkless_def)
  ultimately have repo: "validate_repo_id repo \<and> clear sample_cache sample_staging (split_on CHR ''/'' repo)
      \<and> linkless sample_cache (sample_staging @ split_on CHR ''/'' repo)" if "repo \<in> set [''qwen/chat'']" for repo
    using that by simp
  have root: "root_ok sample_cache sample_staging" by (simp add: root_ok_def) code_simp
  obtain c where c: "map_of sample_cache (sample_staging @ sample_model) = Some (Plain c)"
  proof -
    have "case map_of sample_cache (sample_staging @ sample_model) of Some (Plain _) \<Rightarrow> True | _ \<Rightarrow> False" by code_simp
    then show ?thesis using that by (auto split: option.splits node.splits)
  qed
  have "strict_prefix (split_on CHR ''/'' ''qwen/chat'') sample_model" by code_simp
  then have "collected sample_cache sample_staging [''qwen/chat''] sample_model"
    using repo [of "''qwen/chat''"] c by (auto simp: collected_def staged_file_def)
  then show ?thesis
    using collection_is_complete [OF sample_cache_ok(1) sample_listing_ok root repo] by fastforce
qed

definition committed_cache :: tree where
  "committed_cache =
     [([], Folder), ([''.orchion''], Folder), ([''.orchion'', ''staging''], Folder), (sample_staging, Folder),
      (sample_staging @ [''committed''], Folder), (sample_staging @ [''committed'', ''chat''], Folder),
      (sample_staging @ [''committed'', ''chat'', ''weights''], Plain ''v2''),
      ([''committed''], Folder), ([''committed'', ''chat''], Folder), ([''committed'', ''chat'', ''weights''], Plain ''v1'')]"

text \<open>C40.  A vendor may be called \<^verbatim>\<open>committed\<close>, and the backups of its files are then put into a folder where the
  commit marker goes: without any fault, the publication of a new version of such a repository fails, the file
  it was to replace is the new one, and this and every later recovery fails and changes nothing.\<close>

theorem vendor_named_committed_blocks_recovery:
  "validate_repo_id ''committed/chat''
   \<and> (let r = publish_staged_repositories (deepest_first commit_path) sample_listing sample_encode sample_decode
        sample_staging [''committed/chat''] \<lparr>wo_tree = committed_cache, wo_faults = []\<rparr> in
      fst r = Failed OtherError
      \<and> file_at (wo_tree (snd r)) [''committed'', ''chat'', ''weights''] = Some (Plain ''v2'')
      \<and> file_at (wo_tree (snd r)) (transaction_dir @ [''committed'', ''chat'', ''weights'']) = Some (Plain ''v1'')
      \<and> (\<forall>order decode. recover_interrupted_publication order decode \<lparr>wo_tree = wo_tree (snd r), wo_faults = []\<rparr>
          = (Failed InvalidData, \<lparr>wo_tree = wo_tree (snd r), wo_faults = []\<rparr>)))"
proof -
  let ?r = "publish_staged_repositories (deepest_first commit_path) sample_listing sample_encode sample_decode
        sample_staging [''committed/chat''] \<lparr>wo_tree = committed_cache, wo_faults = []\<rparr>"
  let ?t = "wo_tree (snd ?r)"
  have "case ?r of (result, w) \<Rightarrow> result = Failed OtherError
      \<and> file_at (wo_tree w) [''committed'', ''chat'', ''weights''] = Some (Plain ''v2'')
      \<and> file_at (wo_tree w) (transaction_dir @ [''committed'', ''chat'', ''weights'']) = Some (Plain ''v1'')
      \<and> map_of (wo_tree w) commit_path = Some Folder \<and> map_of (wo_tree w) transaction_dir = Some Folder
      \<and> map_of (wo_tree w) cache_state_dir = Some Folder \<and> map_of (wo_tree w) [] = Some Folder
      \<and> list_all (\<lambda>(p, _). p = [] \<or> map_of (wo_tree w) (butlast p) = Some Folder) (wo_tree w)" by code_simp
  then have e: "fst ?r = Failed OtherError" "file_at ?t [''committed'', ''chat'', ''weights''] = Some (Plain ''v2'')"
      "file_at ?t (transaction_dir @ [''committed'', ''chat'', ''weights'']) = Some (Plain ''v1'')"
    and c: "map_of ?t commit_path = Some Folder" "map_of ?t transaction_dir = Some Folder"
      "map_of ?t cache_state_dir = Some Folder" "map_of ?t [] = Some Folder"
    and ok: "tree_ok ?t" using tree_ok_check unfolding split_beta by blast+
  have "clear ?t [] transaction_dir"
    by (rule clear_check) (use c in \<open>simp_all add: transaction_dir_def cache_state_dir_def\<close>)
  then have v: "validate_cache_relative_ancestors [] transaction_dir True \<lparr>wo_tree = ?t, wo_faults = []\<rparr>
      = (Done (), \<lparr>wo_tree = ?t, wo_faults = []\<rparr>)"
    by (intro check_runs) (use c ok in \<open>auto simp: root_ok_def transaction_path(1)\<close>)
  have "recover_interrupted_publication order decode \<lparr>wo_tree = ?t, wo_faults = []\<rparr>
      = (Failed InvalidData, \<lparr>wo_tree = ?t, wo_faults = []\<rparr>)" for order decode
    unfolding recover_interrupted_publication_def read_commit_marker_def
    using c by (simp add: io_then_def io_bind_def v path_exists_def io_look_def fs_lstat_def io_return_def io_fail_def)
  moreover have "validate_repo_id ''committed/chat''" by code_simp
  ultimately show ?thesis using e unfolding Let_def by blast
qed

end
