(* ===== verification/Caption_Text.thy ===== *)
theory Caption_Text
  imports Prelude "HOL-Library.Sublist" "HOL-Library.Code_Target_Nat"
begin

text \<open>
  The splitting of a growing transcript into captions, \<^verbatim>\<open>CaptionTextSplitter\<close> of
  \<^verbatim>\<open>orchion-server/src/application/streaming_transcription.rs\<close>.  A Rust string is the list of its Unicode scalar
  values; where the code slices it by bytes, a slice that does not begin at a character panics (\<open>None\<close>).
\<close>

section \<open>Strings\<close>

type_synonym unicode = "nat list"

definition utf8_len :: "nat \<Rightarrow> nat" where
  "utf8_len c = (if c < 0x80 then 1 else if c < 0x800 then 2 else if c < 0x10000 then 3 else 4)"

definition byte_len :: "unicode \<Rightarrow> nat" where
  "byte_len s = sum_list (map utf8_len s)"

text \<open>\<^verbatim>\<open>&s[n..]\<close>\<close>

fun slice_from :: "nat \<Rightarrow> unicode \<Rightarrow> unicode option" where
  "slice_from n [] = (if n = 0 then Some [] else None)"
| "slice_from n (c # s) =
     (if n = 0 then Some (c # s) else if utf8_len c \<le> n then slice_from (n - utf8_len c) s else None)"

text \<open>The characters of \<^verbatim>\<open>White_Space\<close>, and \<^verbatim>\<open>str::trim\<close>.\<close>

definition white_space :: "nat \<Rightarrow> bool" where
  "white_space c \<longleftrightarrow>
     9 \<le> c \<and> c \<le> 13 \<or> 0x2000 \<le> c \<and> c \<le> 0x200A
     \<or> c \<in> {0x20, 0x85, 0xA0, 0x1680, 0x2028, 0x2029, 0x202F, 0x205F, 0x3000}"

definition trim_start :: "unicode \<Rightarrow> unicode" where
  "trim_start s = dropWhile white_space s"

definition trim :: "unicode \<Rightarrow> unicode" where
  "trim s = rev (trim_start (rev (trim_start s)))"

definition strip_str_prefix :: "unicode \<Rightarrow> unicode \<Rightarrow> unicode option" where
  "strip_str_prefix p s = (if prefix p s then Some (drop (length p) s) else None)"

lemma utf8_len_pos: "0 < utf8_len c"
  by (simp add: utf8_len_def)

lemma slice_from_append: "slice_from (byte_len a) (a @ b) = Some b"
proof (induction a)
  case Nil
  then show ?case by (cases b) (simp_all add: byte_len_def)
next
  case (Cons c a)
  then show ?case using utf8_len_pos [of c] by (simp add: byte_len_def)
qed

lemma slice_from_past: "slice_from (byte_len a + n) (a @ b) = slice_from n b"
proof (induction a)
  case (Cons c a)
  then show ?case using utf8_len_pos [of c] by (simp add: byte_len_def add.assoc)
qed (simp add: byte_len_def)

lemma byte_len_append [simp]: "byte_len (a @ b) = byte_len a + byte_len b"
  by (simp add: byte_len_def)

lemma trim_start_solid: "s = [] \<or> \<not> white_space (hd s) \<Longrightarrow> trim_start s = s"
  by (cases s) (auto simp: trim_start_def)

lemma trim_start_hd: "trim_start s \<noteq> [] \<Longrightarrow> \<not> white_space (hd (trim_start s))"
  by (simp add: trim_start_def hd_dropWhile)

lemma trim_start_suffix: "\<exists>w. s = w @ trim_start s \<and> list_all white_space w"
proof (intro exI conjI)
  show "s = takeWhile white_space s @ trim_start s" by (simp add: trim_start_def)
  show "list_all white_space (takeWhile white_space s)" by (auto simp: list_all_iff dest: set_takeWhileD)
qed

lemma trim_start_end: "trim_start s \<noteq> [] \<Longrightarrow> last (trim_start s) = last s"
  using trim_start_suffix [of s] by (metis last_appendR)

lemma trim_solid: "trim s \<noteq> [] \<Longrightarrow> \<not> white_space (hd (trim s)) \<and> \<not> white_space (last (trim s))"
proof -
  let ?r = "trim_start (rev (trim_start s))"
  assume ne: "trim s \<noteq> []"
  then have r: "?r \<noteq> []" by (simp add: trim_def)
  then have s: "trim_start s \<noteq> []" by (metis dropWhile.simps(1) rev.simps(1) trim_start_def)
  have "last (trim s) = hd ?r" using r by (simp add: trim_def last_rev)
  moreover have "hd (trim s) = last ?r" using r by (simp add: trim_def hd_rev)
  moreover have "last ?r = hd (trim_start s)" using trim_start_end [OF r] s by (simp add: last_rev)
  ultimately show ?thesis using trim_start_hd [OF r] trim_start_hd [OF s] by simp
qed

lemma trim_idem: "s = [] \<or> (\<not> white_space (hd s) \<and> \<not> white_space (last s)) \<Longrightarrow> trim s = s"
  unfolding trim_def by (auto simp: trim_start_solid hd_rev)

lemma trim_trim [simp]: "trim (trim s) = trim s"
  using trim_idem [of "trim s"] trim_solid [of s] by blast

lemma trim_none: "list_all (\<lambda>c. \<not> white_space c) s \<Longrightarrow> trim s = s"
  by (rule trim_idem) (cases s, auto simp: list_all_iff)

section \<open>Boundaries\<close>

definition strong_punctuation :: "nat \<Rightarrow> bool" where
  "strong_punctuation c \<longleftrightarrow> c \<in> {0x3002, 0xFF01, 0xFF1F, 0xFF1B, 0x2E, 0x21, 0x3F, 0x3B}"

definition closing_mark :: "nat \<Rightarrow> bool" where
  "closing_mark c \<longleftrightarrow>
     c \<in> {0x22, 0x27, 0x201D, 0x2019, 0x29, 0x5D, 0x7D, 0xFF09, 0x3011, 0x300B, 0x300D, 0x300F}"

text \<open>The loop over the characters: the number of characters seen, the end of the candidate, and whether a closing
  mark belongs to it.  The result says whether other text follows.\<close>

fun scan_boundary :: "nat \<Rightarrow> nat option \<Rightarrow> bool \<Rightarrow> unicode \<Rightarrow> (nat \<times> bool) option" where
  "scan_boundary i terminal ext [] = map_option (\<lambda>n. (n, False)) terminal"
| "scan_boundary i terminal ext (c # s) =
     (if strong_punctuation c then scan_boundary (i + 1) (Some (i + 1)) True s
      else if closing_mark c then scan_boundary (i + 1) (if ext then Some (i + 1) else terminal) ext s
      else case terminal of
             Some n \<Rightarrow> Some (n, True)
           | None \<Rightarrow> scan_boundary (i + 1) None False s)"

definition strong_punctuation_candidate_text :: "unicode \<Rightarrow> (unicode \<times> bool) option" where
  "strong_punctuation_candidate_text s =
     (let trimmed = trim s in
      if trimmed = [] then None
      else map_option (\<lambda>(n, following). (take n trimmed, following)) (scan_boundary 0 None False trimmed))"

section \<open>The splitter\<close>

record splitter =
  sp_target_ms :: u32
  sp_committed :: unicode
  sp_candidate :: "unicode option"
  sp_stable :: "8 word"

definition new_splitter :: "u32 \<Rightarrow> splitter" where
  "new_splitter target = \<lparr>sp_target_ms = target, sp_committed = [], sp_candidate = None, sp_stable = 0\<rparr>"

definition uncommitted_text :: "splitter \<Rightarrow> unicode \<Rightarrow> unicode" where
  "uncommitted_text sp s =
     (case strip_str_prefix (sp_committed sp) (trim s) of Some rest \<Rightarrow> rest | None \<Rightarrow> trim s)"

definition sat_add_u8 :: "8 word \<Rightarrow> 8 word \<Rightarrow> 8 word" where
  "sat_add_u8 a b = (if unat a + unat b < 256 then a + b else 255)"

text \<open>The segment that is final, if one is, and the partial text after it.\<close>

definition observe_partial :: "unicode \<Rightarrow> nat \<Rightarrow> splitter \<Rightarrow> ((unicode option \<times> unicode) \<times> splitter) option" where
  "observe_partial s duration_ms sp =
     (let uncommitted = uncommitted_text sp s in
      case strong_punctuation_candidate_text uncommitted of
        None \<Rightarrow> Some ((None, uncommitted), sp\<lparr>sp_candidate := None, sp_stable := 0\<rparr>)
      | Some (candidate, following) \<Rightarrow>
          let sp1 = (if sp_candidate sp = Some candidate then sp\<lparr>sp_stable := sat_add_u8 (sp_stable sp) 1\<rparr>
                     else sp\<lparr>sp_candidate := Some candidate, sp_stable := 1\<rparr>);
              stable = (2 \<le> sp_stable sp1);
              reached_target = (unat (sp_target_ms sp) \<le> duration_ms)
          in if \<not> stable \<or> (\<not> following \<and> \<not> reached_target)
             then Some ((None, uncommitted), sp1)
             else (case slice_from (byte_len candidate) uncommitted of
                     None \<Rightarrow> None
                   | Some rest \<Rightarrow>
                       Some ((Some candidate, rest),
                         sp1\<lparr>sp_committed := sp_committed sp @ candidate, sp_candidate := None, sp_stable := 0\<rparr>)))"

definition flush_text :: "unicode \<Rightarrow> splitter \<Rightarrow> unicode option \<times> splitter" where
  "flush_text s sp =
     (let uncommitted = trim (uncommitted_text sp s) in
      (if uncommitted = [] then None else Some uncommitted,
       sp\<lparr>sp_committed := [], sp_candidate := None, sp_stable := 0\<rparr>))"

text \<open>A whole segment: the texts that become final, in order, with that of the last transcript.\<close>

fun split_all :: "(unicode \<times> nat) list \<Rightarrow> unicode \<Rightarrow> splitter \<Rightarrow> unicode list option" where
  "split_all [] final sp = Some (case fst (flush_text final sp) of None \<Rightarrow> [] | Some s \<Rightarrow> [s])"
| "split_all ((s, ms) # ts) final sp =
     (case observe_partial s ms sp of
        None \<Rightarrow> None
      | Some ((done, partial), sp') \<Rightarrow>
          map_option (\<lambda>rest. (case done of None \<Rightarrow> [] | Some d \<Rightarrow> [d]) @ rest) (split_all ts final sp'))"

section \<open>Text without spaces\<close>

lemma candidate_prefix:
  assumes "strong_punctuation_candidate_text s = Some (c, following)"
  shows "prefix c (trim s)"
  using assms unfolding strong_punctuation_candidate_text_def Let_def
  by (auto split: if_splits simp: take_is_prefix)

lemma observe_dense:
  assumes s: "list_all (\<lambda>c. \<not> white_space c) s" and p: "prefix (sp_committed sp) s"
  shows "\<exists>final partial sp'. observe_partial s ms sp = Some ((final, partial), sp')
    \<and> sp_committed sp' = sp_committed sp @ (case final of None \<Rightarrow> [] | Some f \<Rightarrow> f)
    \<and> sp_committed sp' @ partial = s"
proof -
  obtain u where u: "s = sp_committed sp @ u" using p by (auto simp: prefix_def)
  have U: "uncommitted_text sp s = u" using trim_none [OF s] u by (simp add: uncommitted_text_def strip_str_prefix_def)
  have tu: "trim u = u" by (rule trim_none) (use s u in \<open>simp add: list_all_iff\<close>)
  show ?thesis
  proof (cases "strong_punctuation_candidate_text u")
    case None
    then show ?thesis unfolding observe_partial_def U Let_def by (simp add: u)
  next
    case (Some r)
    obtain c following where r: "r = (c, following)" by fastforce
    then have "prefix c u" using candidate_prefix [of u c following] Some tu by simp
    then obtain v where v: "u = c @ v" by (auto simp: prefix_def)
    then have "slice_from (byte_len c) u = Some v" by (simp add: slice_from_append)
    then show ?thesis unfolding observe_partial_def U Let_def Some r by (simp add: u v)
  qed
qed

text \<open>In text without white space nothing is lost or repeated: when every transcript of a segment extends
  the one before it, the splitting does not panic, and the captions of the segment are the last transcript.\<close>

theorem dense_captions_are_the_transcript:
  assumes "list_all (\<lambda>c. \<not> white_space c) final" "sorted_wrt prefix (map fst ts @ [final])"
  shows "\<exists>captions. split_all ts final (new_splitter target) = Some captions \<and> concat captions = final"
proof -
  have "\<exists>captions. split_all ts final sp = Some captions \<and> sp_committed sp @ concat captions = final"
    if "sorted_wrt prefix (map fst ts @ [final])" "prefix (sp_committed sp) (hd (map fst ts @ [final]))" for sp
    using that
  proof (induction ts arbitrary: sp)
    case Nil
    then obtain u where u: "final = sp_committed sp @ u" by (auto simp: prefix_def)
    have "trim u = u" by (rule trim_none) (use assms(1) u in \<open>simp add: list_all_iff\<close>)
    then show ?case
      using trim_none [OF assms(1)] u by (simp add: flush_text_def uncommitted_text_def strip_str_prefix_def Let_def)
  next
    case (Cons t ts)
    obtain s ms where t: "t = (s, ms)" by fastforce
    have "prefix s final" using Cons.prems(1) t by simp
    then have "list_all (\<lambda>c. \<not> white_space c) s" using assms(1) by (auto simp: prefix_def list_all_iff)
    from observe_dense [OF this, of sp ms] Cons.prems(2) t
    obtain final' partial sp' where o: "observe_partial s ms sp = Some ((final', partial), sp')"
      "sp_committed sp' = sp_committed sp @ (case final' of None \<Rightarrow> [] | Some f \<Rightarrow> f)"
      "sp_committed sp' @ partial = s" by auto
    have "prefix s (hd (map fst ts @ [final]))" using Cons.prems(1) t by (cases ts) auto
    then have "prefix (sp_committed sp') (hd (map fst ts @ [final]))" using o(3) by (metis prefixI prefix_order.trans)
    then obtain captions where "split_all ts final sp' = Some captions" "sp_committed sp' @ concat captions = final"
      using Cons.IH Cons.prems(1) by auto
    then show ?case using o t by (cases final') auto
  qed
  from this [of "new_splitter target"] assms(2) show ?thesis by (simp add: new_splitter_def)
qed
section \<open>Text with spaces\<close>

lemma scan_pos:
  "scan_boundary i terminal ext s = Some (n, following) \<Longrightarrow> (\<And>m. terminal = Some m \<Longrightarrow> 0 < m) \<Longrightarrow> 0 < n"
  by (induction i terminal ext s rule: scan_boundary.induct) (auto split: if_splits option.splits)

lemma candidate_nonempty: "strong_punctuation_candidate_text s = Some (c, following) \<Longrightarrow> c \<noteq> []"
  unfolding strong_punctuation_candidate_text_def Let_def
  by (auto split: if_splits dest!: scan_pos)

lemma trim_end_kept:
  assumes "trim (a @ b) = a @ b" "b \<noteq> []" "\<not> white_space (hd b)"
  shows "trim b = b"
proof (rule trim_idem)
  have "a @ b \<noteq> []" using assms(2) by simp
  then have "\<not> white_space (last (a @ b))" using trim_solid [of "a @ b"] assms(1) by simp
  then show "b = [] \<or> \<not> white_space (hd b) \<and> \<not> white_space (last b)" using assms(2,3) by simp
qed

lemma trim_leading: "list_all white_space w \<Longrightarrow> trim (w @ u) = trim u"
  unfolding trim_def trim_start_def by (simp add: dropWhile_append list_all_iff)

text \<open>C32.  When white space follows what is already final, the next caption of the segment makes the splitter forget
  it: the text it takes for final leaves the space out, is no longer a prefix of the transcript, and the whole transcript
  is shown once more, with every caption before.\<close>

theorem spaced_captions_start_over:
  assumes "trim s = sp_committed sp @ w @ u" "w \<noteq> []" "list_all white_space w" "u \<noteq> []" "\<not> white_space (hd u)"
    and "observe_partial s ms sp = Some ((Some f, partial), sp')"
  shows "sp_committed sp' = sp_committed sp @ f \<and> uncommitted_text sp' s = trim s
    \<and> fst (flush_text s sp') = Some (trim s)"
proof -
  have "uncommitted_text sp s = w @ u" using assms(1) by (simp add: uncommitted_text_def strip_str_prefix_def)
  note o = assms(6) [unfolded observe_partial_def Let_def this]
  have c: "\<exists>following. strong_punctuation_candidate_text (w @ u) = Some (f, following)" "sp_committed sp' = sp_committed sp @ f"
    using o by (auto split: option.splits if_splits)
  then obtain following where k: "strong_punctuation_candidate_text (w @ u) = Some (f, following)" by blast
  have "trim ((sp_committed sp @ w) @ u) = (sp_committed sp @ w) @ u" using assms(1) trim_trim [of s] by simp
  then have "trim u = u" by (rule trim_end_kept [OF _ assms(4,5)])
  then have "prefix f u" using candidate_prefix [OF k] trim_leading [OF assms(3), of u] by simp
  moreover have "f \<noteq> []" by (rule candidate_nonempty [OF k])
  ultimately have hf: "hd f = hd u" "f \<noteq> []" by (auto simp: prefix_def)
  have "\<not> prefix f (w @ u)"
  proof
    assume "prefix f (w @ u)"
    then have "hd f = hd w" using hf(2) assms(2) by (auto simp: prefix_def append_eq_append_conv2 hd_append split: if_splits)
    then show False using hf(1) assms(2,3,5) by (cases w) auto
  qed
  then have "\<not> prefix (sp_committed sp') (trim s)" using assms(1) c(2) by simp
  then have U: "uncommitted_text sp' s = trim s" by (simp add: uncommitted_text_def strip_str_prefix_def)
  moreover have "trim s \<noteq> []" using assms(1,2) by simp
  ultimately show ?thesis using c(2) by (simp add: flush_text_def Let_def)
qed

text \<open>The same spaces make the byte offset of the rest wrong.\<close>

lemma slice_inside: "0 < n \<Longrightarrow> n < utf8_len c \<Longrightarrow> slice_from n (c # s) = None"
  by simp

text \<open>C33.  When the next caption ends with a character that is longer in UTF-8 than the white space before it, the
  splitter panics as it slices the partial text inside of that character.\<close>

theorem wide_caption_after_space_panics:
  assumes "trim s = sp_committed sp @ w @ f @ v" "w \<noteq> []" "byte_len w < utf8_len (last f)"
    and "strong_punctuation_candidate_text (w @ f @ v) = Some (f, following)"
    and "sp_candidate sp = Some f" "1 \<le> unat (sp_stable sp)" "unat (sp_stable sp) < 255"
    and "following \<or> unat (sp_target_ms sp) \<le> ms"
  shows "observe_partial s ms sp = None"
proof -
  have U: "uncommitted_text sp s = w @ f @ v" using assms(1) by (simp add: uncommitted_text_def strip_str_prefix_def)
  have "f \<noteq> []" by (rule candidate_nonempty [OF assms(4)])
  then obtain g c where g: "f = g @ [c]" by (cases f rule: rev_cases) auto
  have w: "0 < byte_len w" using assms(2) utf8_len_pos by (cases w) (auto simp: byte_len_def)
  have "byte_len f = byte_len (w @ g) + (utf8_len c - byte_len w)"
    using assms(3) g by (simp add: byte_len_def)
  then have "slice_from (byte_len f) ((w @ g) @ c # v) = slice_from (utf8_len c - byte_len w) (c # v)"
    using slice_from_past [of "w @ g"] by simp
  also have "\<dots> = None" by (rule slice_inside) (use w assms(3) g in auto)
  finally have sl: "slice_from (byte_len f) (w @ f @ v) = None" using g by simp
  have "2 \<le> sat_add_u8 (sp_stable sp) 1"
  proof -
    have "unat (sp_stable sp + 1) = unat (sp_stable sp) + 1" using assms(7) by (simp add: unat_word_ariths)
    then show ?thesis using assms(6,7) by (simp add: sat_add_u8_def word_le_nat_alt)
  qed
  then show ?thesis
    using assms(4,5,8) sl by (simp add: observe_partial_def Let_def U)
qed

text \<open>A transcript with three sentences, and one that goes on in another script.\<close>

definition sample_text :: "string \<Rightarrow> unicode" where
  "sample_text s = map of_char s"

definition sample_wide :: unicode where
  "sample_wide = sample_text ''Hi. '' @ [0x4E16, 0x754C, 0x3002, 0x597D]"

lemma dense_captions_are_the_transcript_witness:
  "\<exists>captions. split_all [(sample_text ''One.T'', 0), (sample_text ''One.Two'', 0)] (sample_text ''One.Two.Three'') (new_splitter 1000)
    = Some captions \<and> concat captions = sample_text ''One.Two.Three'' \<and> hd captions = sample_text ''One.''"
proof -
  have 1: "list_all (\<lambda>c. \<not> white_space c) (sample_text ''One.Two.Three'')" by code_simp
  have 2: "sorted_wrt prefix (map fst [(sample_text ''One.T'', 0 :: nat), (sample_text ''One.Two'', 0)] @ [sample_text ''One.Two.Three''])"
    by code_simp
  have "case split_all [(sample_text ''One.T'', 0), (sample_text ''One.Two'', 0)] (sample_text ''One.Two.Three'') (new_splitter 1000) of
      None \<Rightarrow> False | Some captions \<Rightarrow> hd captions = sample_text ''One.''" by code_simp
  then show ?thesis using dense_captions_are_the_transcript [OF 1 2, of 1000] by (auto split: option.splits)
qed

lemma spaced_captions_start_over_witness:
  "split_all (replicate 4 (sample_text ''A. B. C'', 0)) (sample_text ''A. B. C'') (new_splitter 1000)
     = Some [sample_text ''A.'', sample_text ''B.'', sample_text ''A. B. C'']
   \<and> (let sp = new_splitter 1000 \<lparr>sp_committed := sample_text ''A.'', sp_candidate := Some (sample_text ''B.''), sp_stable := 1\<rparr> in
      \<exists>partial sp'. observe_partial (sample_text ''A. B. C'') 0 sp = Some ((Some (sample_text ''B.''), partial), sp')
        \<and> uncommitted_text sp' (sample_text ''A. B. C'') = sample_text ''A. B. C'')"
proof -
  let ?sp = "new_splitter 1000 \<lparr>sp_committed := sample_text ''A.'', sp_candidate := Some (sample_text ''B.''), sp_stable := 1\<rparr>"
  have run: "split_all (replicate 4 (sample_text ''A. B. C'', 0)) (sample_text ''A. B. C'') (new_splitter 1000)
     = Some [sample_text ''A.'', sample_text ''B.'', sample_text ''A. B. C'']" by code_simp
  have "case observe_partial (sample_text ''A. B. C'') 0 ?sp of
      Some ((Some f, _), _) \<Rightarrow> f = sample_text ''B.'' | _ \<Rightarrow> False" by code_simp
  then obtain partial sp' where o: "observe_partial (sample_text ''A. B. C'') 0 ?sp = Some ((Some (sample_text ''B.''), partial), sp')"
    by (auto split: option.splits)
  have t: "trim (sample_text ''A. B. C'') = sp_committed ?sp @ [0x20] @ sample_text ''B. C''" by code_simp
  have w: "[0x20 :: nat] \<noteq> []" "list_all white_space [0x20]" "sample_text ''B. C'' \<noteq> []" "\<not> white_space (hd (sample_text ''B. C''))"
    by code_simp+
  have e: "trim (sample_text ''A. B. C'') = sample_text ''A. B. C''" by code_simp
  show ?thesis using run o e spaced_captions_start_over [OF t w o] by (auto simp: Let_def)
qed

lemma wide_caption_after_space_panics_witness:
  "split_all (replicate 4 (sample_wide, 0)) sample_wide (new_splitter 1000) = None
   \<and> observe_partial sample_wide 0
      (new_splitter 1000 \<lparr>sp_committed := sample_text ''Hi.'', sp_candidate := Some [0x4E16, 0x754C, 0x3002], sp_stable := 1\<rparr>) = None"
proof
  show "split_all (replicate 4 (sample_wide, 0)) sample_wide (new_splitter 1000) = None" by code_simp
  let ?sp = "new_splitter 1000 \<lparr>sp_committed := sample_text ''Hi.'', sp_candidate := Some [0x4E16, 0x754C, 0x3002], sp_stable := 1\<rparr>"
  show "observe_partial sample_wide 0 ?sp = None"
  proof (rule wide_caption_after_space_panics [where w = "[0x20]" and f = "[0x4E16, 0x754C, 0x3002]" and v = "[0x597D]" and following = True])
    show "trim sample_wide = sp_committed ?sp @ [0x20] @ [0x4E16, 0x754C, 0x3002] @ [0x597D]" by code_simp
    show "strong_punctuation_candidate_text ([0x20] @ [0x4E16, 0x754C, 0x3002] @ [0x597D]) = Some ([0x4E16, 0x754C, 0x3002], True)"
      by code_simp
  qed (simp_all add: byte_len_def utf8_len_def)
qed

end
