(* ===== verification/Streaming_Transcription.thy ===== *)
theory Streaming_Transcription
  imports Caption_Text Streaming_Vad
begin

text \<open>
  Streaming transcription, \<^verbatim>\<open>orchion-server/src/application/streaming_transcription.rs\<close>: the limits of a stream, the
  buffer that cuts decoded audio into chunks for the recogniser, and the session that turns the events of the
  voice activity endpoint (theory \<open>Streaming_Vad\<close>) into captions.  An error ends the stream, so a step that fails
  gives no session to go on with.  Of a \<^verbatim>\<open>UseCaseError\<close> the parameter and the code are kept, not the message.

  The recogniser is a record of functions of its stream's state, and so are the two questions the code answers
  with floating-point arithmetic: whether the size of a chunk is usable and how many samples it has at a rate.
  Times are in nanoseconds, and the clock is an argument.
\<close>

section \<open>Errors\<close>

datatype use_case_error = Invalid "string option" string | Internal string | Core string

datatype 'a attempt = Fine 'a | Fail use_case_error | Panicked

definition attempt_bind :: "'a attempt \<Rightarrow> ('a \<Rightarrow> 'b attempt) \<Rightarrow> 'b attempt" where
  "attempt_bind m f = (case m of Fine x \<Rightarrow> f x | Fail e \<Rightarrow> Fail e | Panicked \<Rightarrow> Panicked)"

lemma attempt_bind_Fine: "attempt_bind m f = Fine y \<longleftrightarrow> (\<exists>x. m = Fine x \<and> f x = Fine y)"
  by (cases m) (auto simp: attempt_bind_def)

section \<open>The limits of a stream\<close>

record stream_limits =
  li_idle_timeout :: nat
  li_max_duration :: nat
  li_max_input_bytes :: nat

record stream_budget =
  bu_started_at :: nat
  bu_input_bytes :: nat
  bu_decoded_duration :: nat

definition new_budget :: "nat \<Rightarrow> stream_budget" where
  "new_budget now = \<lparr>bu_started_at = now, bu_input_bytes = 0, bu_decoded_duration = 0\<rparr>"

definition stream_duration_error :: use_case_error where
  "stream_duration_error = Invalid None ''stream_duration_exceeded''"

definition stream_input_too_large_error :: use_case_error where
  "stream_input_too_large_error = Invalid None ''stream_input_too_large''"

definition stream_audio_too_long_error :: use_case_error where
  "stream_audio_too_long_error = Invalid None ''stream_audio_too_long''"

definition remaining :: "stream_limits \<Rightarrow> nat \<Rightarrow> stream_budget \<Rightarrow> use_case_error + nat" where
  "remaining l now b =
     (let elapsed = now - bu_started_at b in
      if li_max_duration l < elapsed then Inl stream_duration_error else Inr (li_max_duration l - elapsed))"

definition next_wait :: "stream_limits \<Rightarrow> nat \<Rightarrow> stream_budget \<Rightarrow> use_case_error + nat" where
  "next_wait l now b = map_sum id (min (li_idle_timeout l)) (remaining l now b)"

definition timeout_error :: "stream_limits \<Rightarrow> nat \<Rightarrow> stream_budget \<Rightarrow> use_case_error" where
  "timeout_error l now b =
     (if li_max_duration l \<le> now - bu_started_at b then stream_duration_error
      else Invalid None ''stream_idle_timeout'')"

definition record_binary_input :: "stream_limits \<Rightarrow> nat \<Rightarrow> stream_budget \<Rightarrow> use_case_error option \<times> stream_budget" where
  "record_binary_input l bytes b =
     (if usize_max < bu_input_bytes b + bytes then (Some stream_input_too_large_error, b)
      else let b' = b\<lparr>bu_input_bytes := bu_input_bytes b + bytes\<rparr> in
        (if li_max_input_bytes l < bu_input_bytes b' then Some stream_input_too_large_error else None, b'))"

text \<open>\<^verbatim>\<open>Duration::MAX\<close> is just below \<^verbatim>\<open>2^64\<close> seconds.\<close>

definition duration_end :: nat where
  "duration_end = 2 ^ 64 * 1000000000"

definition decoded_audio_duration :: "nat \<Rightarrow> u32 \<Rightarrow> use_case_error + nat" where
  "decoded_audio_duration samples rate =
     (let r = unat rate in
      if r = 0 then Inl (Internal ''decoded audio sample rate is zero'')
      else if usize_max < (samples mod r) * 1000000000
      then Inl (Internal ''decoded audio duration is too large'')
      else Inr (samples div r * 1000000000 + (samples mod r) * 1000000000 div r))"

definition record_decoded_samples ::
  "stream_limits \<Rightarrow> nat \<Rightarrow> u32 \<Rightarrow> stream_budget \<Rightarrow> use_case_error option \<times> stream_budget" where
  "record_decoded_samples l samples rate b =
     (case decoded_audio_duration samples rate of
        Inl e \<Rightarrow> (Some e, b)
      | Inr duration \<Rightarrow>
          if duration_end \<le> bu_decoded_duration b + duration then (Some stream_audio_too_long_error, b)
          else let b' = b\<lparr>bu_decoded_duration := bu_decoded_duration b + duration\<rparr> in
            (if li_max_duration l < bu_decoded_duration b' then Some stream_audio_too_long_error else None, b'))"

section \<open>Chunks\<close>

record chunking =
  ch_usable :: bool
  ch_samples :: "u32 \<Rightarrow> nat option"

record 'a pcm_buffer =
  pb_rate :: "u32 option"
  pb_samples :: "'a list"

definition new_pcm_buffer :: "'a pcm_buffer" where
  "new_pcm_buffer = \<lparr>pb_rate = None, pb_samples = []\<rparr>"

definition invalid_chunk_size :: use_case_error where
  "invalid_chunk_size = Invalid (Some ''chunk_size_sec'') ''invalid_chunk_size''"

definition invalid_sample_rate :: use_case_error where
  "invalid_sample_rate = Invalid (Some ''sample_rate'') ''invalid_sample_rate''"

function drain_chunks :: "nat \<Rightarrow> 'a list \<Rightarrow> 'a list list \<times> 'a list" where
  "drain_chunks n xs =
     (if n = 0 \<or> length xs < n then ([], xs)
      else case drain_chunks n (drop n xs) of (cs, rest) \<Rightarrow> (take n xs # cs, rest))"
  by pat_completeness auto
termination
  by (relation "measure (\<lambda>(_, xs). length xs)") auto

declare drain_chunks.simps [simp del]

definition push_pcm ::
  "chunking \<Rightarrow> 'a list \<Rightarrow> u32 \<Rightarrow> 'a pcm_buffer \<Rightarrow> (use_case_error + ('a list \<times> u32) list) \<times> 'a pcm_buffer" where
  "push_pcm c samples rate b =
     (if samples = [] then (Inr [], b)
      else if rate = 0 \<or> \<not> ch_usable c then (Inl invalid_chunk_size, b)
      else if pb_rate b \<noteq> None \<and> pb_rate b \<noteq> Some rate then (Inl invalid_sample_rate, b)
      else let b1 = b\<lparr>pb_rate := Some rate\<rparr> in
        case ch_samples c rate of
          None \<Rightarrow> (Inl invalid_chunk_size, b1)
        | Some n \<Rightarrow>
            if n = 0 then (Inl invalid_chunk_size, b1)
            else case drain_chunks n (pb_samples b1 @ samples) of
                   (cs, rest) \<Rightarrow> (Inr (map (\<lambda>xs. (xs, rate)) cs), b1\<lparr>pb_samples := rest\<rparr>))"

definition drain_remaining :: "'a pcm_buffer \<Rightarrow> ('a list \<times> u32) option \<times> 'a pcm_buffer" where
  "drain_remaining b =
     (if pb_samples b = [] then (None, b)
      else case pb_rate b of
             None \<Rightarrow> (None, b)
           | Some rate \<Rightarrow> (Some (pb_samples b, rate), b\<lparr>pb_samples := []\<rparr>))"

section \<open>Captions\<close>

record ('s, 'a) recogniser =
  re_start :: "nat \<Rightarrow> use_case_error + 's"
  re_feed :: "'s \<Rightarrow> 'a list \<Rightarrow> u32 \<Rightarrow> (use_case_error + unicode option) \<times> 's"
  re_finish :: "'s \<Rightarrow> use_case_error + unicode"

datatype caption_event =
  CaptionPartial nat unicode
| CaptionFinal nat unicode nat nat
| CaptionCompleted

record ('s, 'a) caption_segment =
  cs_id :: nat
  cs_start :: nat
  cs_subtitle_start :: nat
  cs_last :: nat
  cs_rate :: u32
  cs_stream :: 's
  cs_pcm :: "'a pcm_buffer"
  cs_splitter :: splitter

record ('s, 'a) caption_session =
  ce_target_ms :: u32
  ce_current :: "('s, 'a) caption_segment option"
  ce_next_id :: nat

definition new_caption_session :: "u32 \<Rightarrow> ('s, 'a) caption_session" where
  "new_caption_session target = \<lparr>ce_target_ms = target, ce_current = None, ce_next_id = 0\<rparr>"

text \<open>The product wraps in a release build.\<close>

definition sample_index_to_ms :: "nat \<Rightarrow> u32 \<Rightarrow> nat attempt" where
  "sample_index_to_ms i rate = (if rate = 0 then Panicked else Fine (i * 1000 mod 2 ^ 64 div unat rate))"

definition allocate_segment_id :: "nat \<Rightarrow> (nat \<times> nat) attempt" where
  "allocate_segment_id i =
     (if i + 1 < 2 ^ 64 then Fine (i, i + 1) else Fail (Internal ''caption segment id overflowed''))"

definition new_segment :: "nat \<Rightarrow> nat \<Rightarrow> u32 \<Rightarrow> 's \<Rightarrow> u32 \<Rightarrow> ('s, 'a) caption_segment" where
  "new_segment i start rate stream target =
     \<lparr>cs_id = i, cs_start = start, cs_subtitle_start = start, cs_last = start, cs_rate = rate, cs_stream = stream,
      cs_pcm = new_pcm_buffer, cs_splitter = new_splitter target\<rparr>"

definition final_event :: "('s, 'a) caption_segment \<Rightarrow> unicode \<Rightarrow> nat \<Rightarrow> caption_event attempt" where
  "final_event seg s end_sample =
     attempt_bind (sample_index_to_ms (cs_subtitle_start seg) (cs_rate seg)) (\<lambda>start_ms.
     attempt_bind (sample_index_to_ms end_sample (cs_rate seg)) (\<lambda>end_ms.
       Fine (CaptionFinal (cs_id seg) s start_ms end_ms)))"

text \<open>A transcript of the open segment: the caption that became final, and the text after it.\<close>

definition show_transcript ::
  "unicode \<Rightarrow> nat \<Rightarrow> ('s, 'a) caption_segment \<Rightarrow> (caption_event list \<times> nat \<times> ('s, 'a) caption_segment) attempt" where
  "show_transcript s next_id seg =
     attempt_bind (sample_index_to_ms (cs_last seg - cs_start seg) (cs_rate seg)) (\<lambda>duration.
       case observe_partial s duration (cs_splitter seg) of
         None \<Rightarrow> Panicked
       | Some ((final, partial), sp) \<Rightarrow>
           attempt_bind
             (case final of
                None \<Rightarrow> Fine ([], next_id, seg\<lparr>cs_splitter := sp\<rparr>)
              | Some caption \<Rightarrow>
                  attempt_bind (final_event seg caption (cs_last seg)) (\<lambda>event.
                  attempt_bind (allocate_segment_id next_id) (\<lambda>(i, next_id').
                    Fine ([event], next_id', seg\<lparr>cs_splitter := sp, cs_id := i, cs_subtitle_start := cs_last seg\<rparr>))))
             (\<lambda>(out, next_id', seg').
               Fine (out @ (if trim partial = [] then [] else [CaptionPartial (cs_id seg') partial]), next_id', seg')))"

fun feed_captions ::
  "('s, 'a) recogniser \<Rightarrow> ('a list \<times> u32) list \<Rightarrow> nat \<Rightarrow> ('s, 'a) caption_segment \<Rightarrow>
   (caption_event list \<times> nat \<times> ('s, 'a) caption_segment) attempt" where
  "feed_captions re [] next_id seg = Fine ([], next_id, seg)"
| "feed_captions re ((xs, rate) # chunks) next_id seg =
     (case re_feed re (cs_stream seg) xs rate of
        (Inl e, _) \<Rightarrow> Fail e
      | (Inr transcript, st) \<Rightarrow>
          attempt_bind
            (case transcript of
               None \<Rightarrow> Fine ([], next_id, seg\<lparr>cs_stream := st\<rparr>)
             | Some s \<Rightarrow> show_transcript s next_id (seg\<lparr>cs_stream := st\<rparr>))
            (\<lambda>(out, next_id', seg').
              attempt_bind (feed_captions re chunks next_id' seg') (\<lambda>(out', r). Fine (out @ out', r))))"

definition feed_current_segment ::
  "('s, 'a) recogniser \<Rightarrow> chunking \<Rightarrow> 'a list \<Rightarrow> u32 \<Rightarrow> ('s, 'a) caption_session \<Rightarrow>
   (caption_event list \<times> ('s, 'a) caption_session) attempt" where
  "feed_current_segment re c samples rate ce =
     (case ce_current ce of
        None \<Rightarrow> Fine ([], ce)
      | Some seg \<Rightarrow>
          if rate \<noteq> cs_rate seg then Fail invalid_sample_rate
          else if usize_max < cs_last seg + length samples
          then Fail (Internal ''caption segment sample index overflowed'')
          else case push_pcm c samples rate (cs_pcm seg) of
                 (Inl e, _) \<Rightarrow> Fail e
               | (Inr chunks, pcm) \<Rightarrow>
                   attempt_bind
                     (feed_captions re chunks (ce_next_id ce)
                       (seg\<lparr>cs_last := cs_last seg + length samples, cs_pcm := pcm\<rparr>))
                     (\<lambda>(out, next_id, seg'). Fine (out, ce\<lparr>ce_current := Some seg', ce_next_id := next_id\<rparr>)))"

definition finalize_segment ::
  "('s, 'a) recogniser \<Rightarrow> ('s, 'a) caption_segment \<Rightarrow> nat \<Rightarrow> caption_event list attempt" where
  "finalize_segment re seg end_sample =
     attempt_bind
       (case fst (drain_remaining (cs_pcm seg)) of
          None \<Rightarrow> Fine (cs_stream seg)
        | Some (xs, rate) \<Rightarrow>
            (case re_feed re (cs_stream seg) xs rate of (Inl e, _) \<Rightarrow> Fail e | (Inr _, st) \<Rightarrow> Fine st))
       (\<lambda>stream.
         attempt_bind (sample_index_to_ms (cs_subtitle_start seg) (cs_rate seg)) (\<lambda>start_ms.
         attempt_bind (sample_index_to_ms end_sample (cs_rate seg)) (\<lambda>end_ms.
           case re_finish re stream of
             Inl e \<Rightarrow> Fail e
           | Inr transcript \<Rightarrow>
               Fine (case fst (flush_text transcript (cs_splitter seg)) of
                       None \<Rightarrow> []
                     | Some s \<Rightarrow> [CaptionFinal (cs_id seg) s start_ms end_ms]))))"

definition close_segment ::
  "('s, 'a) recogniser \<Rightarrow> nat \<Rightarrow> ('s, 'a) caption_session \<Rightarrow> (caption_event list \<times> ('s, 'a) caption_session) attempt" where
  "close_segment re end_sample ce =
     (case ce_current ce of
        None \<Rightarrow> Fine ([], ce)
      | Some seg \<Rightarrow>
          attempt_bind (finalize_segment re seg end_sample) (\<lambda>out. Fine (out, ce\<lparr>ce_current := None\<rparr>)))"

definition open_segment ::
  "('s, 'a) recogniser \<Rightarrow> nat \<Rightarrow> u32 \<Rightarrow> ('s, 'a) caption_session \<Rightarrow> ('s, 'a) caption_session attempt" where
  "open_segment re start rate ce =
     attempt_bind (allocate_segment_id (ce_next_id ce)) (\<lambda>(i, next_id).
       case re_start re i of
         Inl e \<Rightarrow> Fail e
       | Inr stream \<Rightarrow>
           Fine (ce\<lparr>ce_current := Some (new_segment i start rate stream (ce_target_ms ce)), ce_next_id := next_id\<rparr>))"

definition apply_vad_event ::
  "('s, 'a) recogniser \<Rightarrow> chunking \<Rightarrow> u32 \<Rightarrow> 'a vad_event \<Rightarrow> ('s, 'a) caption_session \<Rightarrow>
   (caption_event list \<times> ('s, 'a) caption_session) attempt" where
  "apply_vad_event re c rate event ce =
     (case event of
        SegmentStarted start samples \<Rightarrow>
          attempt_bind (close_segment re start ce) (\<lambda>(out, ce1).
          attempt_bind (open_segment re start rate ce1) (\<lambda>ce2.
          attempt_bind (feed_current_segment re c samples rate ce2) (\<lambda>(out', ce3). Fine (out @ out', ce3))))
      | Audio samples \<Rightarrow> feed_current_segment re c samples rate ce
      | SegmentFinal _ end_sample \<Rightarrow> close_segment re end_sample ce)"

fun apply_vad_events ::
  "('s, 'a) recogniser \<Rightarrow> chunking \<Rightarrow> u32 \<Rightarrow> 'a vad_event list \<Rightarrow> ('s, 'a) caption_session \<Rightarrow>
   (caption_event list \<times> ('s, 'a) caption_session) attempt" where
  "apply_vad_events re c rate [] ce = Fine ([], ce)"
| "apply_vad_events re c rate (event # events) ce =
     attempt_bind (apply_vad_event re c rate event ce) (\<lambda>(out, ce1).
     attempt_bind (apply_vad_events re c rate events ce1) (\<lambda>(out', ce2). Fine (out @ out', ce2)))"

definition complete_captions ::
  "('s, 'a) recogniser \<Rightarrow> ('s, 'a) caption_session \<Rightarrow> (caption_event list \<times> ('s, 'a) caption_session) attempt" where
  "complete_captions re ce =
     attempt_bind (case ce_current ce of None \<Rightarrow> Fine ([], ce) | Some seg \<Rightarrow> close_segment re (cs_last seg) ce)
       (\<lambda>(out, ce1). Fine (out @ [CaptionCompleted], ce1))"

section \<open>The audio of a stream\<close>

text \<open>What \<^verbatim>\<open>caption::run\<close> and \<^verbatim>\<open>caption::finish\<close> do with the decoded pieces of a stream: each is counted, put
  through the endpoint, and its events become captions.  The first error ends the stream, and what follows it is
  never looked at.\<close>

fun caption_pieces ::
  "stream_limits \<Rightarrow> ('s, 'a) recogniser \<Rightarrow> chunking \<Rightarrow> ('v \<Rightarrow> 'a list \<Rightarrow> (string + bool) \<times> 'v) \<Rightarrow> ('a list \<times> u32) list \<Rightarrow>
   stream_budget \<Rightarrow> ('a, 'v) vad_endpoint \<Rightarrow> ('s, 'a) caption_session \<Rightarrow>
   (caption_event list \<times> stream_budget \<times> ('a, 'v) vad_endpoint \<times> ('s, 'a) caption_session) attempt" where
  "caption_pieces l re c detect [] b ep ce = Fine ([], b, ep, ce)"
| "caption_pieces l re c detect ((samples, rate) # pieces) b ep ce =
     (case record_decoded_samples l (length samples) rate b of
        (Some e, _) \<Rightarrow> Fail e
      | (None, b') \<Rightarrow>
          (case push_samples detect samples (unat rate) ep of
             None \<Rightarrow> Panicked
           | Some (Inl e, _) \<Rightarrow> Fail (Core e)
           | Some (Inr events, ep') \<Rightarrow>
               attempt_bind (apply_vad_events re c rate events ce) (\<lambda>(out, ce').
               attempt_bind (caption_pieces l re c detect pieces b' ep' ce') (\<lambda>(out', r). Fine (out @ out', r)))))"

definition caption_stream ::
  "stream_limits \<Rightarrow> ('s, 'a) recogniser \<Rightarrow> chunking \<Rightarrow> ('v \<Rightarrow> 'a list \<Rightarrow> (string + bool) \<times> 'v) \<Rightarrow> 'a \<Rightarrow>
   ('a list \<times> u32) list \<Rightarrow> 'a list \<times> u32 \<Rightarrow> nat \<Rightarrow> ('a, 'v) vad_endpoint \<Rightarrow> u32 \<Rightarrow> caption_event list attempt" where
  "caption_stream l re c detect zero pieces final_audio now ep target =
     attempt_bind (caption_pieces l re c detect (pieces @ [final_audio]) (new_budget now) ep (new_caption_session target))
       (\<lambda>(out, _, ep', ce).
     attempt_bind (apply_vad_events re c (snd final_audio) (fst (finish_stream zero detect ep')) ce) (\<lambda>(out', ce').
     attempt_bind (complete_captions re ce') (\<lambda>(out'', _). Fine (out @ out' @ out''))))"

section \<open>Outcomes\<close>

text \<open>What a step that comes to a result promises; \<open>b\<close> says whether it may panic.\<close>

definition yields :: "bool \<Rightarrow> 'a attempt \<Rightarrow> ('a \<Rightarrow> bool) \<Rightarrow> bool" where
  "yields b m P = (case m of Fine x \<Rightarrow> P x | Fail _ \<Rightarrow> True | Panicked \<Rightarrow> b)"

lemma yields_simps [simp]:
  "yields b (Fine x) P \<longleftrightarrow> P x" "yields b (Fail e) P" "yields b Panicked P \<longleftrightarrow> b"
  by (simp_all add: yields_def)

lemma yields_bind: "yields b m P \<Longrightarrow> (\<And>x. P x \<Longrightarrow> yields b (f x) Q) \<Longrightarrow> yields b (attempt_bind m f) Q"
  by (cases m) (simp_all add: attempt_bind_def)

lemma yields_conseq: "yields b m P \<Longrightarrow> (\<And>x. P x \<Longrightarrow> Q x) \<Longrightarrow> yields b m Q"
  by (cases m) simp_all

lemma yields_ms: "b \<or> rate \<noteq> 0 \<Longrightarrow> yields b (sample_index_to_ms i rate) (\<lambda>ms. ms = i * 1000 mod 2 ^ 64 div unat rate)"
  by (auto simp: sample_index_to_ms_def)

lemma yields_id: "yields b (allocate_segment_id i) (\<lambda>(j, n). j = i \<and> n = i + 1)"
  by (simp add: allocate_segment_id_def)

section \<open>Budget and chunks\<close>

lemma record_binary_input_bounds:
  "record_binary_input l n b = (None, b') \<longleftrightarrow>
     bu_input_bytes b + n \<le> usize_max \<and> bu_input_bytes b + n \<le> li_max_input_bytes l
     \<and> b' = b\<lparr>bu_input_bytes := bu_input_bytes b + n\<rparr>"
  by (auto simp: record_binary_input_def Let_def)

text \<open>At the sample rate of the recogniser a sample lasts exactly 62500 nanoseconds.\<close>

lemma decoded_asr: "unat rate = asr_sample_rate \<Longrightarrow> decoded_audio_duration n rate = Inr (n * 62500)"
proof -
  assume r: "unat rate = asr_sample_rate"
  have "(n mod 16000) * 1000000000 div 16000 = n mod 16000 * 62500" by simp
  moreover have "n div 16000 * 16000 + n mod 16000 = n" by simp
  ultimately have e: "n div 16000 * 1000000000 + (n mod 16000) * 1000000000 div 16000 = n * 62500" by linarith
  have "(n mod 16000) * 1000000000 < 16000 * 1000000000" by simp
  then have "\<not> usize_max < (n mod 16000) * 1000000000" by (simp add: usize_max_def)
  then show ?thesis using r e by (simp add: decoded_audio_duration_def asr_sample_rate_def Let_def)
qed

lemma record_decoded_asr:
  assumes "record_decoded_samples l n rate b = (None, b')" "unat rate = asr_sample_rate"
  shows "bu_decoded_duration b' = bu_decoded_duration b + n * 62500 \<and> bu_decoded_duration b' \<le> li_max_duration l"
  using assms(1) unfolding record_decoded_samples_def decoded_asr [OF assms(2)]
  by (auto simp: Let_def split: if_splits)

lemma drain_chunks_whole:
  "drain_chunks n xs = (cs, rest) \<Longrightarrow> concat cs @ rest = xs \<and> (\<forall>c \<in> set cs. length c = n) \<and> (0 < n \<longrightarrow> length rest < n)"
proof (induction n xs arbitrary: cs rest rule: drain_chunks.induct)
  case (1 n xs)
  show ?case
  proof (cases "n = 0 \<or> length xs < n")
    case True
    then show ?thesis using 1(2) by (subst (asm) drain_chunks.simps) auto
  next
    case False
    obtain cs' rest' where d: "drain_chunks n (drop n xs) = (cs', rest')" by fastforce
    have "cs = take n xs # cs'" "rest = rest'"
      using 1(2) False d by (subst (asm) drain_chunks.simps, simp)+
    with 1(1) [OF False d] False show ?thesis by auto
  qed
qed

text \<open>A buffer never loses a sample, and gives it out once.\<close>

definition buffered_ok :: "'a pcm_buffer \<Rightarrow> bool" where
  "buffered_ok b \<longleftrightarrow> (pb_rate b = None \<longrightarrow> pb_samples b = [])"

lemma push_pcm_keeps:
  assumes "push_pcm c samples rate b = (Inr chunks, b')" "buffered_ok b"
  shows "concat (map fst chunks) @ pb_samples b' = pb_samples b @ samples \<and> buffered_ok b'"
proof -
  have "concat (map fst (map (\<lambda>xs. (xs, rate)) cs)) = concat cs" for cs :: "'a list list"
    by (induction cs) auto
  then show ?thesis using assms
    by (auto simp: push_pcm_def Let_def buffered_ok_def split: if_splits option.splits prod.splits
        dest!: drain_chunks_whole)
qed

lemma drain_remaining_keeps:
  "buffered_ok b \<Longrightarrow> drain_remaining b = (r, b') \<Longrightarrow>
   pb_samples b = (case r of None \<Rightarrow> [] | Some (xs, _) \<Rightarrow> xs) \<and> pb_samples b' = []"
  by (auto simp: drain_remaining_def buffered_ok_def split: if_splits option.splits)

section \<open>The order of captions\<close>

text \<open>Two events of which the first was sent before the second.\<close>

fun before :: "caption_event \<Rightarrow> caption_event \<Rightarrow> bool" where
  "before CaptionCompleted _ = False"
| "before _ CaptionCompleted = True"
| "before (CaptionFinal i _ _ e) (CaptionFinal j _ s _) = (i < j \<and> e \<le> s)"
| "before (CaptionFinal i _ _ _) (CaptionPartial j _) = (i < j)"
| "before (CaptionPartial i _) (CaptionFinal j _ _ _) = (i \<le> j)"
| "before (CaptionPartial i _) (CaptionPartial j _) = (i \<le> j)"

fun timely :: "caption_event \<Rightarrow> bool" where
  "timely (CaptionFinal _ _ s e) = (s \<le> e)"
| "timely _ = True"

definition in_order :: "caption_event list \<Rightarrow> bool" where
  "in_order out \<longleftrightarrow> sorted_wrt before out \<and> list_all timely out"

text \<open>An event after which segment \<open>i\<close> may be shown from time \<open>t\<close>.\<close>

fun reach :: "nat \<Rightarrow> nat \<Rightarrow> caption_event \<Rightarrow> bool" where
  "reach i t (CaptionFinal j _ _ e) = (j < i \<and> e \<le> t)"
| "reach i t (CaptionPartial j _) = (j \<le> i)"
| "reach i t CaptionCompleted = False"

lemma reach_mono: "list_all (reach i t) out \<Longrightarrow> i \<le> j \<Longrightarrow> t \<le> u \<Longrightarrow> list_all (reach j u) out"
proof (unfold list_all_iff, intro ballI)
  fix x assume "\<forall>x \<in> set out. reach i t x" "i \<le> j" "t \<le> u" "x \<in> set out"
  then show "reach j u x" by (cases x) force+
qed

lemma reach_before: "reach i t y \<Longrightarrow> before y (CaptionFinal i x t e) \<and> before y (CaptionPartial i x)"
  by (cases y) auto

lemma in_order_final:
  "in_order out \<Longrightarrow> list_all (reach i s) out \<Longrightarrow> s \<le> e \<Longrightarrow> in_order (out @ [CaptionFinal i x s e])"
  by (auto simp: in_order_def sorted_wrt_append list_all_iff reach_before)

lemma in_order_partial: "in_order out \<Longrightarrow> list_all (reach i t) out \<Longrightarrow> in_order (out @ [CaptionPartial i x])"
  by (auto simp: in_order_def sorted_wrt_append list_all_iff reach_before)

definition ms :: "u32 \<Rightarrow> nat \<Rightarrow> nat" where
  "ms rate k = k * 1000 div unat rate"

lemma ms_mono: "k \<le> m \<Longrightarrow> ms rate k \<le> ms rate m"
  by (simp add: ms_def div_le_mono)

lemma yields_ms_small:
  "i * 1000 < 2 ^ 64 \<Longrightarrow> b \<or> rate \<noteq> 0 \<Longrightarrow> yields b (sample_index_to_ms i rate) (\<lambda>t. t = ms rate i)"
  by (rule yields_conseq [OF yields_ms]) (auto simp: ms_def)

text \<open>What has been sent while a segment is open, and while none is.\<close>

definition open_inv :: "u32 \<Rightarrow> nat \<Rightarrow> caption_event list \<Rightarrow> ('s, 'a) caption_segment \<Rightarrow> bool" where
  "open_inv rate next_id out seg \<longleftrightarrow>
     in_order out \<and> list_all (reach (cs_id seg) (ms rate (cs_subtitle_start seg))) out
     \<and> cs_id seg < next_id \<and> cs_subtitle_start seg \<le> cs_last seg \<and> cs_rate seg = rate"

definition closed_inv :: "u32 \<Rightarrow> nat \<Rightarrow> nat \<Rightarrow> caption_event list \<Rightarrow> bool" where
  "closed_inv rate next_id low out \<longleftrightarrow> in_order out \<and> list_all (reach next_id (ms rate low)) out"

lemma final_event_yields:
  assumes "cs_subtitle_start seg \<le> k" "k * 1000 < 2 ^ 64"
  shows "yields True (final_event seg s k)
    (\<lambda>e. e = CaptionFinal (cs_id seg) s (ms (cs_rate seg) (cs_subtitle_start seg)) (ms (cs_rate seg) k))"
  unfolding final_event_def
  by (intro yields_bind [OF yields_ms_small] yields_bind [OF yields_ms_small]) (use assms in auto)

lemma open_inv_final:
  assumes "open_inv rate next_id out seg"
  shows "in_order (out @ [CaptionFinal (cs_id seg) s (ms rate (cs_subtitle_start seg)) (ms rate (cs_last seg))])"
    and "list_all (reach next_id (ms rate (cs_last seg)))
      (out @ [CaptionFinal (cs_id seg) s (ms rate (cs_subtitle_start seg)) (ms rate (cs_last seg))])"
  using assms by (auto simp: open_inv_def ms_mono intro: in_order_final reach_mono)

lemma open_inv_partial:
  "open_inv rate next_id out seg \<Longrightarrow> open_inv rate next_id (out @ [CaptionPartial (cs_id seg) s]) seg"
  by (auto simp: open_inv_def intro: in_order_partial)

lemma show_transcript_order:
  assumes o: "open_inv rate next_id out seg" and k: "cs_last seg * 1000 < 2 ^ 64"
  shows "yields True (show_transcript s next_id seg)
    (\<lambda>(out', next_id', seg'). open_inv rate next_id' (out @ out') seg' \<and> cs_last seg' = cs_last seg)"
  unfolding show_transcript_def
proof (rule yields_bind [OF yields_ms], simp, goal_cases)
  case (1 duration)
  show ?case
  proof (cases "observe_partial s duration (cs_splitter seg)")
    case (Some r)
    obtain final partial sp where r: "r = ((final, partial), sp)" by (metis prod.collapse)
    let ?Q = "\<lambda>(out', next_id', seg'). open_inv rate next_id' (out @ out') seg' \<and> cs_last seg' = cs_last seg"
    have "yields True
             (case final of
                None \<Rightarrow> Fine ([], next_id, seg\<lparr>cs_splitter := sp\<rparr>)
              | Some caption \<Rightarrow>
                  attempt_bind (final_event seg caption (cs_last seg)) (\<lambda>event.
                  attempt_bind (allocate_segment_id next_id) (\<lambda>(i, next_id').
                    Fine ([event], next_id', seg\<lparr>cs_splitter := sp, cs_id := i, cs_subtitle_start := cs_last seg\<rparr>)))) ?Q"
    proof (cases final)
      case None
      then show ?thesis using o by (simp add: open_inv_def)
    next
      case (Some caption)
      have "cs_subtitle_start seg \<le> cs_last seg" "cs_rate seg = rate" using o by (auto simp: open_inv_def)
      then show ?thesis
        unfolding Some option.case
        by (intro yields_bind [OF final_event_yields] yields_bind [OF yields_id])
          (use k open_inv_final [OF o, of caption] in \<open>auto simp: open_inv_def split: prod.splits\<close>)
    qed
    then show ?thesis
      unfolding Some r option.case prod.case
      by (rule yields_bind) (auto simp: open_inv_partial append_assoc [symmetric] simp del: append_assoc)
  qed simp
qed

lemma feed_captions_order:
  "open_inv rate next_id out seg \<Longrightarrow> cs_last seg * 1000 < 2 ^ 64 \<Longrightarrow>
   yields True (feed_captions re chunks next_id seg)
    (\<lambda>(out', next_id', seg'). open_inv rate next_id' (out @ out') seg' \<and> cs_last seg' = cs_last seg)"
proof (induction chunks arbitrary: next_id out seg)
  case (Cons chunk chunks)
  obtain xs r where c: "chunk = (xs, r)" by fastforce
  obtain answer st where f: "re_feed re (cs_stream seg) xs r = (answer, st)" by fastforce
  show ?case
  proof (cases answer)
    case (Inr transcript)
    let ?seg = "seg\<lparr>cs_stream := st\<rparr>"
    have o: "open_inv rate next_id out ?seg" "cs_last ?seg * 1000 < 2 ^ 64" using Cons.prems by (simp_all add: open_inv_def)
    have "yields True (case transcript of None \<Rightarrow> Fine ([], next_id, ?seg) | Some s \<Rightarrow> show_transcript s next_id ?seg)
      (\<lambda>(out', next_id', seg'). open_inv rate next_id' (out @ out') seg' \<and> cs_last seg' = cs_last ?seg)"
      using o show_transcript_order [OF o] by (cases transcript) simp_all
    then show ?thesis
      unfolding c feed_captions.simps f Inr prod.case sum.case
    proof (rule yields_bind, goal_cases)
      case (1 x)
      obtain out1 next1 seg1 where x: "x = (out1, next1, seg1)" by (metis prod.collapse)
      have o1: "open_inv rate next1 (out @ out1) seg1" "cs_last seg1 * 1000 < 2 ^ 64" "cs_last seg1 = cs_last seg"
        using 1 x o(2) by simp_all
      show ?case
        unfolding x prod.case by (rule yields_bind [OF Cons.IH [OF o1(1,2)]]) (use o1(3) in auto)
    qed
  qed (simp add: c f)
qed simp

text \<open>The session: at sample \<open>low\<close> of the stream.\<close>

definition told :: "u32 \<Rightarrow> nat \<Rightarrow> bool \<Rightarrow> caption_event list \<Rightarrow> ('s, 'a) caption_session \<Rightarrow> bool" where
  "told rate low opened out ce \<longleftrightarrow>
     (case ce_current ce of
        None \<Rightarrow> \<not> opened \<and> closed_inv rate (ce_next_id ce) low out
      | Some seg \<Rightarrow> opened \<and> open_inv rate (ce_next_id ce) out seg \<and> cs_last seg = low)"

lemma feed_segment_order:
  assumes t: "told rate low True out ce" and k: "(low + length samples) * 1000 < 2 ^ 64"
  shows "yields True (feed_current_segment re c samples rate ce)
    (\<lambda>(out', ce'). told rate (low + length samples) True (out @ out') ce')"
proof -
  obtain seg where seg: "ce_current ce = Some seg" "open_inv rate (ce_next_id ce) out seg" "cs_last seg = low"
    using t by (auto simp: told_def split: option.splits)
  obtain answer pcm where p: "push_pcm c samples rate (cs_pcm seg) = (answer, pcm)" by fastforce
  show ?thesis
  proof (cases "rate \<noteq> cs_rate seg \<or> usize_max < cs_last seg + length samples \<or> (\<exists>e. answer = Inl e)")
    case True
    then show ?thesis using seg(1) p by (auto simp: feed_current_segment_def)
  next
    case False
    then obtain chunks where a: "answer = Inr chunks" by (cases answer) auto
    let ?seg = "seg\<lparr>cs_last := cs_last seg + length samples, cs_pcm := pcm\<rparr>"
    have o: "open_inv rate (ce_next_id ce) out ?seg" "cs_last ?seg * 1000 < 2 ^ 64"
      using seg k by (auto simp: open_inv_def)
    have eq: "feed_current_segment re c samples rate ce = attempt_bind (feed_captions re chunks (ce_next_id ce) ?seg)
      (\<lambda>(out, next_id, seg'). Fine (out, ce\<lparr>ce_current := Some seg', ce_next_id := next_id\<rparr>))"
      using False seg(1) p a by (simp add: feed_current_segment_def)
    show ?thesis unfolding eq
      by (rule yields_bind [OF feed_captions_order [OF o]]) (use seg(3) in \<open>auto simp: told_def\<close>)
  qed
qed

lemma finalize_order:
  assumes o: "open_inv rate next_id out seg" and k: "cs_last seg * 1000 < 2 ^ 64"
  shows "yields True (finalize_segment re seg (cs_last seg)) (\<lambda>out'. closed_inv rate next_id (cs_last seg) (out @ out'))"
  unfolding finalize_segment_def
proof (rule yields_bind [where P = "\<lambda>_. True"], goal_cases)
  case 1
  show ?case by (auto simp: yields_def split: option.splits sum.splits prod.splits)
next
  case (2 stream)
  have s: "cs_subtitle_start seg \<le> cs_last seg" "cs_rate seg = rate" using o by (auto simp: open_inv_def)
  have e: "closed_inv rate next_id (cs_last seg) out" using o s
    by (auto simp: open_inv_def closed_inv_def ms_mono intro: reach_mono)
  show ?case
    by (intro yields_bind [OF yields_ms_small] yields_bind [OF yields_ms_small])
      (use s k e open_inv_final [OF o] in \<open>auto simp: closed_inv_def split: sum.splits option.splits\<close>)
qed

lemma close_order:
  assumes t: "told rate low opened out ce" and k: "low * 1000 < 2 ^ 64"
  shows "yields True (close_segment re low ce) (\<lambda>(out', ce'). told rate low False (out @ out') ce')"
proof (cases "ce_current ce")
  case None
  then show ?thesis using t by (simp add: close_segment_def told_def)
next
  case (Some seg)
  then have o: "open_inv rate (ce_next_id ce) out seg" "cs_last seg = low" using t by (auto simp: told_def)
  show ?thesis
    using Some o k finalize_order [of rate "ce_next_id ce" out seg re]
    by (auto simp: close_segment_def told_def intro!: yields_bind)
qed

section \<open>Events along the stream\<close>

text \<open>The position of the stream after some events of the endpoint, and whether a segment is open there.\<close>

fun walk :: "nat \<times> bool \<Rightarrow> 'a vad_event list \<Rightarrow> (nat \<times> bool) option" where
  "walk p [] = Some p"
| "walk (low, False) (SegmentStarted s xs # es) = (if low \<le> s then walk (s + length xs, True) es else None)"
| "walk (low, True) (Audio xs # es) = walk (low + length xs, True) es"
| "walk (low, True) (SegmentFinal s e # es) = (if e = low then walk (e, False) es else None)"
| "walk _ _ = None"

lemma walk_append: "walk p (es @ es') = Option.bind (walk p es) (\<lambda>q. walk q es')"
  by (induction p es rule: walk.induct) simp_all

lemma walk_mono: "walk p es = Some q \<Longrightarrow> fst p \<le> fst q"
  by (induction p es rule: walk.induct) (force split: if_splits)+

lemma walk_of_read:
  assumes "read_events opened es = Some (segs, opened')"
    and "\<forall>(s, e, ys) \<in> set segs. s \<le> e \<and> length ys = e - s \<and> e \<le> lim"
    and "sorted_wrt (\<lambda>(_, e, _) (s, _, _). e \<le> s) segs"
    and "case opened of None \<Rightarrow> \<forall>(s, _) \<in> set segs. low \<le> s | Some (s, ys) \<Rightarrow> low = s + length ys"
    and "case opened' of None \<Rightarrow> True
      | Some (s', ys') \<Rightarrow> (\<forall>(_, e, _) \<in> set segs. e \<le> s') \<and> s' + length ys' \<le> lim \<and> (opened = None \<longrightarrow> low \<le> s')"
    and "opened = None \<longrightarrow> low \<le> lim"
  shows "\<exists>k. walk (low, opened \<noteq> None) es = Some (k, opened' \<noteq> None) \<and> k \<le> lim"
  using assms
proof (induction opened es arbitrary: low segs rule: read_events.induct)
  case (1 opened)
  then show ?case by (cases opened) auto
next
  case (2 s xs es)
  have "low \<le> s"
  proof (cases segs)
    case Nil
    have "\<exists>ys. opened' = Some (s, ys)"
      using 2(2) Nil
    proof (induction "Some (s, xs)" es arbitrary: xs rule: read_events.induct)
    qed (auto split: if_splits)
    then show ?thesis using 2(6) by auto
  next
    case (Cons seg segs')
    have "fst seg = s"
      using 2(2) Cons
    proof (induction "Some (s, xs)" es arbitrary: xs rule: read_events.induct)
    qed (auto split: if_splits)
    then show ?thesis using 2(5) Cons by auto
  qed
  moreover have "\<exists>k. walk (s + length xs, Some (s, xs) \<noteq> None) es = Some (k, opened' \<noteq> None) \<and> k \<le> lim"
    by (rule 2(1) [OF _ 2(3,4)]) (use 2(2,6) in \<open>auto split: option.splits\<close>)
  ultimately show ?case by simp
next
  case (3 s ys xs es)
  have "\<exists>k. walk (low + length xs, Some (s, ys @ xs) \<noteq> None) es = Some (k, opened' \<noteq> None) \<and> k \<le> lim"
    by (rule 3(1) [OF _ 3(3,4)]) (use 3(2,5,6) in \<open>auto split: option.splits\<close>)
  then show ?case by simp
next
  case (4 s ys s' e es)
  obtain segs' where r: "s' = s" "read_events None es = Some (segs', opened')" "segs = (s, e, ys) # segs'"
    using 4(2) by (auto split: if_splits)
  have e: "e = low" using 4(3,5) r(3) by auto
  have "\<exists>k. walk (e, None \<noteq> (None :: (nat \<times> 'a list) option)) es = Some (k, opened' \<noteq> None) \<and> k \<le> lim"
    by (rule 4(1) [OF r(1,2)]) (use 4(3,4,6) r(3) in \<open>auto split: option.splits\<close>)
  then show ?case using r(1) e by simp
qed simp_all

lemma speech_in_length: "speech_in heard (s, e, ys) \<Longrightarrow> s \<le> e \<and> length ys = e - s \<and> e \<le> length heard"
  by (auto simp: speech_in_def)

lemma last_end_ge: "segs_ok heard segs \<Longrightarrow> (s, e, ys) \<in> set segs \<Longrightarrow> e \<le> last_end segs"
proof (induction segs rule: rev_induct)
  case (snoc seg segs)
  obtain s' e' ys' where seg: "seg = (s', e', ys')" by (metis prod.collapse)
  then show ?case using snoc.prems
    by (fastforce simp: segs_ok_def last_end_def sorted_wrt_append speech_in_def)
qed simp

lemma vad_inv_reading:
  assumes "vad_inv heard evs st"
  obtains segs opened where "read_events None evs = Some (segs, opened)" "segs_ok heard segs"
    "opened = None \<or> (\<exists>s. opened = Some (s, drop s heard) \<and> last_end segs \<le> s \<and> s \<le> length heard)"
proof (cases "vs_phase st")
  case Idle
  then show ?thesis using assms that by (fastforce simp: vad_inv_def)
next
  case (CandidateSpeech n)
  then show ?thesis using assms that by (fastforce simp: vad_inv_def)
next
  case (InSegment s n)
  then show ?thesis using assms that by (fastforce simp: vad_inv_def)
qed

lemma endpoint_walk:
  assumes "endpoint_inv stream evs ep"
  shows "\<exists>k o'. walk (0, False) evs = Some (k, o') \<and> k \<le> length stream"
proof -
  obtain heard where h: "stream = heard @ ve_pending_samples ep" "vad_inv heard evs (ve_state ep)"
    using assms by (auto simp: endpoint_inv_def)
  from vad_inv_reading [OF h(2)] obtain segs opened where r: "read_events None evs = Some (segs, opened)" "segs_ok heard segs"
    "opened = None \<or> (\<exists>s. opened = Some (s, drop s heard) \<and> last_end segs \<le> s \<and> s \<le> length heard)"
    by blast
  have "\<exists>k. walk (0, (None :: (nat \<times> 'a list) option) \<noteq> None) evs = Some (k, opened \<noteq> None) \<and> k \<le> length heard"
    by (rule walk_of_read [OF r(1)])
      (use r(2,3) last_end_ge [OF r(2)] speech_in_length in \<open>fastforce simp: segs_ok_def split: option.splits\<close>)+
  then show ?thesis using h(1) by fastforce
qed

lemma finish_walk:
  assumes "endpoint_inv stream evs ep" "finish_stream zero detect ep = (evs', ep')"
  shows "\<exists>k. walk (0, False) (evs @ evs') = Some (k, False) \<and> k \<le> length stream"
proof -
  obtain segs where r: "read_events None (evs @ evs') = Some (segs, None)" "segs_ok stream segs"
    using finish_stream_inv [OF assms] by blast
  have "\<exists>k. walk (0, (None :: (nat \<times> 'a list) option) \<noteq> None) (evs @ evs')
      = Some (k, (None :: (nat \<times> 'a list) option) \<noteq> None) \<and> k \<le> length stream"
    by (rule walk_of_read [OF r(1)]) (use r(2) speech_in_length in \<open>fastforce simp: segs_ok_def\<close>)+
  then show ?thesis by simp
qed

lemma told_later: "told rate low False out ce \<Longrightarrow> low \<le> s \<Longrightarrow> told rate s False out ce"
  by (auto simp: told_def closed_inv_def intro: reach_mono ms_mono split: option.splits)

lemma open_order:
  assumes "told rate s False out ce"
  shows "yields True (open_segment re s rate ce) (\<lambda>ce'. told rate s True out ce')"
  unfolding open_segment_def
proof (rule yields_bind [OF yields_id], clarify, goal_cases)
  case 1
  have "closed_inv rate (ce_next_id ce) s out" using assms by (auto simp: told_def split: option.splits)
  then show ?case
    by (cases "re_start re (ce_next_id ce)")
      (auto simp: told_def open_inv_def closed_inv_def new_segment_def)
qed

lemma apply_event_order:
  assumes "walk (low, opened) [event] = Some (k, opened')" "k * 1000 < 2 ^ 64" "told rate low opened out ce"
  shows "yields True (apply_vad_event re c rate event ce) (\<lambda>(out', ce'). told rate k opened' (out @ out') ce')"
proof (cases event)
  case (SegmentStarted s xs)
  then have w: "\<not> opened" "low \<le> s" "k = s + length xs" "opened'"
    using assms(1) by (cases opened; auto split: if_splits)+
  have t: "told rate s False out ce" using told_later [of rate low out ce s] assms(3) w by simp
  have s: "s * 1000 < 2 ^ 64" "(s + length xs) * 1000 < 2 ^ 64" using assms(2) w(3) by auto
  show ?thesis
    unfolding apply_vad_event_def SegmentStarted vad_event.case
  proof (rule yields_bind [OF close_order [OF t s(1)]], clarify, rule yields_bind [OF open_order], assumption, goal_cases)
    case (1 out1 ce1 ce2)
    show ?case
      by (rule yields_bind [OF feed_segment_order [OF 1(2) s(2)]]) (use w in auto)
  qed
next
  case (Audio xs)
  then have w: "opened" "k = low + length xs" "opened'" using assms(1) by (cases opened; auto)+
  then have t: "told rate low True out ce" "(low + length xs) * 1000 < 2 ^ 64" using assms(2,3) by auto
  show ?thesis unfolding apply_vad_event_def Audio vad_event.case
    by (rule yields_conseq [OF feed_segment_order [OF t]]) (use w in auto)
next
  case (SegmentFinal s e)
  then have w: "e = low" "k = e" "\<not> opened'" using assms(1) by (cases opened; auto split: if_splits)+
  then have t: "told rate low opened out ce" "low * 1000 < 2 ^ 64" using assms(2,3) by auto
  show ?thesis unfolding apply_vad_event_def SegmentFinal vad_event.case w(1)
    by (rule yields_conseq [OF close_order [OF t]]) (use w in auto)
qed

lemma walk_cons:
  assumes "walk p (e # es) = Some r"
  obtains q where "walk p [e] = Some q" "walk q es = Some r" "fst q \<le> fst r"
proof (cases "walk p [e]")
  case None
  then show ?thesis using assms walk_append [of p "[e]" es] by simp
next
  case (Some q)
  then have "walk q es = Some r" using assms walk_append [of p "[e]" es] by simp
  then show ?thesis using Some that [of q] walk_mono [of q es r] by simp
qed

lemma apply_events_order:
  "walk (low, opened) es = Some (k, opened') \<Longrightarrow> k * 1000 < 2 ^ 64 \<Longrightarrow> told rate low opened out ce \<Longrightarrow>
   yields True (apply_vad_events re c rate es ce) (\<lambda>(out', ce'). told rate k opened' (out @ out') ce')"
proof (induction es arbitrary: low opened out ce)
  case (Cons e es)
  from walk_cons [OF Cons.prems(1)] obtain m o1 where w: "walk (low, opened) [e] = Some (m, o1)"
    "walk (m, o1) es = Some (k, opened')" "m \<le> k" by (metis fst_conv surj_pair)
  then have m: "m * 1000 < 2 ^ 64" using Cons.prems(2) by linarith
  show ?case
    unfolding apply_vad_events.simps
  proof (rule yields_bind [OF apply_event_order [OF w(1) m Cons.prems(3)]], clarify, goal_cases)
    case (1 out1 ce1)
    show ?case by (rule yields_bind [OF Cons.IH [OF w(2) Cons.prems(2) 1]]) auto
  qed
qed simp

lemma asr_rate: "unat (rate :: u32) = asr_sample_rate \<Longrightarrow> rate = 16000"
  by (rule unsigned_word_eqI) (simp add: asr_sample_rate_def)

text \<open>The whole of a stream up to some point.\<close>

definition pipe_inv ::
  "stream_limits \<Rightarrow> 'a list \<Rightarrow> 'a vad_event list \<Rightarrow> caption_event list \<Rightarrow> stream_budget \<Rightarrow> ('a, 'v) vad_endpoint \<Rightarrow>
   ('s, 'a) caption_session \<Rightarrow> bool" where
  "pipe_inv l stream evs out b ep ce \<longleftrightarrow>
     endpoint_inv stream evs ep \<and> bu_decoded_duration b = length stream * 62500
     \<and> bu_decoded_duration b \<le> li_max_duration l
     \<and> (\<exists>k opened. walk (0, False) evs = Some (k, opened) \<and> told 16000 k opened out ce)"

lemma small_stream: "n * 62500 \<le> m \<Longrightarrow> m < 2 ^ 69 \<Longrightarrow> (n :: nat) * 1000 < 2 ^ 64"
  by simp

lemma pieces_order:
  "pipe_inv l stream evs out b ep ce \<Longrightarrow> li_max_duration l < 2 ^ 69 \<Longrightarrow>
   yields True (caption_pieces l re c detect pieces b ep ce)
    (\<lambda>(out', b', ep', ce'). (\<exists>evs'. pipe_inv l (stream @ concat (map fst pieces)) evs' (out @ out') b' ep' ce')
       \<and> (\<forall>p \<in> set pieces. snd p = 16000))"
proof (induction pieces arbitrary: stream evs out b ep ce)
  case (Cons piece pieces)
  obtain samples rate where p: "piece = (samples, rate)" by fastforce
  obtain answer b1 where b: "record_decoded_samples l (length samples) rate b = (answer, b1)" by fastforce
  show ?case
  proof (cases "answer = None \<and> (\<exists>evs1 ep1. push_samples detect samples (unat rate) ep = Some (Inr evs1, ep1))")
    case False
    then show ?thesis unfolding p caption_pieces.simps b prod.case
      by (auto simp: yields_def split: option.splits sum.splits prod.splits)
  next
    case True
    then obtain evs1 ep1 where v: "answer = None" "push_samples detect samples (unat rate) ep = Some (Inr evs1, ep1)"
      by blast
    then have r: "unat rate = asr_sample_rate" by (auto simp: push_samples_def split: if_splits)
    then have "rate = 16000" by (rule asr_rate)
    have e: "endpoint_inv (stream @ samples) (evs @ evs1) ep1"
      using push_samples_inv [of detect samples ep evs1 ep1 stream evs] v(2) r Cons.prems(1) by (simp add: pipe_inv_def)
    have d: "bu_decoded_duration b1 = length (stream @ samples) * 62500" "bu_decoded_duration b1 \<le> li_max_duration l"
      using record_decoded_asr [OF b [unfolded v(1)] r] Cons.prems(1) by (auto simp: pipe_inv_def)
    from endpoint_walk [OF e] obtain k o1 where k: "walk (0, False) (evs @ evs1) = Some (k, o1)" "k \<le> length (stream @ samples)"
      by blast
    have small: "k * 1000 < 2 ^ 64" using small_stream [of "length (stream @ samples)"] d k(2) Cons.prems(2) by simp
    obtain low o0 where t: "walk (0, False) evs = Some (low, o0)" "told 16000 low o0 out ce"
      using Cons.prems(1) by (auto simp: pipe_inv_def)
    have w: "walk (low, o0) evs1 = Some (k, o1)" using k(1) t(1) by (simp add: walk_append)
    have eq: "caption_pieces l re c detect (piece # pieces) b ep ce = attempt_bind (apply_vad_events re c 16000 evs1 ce)
      (\<lambda>(out, ce'). attempt_bind (caption_pieces l re c detect pieces b1 ep1 ce') (\<lambda>(out', r). Fine (out @ out', r)))"
      using v b \<open>rate = 16000\<close> by (simp add: p)
    show ?thesis
      unfolding eq
    proof (rule yields_bind [OF apply_events_order [OF w small t(2)]], clarify, goal_cases)
      case (1 out1 ce1)
      have "pipe_inv l (stream @ samples) (evs @ evs1) (out @ out1) b1 ep1 ce1"
        using e d k(1) 1 by (auto simp: pipe_inv_def)
      from Cons.IH [OF this Cons.prems(2)] show ?case
        by (rule yields_bind) (use p \<open>rate = 16000\<close> in auto)
    qed
  qed
qed auto

text \<open>C31.  Whatever recogniser, detector and pieces of audio a stream has: a stream that completes ends with the event
  that says so, and only there.  The captions before it are in order: the segments that become final have growing
  numbers, none begins before the one before it ended, or ends before it began, and no text is shown of a segment
  after it became final.  No caption ends after the maximum duration of a stream.\<close>

theorem captions_are_in_order:
  assumes "caption_stream l re c detect zero pieces final_audio now (new_endpoint config n v) target = Fine out"
    and "li_max_duration l < 2 ^ 69"
  shows "in_order out \<and> last out = CaptionCompleted
    \<and> (\<forall>i s start_ms end_ms. CaptionFinal i s start_ms end_ms \<in> set out \<longrightarrow> end_ms * 1000000 \<le> li_max_duration l)"
proof -
  let ?P = "\<lambda>out. in_order out \<and> last out = CaptionCompleted
    \<and> (\<forall>i s start_ms end_ms. CaptionFinal i s start_ms end_ms \<in> set out \<longrightarrow> end_ms * 1000000 \<le> li_max_duration l)"
  have start: "pipe_inv l [] [] [] (new_budget now) (new_endpoint config n v) (new_caption_session target)"
    by (simp add: pipe_inv_def new_endpoint_inv new_budget_def new_caption_session_def told_def closed_inv_def in_order_def) blast
  have "yields True (caption_stream l re c detect zero pieces final_audio now (new_endpoint config n v) target) ?P"
    unfolding caption_stream_def
  proof (rule yields_bind [OF pieces_order [OF start assms(2)]], clarify, goal_cases)
    case (1 out1 b1 ep1 ce1 evs1)
    then have inv: "pipe_inv l (concat (map fst (pieces @ [final_audio]))) evs1 out1 b1 ep1 ce1" "snd final_audio = 16000" by auto
    obtain evs2 ep2 where fin: "finish_stream zero detect ep1 = (evs2, ep2)" by fastforce
    obtain low o0 where t: "walk (0, False) evs1 = Some (low, o0)" "told 16000 low o0 out1 ce1"
      using inv(1) by (auto simp: pipe_inv_def)
    have "endpoint_inv (concat (map fst (pieces @ [final_audio]))) evs1 ep1" using inv(1) by (simp add: pipe_inv_def)
    from finish_walk [OF this fin] obtain k where k: "walk (0, False) (evs1 @ evs2) = Some (k, False)"
      "k \<le> length (concat (map fst (pieces @ [final_audio])))" by blast
    have d: "length (concat (map fst (pieces @ [final_audio]))) * 62500 \<le> li_max_duration l"
      using inv(1) by (simp add: pipe_inv_def)
    have small: "k * 1000 < 2 ^ 64" "ms 16000 k * 1000000 \<le> li_max_duration l"
      using small_stream [of k] k(2) d assms(2) by (simp_all add: ms_def)
    have w: "walk (low, o0) evs2 = Some (k, False)" using k(1) t(1) by (simp add: walk_append)
    show ?case
      unfolding fin fst_conv inv(2)
    proof (rule yields_bind [OF apply_events_order [OF w small(1) t(2)]], clarify, goal_cases)
      case (1 out2 ce2)
      then have c: "ce_current ce2 = None" "closed_inv 16000 (ce_next_id ce2) k (out1 @ out2)"
        by (auto simp: told_def split: option.splits)
      have "before e CaptionCompleted" if "e \<in> set (out1 @ out2)" for e
      proof -
        have "reach (ce_next_id ce2) (ms 16000 k) e" using that c(2) by (auto simp: closed_inv_def list_all_iff)
        then show ?thesis by (cases e) auto
      qed
      then have o: "in_order ((out1 @ out2) @ [CaptionCompleted])"
        using c(2) unfolding closed_inv_def in_order_def by (auto simp: sorted_wrt_append)
      have "end_ms \<le> ms 16000 k" if "CaptionFinal i s start_ms end_ms \<in> set (out1 @ out2)" for i s start_ms end_ms
        using that c(2) unfolding closed_inv_def list_all_iff by (metis reach.simps(1))
      then have "end_ms * 1000000 \<le> li_max_duration l" if "CaptionFinal i s start_ms end_ms \<in> set (out1 @ out2)" for i s start_ms end_ms
        using that small(2) by (meson le_trans mult_le_mono1)
      then show ?case using o by (auto simp: complete_captions_def c(1) attempt_bind_def)
    qed
  qed
  then show ?thesis unfolding assms(1) by simp
qed

section \<open>The text of captions\<close>

fun caption_text :: "caption_event \<Rightarrow> unicode" where
  "caption_text (CaptionFinal _ s _ _) = s"
| "caption_text _ = []"

definition caption_texts :: "caption_event list \<Rightarrow> unicode" where
  "caption_texts out = concat (map caption_text out)"

lemma caption_texts_simps [simp]:
  "caption_texts [] = []" "caption_texts (e # out) = caption_text e @ caption_texts out"
  "caption_texts (out @ out') = caption_texts out @ caption_texts out'"
  by (simp_all add: caption_texts_def)

text \<open>A recogniser that writes down what it heard, without white space, and never takes back what it wrote.\<close>

definition transcribes :: "('s, 'a) recogniser \<Rightarrow> ('s \<Rightarrow> 'a list) \<Rightarrow> ('a list \<Rightarrow> unicode) \<Rightarrow> bool" where
  "transcribes re hear f \<longleftrightarrow>
     (\<forall>i st. re_start re i = Inr st \<longrightarrow> hear st = [])
     \<and> (\<forall>st xs rate r st'. re_feed re st xs rate = (Inr r, st') \<longrightarrow>
          hear st' = hear st @ xs \<and> (\<forall>s. r = Some s \<longrightarrow> s = f (hear st')))
     \<and> (\<forall>st s. re_finish re st = Inr s \<longrightarrow> s = f (hear st))
     \<and> (\<forall>xs ys. prefix (f xs) (f (xs @ ys))) \<and> (\<forall>xs. list_all (\<lambda>c. \<not> white_space c) (f xs))"

lemma transcribes_feed:
  "transcribes re hear f \<Longrightarrow> re_feed re st xs rate = (Inr r, st') \<Longrightarrow>
   hear st' = hear st @ xs \<and> (\<forall>s. r = Some s \<longrightarrow> s = f (hear st'))"
  unfolding transcribes_def by blast

lemma transcribes_grows: "transcribes re hear f \<Longrightarrow> prefix p (f xs) \<Longrightarrow> prefix p (f (xs @ ys))"
  unfolding transcribes_def by (meson prefix_order.trans)

lemma transcribes_dense: "transcribes re hear f \<Longrightarrow> list_all (\<lambda>c. \<not> white_space c) (f xs)"
  unfolding transcribes_def by blast

text \<open>The text that is final is what the splitter committed, and the beginning of what was heard.\<close>

definition committed_ok :: "('s \<Rightarrow> 'a list) \<Rightarrow> ('a list \<Rightarrow> unicode) \<Rightarrow> ('s, 'a) caption_segment \<Rightarrow> bool" where
  "committed_ok hear f seg \<longleftrightarrow> prefix (sp_committed (cs_splitter seg)) (f (hear (cs_stream seg))) \<and> cs_rate seg \<noteq> 0"

lemma final_event_text: "cs_rate seg \<noteq> 0 \<Longrightarrow> yields False (final_event seg s k) (\<lambda>e. caption_text e = s)"
  unfolding final_event_def by (intro yields_bind [OF yields_ms] yields_bind [OF yields_ms]) auto

lemma show_transcript_text:
  assumes t: "transcribes re hear f" and ok: "committed_ok hear f seg" and s: "s = f (hear (cs_stream seg))"
  shows "yields False (show_transcript s next_id seg)
    (\<lambda>(out, _, seg'). committed_ok hear f seg' \<and> cs_stream seg' = cs_stream seg \<and> cs_pcm seg' = cs_pcm seg
       \<and> sp_committed (cs_splitter seg') = sp_committed (cs_splitter seg) @ caption_texts out)"
  unfolding show_transcript_def
proof (rule yields_bind [OF yields_ms], use ok in \<open>simp add: committed_ok_def\<close>, goal_cases)
  case (1 duration)
  have "list_all (\<lambda>c. \<not> white_space c) s" using transcribes_dense [OF t] s by simp
  from observe_dense [OF this, of "cs_splitter seg" duration] ok s
  obtain final partial sp where o: "observe_partial s duration (cs_splitter seg) = Some ((final, partial), sp)"
    "sp_committed sp = sp_committed (cs_splitter seg) @ (case final of None \<Rightarrow> [] | Some c \<Rightarrow> c)"
    "prefix (sp_committed sp) s" by (metis committed_ok_def prefixI)
  have rate: "cs_rate seg \<noteq> 0" using ok by (simp add: committed_ok_def)
  let ?Q = "\<lambda>(out, _ :: nat, seg'). committed_ok hear f seg' \<and> cs_stream seg' = cs_stream seg \<and> cs_pcm seg' = cs_pcm seg
       \<and> sp_committed (cs_splitter seg') = sp_committed (cs_splitter seg) @ caption_texts out"
  have "yields False
             (case final of
                None \<Rightarrow> Fine ([], next_id, seg\<lparr>cs_splitter := sp\<rparr>)
              | Some caption \<Rightarrow>
                  attempt_bind (final_event seg caption (cs_last seg)) (\<lambda>event.
                  attempt_bind (allocate_segment_id next_id) (\<lambda>(i, next_id').
                    Fine ([event], next_id', seg\<lparr>cs_splitter := sp, cs_id := i, cs_subtitle_start := cs_last seg\<rparr>)))) ?Q"
  proof (cases final)
    case None
    then show ?thesis using o(2,3) rate s by (simp add: committed_ok_def)
  next
    case (Some caption)
    then show ?thesis
      unfolding Some option.case
      by (intro yields_bind [OF final_event_text [OF rate]] yields_bind [OF yields_id])
        (use o(2,3) rate s Some in \<open>auto simp: committed_ok_def split: prod.splits\<close>)
  qed
  then show ?case
    unfolding o(1) option.case prod.case by (rule yields_bind) auto
qed

lemma feed_captions_text:
  assumes t: "transcribes re hear f"
  shows "committed_ok hear f seg \<Longrightarrow> yields False (feed_captions re chunks next_id seg)
    (\<lambda>(out, _, seg'). committed_ok hear f seg' \<and> hear (cs_stream seg') = hear (cs_stream seg) @ concat (map fst chunks)
       \<and> cs_pcm seg' = cs_pcm seg
       \<and> sp_committed (cs_splitter seg') = sp_committed (cs_splitter seg) @ caption_texts out)"
proof (induction chunks arbitrary: next_id seg)
  case (Cons chunk chunks)
  obtain xs r where c: "chunk = (xs, r)" by fastforce
  obtain answer st where f: "re_feed re (cs_stream seg) xs r = (answer, st)" by fastforce
  show ?case
  proof (cases answer)
    case (Inr transcript)
    let ?seg = "seg\<lparr>cs_stream := st\<rparr>"
    let ?Q = "\<lambda>(out, _ :: nat, seg'). committed_ok hear f seg' \<and> cs_stream seg' = cs_stream ?seg \<and> cs_pcm seg' = cs_pcm seg
       \<and> sp_committed (cs_splitter seg') = sp_committed (cs_splitter seg) @ caption_texts out"
    have h: "hear st = hear (cs_stream seg) @ xs" "\<And>s. transcript = Some s \<Longrightarrow> s = f (hear st)"
      using transcribes_feed [OF t f [unfolded Inr]] by auto
    have ok: "committed_ok hear f ?seg"
      using Cons.prems transcribes_grows [OF t] h(1) by (simp add: committed_ok_def)
    have "yields False (case transcript of None \<Rightarrow> Fine ([], next_id, ?seg) | Some s \<Rightarrow> show_transcript s next_id ?seg) ?Q"
      using ok show_transcript_text [OF t ok, of _ next_id] h(2) by (cases transcript) auto
    then show ?thesis
      unfolding c feed_captions.simps f Inr prod.case sum.case
    proof (rule yields_bind, clarify, goal_cases)
      case (1 out1 next1 seg1)
      show ?case by (rule yields_bind [OF Cons.IH [OF 1(2)]]) (use 1 h(1) in auto)
    qed
  qed (simp add: c f)
qed simp

lemma finalize_text:
  assumes t: "transcribes re hear f" and ok: "committed_ok hear f seg" "buffered_ok (cs_pcm seg)"
  shows "yields False (finalize_segment re seg k)
    (\<lambda>out. sp_committed (cs_splitter seg) @ caption_texts out = f (hear (cs_stream seg) @ pb_samples (cs_pcm seg)))"
proof -
  let ?ys = "hear (cs_stream seg) @ pb_samples (cs_pcm seg)"
  obtain r pcm where d: "drain_remaining (cs_pcm seg) = (r, pcm)" by fastforce
  have r: "pb_samples (cs_pcm seg) = (case r of None \<Rightarrow> [] | Some (xs, _) \<Rightarrow> xs)"
    using drain_remaining_keeps [OF ok(2) d] by simp
  have rate: "cs_rate seg \<noteq> 0" using ok(1) by (simp add: committed_ok_def)
  have p: "prefix (sp_committed (cs_splitter seg)) (f ?ys)"
    using ok(1) transcribes_grows [OF t] by (simp add: committed_ok_def)
  then obtain u where u: "f ?ys = sp_committed (cs_splitter seg) @ u" by (auto simp: prefix_def)
  have "list_all (\<lambda>c. \<not> white_space c) (f ?ys)" by (rule transcribes_dense [OF t])
  then have tr: "trim (f ?ys) = f ?ys" "trim u = u" using u by (auto intro: trim_none)
  have fl: "fst (flush_text (f ?ys) (cs_splitter seg)) = (if u = [] then None else Some u)"
    using tr u by (simp add: flush_text_def uncommitted_text_def strip_str_prefix_def Let_def)
  show ?thesis
    unfolding finalize_segment_def d fst_conv
  proof (rule yields_bind [where P = "\<lambda>st. hear st = ?ys"], goal_cases)
    case 1
    show ?case
    proof (cases r)
      case (Some q)
      obtain xs m where q: "q = (xs, m)" by fastforce
      obtain answer st where f: "re_feed re (cs_stream seg) xs m = (answer, st)" by fastforce
      show ?thesis using transcribes_feed [OF t] f r Some q by (cases answer) auto
    qed (use r in simp)
  next
    case (2 st)
    have "s = f ?ys" if "re_finish re st = Inr s" for s using t that 2 unfolding transcribes_def by metis
    then show ?case
      by (intro yields_bind [OF yields_ms] yields_bind [OF yields_ms])
        (use rate fl u in \<open>auto simp: yields_def split: sum.splits\<close>)
  qed
qed

text \<open>The session, after the segments \<open>segs\<close> and the open one.\<close>

definition tells ::
  "('s \<Rightarrow> 'a list) \<Rightarrow> ('a list \<Rightarrow> unicode) \<Rightarrow> 'a segment list \<Rightarrow> (nat \<times> 'a list) option \<Rightarrow> caption_event list \<Rightarrow>
   ('s, 'a) caption_session \<Rightarrow> bool" where
  "tells hear f segs opened out ce \<longleftrightarrow>
     (case ce_current ce of
        None \<Rightarrow> opened = None \<and> caption_texts out = concat (map (\<lambda>(_, _, ys). f ys) segs)
      | Some seg \<Rightarrow>
          committed_ok hear f seg \<and> buffered_ok (cs_pcm seg)
          \<and> map_option snd opened = Some (hear (cs_stream seg) @ pb_samples (cs_pcm seg))
          \<and> caption_texts out = concat (map (\<lambda>(_, _, ys). f ys) segs) @ sp_committed (cs_splitter seg))"

lemma feed_segment_text:
  assumes t: "transcribes re hear f" and told: "tells hear f segs (Some (s, ys)) out ce"
  shows "yields False (feed_current_segment re c samples rate ce)
    (\<lambda>(out', ce'). tells hear f segs (Some (s, ys @ samples)) (out @ out') ce')"
proof -
  obtain seg where seg: "ce_current ce = Some seg" "committed_ok hear f seg" "buffered_ok (cs_pcm seg)"
    "ys = hear (cs_stream seg) @ pb_samples (cs_pcm seg)"
    "caption_texts out = concat (map (\<lambda>(_, _, ys). f ys) segs) @ sp_committed (cs_splitter seg)"
    using told by (auto simp: tells_def split: option.splits)
  obtain answer pcm where p: "push_pcm c samples rate (cs_pcm seg) = (answer, pcm)" by fastforce
  show ?thesis
  proof (cases "rate \<noteq> cs_rate seg \<or> usize_max < cs_last seg + length samples \<or> (\<exists>e. answer = Inl e)")
    case True
    then show ?thesis using seg(1) p by (auto simp: feed_current_segment_def)
  next
    case False
    then obtain chunks where a: "answer = Inr chunks" by (cases answer) auto
    let ?seg = "seg\<lparr>cs_last := cs_last seg + length samples, cs_pcm := pcm\<rparr>"
    have ok: "committed_ok hear f ?seg" using seg(2) by (simp add: committed_ok_def)
    have k: "concat (map fst chunks) @ pb_samples pcm = pb_samples (cs_pcm seg) @ samples" "buffered_ok pcm"
      using push_pcm_keeps [OF p [unfolded a] seg(3)] by simp_all
    have eq: "feed_current_segment re c samples rate ce = attempt_bind (feed_captions re chunks (ce_next_id ce) ?seg)
      (\<lambda>(out, next_id, seg'). Fine (out, ce\<lparr>ce_current := Some seg', ce_next_id := next_id\<rparr>))"
      using False seg(1) p a by (simp add: feed_current_segment_def)
    show ?thesis unfolding eq
      by (rule yields_bind [OF feed_captions_text [OF t ok]]) (use k seg(4,5) in \<open>auto simp: tells_def\<close>)
  qed
qed

lemma close_text:
  assumes t: "transcribes re hear f" and told: "tells hear f segs opened out ce"
  shows "yields False (close_segment re k ce)
    (\<lambda>(out', ce'). tells hear f (segs @ (case opened of None \<Rightarrow> [] | Some (s, ys) \<Rightarrow> [(s, k, ys)])) None (out @ out') ce')"
proof (cases "ce_current ce")
  case None
  then show ?thesis using told by (simp add: close_segment_def tells_def)
next
  case (Some seg)
  then obtain s where ok: "committed_ok hear f seg" "buffered_ok (cs_pcm seg)"
    "opened = Some (s, hear (cs_stream seg) @ pb_samples (cs_pcm seg))"
    "caption_texts out = concat (map (\<lambda>(_, _, ys). f ys) segs) @ sp_committed (cs_splitter seg)"
    using told by (auto simp: tells_def)
  show ?thesis unfolding close_segment_def Some option.case
    by (rule yields_bind [OF finalize_text [OF t ok(1,2)]]) (use ok in \<open>auto simp: tells_def\<close>)
qed

lemma open_text:
  assumes "transcribes re hear f" "tells hear f segs None out ce" "rate \<noteq> 0"
  shows "yields False (open_segment re s rate ce) (\<lambda>ce'. tells hear f segs (Some (s, [])) out ce')"
proof -
  have "ce_current ce = None" "caption_texts out = concat (map (\<lambda>(_, _, ys). f ys) segs)"
    using assms(2) by (auto simp: tells_def split: option.splits)
  moreover have "hear st = []" if "re_start re i = Inr st" for i st using assms(1) that unfolding transcribes_def by blast
  ultimately show ?thesis
    unfolding open_segment_def
    by (intro yields_bind [OF yields_id])
      (use assms(3) in \<open>auto simp: tells_def committed_ok_def new_segment_def new_splitter_def new_pcm_buffer_def
        buffered_ok_def split: sum.splits simp: yields_def\<close>)
qed

lemma start_event_text:
  assumes t: "transcribes re hear f" and rate: "rate \<noteq> 0" and told: "tells hear f segs None out ce"
  shows "yields False (apply_vad_event re c rate (SegmentStarted s xs) ce)
    (\<lambda>(out', ce'). tells hear f segs (Some (s, xs)) (out @ out') ce')"
  unfolding apply_vad_event_def vad_event.case
proof (rule yields_bind [OF close_text [OF t told]], clarify, goal_cases)
  case (1 out1 ce1)
  then have "tells hear f segs None (out @ out1) ce1" by simp
  then show ?case
  proof (rule yields_bind [OF open_text [OF t _ rate]], goal_cases)
    case (1 ce2)
    show ?case by (rule yields_bind [OF feed_segment_text [OF t 1]]) auto
  qed
qed

lemma apply_events_text:
  assumes t: "transcribes re hear f" and rate: "rate \<noteq> 0"
  shows "read_events opened es = Some (segs', opened') \<Longrightarrow> tells hear f segs opened out ce \<Longrightarrow>
    yields False (apply_vad_events re c rate es ce) (\<lambda>(out', ce'). tells hear f (segs @ segs') opened' (out @ out') ce')"
proof (induction opened es arbitrary: segs segs' out ce rule: read_events.induct)
  case (2 s xs es)
  have r: "read_events (Some (s, xs)) es = Some (segs', opened')" using 2(2) by simp
  show ?case
    unfolding apply_vad_events.simps
  proof (rule yields_bind [OF start_event_text [OF t rate 2(3)]], clarify, goal_cases)
    case (1 out1 ce1)
    show ?case by (rule yields_bind [OF 2(1) [OF r 1]]) auto
  qed
next
  case (3 s ys xs es)
  have r: "read_events (Some (s, ys @ xs)) es = Some (segs', opened')" using 3(2) by simp
  show ?case
    unfolding apply_vad_events.simps apply_vad_event_def vad_event.case
  proof (rule yields_bind [OF feed_segment_text [OF t 3(3)]], clarify, goal_cases)
    case (1 out1 ce1)
    show ?case by (rule yields_bind [OF 3(1) [OF r 1]]) auto
  qed
next
  case (4 s ys s' e es)
  obtain segs2 where r: "s' = s" "read_events None es = Some (segs2, opened')" "segs' = (s, e, ys) # segs2"
    using 4(2) by (auto split: if_splits)
  show ?case
    unfolding apply_vad_events.simps apply_vad_event_def vad_event.case
  proof (rule yields_bind [OF close_text [OF t 4(3)]], clarify, goal_cases)
    case (1 out1 ce1)
    show ?case by (rule yields_bind [OF 4(1) [OF r(1,2) 1]]) (use r(3) in auto)
  qed
qed simp_all

lemma read_more:
  assumes "read_events None (evs @ evs') = Some (segs', opened')" "read_events None evs = Some (segs, opened)"
  obtains segs2 where "segs' = segs @ segs2" "read_events opened evs' = Some (segs2, opened')"
  using assms by (auto simp: read_events_append)

lemma endpoint_reading:
  assumes "endpoint_inv stream evs ep"
  obtains segs opened where "read_events None evs = Some (segs, opened)"
  using assms vad_inv_reading unfolding endpoint_inv_def by metis

lemma pieces_text:
  assumes t: "transcribes re hear f" and n: "0 < n"
  shows "endpoint_inv stream evs ep \<Longrightarrow> endpoint_bounded config n ep \<Longrightarrow> read_events None evs = Some (segs, opened) \<Longrightarrow>
    tells hear f segs opened out ce \<Longrightarrow>
    yields False (caption_pieces l re c detect pieces b ep ce)
     (\<lambda>(out', _, ep', ce'). (\<exists>evs' segs' opened'. push_all detect (map fst pieces) ep = Some (Inr evs', ep')
        \<and> endpoint_inv (stream @ concat (map fst pieces)) (evs @ evs') ep'
        \<and> read_events None (evs @ evs') = Some (segs', opened') \<and> tells hear f segs' opened' (out @ out') ce')
      \<and> (\<forall>p \<in> set pieces. snd p = 16000))"
proof (induction pieces arbitrary: stream evs ep segs opened out ce b)
  case (Cons piece pieces)
  obtain samples rate where p: "piece = (samples, rate)" by fastforce
  obtain answer b1 where b: "record_decoded_samples l (length samples) rate b = (answer, b1)" by fastforce
  show ?case
  proof (cases "answer = None \<and> (\<exists>evs1 ep1. push_samples detect samples (unat rate) ep = Some (Inr evs1, ep1))")
    case False
    have "\<exists>result ep1. push_samples detect samples (unat rate) ep = Some (result, ep1)"
      using push_samples_bounded [OF Cons.prems(2) n, of detect samples] by (cases "unat rate = asr_sample_rate") (auto simp: push_samples_def)
    then show ?thesis using False unfolding p caption_pieces.simps b prod.case
      by (auto simp: yields_def split: option.splits sum.splits prod.splits)
  next
    case True
    then obtain evs1 ep1 where v: "answer = None" "push_samples detect samples (unat rate) ep = Some (Inr evs1, ep1)"
      by blast
    then have r: "unat rate = asr_sample_rate" by (auto simp: push_samples_def split: if_splits)
    then have rate: "rate = 16000" by (rule asr_rate)
    have v': "push_samples detect samples asr_sample_rate ep = Some (Inr evs1, ep1)" using v(2) r by simp
    have e: "endpoint_inv (stream @ samples) (evs @ evs1) ep1" by (rule push_samples_inv [OF v' Cons.prems(1)])
    have bounded: "endpoint_bounded config n ep1"
      using push_samples_bounded [OF Cons.prems(2) n, of detect samples] v' by auto
    from endpoint_reading [OF e] obtain segs1 opened1 where r1: "read_events None (evs @ evs1) = Some (segs1, opened1)" .
    from read_more [OF r1 Cons.prems(3)] obtain segs2 where
      r2: "segs1 = segs @ segs2" "read_events opened evs1 = Some (segs2, opened1)" .
    have eq: "caption_pieces l re c detect (piece # pieces) b ep ce = attempt_bind (apply_vad_events re c 16000 evs1 ce)
      (\<lambda>(out, ce'). attempt_bind (caption_pieces l re c detect pieces b1 ep1 ce') (\<lambda>(out', r). Fine (out @ out', r)))"
      using v b rate by (simp add: p)
    show ?thesis
      unfolding eq
    proof (rule yields_bind [OF apply_events_text [OF t _ r2(2) Cons.prems(4)]], simp, clarify, goal_cases)
      case (1 out1 ce1)
      then have told: "tells hear f segs1 opened1 (out @ out1) ce1" using r2(1) by simp
      show ?case
        by (rule yields_bind [OF Cons.IH [OF e bounded r1 told]])
          (use p rate v' in \<open>fastforce simp: append_assoc\<close>)
    qed
  qed
qed auto


section \<open>A stream in full\<close>

text \<open>The speech of theory \<open>Streaming_Vad\<close>'s sample stream, transcribed by a recogniser that writes a full stop
  after every fourth sample.\<close>

definition sample_transcript :: "nat list \<Rightarrow> unicode" where
  "sample_transcript xs = concat (map (\<lambda>(i, x). if i mod 4 = 3 then [0x61 + x mod 26, 0x2E] else [0x61 + x mod 26]) (enumerate 0 xs))"

definition sample_recogniser :: "(nat list, nat) recogniser" where
  "sample_recogniser =
     \<lparr>re_start = (\<lambda>_. Inr []), re_feed = (\<lambda>st xs _. (Inr (Some (sample_transcript (st @ xs))), st @ xs)),
      re_finish = (\<lambda>st. Inr (sample_transcript st))\<rparr>"

definition sample_chunking :: chunking where
  "sample_chunking = \<lparr>ch_usable = True, ch_samples = (\<lambda>_. Some 2)\<rparr>"

definition sample_stream_limits :: "nat \<Rightarrow> stream_limits" where
  "sample_stream_limits duration = \<lparr>li_idle_timeout = 1000, li_max_duration = duration, li_max_input_bytes = 1000\<rparr>"

definition sample_captions :: "nat \<Rightarrow> caption_event list attempt" where
  "sample_captions duration =
     caption_stream (sample_stream_limits duration) sample_recogniser sample_chunking sample_detect 0
       (map (\<lambda>xs. (xs, 16000)) sample_pieces) ([], 16000) 0 (new_endpoint sample_vad_config 2 ()) 1000"

lemma sample_transcribes: "transcribes sample_recogniser (\<lambda>st. st) sample_transcript"
proof -
  have "prefix (sample_transcript xs) (sample_transcript (xs @ ys))" for xs ys
    by (simp add: sample_transcript_def enumerate_append_eq)
  moreover have "list_all (\<lambda>c. \<not> white_space c) (sample_transcript xs)" for xs
  proof -
    have "\<not> white_space (0x61 + x mod 26)" for x :: nat
      using mod_less_divisor [of 26 x] by (simp add: white_space_def del: mod_less_divisor)
    then show ?thesis by (auto simp: sample_transcript_def list_all_iff white_space_def)
  qed
  ultimately show ?thesis by (auto simp: transcribes_def sample_recogniser_def)
qed

lemma captions_are_in_order_witness:
  "\<exists>out. sample_captions 1000000000 = Fine out \<and> length out = 13 \<and> in_order out \<and> last out = CaptionCompleted"
proof -
  have "case sample_captions 1000000000 of Fine out \<Rightarrow> length out = 13 | _ \<Rightarrow> False" by code_simp
  then obtain out where out: "sample_captions 1000000000 = Fine out" "length out = 13"
    by (auto split: attempt.splits)
  have small: "li_max_duration (sample_stream_limits 1000000000) < 2 ^ 69" by (simp add: sample_stream_limits_def)
  from captions_are_in_order [OF out(1) [unfolded sample_captions_def] small] out show ?thesis by blast
qed


end
