(* ===== verification/Spec2Isabelle.thy ===== *)
theory Spec2Isabelle
  imports Prelude Prefix_Cache Stop_Filter Slots Batch_Planner Runtime_Config Scheduler Worker
    Sequence_Hygiene Model_Id Activity_Store Activity_Lifecycle Streaming_Vad Vad_Segmenter Llm_Streams Stream_System Model_Cache
    Model_Residency File_Tree Publication Publication_Steps Publication_Atomic Repository_Publication Caption_Text Streaming_Transcription
begin

text \<open>
  Orchion runs speech, document and language models locally, through a Rust library, a server and a client
  SDK.  This development models the parts of it that carry its own logic, as HOL functions over explicit
  states, and proves what makes them correct.  Paths below are relative to the root of the repository.

  \<^bold>\<open>The parts of the program.\<close>

  A request of a language model goes to the generation worker of its deployment
  (\<^verbatim>\<open>libs/orchion-llama-cpp\<close>), a thread that decodes the requests of all clients in one shared batch.  The
  server (\<^verbatim>\<open>apps/orchion-server\<close>) keeps the loaded models in caches under a common limit, hands out leases of
  them, records every request in the activity hub, and lets clients of language models come back to a running
  stream.  Audio is cut into segments of speech (\<^verbatim>\<open>libs/orchion-audio-vad\<close>) that a recogniser turns into
  captions.  Models are downloaded into a cache on disk (\<^verbatim>\<open>libs/orchion-download\<close>), into which whole sets of
  files are published at once.

  \<^bold>\<open>Theories and the code they model.\<close>

  \<^item> \<open>Prelude\<close>: saturating machine arithmetic, \<^verbatim>\<open>max_by_key\<close> and \<^verbatim>\<open>min_by_key\<close> with Rust's choice among equal
    keys, association lists for hash maps, and the locales \<open>eviction_loop\<close> and \<open>total_eviction\<close>: the contract of
    all loops that evict until a limit holds.  They are interpreted on the prefix cache and on four loops of the
    streams.

  \<^item> \<open>Prefix_Cache\<close> (\<^verbatim>\<open>prefix_cache.rs\<close>), \<open>Stop_Filter\<close> (\<^verbatim>\<open>StopFilter\<close> in \<^verbatim>\<open>slot.rs\<close>), \<open>Slots\<close> (slot states, the
    bounded event channel and flushing, \<^verbatim>\<open>slot.rs\<close> and \<^verbatim>\<open>contract.rs\<close>), \<open>Batch_Planner\<close> (\<^verbatim>\<open>plan_batch\<close>; its trait
    \<^verbatim>\<open>BatchSource\<close> is the locale \<open>batch_source\<close>, interpreted on the slots), \<open>Runtime_Config\<close> (every validation of
    \<^verbatim>\<open>scheduler.rs\<close> and the types of \<^verbatim>\<open>contract.rs\<close>), \<open>Scheduler\<close> (the operations on the slots; what they share is
    the locale \<open>slot_operation\<close>) and \<open>Worker\<close> (the tick, the loop and its exits, and the step relation of the
    worker with its clients): the generation worker of \<^verbatim>\<open>libs/orchion-llama-cpp/src\<close>.
    \<open>Sequence_Hygiene\<close> adds what the log of the worker says of the native sequences.

  \<^item> \<open>Model_Id\<close> (\<^verbatim>\<open>libs/orchion-core/src/model/id.rs\<close>): parsing and parts of model identifiers.

  \<^item> \<open>Activity_Store\<close> and \<open>Activity_Lifecycle\<close> (\<^verbatim>\<open>api/activity/store.rs\<close>, \<^verbatim>\<open>lifecycle.rs\<close>): the activity hub, and
    the middleware that reports requests to it.

  \<^item> \<open>Llm_Streams\<close> and \<open>Stream_System\<close> (\<^verbatim>\<open>api/llm_streams.rs\<close>, \<^verbatim>\<open>sse.rs\<close>): the critical sections of the stream
    registry, and the owners, followers and clients that interleave between them.

  \<^item> \<open>Model_Cache\<close> and \<open>Model_Residency\<close> (\<^verbatim>\<open>application/model_cache.rs\<close>): the critical sections of one cache, and
    the tasks of several caches that load, lease, evict and unload under one global limit.

  \<^item> \<open>Streaming_Vad\<close> and \<open>Vad_Segmenter\<close> (\<^verbatim>\<open>libs/orchion-audio-vad/src/streaming.rs\<close>, \<^verbatim>\<open>lib.rs\<close>): segments of
    speech in a stream and in a recording.  \<open>Caption_Text\<close> and \<open>Streaming_Transcription\<close>
    (\<^verbatim>\<open>application/streaming_transcription.rs\<close>, \<^verbatim>\<open>api/http_audio/streaming/caption.rs\<close>): the splitting of a growing
    transcript into captions, and the limits, chunks and captions of a stream.

  \<^item> \<open>File_Tree\<close>, \<open>Publication\<close>, \<open>Publication_Steps\<close>, \<open>Publication_Atomic\<close>, \<open>Repository_Publication\<close>
    (\<^verbatim>\<open>libs/orchion-download/src/lib.rs\<close>): a file system with faults and a calculus of what programs over it
    promise; the publication transaction and its recovery; the invariant of its steps; what publication and
    recoveries promise together; and the collection and publication of whole repositories.

  \<^bold>\<open>What is shown.\<close>

  \<^item> The worker.  The stop filter equals a rescan of the whole text (a refinement), a planned batch stays in its
    capacity, and a validated configuration decodes every slot in every batch and serves every prompt.  Every
    one-shot sender that a client hands over is held, used or dropped exactly once, a running worker drops none
    but those of cancelled reservations, and the sequence of a free slot is clean, in every reachable state of
    worker and clients.  The prefix cache keeps its limits, finds the longest prefix and what was inserted.

  \<^item> The activity hub.  Its figures are those of its history, and its events tell the life of every activity.

  \<^item> The streams.  Limits and counters are exact in every run, followers show what was published, in order and
    once, finished streams are read to their end, owners report, and foreign sessions look absent.

  \<^item> The model caches.  No interleaving of tasks leaves the limits, leased engines stay, and a closed limiter
    loads nothing.

  \<^item> Audio.  Segments are slices of the stream, in order; the memory of the endpoint is bounded; the segments of
    a recording are its padded runs of speech; captions are in order, and are the transcripts of the segments.

  \<^item> Publication.  Whatever operation fails and wherever the machine stops, in the publication or in recoveries,
    all of the files are there or none, and a recovery without faults comes to an end.

  The code does not keep all of its promises; where it does not, a theorem shows it: a shutdown that forgets
  deltas, a failed restore and a media request that lose replies, tokens lost in draining, pages that omit
  entries, purged sessions that are no longer counted, captions that start over or panic after white space, and
  three ways in which a publication cannot be recovered.

  \<^bold>\<open>Conventions, bounds and parameters.\<close>

  \<^item> Machine integers are words where their wrap-around can matter.  \<^verbatim>\<open>usize\<close> values are natural numbers with
    explicit checks against \<open>usize_max\<close>; identifiers and versions that only grow are natural numbers, and the
    theorems ask for runs with fewer than \<open>2^64\<close> of them where it matters.  Limits whose product the code computes
    are bounded in the hypothesis that says the configuration is valid.

  \<^item> A panic is a value: \<open>None\<close>, or \<open>Panicked\<close>.  Errors are values of the code's error types.

  \<^item> Native code, detectors, recognisers, parsers and \<^verbatim>\<open>serde_json\<close> are parameters: records of functions, or
    functions with named hypotheses (a text that is written is read back; an error text is not too long).

  \<^item> The prefill loop of the planner has the total number of prompt tokens as fuel, and each pass but the last
    takes one; the collection of files has the depth of the tree.  Both are shown to suffice.  Every other
    recursion is structural or has a measure.

  \<^item> A file system operation consumes one entry of a list of faults: it succeeds, fails (reads do not fail this
    way), or is where the machine stops.  A list that is used up has no more faults.  The orders in which
    folders are listed and removed are parameters, with the laws of a listing; \<open>manifest_first\<close> is the additional
    assumption that the system removes the manifest before the marker, without which atomicity fails.

  \<^item> Tasks interleave at the critical sections of their locks; hash maps have every order; instants are arguments.

  \<^bold>\<open>Not modelled.\<close>

  The bindings to llama.cpp, the engines and codecs, and the numerical inference they do; HTTP routing,
  serialisation, and the web socket around the captions with its time-outs and its legacy mode; the network side
  of downloads with the choice of providers, and the file locks (a publication is alone); the parsing of
  settings; rates and timings computed in floating point; metrics and the wiring of services; the client SDK; the
  conversion of documents.  These are input and output, calls of other packages, or arithmetic on floats.
\<close>

end
